(* ===== verification/Prelude.thy ===== *)
theory Prelude
  imports Main "HOL-Library.AList" "HOL-Library.Multiset" "HOL-Library.Sublist"
begin

text \<open>
  Shared vocabulary of the development: the model's basic types, the Python list idioms the
  components use (slices, negative bounds, index errors), the exceptions as values, and the
  generic list, association-list and multiset lemmas the component proofs rest on.
\<close>

section \<open>Types\<close>

type_synonym token = int
type_synonym slot = int
type_synonym node_id = nat

text \<open>The Python exceptions the modelled code can raise.\<close>

datatype py_error =
    IndexError
  | KeyError
  | ValueError
  | TypeError
  | AttributeError
  | AssertionError
  | RuntimeError
  | NotImplementedError
  | ZeroDivisionError
  | UnboundLocalError

text \<open>A fallible call: \<open>Inl\<close> the exception, \<open>Inr\<close> the returned value.\<close>

type_synonym 'a result = "py_error + 'a"

definition bind_result :: "'a result \<Rightarrow> ('a \<Rightarrow> 'b result) \<Rightarrow> 'b result" where
  "bind_result r f = (case r of Inl e \<Rightarrow> Inl e | Inr x \<Rightarrow> f x)"

section \<open>Collections of facts\<close>

named_theorems py_simps \<open>Python list idioms as HOL list functions\<close>
named_theorems inv_defs \<open>definitions of the components' invariants\<close>

section \<open>Python slices\<close>

text \<open>
  \<open>py_to xs n\<close> is \<open>xs[:n]\<close>, \<open>py_from xs n\<close> is \<open>xs[n:]\<close>; a negative bound counts from the
  end and a bound out of range is clipped, as in Python. \<open>seg xs a b\<close> is \<open>xs[a:b]\<close> for
  bounds that are not negative.
\<close>

definition py_bound :: "'a list \<Rightarrow> int \<Rightarrow> nat" where
  "py_bound xs n = (if n < 0 then nat (int (length xs) + n) else nat n)"

definition py_to :: "'a list \<Rightarrow> int \<Rightarrow> 'a list" where
  "py_to xs n = take (py_bound xs n) xs"

definition py_from :: "'a list \<Rightarrow> int \<Rightarrow> 'a list" where
  "py_from xs n = drop (py_bound xs n) xs"

definition seg :: "'a list \<Rightarrow> nat \<Rightarrow> nat \<Rightarrow> 'a list" where
  "seg xs a b = drop a (take b xs)"

definition py_get :: "'a list \<Rightarrow> int \<Rightarrow> 'a result" where
  "py_get xs i =
     (if - int (length xs) \<le> i \<and> i < int (length xs) then Inr (xs ! nat (i mod int (length xs)))
      else Inl IndexError)"

lemma py_to_nonneg [py_simps]: "0 \<le> n \<Longrightarrow> py_to xs n = take (nat n) xs"
  by (simp add: py_to_def py_bound_def)

lemma py_to_minus1 [py_simps]: "py_to xs (- 1) = butlast xs"
  by (simp add: py_to_def py_bound_def butlast_conv_take nat_minus_as_int)

lemma py_from_nonneg [py_simps]: "0 \<le> n \<Longrightarrow> py_from xs n = drop (nat n) xs"
  by (simp add: py_from_def py_bound_def)

lemma length_seg [simp]: "length (seg xs a b) = min b (length xs) - a"
  by (simp add: seg_def min.commute)

lemma set_seg_subset: "set (seg xs a b) \<subseteq> set xs"
  by (metis seg_def order_trans set_drop_subset set_take_subset)

lemma mset_seg_split:
  assumes "a \<le> b"
  shows "mset (take a xs) + mset (seg xs a b) = mset (take b xs)"
proof -
  have "take b xs = take a (take b xs) @ drop a (take b xs)"
    by (rule append_take_drop_id [symmetric])
  with assms have "take b xs = take a xs @ seg xs a b"
    by (simp add: seg_def min.absorb1)
  then show ?thesis by (metis mset_append)
qed

lemma mset_take_drop: "mset (take n xs) + mset (drop n xs) = mset xs"
  by (metis append_take_drop_id mset_append)

section \<open>Page alignment\<close>

text \<open>\<open>n // page_size * page_size\<close>: the longest page-aligned length below \<open>n\<close>.\<close>

definition page_floor :: "nat \<Rightarrow> nat \<Rightarrow> nat" where
  "page_floor p n = n div p * p"

lemma page_floor_le [simp]: "page_floor p n \<le> n"
  by (simp add: page_floor_def)

lemma dvd_page_floor [simp]: "p dvd page_floor p n"
  by (simp add: page_floor_def)

lemma page_floor_1 [simp]: "page_floor (Suc 0) n = n"
  by (simp add: page_floor_def)

lemma page_floor_dvd: "p dvd n \<Longrightarrow> page_floor p n = n"
  by (simp add: page_floor_def)

section \<open>Association lists as insertion-ordered dictionaries\<close>

lemma map_fst_update:
  "map fst (AList.update k v al) = (if k \<in> fst ` set al then map fst al else map fst al @ [k])"
  by (induction al) auto

lemma set_update_distinct:
  assumes "distinct (map fst al)"
  shows "set (AList.update k v al) = insert (k, v) {e \<in> set al. fst e \<noteq> k}"
  using assms by (induction al) (auto simp: image_iff)

lemma set_delete_eq: "set (AList.delete k al) = {e \<in> set al. fst e \<noteq> k}"
  by (auto simp: AList.delete_eq)

lemma distinct_delete: "distinct (map fst al) \<Longrightarrow> distinct (map fst (AList.delete k al))"
  by (simp add: AList.delete_eq distinct_map_filter)

lemma map_of_Some_iff:
  "distinct (map fst al) \<Longrightarrow> map_of al k = Some v \<longleftrightarrow> (k, v) \<in> set al"
  by (simp add: map_of_eq_Some_iff)

end
