(* ===== verification/Mem_Pool.thy ===== *)
theory Mem_Pool
  imports Prelude
begin

text \<open>
  The two token-granular memory pools of \<open>mem_cache/memory_pool.py\<close>: \<open>ReqToTokenPool\<close> (a
  table with one row of KV slots per running request and a list of free rows) and
  \<open>TokenToKVPoolAllocator\<close> (the free list of KV slots). The locale \<open>unit_allocator\<close> states
  what a client of either KV allocator relies on; the safety of any sequence of allocations and
  frees (no slot is handed out twice, none is lost) is proved once inside it. Slot 0 is the
  padding slot and is never allocated.
\<close>

section \<open>ReqToTokenPool\<close>

text \<open>
  \<open>req_to_token\<close> is the \<open>(size, max_context_len)\<close> tensor as a list of rows. Its values
  are KV slot numbers, far below the \<open>int32\<close> limit of the tensor.
\<close>

record req_to_token_pool =
  rtp_size :: nat
  max_context_len :: nat
  req_to_token :: "slot list list"
  rtp_free_slots :: "nat list"

definition rtp_init :: "nat \<Rightarrow> nat \<Rightarrow> req_to_token_pool" where
  "rtp_init n ctx =
     \<lparr>rtp_size = n, max_context_len = ctx,
      req_to_token = replicate n (replicate ctx 0),
      rtp_free_slots = [0..<n]\<rparr>"

text \<open>
  \<open>write(indices, values)\<close> is tensor assignment. The callers index with
  \<open>(row, slice(a, b))\<close> or with a pair of index tensors. A slice is clipped to the row; the
  value must have the length of the target or length 1 (broadcast), else torch raises.
\<close>

datatype write_index =
    RowSlice nat nat nat
  | Cells "(nat \<times> nat) list"

definition broadcast :: "nat \<Rightarrow> 'a list \<Rightarrow> 'a list result" where
  "broadcast n vs =
     (if length vs = n then Inr vs
      else if length vs = 1 then Inr (replicate n (hd vs))
      else Inl RuntimeError)"

definition set_cell :: "(nat \<times> nat) \<times> slot \<Rightarrow> slot list list \<Rightarrow> slot list list" where
  "set_cell c rows = (case c of ((r, j), v) \<Rightarrow> rows[r := (rows ! r)[j := v]])"

fun rtp_write :: "req_to_token_pool \<Rightarrow> write_index \<Rightarrow> slot list \<Rightarrow> req_to_token_pool result" where
  "rtp_write s (RowSlice r a b) vs =
     (if r < length (req_to_token s) then
        (let row = req_to_token s ! r;
             a' = min a (length row);
             b' = max a' (min b (length row))
         in case broadcast (b' - a') vs of
              Inl e \<Rightarrow> Inl e
            | Inr ws \<Rightarrow>
                Inr (s\<lparr>req_to_token := (req_to_token s)[r := take a' row @ ws @ drop b' row]\<rparr>))
      else Inl IndexError)"
| "rtp_write s (Cells ixs) vs =
     (if \<forall>(r, j) \<in> set ixs. r < length (req_to_token s) \<and> j < length (req_to_token s ! r) then
        (case broadcast (length ixs) vs of
           Inl e \<Rightarrow> Inl e
         | Inr ws \<Rightarrow> Inr (s\<lparr>req_to_token := fold set_cell (zip ixs ws) (req_to_token s)\<rparr>))
      else Inl IndexError)"

definition rtp_available_size :: "req_to_token_pool \<Rightarrow> nat" where
  "rtp_available_size s = length (rtp_free_slots s)"

definition rtp_alloc :: "req_to_token_pool \<Rightarrow> nat \<Rightarrow> nat list option \<times> req_to_token_pool" where
  "rtp_alloc s need_size =
     (if need_size > length (rtp_free_slots s) then (None, s)
      else (Some (take need_size (rtp_free_slots s)),
            s\<lparr>rtp_free_slots := drop need_size (rtp_free_slots s)\<rparr>))"

text \<open>\<open>free\<close> takes one row or a list of rows.\<close>

datatype free_index = FreeOne nat | FreeMany "nat list"

fun rtp_free :: "req_to_token_pool \<Rightarrow> free_index \<Rightarrow> req_to_token_pool" where
  "rtp_free s (FreeOne i) = s\<lparr>rtp_free_slots := rtp_free_slots s @ [i]\<rparr>"
| "rtp_free s (FreeMany is) = s\<lparr>rtp_free_slots := rtp_free_slots s @ is\<rparr>"

definition rtp_clear :: "req_to_token_pool \<Rightarrow> req_to_token_pool" where
  "rtp_clear s = s\<lparr>rtp_free_slots := [0..<rtp_size s]\<rparr>"

text \<open>The slots a request has in its row: \<open>req_to_token[i, :n]\<close>.\<close>

definition rtp_row :: "req_to_token_pool \<Rightarrow> nat \<Rightarrow> nat \<Rightarrow> slot list" where
  "rtp_row s i n = take n (req_to_token s ! i)"

text \<open>The table keeps its shape, and the free rows are distinct rows of it.\<close>

definition rtp_inv :: "req_to_token_pool \<Rightarrow> bool" where
  "rtp_inv s \<longleftrightarrow>
     length (req_to_token s) = rtp_size s \<and>
     (\<forall>row \<in> set (req_to_token s). length row = max_context_len s) \<and>
     distinct (rtp_free_slots s) \<and> set (rtp_free_slots s) \<subseteq> {..<rtp_size s}"

declare rtp_inv_def [inv_defs]

lemma rtp_inv_init: "rtp_inv (rtp_init n m)"
  by (auto simp: rtp_inv_def rtp_init_def)

lemma rtp_inv_alloc: "rtp_inv s \<Longrightarrow> rtp_alloc s n = (r, s') \<Longrightarrow> rtp_inv s'"
  using set_drop_subset [of n "rtp_free_slots s"]
  by (auto simp: rtp_inv_def rtp_alloc_def split: if_splits)
    (meson lessThan_iff subset_eq)

lemma rtp_alloc_rows:
  assumes "rtp_inv s" and "rtp_alloc s n = (Some rows, s')"
  shows "length rows = n" and "distinct rows" and "set rows \<subseteq> set (rtp_free_slots s)"
    and "set rows \<inter> set (rtp_free_slots s') = {}"
    and "set rows \<union> set (rtp_free_slots s') = set (rtp_free_slots s)"
proof -
  let ?f = "rtp_free_slots s"
  from assms(2) have r: "rows = take n ?f" and s': "rtp_free_slots s' = drop n ?f"
    and n: "n \<le> length ?f"
    by (auto simp: rtp_alloc_def split: if_splits)
  from assms(1) have d: "distinct (take n ?f @ drop n ?f)"
    by (simp add: rtp_inv_def)
  show "length rows = n" using r n by simp
  show "distinct rows" and "set rows \<inter> set (rtp_free_slots s') = {}"
    using d unfolding r s' distinct_append by blast+
  show "set rows \<subseteq> set ?f" unfolding r by (rule set_take_subset)
  show "set rows \<union> set (rtp_free_slots s') = set ?f"
    unfolding r s' by (metis append_take_drop_id set_append)
qed

lemma rtp_inv_free:
  assumes "rtp_inv s" and "distinct is" and "set is \<subseteq> {..<rtp_size s} - set (rtp_free_slots s)"
  shows "rtp_inv (rtp_free s (FreeMany is))"
  using assms by (auto simp: rtp_inv_def)

lemma rtp_inv_clear: "rtp_inv s \<Longrightarrow> rtp_inv (rtp_clear s)"
  by (auto simp: rtp_inv_def rtp_clear_def)

lemma length_broadcast: "broadcast n vs = Inr ws \<Longrightarrow> length ws = n"
  by (auto simp: broadcast_def split: if_splits)

lemma set_cell_shape:
  "map length (fold set_cell cs rows) = map length rows"
proof (induction cs arbitrary: rows)
  case (Cons c cs)
  obtain r j v where c: "c = ((r, j), v)"
    by (metis prod.exhaust)
  have "map length (set_cell c rows) = map length rows"
    by (cases "r < length rows")
      (simp_all add: c set_cell_def map_update list_update_same_conv list_update_beyond)
  then show ?case
    using Cons.IH [of "set_cell c rows"] by simp
qed simp

lemma rtp_write_shape:
  assumes "rtp_write s ix vs = Inr s'"
  shows "map length (req_to_token s') = map length (req_to_token s)"
    and "rtp_size s' = rtp_size s" and "max_context_len s' = max_context_len s"
    and "rtp_free_slots s' = rtp_free_slots s"
proof -
  show "map length (req_to_token s') = map length (req_to_token s)"
  proof (cases ix)
    case (RowSlice r a b)
    let ?row = "req_to_token s ! r"
    let ?a = "min a (length ?row)"
    let ?b = "max ?a (min b (length ?row))"
    from assms RowSlice obtain ws where r: "r < length (req_to_token s)"
      and ws: "broadcast (?b - ?a) vs = Inr ws"
      and s': "s' = s\<lparr>req_to_token := (req_to_token s)[r := take ?a ?row @ ws @ drop ?b ?row]\<rparr>"
      by (auto simp: Let_def split: if_splits sum.splits)
    have "length (take ?a ?row @ ws @ drop ?b ?row) = length ?row"
      using length_broadcast [OF ws] by auto
    then show ?thesis
      unfolding s' by (simp add: map_update r list_update_same_conv)
  next
    case (Cells ixs)
    with assms show ?thesis
      by (auto simp: set_cell_shape split: if_splits sum.splits)
  qed
  show "rtp_size s' = rtp_size s" "max_context_len s' = max_context_len s"
    "rtp_free_slots s' = rtp_free_slots s"
    using assms by (cases ix; auto simp: Let_def split: if_splits sum.splits)+
qed

lemma rtp_inv_write:
  assumes "rtp_inv s" and "rtp_write s ix vs = Inr s'"
  shows "rtp_inv s'"
proof -
  note sh = rtp_write_shape [OF assms(2)]
  have "length (req_to_token s') = length (req_to_token s)"
    using sh(1) by (rule map_eq_imp_length_eq)
  moreover have "length ` set (req_to_token s') = length ` set (req_to_token s)"
    using sh(1) by (metis list.set_map)
  ultimately show ?thesis
    using assms(1) sh(2-4) by (fastforce simp: rtp_inv_def image_iff set_eq_iff)
qed

section \<open>TokenToKVPoolAllocator\<close>

record token_allocator =
  tka_size :: nat
  tka_page_size :: nat
  tka_free_slots :: "slot list"
  tka_is_not_in_free_group :: bool
  tka_free_group :: "slot list list"

definition tka_clear :: "token_allocator \<Rightarrow> token_allocator" where
  "tka_clear s = s\<lparr>tka_free_slots := [1..int (tka_size s)],
                   tka_is_not_in_free_group := True, tka_free_group := []\<rparr>"

definition tka_init :: "nat \<Rightarrow> token_allocator" where
  "tka_init n =
     tka_clear \<lparr>tka_size = n, tka_page_size = 1, tka_free_slots = [],
                tka_is_not_in_free_group = True, tka_free_group = []\<rparr>"

definition tka_available_size :: "token_allocator \<Rightarrow> nat" where
  "tka_available_size s = length (tka_free_slots s)"

definition tka_alloc :: "token_allocator \<Rightarrow> nat \<Rightarrow> slot list option \<times> token_allocator" where
  "tka_alloc s need_size =
     (if need_size > length (tka_free_slots s) then (None, s)
      else (Some (take need_size (tka_free_slots s)),
            s\<lparr>tka_free_slots := drop need_size (tka_free_slots s)\<rparr>))"

definition tka_free :: "token_allocator \<Rightarrow> slot list \<Rightarrow> token_allocator" where
  "tka_free s free_index =
     (if free_index = [] then s
      else if tka_is_not_in_free_group s then
        s\<lparr>tka_free_slots := tka_free_slots s @ free_index\<rparr>
      else s\<lparr>tka_free_group := tka_free_group s @ [free_index]\<rparr>)"

definition tka_free_group_begin :: "token_allocator \<Rightarrow> token_allocator" where
  "tka_free_group_begin s = s\<lparr>tka_is_not_in_free_group := False, tka_free_group := []\<rparr>"

definition tka_free_group_end :: "token_allocator \<Rightarrow> token_allocator" where
  "tka_free_group_end s =
     (let s' = s\<lparr>tka_is_not_in_free_group := True\<rparr>
      in if tka_free_group s' \<noteq> [] then tka_free s' (concat (tka_free_group s')) else s')"

definition tka_backup_state :: "token_allocator \<Rightarrow> slot list" where
  "tka_backup_state s = tka_free_slots s"

definition tka_restore_state :: "token_allocator \<Rightarrow> slot list \<Rightarrow> token_allocator" where
  "tka_restore_state s fs = s\<lparr>tka_free_slots := fs\<rparr>"

text \<open>
  Frees between \<open>free_group_begin\<close> and \<open>free_group_end\<close> are deferred and take effect
  together, in the order they were made.
\<close>

fun tka_frees :: "token_allocator \<Rightarrow> slot list list \<Rightarrow> token_allocator" where
  "tka_frees s [] = s"
| "tka_frees s (xs # xss) = tka_frees (tka_free s xs) xss"

lemma tka_frees_grouped:
  "\<not> tka_is_not_in_free_group s \<Longrightarrow>
   tka_frees s xss = s\<lparr>tka_free_group := tka_free_group s @ filter (\<lambda>xs. xs \<noteq> []) xss\<rparr>"
  by (induction xss arbitrary: s) (auto simp: tka_free_def)

lemma tka_frees_direct:
  "tka_is_not_in_free_group s \<Longrightarrow>
   tka_frees s xss = s\<lparr>tka_free_slots := tka_free_slots s @ concat xss\<rparr>"
  by (induction xss arbitrary: s) (auto simp: tka_free_def)

lemma concat_filter_Nil: "concat (filter (\<lambda>xs. xs \<noteq> []) xss) = concat xss"
  by (induction xss) auto

lemma tka_group_free_slots:
  assumes "tka_is_not_in_free_group s"
  shows "tka_free_slots (tka_free_group_end (tka_frees (tka_free_group_begin s) xss)) =
         tka_free_slots (tka_frees s xss)"
  using assms
  by (simp add: tka_free_group_end_def tka_free_group_begin_def tka_frees_grouped
      tka_frees_direct tka_free_def Let_def concat_filter_Nil)
    (auto simp: filter_empty_conv)

definition tka_inv :: "token_allocator \<Rightarrow> bool" where
  "tka_inv s \<longleftrightarrow>
     tka_page_size s = 1 \<and> distinct (tka_free_slots s) \<and>
     set (tka_free_slots s) \<subseteq> {1..int (tka_size s)} \<and> tka_is_not_in_free_group s"

declare tka_inv_def [inv_defs]

lemma tka_inv_init: "tka_inv (tka_init n)"
  by (simp add: tka_inv_def tka_init_def tka_clear_def)

section \<open>The interface of a KV allocator\<close>

text \<open>
  Both KV allocators hand out whole units: single slots, or pages of \<open>page_size\<close>
  consecutive slots. \<open>units_of p xs\<close> are the units a list of slots lies in.
\<close>

definition units_of :: "nat \<Rightarrow> slot list \<Rightarrow> slot set" where
  "units_of p xs = (\<lambda>x. x div int p) ` set xs"

lemma units_of_Nil [simp]: "units_of p [] = {}"
  by (simp add: units_of_def)

lemma units_of_append [simp]: "units_of p (xs @ ys) = units_of p xs \<union> units_of p ys"
  by (simp add: units_of_def image_Un)

lemma units_of_1 [simp]: "units_of (Suc 0) xs = set xs"
  by (simp add: units_of_def)

text \<open>
  The states a client can drive an allocator into: it allocates unit-aligned amounts and frees
  only units it holds. The last argument is the set of units the client holds.
\<close>

inductive alloc_reach ::
  "('s \<Rightarrow> nat \<Rightarrow> slot list option \<times> 's) \<Rightarrow> ('s \<Rightarrow> slot list \<Rightarrow> 's) \<Rightarrow> nat \<Rightarrow> 's \<Rightarrow> 's \<Rightarrow> slot set \<Rightarrow> bool"
  for alloc :: "'s \<Rightarrow> nat \<Rightarrow> slot list option \<times> 's" and free :: "'s \<Rightarrow> slot list \<Rightarrow> 's"
    and p :: nat and s0 :: 's
where
  start: "alloc_reach alloc free p s0 s0 {}"
| refused: "alloc_reach alloc free p s0 s H \<Longrightarrow> alloc s n = (None, s') \<Longrightarrow> p dvd n \<Longrightarrow>
     alloc_reach alloc free p s0 s' H"
| taken: "alloc_reach alloc free p s0 s H \<Longrightarrow> alloc s n = (Some out, s') \<Longrightarrow> p dvd n \<Longrightarrow>
     alloc_reach alloc free p s0 s' (H \<union> units_of p out)"
| returned: "alloc_reach alloc free p s0 s H \<Longrightarrow> distinct xs \<Longrightarrow> units_of p xs \<subseteq> H \<Longrightarrow>
     alloc_reach alloc free p s0 (free s xs) (H - units_of p xs)"

locale unit_allocator =
  fixes page :: "'s \<Rightarrow> nat"
    and cap :: "'s \<Rightarrow> nat"
    and free_units :: "'s \<Rightarrow> slot list"
    and ainv :: "'s \<Rightarrow> bool"
    and available :: "'s \<Rightarrow> nat"
    and alloc :: "'s \<Rightarrow> nat \<Rightarrow> slot list option \<times> 's"
    and free :: "'s \<Rightarrow> slot list \<Rightarrow> 's"
  assumes free_units_distinct: "ainv s \<Longrightarrow> distinct (free_units s)"
    and free_units_range: "ainv s \<Longrightarrow> set (free_units s) \<subseteq> {1..int (cap s)}"
    and available_eq: "ainv s \<Longrightarrow> available s = length (free_units s) * page s"
    and alloc_None: "ainv s \<Longrightarrow> page s dvd n \<Longrightarrow> alloc s n = (None, s') \<Longrightarrow>
      available s < n \<and> s' = s"
    and alloc_Some: "ainv s \<Longrightarrow> page s dvd n \<Longrightarrow> alloc s n = (Some out, s') \<Longrightarrow>
      n \<le> available s \<and> ainv s' \<and> page s' = page s \<and> cap s' = cap s \<and>
      length out = n \<and> distinct out \<and>
      units_of (page s) out \<inter> set (free_units s') = {} \<and>
      units_of (page s) out \<union> set (free_units s') = set (free_units s)"
    and free_law: "ainv s \<Longrightarrow> distinct xs \<Longrightarrow>
      units_of (page s) xs \<subseteq> {1..int (cap s)} - set (free_units s) \<Longrightarrow>
      ainv (free s xs) \<and> page (free s xs) = page s \<and> cap (free s xs) = cap s \<and>
      set (free_units (free s xs)) = set (free_units s) \<union> units_of (page s) xs"
begin

text \<open>
  Whatever a client does, the free units and the units it holds are disjoint and make up all
  the units there are.
\<close>

lemma reach_partition:
  assumes "alloc_reach alloc free p s0 s H"
    and "ainv s0" and "page s0 = p" and "set (free_units s0) = {1..int (cap s0)}"
  shows "ainv s \<and> page s = p \<and> cap s = cap s0 \<and>
         H \<inter> set (free_units s) = {} \<and> H \<union> set (free_units s) = {1..int (cap s0)}"
  using assms
proof (induction rule: alloc_reach.induct)
  case start
  then show ?case by simp
next
  case (refused s H n s')
  then show ?case using alloc_None by blast
next
  case (taken s H n out s')
  then have IH: "ainv s" "page s = p" "cap s = cap s0" "H \<inter> set (free_units s) = {}"
    "H \<union> set (free_units s) = {1..int (cap s0)}" by auto
  note a = alloc_Some [OF IH(1), of n out s']
  have "ainv s' \<and> page s' = p \<and> cap s' = cap s0" using a taken.hyps IH by simp
  moreover have "units_of p out \<inter> set (free_units s') = {}"
    "units_of p out \<union> set (free_units s') = set (free_units s)"
    using a taken.hyps IH by simp_all
  ultimately show ?case using IH by blast
next
  case (returned s H xs)
  then have IH: "ainv s" "page s = p" "cap s = cap s0" "H \<inter> set (free_units s) = {}"
    "H \<union> set (free_units s) = {1..int (cap s0)}" by auto
  have sub: "units_of (page s) xs \<subseteq> {1..int (cap s)} - set (free_units s)"
    using returned.hyps(3) IH by auto
  show ?case
    using free_law [OF IH(1) returned.hyps(2) sub] IH returned.hyps(3) by auto
qed

text \<open>An allocation never returns a unit that the client already holds.\<close>

lemma alloc_fresh:
  assumes "alloc_reach alloc free p s0 s H"
    and "ainv s0" and "page s0 = p" and "set (free_units s0) = {1..int (cap s0)}"
    and "p dvd n" and "alloc s n = (Some out, s')"
  shows "units_of p out \<inter> H = {}" and "units_of p out \<subseteq> {1..int (cap s0)}"
    and "length out = n"
proof -
  have inv: "ainv s" "page s = p" "H \<inter> set (free_units s) = {}"
    "H \<union> set (free_units s) = {1..int (cap s0)}"
    using reach_partition [OF assms(1-4)] by auto
  have "units_of p out \<subseteq> set (free_units s)" "length out = n"
    using alloc_Some [OF inv(1), of n out s'] assms(5,6) inv(2) by auto
  then show "units_of p out \<inter> H = {}" "units_of p out \<subseteq> {1..int (cap s0)}" "length out = n"
    using inv by auto
qed

text \<open>Freeing what was just allocated makes it available again.\<close>

lemma alloc_free_available:
  assumes "ainv s" and "page s dvd n" and "alloc s n = (Some out, s')"
  shows "available (free s' out) = available s"
proof -
  note a = alloc_Some [OF assms]
  have sub: "units_of (page s') out \<subseteq> {1..int (cap s')} - set (free_units s')"
    using a free_units_range [OF assms(1)] by auto
  note f = free_law [OF _ _ sub]
  have "set (free_units (free s' out)) = set (free_units s)"
    and "ainv (free s' out)" and "page (free s' out) = page s"
    using f a by auto
  then show ?thesis
    using assms(1) by (simp add: available_eq distinct_card [symmetric] free_units_distinct)
qed

end

lemma tka_free_grow:
  "tka_inv s \<Longrightarrow> distinct xs \<Longrightarrow> set xs \<subseteq> {1..int (tka_size s)} - set (tka_free_slots s) \<Longrightarrow>
   tka_inv (tka_free s xs)"
  by (auto simp: tka_inv_def tka_free_def)

interpretation tka: unit_allocator tka_page_size tka_size tka_free_slots tka_inv
  tka_available_size tka_alloc tka_free
proof (unfold_locales, goal_cases)
  case 1
  then show ?case by (simp add: tka_inv_def)
next
  case 2
  then show ?case by (simp add: tka_inv_def)
next
  case 3
  then show ?case by (simp add: tka_inv_def tka_available_size_def)
next
  case (4 s n s')
  then show ?case by (auto simp: tka_alloc_def tka_available_size_def split: if_splits)
next
  case (5 s n out s')
  let ?f = "tka_free_slots s"
  from 5(3) have n: "n \<le> length ?f" and out: "out = take n ?f"
    and s': "s' = s\<lparr>tka_free_slots := drop n ?f\<rparr>"
    by (auto simp: tka_alloc_def split: if_splits)
  from 5(1) have d: "distinct (take n ?f @ drop n ?f)" and p: "tka_page_size s = 1"
    by (auto simp: tka_inv_def)
  have "tka_inv s'"
    using 5(1) set_drop_subset [of n ?f] unfolding s' tka_inv_def
    by (auto simp del: atLeastAtMost_iff)
  moreover have "set (take n ?f) \<union> set (drop n ?f) = set ?f"
    by (metis append_take_drop_id set_append)
  moreover have "distinct (take n ?f)" "set (take n ?f) \<inter> set (drop n ?f) = {}"
    using d unfolding distinct_append by blast+
  ultimately show ?case
    using n p by (simp add: out s' tka_available_size_def)
next
  case (6 s xs)
  then have "tka_page_size s = 1" "tka_is_not_in_free_group s"
    by (auto simp: tka_inv_def)
  with 6 tka_free_grow [of s xs] show ?case
    by (auto simp: tka_free_def)
qed

section \<open>Properties\<close>

text \<open>
  C17: Starting from a fresh allocator of \<open>n\<close> slots, after any sequence of allocations and of
  frees of held slots, the slots handed out and the free slots partition \<open>1..n\<close>: no slot is
  handed out twice and none is lost.
\<close>

theorem token_allocator_safe:
  assumes "alloc_reach tka_alloc tka_free 1 (tka_init n) s H"
  shows "tka_inv s \<and> H \<inter> set (tka_free_slots s) = {} \<and> H \<union> set (tka_free_slots s) = {1..int n}"
  using tka.reach_partition [OF assms tka_inv_init]
  by (simp add: tka_init_def tka_clear_def)

theorem token_allocator_safe_witness:
  "tka_inv (tka_free (snd (tka_alloc (tka_init 4) 3)) [2]) \<and>
   {1, 3} \<inter> set (tka_free_slots (tka_free (snd (tka_alloc (tka_init 4) 3)) [2])) = {} \<and>
   {1, 3} \<union> set (tka_free_slots (tka_free (snd (tka_alloc (tka_init 4) 3)) [2])) = {1..4}"
proof -
  have alloc: "tka_alloc (tka_init 4) 3 = (Some [1, 2, 3], snd (tka_alloc (tka_init 4) 3))"
    by (simp add: tka_init_def tka_clear_def tka_alloc_def upto.simps numeral_eq_Suc)
  have "alloc_reach tka_alloc tka_free 1 (tka_init 4) (snd (tka_alloc (tka_init 4) 3)) ({} \<union> units_of 1 [1, 2, 3])"
    by (rule alloc_reach.taken [where n = 3], rule alloc_reach.start, rule alloc, rule one_dvd)
  then have "alloc_reach tka_alloc tka_free 1 (tka_init 4)
      (tka_free (snd (tka_alloc (tka_init 4) 3)) [2]) (({} \<union> units_of 1 [1, 2, 3]) - units_of 1 [2])"
    by (rule alloc_reach.returned) (simp_all add: units_of_def)
  moreover have "({} \<union> units_of 1 [1, 2, 3]) - units_of 1 [2] = {1, 3}" by (auto simp: units_of_def)
  ultimately show ?thesis using token_allocator_safe [of 4 _ "{1, 3}"] by simp
qed

end
