(* ===== verification/Paged_Alloc.thy ===== *)
theory Paged_Alloc
  imports Mem_Pool "HOL-Library.Word"
begin

unbundle bit_operations_syntax

text \<open>
  \<open>PagedTokenToKVPoolAllocator\<close> of \<open>mem_cache/paged_allocator.py\<close>: a free list of pages and
  two Triton kernels that lay out the slots of the new tokens of a batch. A kernel is modelled
  as the list of stores each of its programs makes into the output buffer, in the source's
  three parts; the allocator applies them to a buffer of arbitrary initial contents
  (\<open>torch.empty\<close>). The reference \<open>extend_loc\<close> says, token by token, which slot a token at
  a given position must get.
\<close>

section \<open>Helpers\<close>

fun bit_length :: "nat \<Rightarrow> nat" where
  "bit_length n = (if n = 0 then 0 else Suc (bit_length (n div 2)))"

declare bit_length.simps [simp del]

definition next_power_of_2 :: "nat \<Rightarrow> nat" where
  "next_power_of_2 n = (if n > 0 then 2 ^ bit_length (n - 1) else 1)"

lemma bit_length_bound: "n < 2 ^ bit_length n"
proof (induction n rule: bit_length.induct)
  case (1 n)
  then show ?case
    by (subst bit_length.simps) (auto simp: mult.commute)
qed

lemma next_power_of_2_ge: "n \<le> next_power_of_2 n"
  using bit_length_bound [of "n - 1"] by (auto simp: next_power_of_2_def)

text \<open>\<open>(n + page_size - 1) // page_size\<close>: the pages \<open>n\<close> tokens need.\<close>

definition num_pages_of :: "int \<Rightarrow> int \<Rightarrow> int" where
  "num_pages_of p n = (n + p - 1) div p"

text \<open>
  \<open>tl.load\<close>: a load past the end of the buffer reads memory that is not the buffer's; the
  allocator discards the result of such a run, so the model reads 0 there.
\<close>

definition tl_load :: "int list \<Rightarrow> int \<Rightarrow> int" where
  "tl_load xs i = (if 0 \<le> i \<and> i < int (length xs) then xs ! nat i else 0)"

section \<open>alloc_extend_kernel\<close>

text \<open>
  \<open>tl.sum\<close> over the lanes at or below \<open>pid\<close> (the masked lanes hold 0).
\<close>

definition lane_sum :: "(nat \<Rightarrow> int) \<Rightarrow> nat \<Rightarrow> int" where
  "lane_sum f pid = sum_list (map f [0..<Suc pid])"

definition arange_below :: "int \<Rightarrow> int \<Rightarrow> int list" where
  "arange_below m n = filter (\<lambda>off. off < n) [0..m - 1]"

text \<open>
  The stores of program \<open>pid\<close> into \<open>out_indices\<close>: the rest of the old partial page, the
  new full pages, the new partial page, with the two early returns of the kernel.
\<close>

definition alloc_extend_kernel ::
  "int \<Rightarrow> int \<Rightarrow> int list \<Rightarrow> int list \<Rightarrow> int list \<Rightarrow> int list \<Rightarrow> nat \<Rightarrow> (int \<times> int) list" where
  "alloc_extend_kernel p max_num_extend_tokens pre_lens seq_lens last_locs free_page pid =
    (let seq_len = seq_lens ! pid; pre_len = pre_lens ! pid;
         extend_len = seq_len - pre_len;
         sum_extend_lens = lane_sum (\<lambda>i. seq_lens ! i - pre_lens ! i) pid;
         output_start_loc = sum_extend_lens - extend_len;
         num_page_start_loc_self = num_pages_of p seq_len - num_pages_of p pre_len;
         sum_num_new_pages =
           lane_sum (\<lambda>i. num_pages_of p (seq_lens ! i) - num_pages_of p (pre_lens ! i)) pid;
         new_page_start_loc = sum_num_new_pages - num_page_start_loc_self;
         last_loc = last_locs ! pid;
         num_part1 = min seq_len (num_pages_of p pre_len * p) - pre_len;
         part1 = map (\<lambda>off. (output_start_loc + off, last_loc + 1 + off)) (arange_below p num_part1)
     in if pre_len + num_part1 = seq_len then part1
        else
          (let num_part2 = seq_len div p * p - num_pages_of p pre_len * p;
               part2 = map (\<lambda>off. (output_start_loc + num_part1 + off,
                                 tl_load free_page (new_page_start_loc + off div p) * p + off mod p))
                         (arange_below max_num_extend_tokens num_part2)
           in if pre_len + num_part1 + num_part2 = seq_len then part1 @ part2
              else
                (let num_part3 = seq_len - seq_len div p * p;
                     start_loc = tl_load free_page (new_page_start_loc + num_page_start_loc_self - 1);
                     part3 = map (\<lambda>off. (output_start_loc + num_part1 + num_part2 + off,
                                       start_loc * p + off))
                               (arange_below p num_part3)
                 in part1 @ part2 @ part3)))"

text \<open>What the last program returns: the page count above 32 bits, the token count below.\<close>

definition merged_value :: "int \<Rightarrow> int \<Rightarrow> 64 word" where
  "merged_value sum_num_new_pages sum_extend_lens =
     push_bit 32 (word_of_int sum_num_new_pages) OR word_of_int sum_extend_lens"

definition alloc_extend_ret :: "int \<Rightarrow> int list \<Rightarrow> int list \<Rightarrow> 64 word" where
  "alloc_extend_ret p pre_lens seq_lens =
     merged_value
       (lane_sum (\<lambda>i. num_pages_of p (seq_lens ! i) - num_pages_of p (pre_lens ! i))
          (length pre_lens - 1))
       (lane_sum (\<lambda>i. seq_lens ! i - pre_lens ! i) (length pre_lens - 1))"

section \<open>alloc_decode_kernel\<close>

definition alloc_decode_kernel ::
  "int \<Rightarrow> int list \<Rightarrow> int list \<Rightarrow> int list \<Rightarrow> nat \<Rightarrow> (int \<times> int) list" where
  "alloc_decode_kernel p seq_lens last_locs free_page pid =
    (let seq_len = seq_lens ! pid; pre_len = seq_len - 1;
         num_page_start_loc_self = num_pages_of p seq_len - num_pages_of p pre_len;
         sum_num_new_pages =
           lane_sum (\<lambda>i. num_pages_of p (seq_lens ! i) - num_pages_of p (seq_lens ! i - 1)) pid;
         new_page_start_loc = sum_num_new_pages - num_page_start_loc_self
     in if num_page_start_loc_self = 0 then [(int pid, last_locs ! pid + 1)]
        else [(int pid, tl_load free_page new_page_start_loc * p)])"

definition alloc_decode_ret :: "int \<Rightarrow> int list \<Rightarrow> int" where
  "alloc_decode_ret p seq_lens =
     lane_sum (\<lambda>i. num_pages_of p (seq_lens ! i) - num_pages_of p (seq_lens ! i - 1))
       (length seq_lens - 1)"

section \<open>PagedTokenToKVPoolAllocator\<close>

record paged_allocator =
  pka_size :: nat
  pka_page_size :: nat
  num_pages :: nat
  free_pages :: "int list"
  pka_is_not_in_free_group :: bool
  pka_free_group :: "slot list list"
  debug_mode :: bool

definition pka_clear :: "paged_allocator \<Rightarrow> paged_allocator" where
  "pka_clear s = s\<lparr>free_pages := [1..int (num_pages s)],
                   pka_is_not_in_free_group := True, pka_free_group := []\<rparr>"

definition pka_init :: "nat \<Rightarrow> nat \<Rightarrow> bool \<Rightarrow> paged_allocator" where
  "pka_init n page_size dbg =
     pka_clear \<lparr>pka_size = n, pka_page_size = page_size, num_pages = n div page_size,
                free_pages = [], pka_is_not_in_free_group = True, pka_free_group = [],
                debug_mode = dbg\<rparr>"

definition pka_available_size :: "paged_allocator \<Rightarrow> nat" where
  "pka_available_size s = length (free_pages s) * pka_page_size s"

definition page_slots :: "int \<Rightarrow> int \<Rightarrow> slot list" where
  "page_slots p page = map (\<lambda>off. page * p + off) [0..p - 1]"

definition pka_alloc ::
  "paged_allocator \<Rightarrow> nat \<Rightarrow> (slot list option \<times> paged_allocator) result" where
  "pka_alloc s need_size =
     (if debug_mode s \<and> need_size mod pka_page_size s \<noteq> 0 then Inl AssertionError
      else
        (let n = need_size div pka_page_size s in
         if n > length (free_pages s) then Inr (None, s)
         else
           (let out_pages = take n (free_pages s);
                s' = s\<lparr>free_pages := drop n (free_pages s)\<rparr>
            in Inr (Some (concat (map (page_slots (int (pka_page_size s))) out_pages)), s'))))"

text \<open>The grid of a kernel launch: the stores of every program, applied to the output buffer.\<close>

definition store_all :: "(int \<times> int) list \<Rightarrow> int list \<Rightarrow> int list" where
  "store_all ws buf = fold (\<lambda>(i, v) b. b[nat i := v]) ws buf"

definition launch :: "nat \<Rightarrow> (nat \<Rightarrow> (int \<times> int) list) \<Rightarrow> int list \<Rightarrow> int list" where
  "launch n prog buf = store_all (concat (map prog [0..<n])) buf"

text \<open>
  \<open>alloc_extend\<close>; \<open>buf\<close> is the uninitialised buffer \<open>torch.empty((extend_num_tokens,))\<close>.
\<close>

definition pka_alloc_extend ::
  "paged_allocator \<Rightarrow> int list \<Rightarrow> int list \<Rightarrow> int list \<Rightarrow> int list \<Rightarrow>
   (slot list option \<times> paged_allocator) result" where
  "pka_alloc_extend s prefix_lens seq_lens last_loc buf =
    (let p = int (pka_page_size s); bs = length prefix_lens in
     if debug_mode s \<and>
        \<not> list_all2 (\<lambda>l k. (l + 1) mod p = k mod p) last_loc prefix_lens
     then Inl AssertionError
     else
       (let out_indices =
              launch bs (alloc_extend_kernel p (int (next_power_of_2 (length buf)))
                           prefix_lens seq_lens last_loc (free_pages s)) buf;
            merged = alloc_extend_ret p prefix_lens seq_lens;
            num_new_pages = drop_bit 32 (sint merged)
        in if debug_mode s \<and> \<not> distinct out_indices then Inl AssertionError
           else if num_new_pages > int (length (free_pages s)) then Inr (None, s)
           else Inr (Some out_indices, s\<lparr>free_pages := py_from (free_pages s) num_new_pages\<rparr>)))"

definition pka_alloc_decode ::
  "paged_allocator \<Rightarrow> int list \<Rightarrow> int list \<Rightarrow> int list \<Rightarrow>
   (slot list option \<times> paged_allocator) result" where
  "pka_alloc_decode s seq_lens last_loc buf =
    (let p = int (pka_page_size s); bs = length seq_lens in
     if debug_mode s \<and>
        \<not> list_all2 (\<lambda>l n. (l + 2) mod p = n mod p) last_loc seq_lens
     then Inl AssertionError
     else
       (let out_indices =
              launch bs (alloc_decode_kernel p seq_lens last_loc (free_pages s)) buf;
            num_new_pages = alloc_decode_ret p seq_lens
        in if debug_mode s \<and> \<not> distinct out_indices then Inl AssertionError
           else if num_new_pages > int (length (free_pages s)) then Inr (None, s)
           else Inr (Some out_indices, s\<lparr>free_pages := py_from (free_pages s) num_new_pages\<rparr>)))"

text \<open>\<open>torch.unique\<close> sorts and removes duplicates.\<close>

definition torch_unique :: "int list \<Rightarrow> int list" where
  "torch_unique xs = sort (remdups xs)"

definition pka_free :: "paged_allocator \<Rightarrow> slot list \<Rightarrow> paged_allocator result" where
  "pka_free s free_index =
     (if free_index = [] then Inr s
      else
        (let s' = (if pka_is_not_in_free_group s then
                     s\<lparr>free_pages :=
                        torch_unique (map (\<lambda>x. x div int (pka_page_size s)) free_index)
                        @ free_pages s\<rparr>
                   else s\<lparr>pka_free_group := pka_free_group s @ [free_index]\<rparr>)
         in if debug_mode s' \<and> \<not> distinct (free_pages s') then Inl AssertionError
            else Inr s'))"

definition pka_free_group_begin :: "paged_allocator \<Rightarrow> paged_allocator" where
  "pka_free_group_begin s = s\<lparr>pka_is_not_in_free_group := False, pka_free_group := []\<rparr>"

definition pka_free_group_end :: "paged_allocator \<Rightarrow> paged_allocator result" where
  "pka_free_group_end s =
     (let s' = s\<lparr>pka_is_not_in_free_group := True\<rparr>
      in if pka_free_group s' \<noteq> [] then pka_free s' (concat (pka_free_group s')) else Inr s')"

definition pka_backup_state :: "paged_allocator \<Rightarrow> int list" where
  "pka_backup_state s = free_pages s"

definition pka_restore_state :: "paged_allocator \<Rightarrow> int list \<Rightarrow> paged_allocator" where
  "pka_restore_state s fp = s\<lparr>free_pages := fp\<rparr>"

definition pka_inv :: "paged_allocator \<Rightarrow> bool" where
  "pka_inv s \<longleftrightarrow>
     0 < pka_page_size s \<and> num_pages s = pka_size s div pka_page_size s \<and>
     distinct (free_pages s) \<and> set (free_pages s) \<subseteq> {1..int (num_pages s)} \<and>
     pka_is_not_in_free_group s"

declare pka_inv_def [inv_defs]

lemma pka_inv_init: "0 < p \<Longrightarrow> pka_inv (pka_init n p d)"
  by (simp add: pka_inv_def pka_init_def pka_clear_def)

section \<open>The kernels against a token-by-token reference\<close>

text \<open>
  Where the token at position \<open>k\<close> of a sequence belongs: in the rest of the page that the
  cached prefix ends in (right after \<open>last_loc\<close>), or in the new page for \<open>k div p\<close>.
\<close>

definition extend_loc :: "int \<Rightarrow> int \<Rightarrow> int \<Rightarrow> (int \<Rightarrow> int) \<Rightarrow> int \<Rightarrow> int" where
  "extend_loc p pre lst page k =
     (if k < num_pages_of p pre * p then lst + 1 + (k - pre)
      else page (k div p - num_pages_of p pre) * p + k mod p)"

lemma num_pages_mult_ge: "0 < p \<Longrightarrow> n \<le> num_pages_of p n * p"
  by (simp add: num_pages_of_def)
    (smt (verit, ccfv_SIG) minus_mod_eq_div_mult pos_mod_bound)

lemma num_pages_mult_less: "0 < p \<Longrightarrow> num_pages_of p n * p < n + p"
  by (simp add: num_pages_of_def)
    (smt (verit, ccfv_SIG) minus_mod_eq_div_mult pos_mod_sign)

lemma num_pages_dvd: "0 < p \<Longrightarrow> n mod p = 0 \<Longrightarrow> num_pages_of p n = n div p"
proof -
  assume p: "0 < p" and "n mod p = 0"
  then obtain k where n: "n = p * k" by (auto elim: dvdE)
  have "(p - 1 + p * k) div p = k" using p by simp
  with p show ?thesis by (simp add: num_pages_of_def n algebra_simps)
qed

lemma num_pages_not_dvd:
  assumes "0 < p" and "n mod p \<noteq> 0"
  shows "num_pages_of p n = n div p + 1"
proof -
  have r: "0 < n mod p" "n mod p < p"
    using assms pos_mod_sign [of p n] pos_mod_bound [of p n] by linarith+
  have eq: "n + p - 1 = (n mod p - 1) + (n div p + 1) * p"
    by (simp add: algebra_simps)
  have "(n + p - 1) div p = (n div p + 1) + (n mod p - 1) div p"
    unfolding eq using assms(1) by (intro div_mult_self1) simp
  with r show ?thesis by (simp add: num_pages_of_def)
qed

lemma num_pages_mono: "0 < p \<Longrightarrow> m \<le> n \<Longrightarrow> num_pages_of p m \<le> num_pages_of p n"
  by (simp add: num_pages_of_def zdiv_mono1)

lemma arange_below_eq: "n \<le> m \<Longrightarrow> arange_below m n = [0..n - 1]"
proof -
  assume "n \<le> m"
  have "sorted (filter (\<lambda>x. x < n) [0..m - 1])" "distinct (filter (\<lambda>x. x < n) [0..m - 1])"
    by (simp_all add: sorted_wrt_filter)
  moreover have "set (filter (\<lambda>x. x < n) [0..m - 1]) = set [0..n - 1]"
    using \<open>n \<le> m\<close> by auto
  ultimately show ?thesis
    unfolding arange_below_def by (intro sorted_distinct_set_unique) simp_all
qed

lemma map_upto_shift: "map f [a..b] = map (\<lambda>off. f (a + off)) [0..b - a]"
proof (rule nth_equalityI)
  show "length (map f [a..b]) = length (map (\<lambda>off. f (a + off)) [0..b - a])" by simp
qed simp

lemma extend_parts:
  fixes p pre seq lst mx start :: int and page :: "int \<Rightarrow> int"
  assumes p: "0 < p" and le: "pre \<le> seq" and max: "seq - pre \<le> mx"
  defines "n1 \<equiv> min seq (num_pages_of p pre * p) - pre"
  defines "n2 \<equiv> seq div p * p - num_pages_of p pre * p"
  defines "n3 \<equiv> seq - seq div p * p"
  defines "w \<equiv> \<lambda>k. (start + (k - pre), extend_loc p pre lst page k)"
  shows "map (\<lambda>off. (start + off, lst + 1 + off)) (arange_below p n1) = map w [pre..pre + n1 - 1]"
    and "pre + n1 \<noteq> seq \<Longrightarrow>
      map (\<lambda>off. (start + n1 + off, page (off div p) * p + off mod p)) (arange_below mx n2) =
      map w [pre + n1..pre + n1 + n2 - 1]"
    and "pre + n1 \<noteq> seq \<Longrightarrow> pre + n1 + n2 \<noteq> seq \<Longrightarrow>
      map (\<lambda>off. (start + n1 + n2 + off, page (num_pages_of p seq - num_pages_of p pre - 1) * p + off))
        (arange_below p n3) = map w [pre + n1 + n2..seq - 1]"
proof -
  let ?c = "num_pages_of p pre"
  have n1: "n1 \<le> p" using num_pages_mult_less [OF p, of pre] by (simp add: n1_def)
  have "map w [pre..pre + n1 - 1] = map (\<lambda>off. w (pre + off)) [0..n1 - 1]"
    by (subst map_upto_shift) simp
  also have "\<dots> = map (\<lambda>off. (start + off, lst + 1 + off)) [0..n1 - 1]"
    by (rule map_cong) (auto simp: w_def extend_loc_def n1_def)
  finally show "map (\<lambda>off. (start + off, lst + 1 + off)) (arange_below p n1) =
      map w [pre..pre + n1 - 1]"
    by (simp add: arange_below_eq [OF n1])
next
  let ?c = "num_pages_of p pre"
  assume "pre + n1 \<noteq> seq"
  then have c: "pre + n1 = ?c * p" and lt: "?c * p < seq" and n1: "?c * p - pre = n1"
    by (auto simp: n1_def min_def split: if_splits)
  have "seq div p * p \<le> seq" using p by (simp add: pos_mod_sign minus_mod_eq_div_mult [symmetric])
  then have n2: "n2 \<le> mx" using max num_pages_mult_ge [OF p, of pre] by (simp add: n2_def)
  have "map w [pre + n1..pre + n1 + n2 - 1] = map (\<lambda>off. w (pre + n1 + off)) [0..n2 - 1]"
    by (subst map_upto_shift) simp
  also have "\<dots> = map (\<lambda>off. (start + n1 + off, page (off div p) * p + off mod p)) [0..n2 - 1]"
    using p by (intro map_cong) (auto simp: w_def extend_loc_def c n1)
  finally show "map (\<lambda>off. (start + n1 + off, page (off div p) * p + off mod p)) (arange_below mx n2) =
      map w [pre + n1..pre + n1 + n2 - 1]"
    by (simp add: arange_below_eq [OF n2])
next
  let ?c = "num_pages_of p pre"
  assume ne: "pre + n1 \<noteq> seq" "pre + n1 + n2 \<noteq> seq"
  then have c: "pre + n1 = ?c * p" and lt: "?c * p < seq"
    by (auto simp: n1_def min_def split: if_splits)
  then have q: "pre + n1 + n2 = seq div p * p" by (simp add: n2_def)
  with ne have nz: "seq mod p \<noteq> 0"
    by (metis add.right_neutral div_mult_mod_eq)
  have n3: "n3 \<le> p" using pos_mod_bound [OF p, of seq] by (simp add: n3_def minus_div_mult_eq_mod)
  have "?c \<le> seq div p" using zdiv_mono1 [of "?c * p" seq p] lt p by simp
  have "map w [pre + n1 + n2..seq - 1] = map (\<lambda>off. w (seq div p * p + off)) [0..n3 - 1]"
    unfolding q by (subst map_upto_shift) (simp add: n3_def algebra_simps)
  also have "\<dots> = map (\<lambda>off. (start + n1 + n2 + off, page (num_pages_of p seq - ?c - 1) * p + off))
      [0..n3 - 1]"
  proof (rule map_cong)
    fix off assume "off \<in> set [0..n3 - 1]"
    then have o: "0 \<le> off" "off < p" using n3 by auto
    have "\<not> seq div p * p + off < ?c * p"
      using \<open>?c \<le> seq div p\<close> o p by (smt (verit) mult_right_mono)
    then show "w (seq div p * p + off) =
      (start + n1 + n2 + off, page (num_pages_of p seq - ?c - 1) * p + off)"
      using o q by (simp add: w_def extend_loc_def num_pages_not_dvd [OF p nz] algebra_simps)
  qed simp
  finally show "map (\<lambda>off. (start + n1 + n2 + off, page (num_pages_of p seq - ?c - 1) * p + off))
        (arange_below p n3) = map w [pre + n1 + n2..seq - 1]"
    by (simp add: arange_below_eq [OF n3])
qed

text \<open>The starting offsets of program \<open>pid\<close> are the sums over the programs below it.\<close>

definition out_start :: "int list \<Rightarrow> int list \<Rightarrow> nat \<Rightarrow> int" where
  "out_start pre_lens seq_lens pid = sum_list (map (\<lambda>i. seq_lens ! i - pre_lens ! i) [0..<pid])"

definition page_start :: "int \<Rightarrow> int list \<Rightarrow> int list \<Rightarrow> nat \<Rightarrow> int" where
  "page_start p pre_lens seq_lens pid =
     sum_list (map (\<lambda>i. num_pages_of p (seq_lens ! i) - num_pages_of p (pre_lens ! i)) [0..<pid])"

lemma lane_sum_minus: "lane_sum f pid - f pid = sum_list (map f [0..<pid])"
  by (simp add: lane_sum_def)

definition extend_locs :: "int \<Rightarrow> int list \<Rightarrow> int list \<Rightarrow> int list \<Rightarrow> int list \<Rightarrow> nat \<Rightarrow> int list" where
  "extend_locs p pre_lens seq_lens last_locs pages pid =
     map (extend_loc p (pre_lens ! pid) (last_locs ! pid)
            (\<lambda>i. tl_load pages (page_start p pre_lens seq_lens pid + i)))
       [pre_lens ! pid..seq_lens ! pid - 1]"

lemma alloc_extend_kernel_eq:
  assumes p: "0 < p" and le: "pre_lens ! pid \<le> seq_lens ! pid"
    and mx: "seq_lens ! pid - pre_lens ! pid \<le> mx"
  shows "alloc_extend_kernel p mx pre_lens seq_lens last_locs pages pid =
    map (\<lambda>k. (out_start pre_lens seq_lens pid + (k - pre_lens ! pid),
              extend_loc p (pre_lens ! pid) (last_locs ! pid)
                (\<lambda>i. tl_load pages (page_start p pre_lens seq_lens pid + i)) k))
      [pre_lens ! pid..seq_lens ! pid - 1]"
proof -
  let ?pre = "pre_lens ! pid" and ?seq = "seq_lens ! pid"
  let ?start = "out_start pre_lens seq_lens pid"
  let ?page = "\<lambda>i. tl_load pages (page_start p pre_lens seq_lens pid + i)"
  let ?c = "num_pages_of p ?pre"
  let ?w = "\<lambda>k. (?start + (k - ?pre), extend_loc p ?pre (last_locs ! pid) ?page k)"
  let ?n1 = "min ?seq (?c * p) - ?pre"
  let ?n2 = "?seq div p * p - ?c * p"
  note parts = extend_parts [OF p le mx, where start = ?start and lst = "last_locs ! pid" and page = ?page]
  have start: "lane_sum (\<lambda>i. seq_lens ! i - pre_lens ! i) pid - (?seq - ?pre) = ?start"
    and pstart: "lane_sum (\<lambda>i. num_pages_of p (seq_lens ! i) - num_pages_of p (pre_lens ! i)) pid
      - (num_pages_of p ?seq - ?c) = page_start p pre_lens seq_lens pid"
    by (simp_all add: lane_sum_def out_start_def page_start_def)
  have pl: "page_start p pre_lens seq_lens pid + (num_pages_of p ?seq - ?c) - 1 =
     page_start p pre_lens seq_lens pid + (num_pages_of p ?seq - ?c - 1)" by simp
  have c_ge: "?pre \<le> ?c * p" using num_pages_mult_ge [OF p] .
  show ?thesis
  proof (cases "?pre + ?n1 = ?seq")
    case True
    then show ?thesis
      using parts(1) by (simp add: alloc_extend_kernel_def Let_def start)
  next
    case ne1: False
    then have lt: "?c * p < ?seq" and e1: "?pre + ?n1 = ?c * p"
      by (auto simp: min_def split: if_splits)
    have "?c * p \<le> ?seq div p * p"
    proof (rule mult_right_mono)
      show "?c \<le> ?seq div p" using zdiv_mono1 [of "?c * p" ?seq p] lt p by simp
    qed (use p in simp)
    moreover have "?seq div p * p \<le> ?seq"
      using p by (simp add: minus_mod_eq_div_mult [symmetric])
    ultimately have n2: "0 \<le> ?n2" "?pre + ?n1 + ?n2 \<le> ?seq" using e1 by auto
    have s1: "map ?w [?pre..?seq - 1] = map ?w [?pre..?pre + ?n1 - 1] @ map ?w [?pre + ?n1..?seq - 1]"
      using upto_split1 [of ?pre "?pre + ?n1" "?seq - 1"] c_ge lt e1 by simp
    show ?thesis
    proof (cases "?pre + ?n1 + ?n2 = ?seq")
      case True
      show ?thesis
        unfolding s1
        using parts(1) parts(2) [OF ne1] ne1 True
        by (simp add: alloc_extend_kernel_def Let_def start pstart)
    next
      case ne2: False
      have s2: "map ?w [?pre + ?n1..?seq - 1] =
        map ?w [?pre + ?n1..?pre + ?n1 + ?n2 - 1] @ map ?w [?pre + ?n1 + ?n2..?seq - 1]"
        using upto_split1 [of "?pre + ?n1" "?pre + ?n1 + ?n2" "?seq - 1"] n2 ne2 by simp
      show ?thesis
        unfolding s1 s2
        using parts(1) parts(2) [OF ne1] parts(3) [OF ne1 ne2] ne1 ne2
        by (simp add: alloc_extend_kernel_def Let_def start pstart pl del: add_diff_eq diff_diff_eq)
    qed
  qed
qed

subsection \<open>Storing consecutive segments\<close>

definition seg_writes :: "nat \<Rightarrow> int list \<Rightarrow> (int \<times> int) list" where
  "seg_writes a vs = zip (map int [a..<a + length vs]) vs"

lemma store_seg_writes:
  "a + length vs \<le> length buf \<Longrightarrow>
   store_all (seg_writes a vs) buf = take a buf @ vs @ drop (a + length vs) buf"
proof (induction vs arbitrary: a buf)
  case Nil
  then show ?case by (simp add: store_all_def seg_writes_def)
next
  case (Cons v vs)
  have "store_all (seg_writes a (v # vs)) buf = store_all (seg_writes (Suc a) vs) (buf[a := v])"
    by (simp add: store_all_def seg_writes_def upt_conv_Cons del: upt_Suc)
  also have "\<dots> = take (Suc a) (buf[a := v]) @ vs @ drop (Suc a + length vs) (buf[a := v])"
    using Cons by simp
  finally show ?case
    using Cons.prems by (simp add: take_Suc_conv_app_nth drop_update_cancel take_update_cancel)
qed

lemma launch_segments:
  assumes "\<And>i. i < n \<Longrightarrow> prog i = seg_writes (sum_list (map (\<lambda>j. length (vs j)) [0..<i])) (vs i)"
    and "length (concat (map vs [0..<n])) \<le> length buf"
  shows "launch n prog buf =
    concat (map vs [0..<n]) @ drop (length (concat (map vs [0..<n]))) buf"
  using assms
proof (induction n)
  case 0
  then show ?case by (simp add: launch_def store_all_def)
next
  case (Suc n)
  let ?c = "concat (map vs [0..<n])"
  have len: "sum_list (map (\<lambda>j. length (vs j)) [0..<n]) = length ?c"
    by (simp add: length_concat o_def)
  have le: "length ?c \<le> length buf" using Suc.prems(2) by simp
  have "launch (Suc n) prog buf = store_all (prog n) (launch n prog buf)"
    by (simp add: launch_def store_all_def)
  also have "\<dots> = store_all (seg_writes (length ?c) (vs n)) (?c @ drop (length ?c) buf)"
    using Suc.IH Suc.prems(1) le len by simp
  also have "\<dots> = ?c @ vs n @ drop (length ?c + length (vs n)) buf"
    using Suc.prems(2) by (subst store_seg_writes) (simp_all add: add.commute)
  finally show ?case by simp
qed

subsection \<open>Whole batches\<close>

text \<open>The merged return value decodes to the page count while both counts are in range.\<close>

lemma push_or_add:
  assumes b: "0 \<le> b" "b < 2 ^ 32"
  shows "push_bit 32 a OR b = a * 2 ^ 32 + (b :: int)"
proof -
  have m: "take_bit 32 b = b" using b by (simp add: take_bit_int_eq_self)
  have "push_bit 32 a AND b = 0"
    by (subst m [symmetric], rule bit_eqI) (auto simp: bit_simps)
  then show ?thesis
    by (simp add: push_bit_eq_mult disjunctive_add_eq_or [symmetric])
qed

lemma merged_value_pages:
  assumes "0 \<le> a" "a < 2 ^ 31" "0 \<le> b" "b < 2 ^ 32"
  shows "drop_bit 32 (sint (merged_value a b)) = a"
proof -
  have "merged_value a b = word_of_int (a * 2 ^ 32 + b)"
    unfolding merged_value_def
    by (simp only: push_or_add [OF assms(3,4), symmetric] of_int_or_eq of_int_push_bit)
  moreover have "sint (word_of_int (a * 2 ^ 32 + b) :: 64 word) = a * 2 ^ 32 + b"
    using assms by (subst int_word_sint) simp
  ultimately show ?thesis
    using assms by (simp add: drop_bit_eq_div)
qed

text \<open>The batches the scheduler submits, and the pages such a batch needs.\<close>

definition extend_batch :: "int list \<Rightarrow> int list \<Rightarrow> int list \<Rightarrow> bool" where
  "extend_batch pre_lens seq_lens last_locs \<longleftrightarrow>
     pre_lens \<noteq> [] \<and> length seq_lens = length pre_lens \<and> length last_locs = length pre_lens \<and>
     (\<forall>i < length pre_lens. 0 \<le> pre_lens ! i \<and> pre_lens ! i \<le> seq_lens ! i)"

definition extend_tokens :: "int list \<Rightarrow> int list \<Rightarrow> nat" where
  "extend_tokens pre_lens seq_lens =
     nat (out_start pre_lens seq_lens (length pre_lens))"

definition extend_pages :: "int \<Rightarrow> int list \<Rightarrow> int list \<Rightarrow> int" where
  "extend_pages p pre_lens seq_lens = page_start p pre_lens seq_lens (length pre_lens)"

definition extend_out :: "int \<Rightarrow> int list \<Rightarrow> int list \<Rightarrow> int list \<Rightarrow> int list \<Rightarrow> int list" where
  "extend_out p pre_lens seq_lens last_locs pages =
     concat (map (extend_locs p pre_lens seq_lens last_locs pages) [0..<length pre_lens])"

lemma sum_upt_nonneg: "(\<And>i. i < n \<Longrightarrow> 0 \<le> f i) \<Longrightarrow> (0::int) \<le> sum_list (map f [0..<n])"
  by (rule sum_list_nonneg) auto

lemma sum_upt_mono:
  assumes "\<And>i. i < n \<Longrightarrow> (0::int) \<le> f i" and "i < n"
  shows "f i \<le> sum_list (map f [0..<n])"
  using assms by (intro member_le_sum_list) auto

lemma extend_out_start_length:
  assumes "extend_batch pre_lens seq_lens last_locs" and "pid \<le> length pre_lens"
  shows "out_start pre_lens seq_lens pid =
    int (sum_list (map (\<lambda>j. length (extend_locs p pre_lens seq_lens last_locs pages j)) [0..<pid]))"
  using assms
proof (induction pid)
  case (Suc pid)
  then show ?case by (simp add: out_start_def extend_locs_def extend_batch_def)
qed (simp add: out_start_def)

lemma kernel_seg_writes:
  fixes pages :: "int list"
  assumes p: "0 < p" and b: "extend_batch pre_lens seq_lens last_locs"
    and pid: "pid < length pre_lens"
    and mx: "seq_lens ! pid - pre_lens ! pid \<le> mx"
  defines "vs \<equiv> extend_locs p pre_lens seq_lens last_locs pages"
  shows "alloc_extend_kernel p mx pre_lens seq_lens last_locs pages pid =
    seg_writes (sum_list (map (\<lambda>j. length (vs j)) [0..<pid])) (vs pid)"
proof -
  have le: "pre_lens ! pid \<le> seq_lens ! pid" using b pid by (simp add: extend_batch_def)
  note st = extend_out_start_length [OF b less_imp_le [OF pid], of p pages]
  show ?thesis
    unfolding alloc_extend_kernel_eq [OF p le mx] seg_writes_def st
    by (rule nth_equalityI) (simp_all add: vs_def extend_locs_def)
qed

lemma alloc_extend_launch:
  assumes p: "0 < p" and b: "extend_batch pre_lens seq_lens last_locs"
    and len: "length buf = extend_tokens pre_lens seq_lens"
  shows "launch (length pre_lens)
      (alloc_extend_kernel p (int (next_power_of_2 (length buf))) pre_lens seq_lens last_locs pages) buf
    = extend_out p pre_lens seq_lens last_locs pages"
proof -
  let ?vs = "extend_locs p pre_lens seq_lens last_locs pages"
  let ?n = "length pre_lens"
  have pos: "0 \<le> seq_lens ! i - pre_lens ! i" if "i < ?n" for i
    using b that by (simp add: extend_batch_def)
  have tot: "out_start pre_lens seq_lens ?n = int (length (concat (map ?vs [0..<?n])))"
    using extend_out_start_length [OF b order_refl, of p pages]
    by (simp add: length_concat o_def)
  then have eq: "length (concat (map ?vs [0..<?n])) = length buf"
    by (simp add: len extend_tokens_def)
  have mx: "seq_lens ! i - pre_lens ! i \<le> int (next_power_of_2 (length buf))" if "i < ?n" for i
    using sum_upt_mono [of ?n "\<lambda>i. seq_lens ! i - pre_lens ! i", OF pos that]
      next_power_of_2_ge [of "length buf"] tot eq
    by (simp add: out_start_def)
  have "launch ?n (alloc_extend_kernel p (int (next_power_of_2 (length buf))) pre_lens seq_lens
      last_locs pages) buf = concat (map ?vs [0..<?n]) @ drop (length (concat (map ?vs [0..<?n]))) buf"
    by (rule launch_segments) (auto simp: kernel_seg_writes [OF p b _ mx] eq)
  then show ?thesis by (simp add: eq extend_out_def)
qed

lemma extend_ret_pages:
  assumes b: "extend_batch pre_lens seq_lens last_locs" and p: "0 < p"
    and "extend_tokens pre_lens seq_lens < 2 ^ 32" and "extend_pages p pre_lens seq_lens < 2 ^ 31"
  shows "drop_bit 32 (sint (alloc_extend_ret p pre_lens seq_lens)) = extend_pages p pre_lens seq_lens"
    and "0 \<le> extend_pages p pre_lens seq_lens"
proof -
  let ?n = "length pre_lens"
  have Suc: "Suc (?n - 1) = ?n" using b by (auto simp: extend_batch_def)
  have le: "pre_lens ! i \<le> seq_lens ! i" if "i < ?n" for i
    using b that by (simp add: extend_batch_def)
  have t: "0 \<le> out_start pre_lens seq_lens ?n"
    unfolding out_start_def by (rule sum_upt_nonneg) (use le in simp)
  show g: "0 \<le> extend_pages p pre_lens seq_lens"
    unfolding extend_pages_def page_start_def
    by (rule sum_upt_nonneg) (use le num_pages_mono [OF p] in simp)
  have "alloc_extend_ret p pre_lens seq_lens =
    merged_value (extend_pages p pre_lens seq_lens) (out_start pre_lens seq_lens ?n)"
    by (simp only: alloc_extend_ret_def lane_sum_def Suc extend_pages_def page_start_def out_start_def)
  then show "drop_bit 32 (sint (alloc_extend_ret p pre_lens seq_lens)) = extend_pages p pre_lens seq_lens"
    using assms(3,4) t g by (simp add: merged_value_pages extend_tokens_def)
qed

lemma alloc_extend_eq:
  assumes "pka_inv s" and "\<not> debug_mode s" and b: "extend_batch pre_lens seq_lens last_locs"
    and len: "length buf = extend_tokens pre_lens seq_lens"
    and "extend_tokens pre_lens seq_lens < 2 ^ 32"
    and "extend_pages (int (pka_page_size s)) pre_lens seq_lens < 2 ^ 31"
  shows "pka_alloc_extend s pre_lens seq_lens last_locs buf =
    (let n = extend_pages (int (pka_page_size s)) pre_lens seq_lens in
     Inr (if n > int (length (free_pages s)) then (None, s)
          else (Some (extend_out (int (pka_page_size s)) pre_lens seq_lens last_locs (free_pages s)),
                s\<lparr>free_pages := drop (nat n) (free_pages s)\<rparr>)))"
proof -
  have p: "0 < int (pka_page_size s)" using assms(1) by (simp add: pka_inv_def)
  note r = extend_ret_pages [OF b p assms(5,6)]
  show ?thesis
    using assms(2) r alloc_extend_launch [OF p b len, of "free_pages s"]
    by (simp add: pka_alloc_extend_def Let_def py_from_nonneg)
qed

text \<open>Decoding is an extension by one token.\<close>

abbreviation decode_pre :: "int list \<Rightarrow> int list" where
  "decode_pre seq_lens \<equiv> map (\<lambda>n. n - 1) seq_lens"

lemma num_pages_step:
  assumes "0 < p"
  shows "num_pages_of p (k + 1) - num_pages_of p k = (if k mod p = 0 then 1 else 0)"
proof -
  have "num_pages_of p (k + 1) = k div p + 1"
    using div_add_self2 [of p k] assms by (simp add: num_pages_of_def)
  then show ?thesis
    using num_pages_dvd [OF assms] num_pages_not_dvd [OF assms] by simp
qed

lemma below_partial_page: "0 < p \<Longrightarrow> k < num_pages_of p k * p \<longleftrightarrow> k mod p \<noteq> 0"
  using num_pages_dvd [of p k] num_pages_not_dvd [of p k] pos_mod_bound [of p k]
  by (cases "k mod p = 0") (simp_all add: distrib_right minus_mod_eq_div_mult [symmetric])

lemma decode_page_start:
  "pid \<le> length seq_lens \<Longrightarrow>
   page_start p (decode_pre seq_lens) seq_lens pid =
   sum_list (map (\<lambda>i. num_pages_of p (seq_lens ! i) - num_pages_of p (seq_lens ! i - 1)) [0..<pid])"
  unfolding page_start_def by (intro arg_cong [where f = sum_list] map_cong) auto

lemma decode_kernel_eq:
  assumes p: "0 < p" and pid: "pid < length seq_lens"
  shows "alloc_decode_kernel p seq_lens last_locs pages pid =
    seg_writes pid (extend_locs p (decode_pre seq_lens) seq_lens last_locs pages pid)"
proof -
  let ?k = "seq_lens ! pid - 1"
  have "extend_locs p (decode_pre seq_lens) seq_lens last_locs pages pid =
    [extend_loc p ?k (last_locs ! pid)
       (\<lambda>i. tl_load pages (page_start p (decode_pre seq_lens) seq_lens pid + i)) ?k]"
    using pid by (simp add: extend_locs_def)
  moreover have "num_pages_of p (seq_lens ! pid) - num_pages_of p ?k = (if ?k mod p = 0 then 1 else 0)"
    using num_pages_step [OF p, of ?k] by simp
  moreover have "num_pages_of p ?k = ?k div p" if "?k mod p = 0"
    using num_pages_dvd [OF p that] .
  ultimately show ?thesis
    using pid below_partial_page [OF p, of ?k]
    by (cases "?k mod p = 0")
      (simp_all add: alloc_decode_kernel_def Let_def lane_sum_def seg_writes_def extend_loc_def
        decode_page_start)
qed

lemma alloc_decode_eq:
  assumes "pka_inv s" and "\<not> debug_mode s" and "seq_lens \<noteq> []"
    and len: "length buf = length seq_lens"
  shows "pka_alloc_decode s seq_lens last_locs buf =
    (let n = extend_pages (int (pka_page_size s)) (decode_pre seq_lens) seq_lens in
     Inr (if n > int (length (free_pages s)) then (None, s)
          else (Some (extend_out (int (pka_page_size s)) (decode_pre seq_lens) seq_lens last_locs
                       (free_pages s)),
                s\<lparr>free_pages := drop (nat n) (free_pages s)\<rparr>)))"
proof -
  let ?p = "int (pka_page_size s)" and ?n = "length seq_lens"
  let ?vs = "extend_locs ?p (decode_pre seq_lens) seq_lens last_locs (free_pages s)"
  have p: "0 < ?p" using assms(1) by (simp add: pka_inv_def)
  have one: "length (?vs i) = 1" if "i < ?n" for i
    using that by (simp add: extend_locs_def)
  have cnt: "sum_list (map (\<lambda>j. length (?vs j)) [0..<i]) = i" if "i \<le> ?n" for i
    using that by (induction i) (simp_all add: one)
  have tot: "length (concat (map ?vs [0..<?n])) = ?n"
    using cnt [of ?n] by (simp add: length_concat o_def)
  have "launch ?n (alloc_decode_kernel ?p seq_lens last_locs (free_pages s)) buf =
    concat (map ?vs [0..<?n]) @ drop (length (concat (map ?vs [0..<?n]))) buf"
    by (rule launch_segments) (simp_all add: decode_kernel_eq [OF p] cnt tot len)
  then have out: "launch ?n (alloc_decode_kernel ?p seq_lens last_locs (free_pages s)) buf =
    extend_out ?p (decode_pre seq_lens) seq_lens last_locs (free_pages s)"
    using tot len by (simp add: extend_out_def)
  have "Suc (?n - 1) = ?n" using assms(3) by (cases seq_lens) auto
  then have n: "alloc_decode_ret ?p seq_lens = extend_pages ?p (decode_pre seq_lens) seq_lens"
    by (simp only: alloc_decode_ret_def lane_sum_def extend_pages_def decode_page_start length_map)
  have "0 \<le> extend_pages ?p (decode_pre seq_lens) seq_lens"
    unfolding extend_pages_def page_start_def
    by (rule sum_upt_nonneg) (use num_pages_mono [OF p] in simp)
  then show ?thesis
    using assms(2) by (simp add: pka_alloc_decode_def Let_def out n py_from_nonneg)
qed

subsection \<open>The layout is aligned and never shares a slot\<close>

text \<open>
  A token keeps its offset within its page, provided the prefix ends where \<open>last_loc\<close> says
  it does (what the allocator asserts in debug mode).
\<close>

definition last_loc_ok :: "int \<Rightarrow> int list \<Rightarrow> int list \<Rightarrow> bool" where
  "last_loc_ok p last_locs pre_lens \<longleftrightarrow>
     (\<forall>i < length pre_lens. (last_locs ! i + 1) mod p = pre_lens ! i mod p)"

lemma extend_loc_mod:
  assumes "0 < p" and "(lst + 1) mod p = pre mod p"
  shows "extend_loc p pre lst page k mod p = k mod p"
proof -
  have "(lst + 1 + (k - pre)) mod p = (pre + (k - pre)) mod p"
    using assms(2) by (metis mod_add_left_eq)
  then show ?thesis by (simp add: extend_loc_def)
qed

text \<open>The page a token goes to: the partial page of its request or one of the new pages.\<close>

lemma extend_loc_div:
  assumes p: "0 < p" and al: "(lst + 1) mod p = pre mod p" and k: "pre \<le> k"
  shows "extend_loc p pre lst page k div p =
    (if k < num_pages_of p pre * p then (lst + 1) div p
     else page (k div p - num_pages_of p pre))"
proof (cases "k < num_pages_of p pre * p")
  case True
  let ?m = "pre mod p"
  have nz: "pre mod p \<noteq> 0"
    using True k num_pages_dvd [OF p, of pre] by (auto simp: minus_mod_eq_div_mult [symmetric])
  have "num_pages_of p pre * p = pre - ?m + p"
    by (simp add: num_pages_not_dvd [OF p nz] distrib_right minus_mod_eq_div_mult)
  then have r: "0 \<le> ?m + (k - pre)" "?m + (k - pre) < p"
    using True k pos_mod_sign [OF p, of pre] by linarith+
  have eq: "lst + 1 + (k - pre) = (?m + (k - pre)) + (lst + 1) div p * p"
    using div_mult_mod_eq [of "lst + 1" p] al by linarith
  have "(lst + 1 + (k - pre)) div p = (lst + 1) div p + (?m + (k - pre)) div p"
    unfolding eq using p by (intro div_mult_self1) simp
  then have "(lst + 1 + (k - pre)) div p = (lst + 1) div p"
    using div_pos_pos_trivial [OF r] by simp
  with True show ?thesis by (simp add: extend_loc_def)
next
  case False
  then show ?thesis using p by (simp add: extend_loc_def)
qed

text \<open>
  Ownership before the call: the partial pages of two requests differ and no partial page is
  free, which is what a client of the allocator maintains.
\<close>

definition partial_pages_owned :: "int \<Rightarrow> int list \<Rightarrow> int list \<Rightarrow> int list \<Rightarrow> bool" where
  "partial_pages_owned p pre_lens last_locs pages \<longleftrightarrow>
     (\<forall>i < length pre_lens. pre_lens ! i mod p \<noteq> 0 \<longrightarrow>
        (last_locs ! i + 1) div p \<notin> set pages \<and>
        (\<forall>j < length pre_lens. pre_lens ! j mod p \<noteq> 0 \<longrightarrow>
           (last_locs ! i + 1) div p = (last_locs ! j + 1) div p \<longrightarrow> i = j))"

lemma page_start_gap:
  assumes p: "0 < p" and b: "extend_batch pre_lens seq_lens last_locs"
    and "i < j" and "j \<le> length pre_lens"
  shows "page_start p pre_lens seq_lens i
      + (num_pages_of p (seq_lens ! i) - num_pages_of p (pre_lens ! i))
    \<le> page_start p pre_lens seq_lens j"
  using assms(3,4)
proof (induction j)
  case (Suc j)
  have "0 \<le> num_pages_of p (seq_lens ! j) - num_pages_of p (pre_lens ! j)"
    using b Suc.prems num_pages_mono [OF p] by (simp add: extend_batch_def)
  then show ?case
    using Suc by (cases "i = j") (auto simp: page_start_def)
qed simp

lemma new_page_index:
  assumes p: "0 < p" and b: "extend_batch pre_lens seq_lens last_locs" and i: "i < length pre_lens"
    and k: "num_pages_of p (pre_lens ! i) * p \<le> k" "k < seq_lens ! i"
  shows "0 \<le> page_start p pre_lens seq_lens i + (k div p - num_pages_of p (pre_lens ! i))"
    and "k div p - num_pages_of p (pre_lens ! i) \<ge> 0"
    and "k div p - num_pages_of p (pre_lens ! i)
      < num_pages_of p (seq_lens ! i) - num_pages_of p (pre_lens ! i)"
proof -
  show g: "k div p - num_pages_of p (pre_lens ! i) \<ge> 0"
    using zdiv_mono1 [OF k(1) p] p by simp
  have "k + p \<le> seq_lens ! i + p - 1" using k by simp
  then have "(k + p) div p \<le> num_pages_of p (seq_lens ! i)"
    unfolding num_pages_of_def using p by (intro zdiv_mono1)
  then show "k div p - num_pages_of p (pre_lens ! i)
      < num_pages_of p (seq_lens ! i) - num_pages_of p (pre_lens ! i)"
    using p div_add_self2 [of p k] by simp
  have "0 \<le> page_start p pre_lens seq_lens i"
    unfolding page_start_def
    by (rule sum_upt_nonneg) (use b i num_pages_mono [OF p] in \<open>simp add: extend_batch_def\<close>)
  with g show "0 \<le> page_start p pre_lens seq_lens i + (k div p - num_pages_of p (pre_lens ! i))"
    by simp
qed

definition token_loc :: "int \<Rightarrow> int list \<Rightarrow> int list \<Rightarrow> int list \<Rightarrow> int list \<Rightarrow> nat \<times> int \<Rightarrow> int" where
  "token_loc p pre_lens seq_lens last_locs pages t =
     (case t of (i, k) \<Rightarrow>
        extend_loc p (pre_lens ! i) (last_locs ! i)
          (\<lambda>j. tl_load pages (page_start p pre_lens seq_lens i + j)) k)"

definition batch_tokens :: "int list \<Rightarrow> int list \<Rightarrow> (nat \<times> int) list" where
  "batch_tokens pre_lens seq_lens =
     concat (map (\<lambda>i. map (Pair i) [pre_lens ! i..seq_lens ! i - 1]) [0..<length pre_lens])"

lemma extend_out_tokens:
  "extend_out p pre_lens seq_lens last_locs pages =
   map (token_loc p pre_lens seq_lens last_locs pages) (batch_tokens pre_lens seq_lens)"
  by (simp add: extend_out_def extend_locs_def [abs_def] batch_tokens_def map_concat token_loc_def o_def)

lemma set_batch_tokens:
  "set (batch_tokens pre_lens seq_lens) =
   {(i, k). i < length pre_lens \<and> pre_lens ! i \<le> k \<and> k < seq_lens ! i}"
  by (auto simp: batch_tokens_def)

lemma distinct_batch_tokens: "distinct (batch_tokens pre_lens seq_lens)"
proof -
  have "distinct (concat (map (\<lambda>i. map (Pair i) [pre_lens ! i..seq_lens ! i - 1]) [0..<n]))" for n
    by (induction n) (auto simp: distinct_map inj_on_def)
  then show ?thesis by (simp add: batch_tokens_def)
qed

text \<open>The page of a token: its request's partial page, or a free page by its index.\<close>

lemma token_page:
  assumes p: "0 < p" and b: "extend_batch pre_lens seq_lens last_locs"
    and al: "last_loc_ok p last_locs pre_lens"
    and enough: "extend_pages p pre_lens seq_lens \<le> int (length pages)"
    and t: "(i, k) \<in> set (batch_tokens pre_lens seq_lens)"
  defines "idx \<equiv> page_start p pre_lens seq_lens i + (k div p - num_pages_of p (pre_lens ! i))"
  shows "k < num_pages_of p (pre_lens ! i) * p \<Longrightarrow> pre_lens ! i mod p \<noteq> 0 \<and>
      token_loc p pre_lens seq_lens last_locs pages (i, k) div p = (last_locs ! i + 1) div p"
    and "\<not> k < num_pages_of p (pre_lens ! i) * p \<Longrightarrow>
      0 \<le> idx \<and> idx < int (length pages) \<and>
      token_loc p pre_lens seq_lens last_locs pages (i, k) div p = pages ! nat idx \<and>
      idx < extend_pages p pre_lens seq_lens"
proof -
  have i: "i < length pre_lens" and k: "pre_lens ! i \<le> k" "k < seq_lens ! i"
    using t by (auto simp: set_batch_tokens)
  have a: "(last_locs ! i + 1) mod p = pre_lens ! i mod p"
    using al i by (simp add: last_loc_ok_def)
  note d = extend_loc_div [OF p a k(1)]
  show "pre_lens ! i mod p \<noteq> 0 \<and>
      token_loc p pre_lens seq_lens last_locs pages (i, k) div p = (last_locs ! i + 1) div p"
    if "k < num_pages_of p (pre_lens ! i) * p"
    using that d below_partial_page [OF p, of "pre_lens ! i"] k by (auto simp: token_loc_def)
  show "0 \<le> idx \<and> idx < int (length pages) \<and>
      token_loc p pre_lens seq_lens last_locs pages (i, k) div p = pages ! nat idx \<and>
      idx < extend_pages p pre_lens seq_lens"
    if "\<not> k < num_pages_of p (pre_lens ! i) * p"
  proof -
    note n = new_page_index [OF p b i _ k(2)]
    have below: "idx < extend_pages p pre_lens seq_lens"
      using page_start_gap [OF p b i order_refl] n(3) that by (simp add: idx_def extend_pages_def)
    then have "idx < int (length pages)" using enough by simp
    moreover have "0 \<le> idx" using n(1) that by (simp add: idx_def)
    ultimately show ?thesis using d that below by (simp add: token_loc_def tl_load_def idx_def)
  qed
qed

lemma token_loc_inj:
  assumes p: "0 < p" and b: "extend_batch pre_lens seq_lens last_locs"
    and al: "last_loc_ok p last_locs pre_lens"
    and enough: "extend_pages p pre_lens seq_lens \<le> int (length pages)"
    and d: "distinct pages" and own: "partial_pages_owned p pre_lens last_locs pages"
    and t: "(i, k) \<in> set (batch_tokens pre_lens seq_lens)"
    and u: "(j, l) \<in> set (batch_tokens pre_lens seq_lens)"
    and eq: "token_loc p pre_lens seq_lens last_locs pages (i, k) =
             token_loc p pre_lens seq_lens last_locs pages (j, l)"
  shows "i = j \<and> k = l"
proof -
  let ?c = "\<lambda>i. num_pages_of p (pre_lens ! i)"
  let ?idx = "\<lambda>i k. page_start p pre_lens seq_lens i + (k div p - ?c i)"
  have i: "i < length pre_lens" "pre_lens ! i \<le> k" "k < seq_lens ! i"
    and j: "j < length pre_lens" "pre_lens ! j \<le> l" "l < seq_lens ! j"
    using t u by (auto simp: set_batch_tokens)
  have al': "(last_locs ! i + 1) mod p = pre_lens ! i mod p"
    "(last_locs ! j + 1) mod p = pre_lens ! j mod p"
    using al i(1) j(1) by (auto simp: last_loc_ok_def)
  have m: "k mod p = l mod p"
    using arg_cong [OF eq, of "\<lambda>x. x mod p"] extend_loc_mod [OF p al'(1)]
      extend_loc_mod [OF p al'(2)] by (simp add: token_loc_def)
  note ti = token_page [OF p b al enough t] and tj = token_page [OF p b al enough u]
  have eqd: "token_loc p pre_lens seq_lens last_locs pages (i, k) div p =
    token_loc p pre_lens seq_lens last_locs pages (j, l) div p" by (simp add: eq)
  consider (old) "k < ?c i * p" "l < ?c j * p" | (new) "\<not> k < ?c i * p" "\<not> l < ?c j * p"
    | (mixed) "k < ?c i * p \<longleftrightarrow> \<not> l < ?c j * p" by blast
  then show ?thesis
  proof cases
    case old
    then have "i = j"
      using ti(1) tj(1) eqd own i(1) j(1) unfolding partial_pages_owned_def by metis
    with eq old show ?thesis by (simp add: token_loc_def extend_loc_def)
  next
    case new
    have "pages ! nat (?idx i k) = pages ! nat (?idx j l)"
      using ti(2) [OF new(1)] tj(2) [OF new(2)] eqd by simp
    then have idx: "?idx i k = ?idx j l"
      using ti(2) [OF new(1)] tj(2) [OF new(2)] d
      by (simp add: nth_eq_iff_index_eq nat_less_iff eq_nat_nat_iff)
    note ni = new_page_index [OF p b i(1) _ i(3)] and nj = new_page_index [OF p b j(1) _ j(3)]
    have "i = j"
      using page_start_gap [OF p b, of i j] page_start_gap [OF p b, of j i] ni nj new i(1) j(1) idx
      by (cases i j rule: linorder_cases) auto
    then have "k div p = l div p" using idx by simp
    with m \<open>i = j\<close> show ?thesis by (metis div_mult_mod_eq)
  next
    case mixed
    then show ?thesis
      using ti tj eqd own i(1) j(1) unfolding partial_pages_owned_def
      by (metis nat_less_iff nth_mem)
  qed
qed

lemma extend_out_distinct:
  assumes "0 < p" and "extend_batch pre_lens seq_lens last_locs"
    and "last_loc_ok p last_locs pre_lens"
    and "extend_pages p pre_lens seq_lens \<le> int (length pages)"
    and "distinct pages" and "partial_pages_owned p pre_lens last_locs pages"
  shows "distinct (extend_out p pre_lens seq_lens last_locs pages)"
  unfolding extend_out_tokens distinct_map
  using distinct_batch_tokens token_loc_inj [OF assms]
  by (auto intro!: inj_onI)

section \<open>The paged allocator is a unit allocator\<close>

text \<open>
  The page-granular interface of \<open>alloc\<close> and \<open>free\<close>; the debug assertions are the only
  exceptions, and under the invariant they do not fire.
\<close>

definition paged_alloc :: "paged_allocator \<Rightarrow> nat \<Rightarrow> slot list option \<times> paged_allocator" where
  "paged_alloc s n = (case pka_alloc s n of Inl e \<Rightarrow> (None, s) | Inr r \<Rightarrow> r)"

definition paged_free :: "paged_allocator \<Rightarrow> slot list \<Rightarrow> paged_allocator" where
  "paged_free s xs = (case pka_free s xs of Inl e \<Rightarrow> s | Inr s' \<Rightarrow> s')"

lemma torch_unique_props [simp]:
  "set (torch_unique xs) = set xs" "distinct (torch_unique xs)"
  by (simp_all add: torch_unique_def)

lemma pka_free_ok:
  assumes inv: "pka_inv s"
    and sub: "units_of (pka_page_size s) xs \<subseteq> {1..int (num_pages s)} - set (free_pages s)"
  shows "\<exists>s'. pka_free s xs = Inr s' \<and> pka_inv s' \<and> pka_page_size s' = pka_page_size s \<and>
    num_pages s' = num_pages s \<and> debug_mode s' = debug_mode s \<and>
    set (free_pages s') = set (free_pages s) \<union> units_of (pka_page_size s) xs"
proof (cases "xs = []")
  case True
  then show ?thesis using inv by (simp add: pka_free_def)
next
  case False
  let ?u = "torch_unique (map (\<lambda>x. x div int (pka_page_size s)) xs)"
  let ?s' = "s\<lparr>free_pages := ?u @ free_pages s\<rparr>"
  have u: "set ?u = units_of (pka_page_size s) xs" by (simp add: units_of_def)
  have "pka_inv ?s'" using inv sub u by (auto simp: pka_inv_def)
  moreover have "distinct (free_pages ?s')" using calculation by (simp add: pka_inv_def)
  ultimately show ?thesis
    using False inv u by (auto simp: pka_free_def pka_inv_def Let_def)
qed

lemma page_slots_div: "0 < p \<Longrightarrow> x \<in> set (page_slots p page) \<Longrightarrow> x div p = page"
proof -
  assume p: "0 < p" and "x \<in> set (page_slots p page)"
  then have off: "0 \<le> x - page * p" "x - page * p < p"
    by (auto simp: page_slots_def)
  have "((x - page * p) + page * p) div p = page + (x - page * p) div p"
    using p by (intro div_mult_self1) simp
  then show "x div p = page" using div_pos_pos_trivial [OF off] by simp
qed

lemma set_page_slots: "0 < p \<Longrightarrow> (\<lambda>x. x div p) ` set (page_slots p page) = {page}"
proof -
  assume p: "0 < p"
  then have "page * p \<in> set (page_slots p page)" by (auto simp: page_slots_def)
  with p show ?thesis
    using page_slots_div [OF p] by (auto simp: image_iff intro!: bexI [of _ "page * p"])
qed

lemma units_of_pages:
  "0 < p \<Longrightarrow> units_of p (concat (map (page_slots (int p)) pages)) = set pages"
  using set_page_slots [of "int p"] by (simp add: units_of_def image_Union image_image)

lemma length_page_slots: "length (page_slots p page) = nat p"
  by (simp add: page_slots_def)

lemma length_concat_pages: "length (concat (map (page_slots (int p)) pages)) = length pages * p"
  by (induction pages) (simp_all add: length_page_slots)

lemma distinct_concat_pages:
  assumes p: "0 < p" and "distinct pages"
  shows "distinct (concat (map (page_slots (int p)) pages))"
  using assms(2)
proof (induction pages)
  case (Cons a pages)
  have "set (page_slots (int p) a) \<inter> set (concat (map (page_slots (int p)) pages)) = {}"
    using Cons.prems p page_slots_div [of "int p"] by (auto simp: disjoint_iff)
  moreover have "distinct (page_slots (int p) a)"
    by (auto simp: page_slots_def distinct_map inj_on_def)
  ultimately show ?case using Cons by simp
qed simp

interpretation pka: unit_allocator pka_page_size num_pages free_pages pka_inv
  pka_available_size paged_alloc paged_free
proof (unfold_locales, goal_cases)
  case 1
  then show ?case by (simp add: pka_inv_def)
next
  case 2
  then show ?case unfolding pka_inv_def by blast
next
  case 3
  then show ?case by (simp add: pka_available_size_def)
next
  case (4 s n s')
  then show ?case
    by (auto simp: paged_alloc_def pka_alloc_def pka_available_size_def pka_inv_def Let_def
        div_less_iff_less_mult less_mult_imp_div_less not_less div_le_dividend
        dvd_div_mult_self split: if_splits elim!: dvdE)
next
  case (5 s n out s')
  let ?p = "pka_page_size s" and ?f = "free_pages s" and ?k = "n div pka_page_size s"
  have p: "0 < ?p" using 5(1) by (simp add: pka_inv_def)
  have n: "n = ?k * ?p" using 5(2) by simp
  from 5(2,3) have k: "?k \<le> length ?f"
    and out: "out = concat (map (page_slots (int ?p)) (take ?k ?f))"
    and s': "s' = s\<lparr>free_pages := drop ?k ?f\<rparr>"
    by (auto simp: paged_alloc_def pka_alloc_def Let_def split: if_splits)
  have d: "distinct (take ?k ?f @ drop ?k ?f)" using 5(1) by (simp add: pka_inv_def)
  have "pka_inv s'"
    using 5(1) set_drop_subset [of ?k ?f] unfolding s' pka_inv_def
    by (auto simp del: atLeastAtMost_iff)
  moreover have "set (take ?k ?f) \<union> set (drop ?k ?f) = set ?f"
    by (metis append_take_drop_id set_append)
  moreover have "distinct (take ?k ?f)" "set (take ?k ?f) \<inter> set (drop ?k ?f) = {}"
    using d unfolding distinct_append by blast+
  moreover have "length out = n"
    using k n unfolding out length_concat_pages by (simp add: min_absorb2)
  moreover have "n \<le> pka_available_size s"
    using k n by (metis pka_available_size_def mult_le_mono1)
  ultimately show ?case
    using p unfolding out s' by (simp add: units_of_pages distinct_concat_pages)
next
  case (6 s xs)
  then show ?case using pka_free_ok [of s xs] by (auto simp: paged_free_def)
qed

end
