(* ===== verification/Paged_Props.thy ===== *)
theory Paged_Props
  imports Paged_Alloc
begin

text \<open>
  What \<open>alloc_extend\<close> of \<open>paged_allocator.py\<close> gives to its client, from the comparison of its
  kernel with the token-by-token layout.
\<close>

text \<open>A token of the batch that is not in the partial page of its request is in a page taken from the front of the free list.\<close>

lemma new_token_page:
  assumes p: "0 < p" and b: "extend_batch pre_lens seq_lens last_locs" and al: "last_loc_ok p last_locs pre_lens"
    and enough: "extend_pages p pre_lens seq_lens \<le> int (length pages)" and d: "distinct pages"
    and t: "(i, k) \<in> set (batch_tokens pre_lens seq_lens)" and new: "\<not> k < num_pages_of p (pre_lens ! i) * p"
  shows "token_loc p pre_lens seq_lens last_locs pages (i, k) div p
    \<in> set pages - set (drop (nat (extend_pages p pre_lens seq_lens)) pages)"
proof -
  let ?n = "nat (extend_pages p pre_lens seq_lens)"
  obtain m where m: "token_loc p pre_lens seq_lens last_locs pages (i, k) div p = pages ! m" "m < length pages" "m < ?n"
    using token_page(2) [OF p b al enough t new] by (metis nat_less_iff zless_nat_conj zero_less_nat_eq nat_mono_iff order_le_less_trans)
  have "pages ! m \<in> set (take ?n pages)" using m(2,3) by (auto simp: in_set_conv_nth)
  moreover have "set (take ?n pages) \<inter> set (drop ?n pages) = {}" using d by (rule set_take_disj_set_drop_if_distinct) simp
  ultimately show ?thesis using m(1) set_take_subset [of ?n pages] by auto
qed

lemma length_extend_out:
  assumes "extend_batch pre_lens seq_lens last_locs"
  shows "length (extend_out p pre_lens seq_lens last_locs pages) = extend_tokens pre_lens seq_lens"
  using extend_out_start_length [OF assms order_refl, of p pages] by (simp add: extend_out_def extend_tokens_def length_concat o_def)

text \<open>
  C30: \<open>alloc_extend\<close> lays a batch out correctly, as long as its token count fits into 32 bits and
  its page count into 31, which the packed return value of the kernel needs. If the free pages
  suffice it returns one slot per new token, no slot twice; the token at position \<open>k\<close> of a sequence
  keeps the offset \<open>k mod page_size\<close> within its page, and its page is the partial page of its own
  request or was free before and is not free afterwards. Otherwise it returns \<open>None\<close> and changes
  nothing.
\<close>

theorem paged_extend_layout:
  assumes "pka_inv s" and "\<not> debug_mode s" and "p = int (pka_page_size s)"
    and "extend_batch pre_lens seq_lens last_locs" and "last_loc_ok p last_locs pre_lens"
    and "partial_pages_owned p pre_lens last_locs (free_pages s)"
    and "length buf = extend_tokens pre_lens seq_lens" and "extend_tokens pre_lens seq_lens < 2 ^ 32"
    and "extend_pages p pre_lens seq_lens < 2 ^ 31"
  shows "if int (length (free_pages s)) < extend_pages p pre_lens seq_lens
    then pka_alloc_extend s pre_lens seq_lens last_locs buf = Inr (None, s)
    else \<exists>s' loc. pka_alloc_extend s pre_lens seq_lens last_locs buf = Inr (Some (map loc (batch_tokens pre_lens seq_lens)), s') \<and>
      pka_inv s' \<and> length (batch_tokens pre_lens seq_lens) = extend_tokens pre_lens seq_lens \<and>
      distinct (map loc (batch_tokens pre_lens seq_lens)) \<and>
      int (length (free_pages s')) = int (length (free_pages s)) - extend_pages p pre_lens seq_lens \<and>
      (\<forall>(i, k) \<in> set (batch_tokens pre_lens seq_lens). loc (i, k) mod p = k mod p \<and>
         (if k < num_pages_of p (pre_lens ! i) * p then loc (i, k) div p = (last_locs ! i + 1) div p
          else loc (i, k) div p \<in> set (free_pages s) - set (free_pages s')))"
proof (cases "int (length (free_pages s)) < extend_pages p pre_lens seq_lens")
  case True
  then show ?thesis using alloc_extend_eq [OF assms(1,2,4,7,8)] assms(3,9) by (simp add: Let_def)
next
  case False
  let ?n = "nat (extend_pages p pre_lens seq_lens)" and ?loc = "token_loc p pre_lens seq_lens last_locs (free_pages s)"
  let ?s = "s\<lparr>free_pages := drop ?n (free_pages s)\<rparr>"
  have p: "0 < p" and inv: "distinct (free_pages s)" "pka_inv ?s"
    using assms(1,3) set_drop_subset [of ?n "free_pages s"] unfolding pka_inv_def by auto
  have enough: "extend_pages p pre_lens seq_lens \<le> int (length (free_pages s))" using False by simp
  have ret: "pka_alloc_extend s pre_lens seq_lens last_locs buf = Inr (Some (map ?loc (batch_tokens pre_lens seq_lens)), ?s)"
    using alloc_extend_eq [OF assms(1,2,4,7,8)] assms(3,9) False by (simp add: Let_def extend_out_tokens)
  have dist: "distinct (map ?loc (batch_tokens pre_lens seq_lens))"
    using extend_out_distinct [OF p assms(4,5) enough inv(1) assms(6)] by (simp add: extend_out_tokens)
  have len: "length (batch_tokens pre_lens seq_lens) = extend_tokens pre_lens seq_lens"
    using length_extend_out [OF assms(4), of p "free_pages s"] by (simp add: extend_out_tokens)
  have rest: "int (length (free_pages ?s)) = int (length (free_pages s)) - extend_pages p pre_lens seq_lens"
    using extend_ret_pages(2) [OF assms(4) p assms(8,9)] enough by simp
  have "?loc (i, k) mod p = k mod p \<and> (if k < num_pages_of p (pre_lens ! i) * p then ?loc (i, k) div p = (last_locs ! i + 1) div p
      else ?loc (i, k) div p \<in> set (free_pages s) - set (free_pages ?s))" if t: "(i, k) \<in> set (batch_tokens pre_lens seq_lens)" for i k
  proof -
    have "(last_locs ! i + 1) mod p = pre_lens ! i mod p" using assms(5) t by (auto simp: last_loc_ok_def set_batch_tokens)
    then have "?loc (i, k) mod p = k mod p" using extend_loc_mod [OF p] by (simp add: token_loc_def)
    then show ?thesis
      using token_page(1) [OF p assms(4,5) enough t] new_token_page [OF p assms(4,5) enough inv(1) t] by simp
  qed
  then have all: "\<forall>(i, k) \<in> set (batch_tokens pre_lens seq_lens). ?loc (i, k) mod p = k mod p \<and>
     (if k < num_pages_of p (pre_lens ! i) * p then ?loc (i, k) div p = (last_locs ! i + 1) div p
      else ?loc (i, k) div p \<in> set (free_pages s) - set (free_pages ?s))" by fast
  show ?thesis unfolding if_not_P [OF False]
    by (intro exI [of _ ?s] exI [of _ ?loc] conjI) (fact ret inv(2) len dist rest all)+
qed

text \<open>A sequence of three tokens in pages of two grows by two tokens, and a new one of one token starts.\<close>

definition demo_paged :: paged_allocator where
  "demo_paged = (pka_init 10 2 False)\<lparr>free_pages := [3, 4, 5]\<rparr>"

theorem paged_extend_layout_witness:
  "\<exists>s' x y z. pka_alloc_extend demo_paged [3, 0] [5, 1] [4, - 1] [0, 0, 0] = Inr (Some [x, y, z], s') \<and>
     distinct [x, y, z] \<and> x mod 2 = 1 \<and> x div 2 = 2 \<and> y mod 2 = 0 \<and> y div 2 \<in> {3, 4, 5} \<and> z mod 2 = 0 \<and> z div 2 \<in> {3, 4, 5}"
proof -
  have inv: "pka_inv demo_paged" by (simp add: demo_paged_def pka_inv_def pka_init_def pka_clear_def)
  have dbg: "\<not> debug_mode demo_paged" "2 = int (pka_page_size demo_paged)" "free_pages demo_paged = [3, 4, 5]"
    by (simp_all add: demo_paged_def pka_init_def pka_clear_def)
  have b: "extend_batch [3, 0] [5, 1] [4, - 1]" by (simp add: extend_batch_def less_Suc_eq)
  have l: "last_loc_ok 2 [4, - 1] [3, 0]" by (simp add: last_loc_ok_def less_Suc_eq)
  have own: "partial_pages_owned 2 [3, 0] [4, - 1] (free_pages demo_paged)" by (simp add: partial_pages_owned_def less_Suc_eq dbg(3))
  have n: "length [0, 0, 0 :: int] = extend_tokens [3, 0] [5, 1]" "extend_tokens [3, 0] [5, 1] < 2 ^ 32"
    "extend_pages 2 [3, 0] [5, 1] = 2"
    by (simp_all add: extend_tokens_def out_start_def extend_pages_def page_start_def num_pages_of_def)
  have t: "batch_tokens [3, 0] [5, 1] = [(0, 3), (0, 4), (1, 0)]" by code_simp
  have lim: "extend_pages 2 [3, 0] [5, 1] < 2 ^ 31" "\<not> int (length (free_pages demo_paged)) < extend_pages 2 [3, 0] [5, 1]"
    using n(3) by (simp_all add: dbg(3))
  let ?T = "batch_tokens [3, 0] [5, 1]" and ?call = "pka_alloc_extend demo_paged [3, 0] [5, 1] [4, - 1] [0, 0, 0]"
  let ?at = "\<lambda>s' loc (i, k). loc (i, k) mod 2 = k mod 2 \<and>
       (if k < num_pages_of 2 ([3, 0] ! i) * 2 then loc (i, k) div 2 = ([4, - 1] ! i + 1) div 2
        else loc (i, k) div 2 \<in> set (free_pages demo_paged) - set (free_pages s'))"
  have "\<exists>s' loc. ?call = Inr (Some (map loc ?T), s') \<and> pka_inv s' \<and> length ?T = extend_tokens [3, 0] [5, 1] \<and> distinct (map loc ?T) \<and>
      int (length (free_pages s')) = int (length (free_pages demo_paged)) - extend_pages 2 [3, 0] [5, 1] \<and> (\<forall>x\<in>set ?T. ?at s' loc x)"
    using paged_extend_layout [OF inv dbg(1,2) b l own n(1,2) lim(1)] unfolding if_not_P [OF lim(2)] .
  then obtain s' and loc :: "nat \<times> int \<Rightarrow> int" where
    r: "?call = Inr (Some (map loc ?T), s')" "distinct (map loc ?T)" "\<forall>x\<in>set ?T. ?at s' loc x" by blast
  have "loc (0, 3) mod 2 = 1" "loc (0, 3) div 2 = 2" "loc (0, 4) mod 2 = 0" "loc (0, 4) div 2 \<in> {3, 4, 5}"
    "loc (1, 0) mod 2 = 0" "loc (1, 0) div 2 \<in> {3, 4, 5}"
    using r(3) by (simp_all add: t num_pages_of_def dbg(3))
  then show ?thesis using r(1,2) unfolding t by (intro exI [of _ s'] exI [of _ "loc (0, 3)"] exI [of _ "loc (0, 4)"] exI [of _ "loc (1, 0)"]) simp
qed

end
