(* ===== verification/Radix_Tree.thy ===== *)
theory Radix_Tree
  imports Paged_Alloc
begin

text \<open>
  The radix tree of \<open>mem_cache/radix_cache.py\<close>: its nodes, the matching, splitting and
  inserting helpers, and the reference counts. Nodes are objects with parent pointers and
  child dictionaries that the code mutates in place, so the model keeps an explicit store from
  node identities to node records and every operation returns the updated cache.

  A call returns \<open>None\<close> where the code would not return normally (an endless loop or an
  attribute access on \<open>None\<close>); the theorems show that on well-formed caches it returns.
  \<open>time.monotonic()\<close> is an input: \<open>clock k\<close> is what the \<open>k\<close>-th reading returns and \<open>ticks\<close>
  counts the readings. \<open>hash\<close> on tuples is the parameter \<open>pyhash\<close>.
\<close>

section \<open>TreeNode\<close>

text \<open>
  \<open>n_children\<close> is the insertion-ordered child dictionary; its keys are the first page of the
  child's key (for \<open>page_size = 1\<close> the code uses the bare first token, here the list of it).
\<close>

record tree_node =
  n_children :: "(token list \<times> node_id) list"
  n_parent :: "node_id option"
  n_key :: "token list"
  n_value :: "slot list option"
  n_lock_ref :: int
  n_last_access_time :: nat
  n_hit_count :: nat
  n_loading :: bool
  n_host_value :: "slot list option"

definition tree_node_init :: "nat \<Rightarrow> tree_node" where
  "tree_node_init now =
     \<lparr>n_children = [], n_parent = None, n_key = [], n_value = None, n_lock_ref = 0,
      n_last_access_time = now, n_hit_count = 0, n_loading = False, n_host_value = None\<rparr>"

definition evicted :: "tree_node \<Rightarrow> bool" where
  "evicted n \<longleftrightarrow> n_value n = None"

definition backuped :: "tree_node \<Rightarrow> bool" where
  "backuped n \<longleftrightarrow> n_host_value n \<noteq> None"

definition node_lt :: "tree_node \<Rightarrow> tree_node \<Rightarrow> bool" where
  "node_lt a b \<longleftrightarrow> n_last_access_time a < n_last_access_time b"

text \<open>The KV slots of a node; in a \<open>RadixCache\<close> no live node is without them.\<close>

definition nval :: "tree_node \<Rightarrow> slot list" where
  "nval n = (case n_value n of None \<Rightarrow> [] | Some v \<Rightarrow> v)"

section \<open>Key matching\<close>

fun key_match_page_size1 :: "token list \<Rightarrow> token list \<Rightarrow> nat" where
  "key_match_page_size1 (k0 # key0) (k1 # key1) =
     (if k0 \<noteq> k1 then 0 else Suc (key_match_page_size1 key0 key1))"
| "key_match_page_size1 _ _ = 0"

text \<open>The page size is positive; with 0 the source's loop would not advance.\<close>

function key_match_paged_from :: "nat \<Rightarrow> token list \<Rightarrow> token list \<Rightarrow> nat \<Rightarrow> nat" where
  "key_match_paged_from p key0 key1 i =
     (if 0 < p \<and> i < min (length key0) (length key1) then
        (if seg key0 i (i + p) \<noteq> seg key1 i (i + p) then i
         else key_match_paged_from p key0 key1 (i + p))
      else i)"
  by pat_completeness auto
termination
  by (relation "measure (\<lambda>(p, k0, k1, i). length k0 - i)") auto

declare key_match_paged_from.simps [simp del]

definition key_match_paged :: "nat \<Rightarrow> token list \<Rightarrow> token list \<Rightarrow> nat" where
  "key_match_paged p key0 key1 = key_match_paged_from p key0 key1 0"

section \<open>RadixCache: state\<close>

datatype kv_event =
    BlockStored "int list" int "token list" nat "int option"
  | BlockRemoved "int list"
  | AllBlocksCleared

text \<open>The KV allocator behind the cache: one of the two allocator classes.\<close>

datatype kv_alloc = TokenAlloc token_allocator | PagedAlloc paged_allocator

fun kv_free :: "kv_alloc \<Rightarrow> slot list \<Rightarrow> kv_alloc result" where
  "kv_free (TokenAlloc a) xs = Inr (TokenAlloc (tka_free a xs))"
| "kv_free (PagedAlloc a) xs =
     (case pka_free a xs of Inl e \<Rightarrow> Inl e | Inr a' \<Rightarrow> Inr (PagedAlloc a'))"

record radix_cache =
  req_pool :: req_to_token_pool
  kv_pool :: kv_alloc
  page_size :: nat
  cache_disable :: bool
  enable_kv_cache_events :: bool
  kv_event_queue :: "kv_event list"
  nodes :: "node_id \<Rightarrow> tree_node"
  node_counter :: nat
  root_node :: node_id
  evictable_sz :: int
  protected_sz :: int
  ticks :: nat
  clock :: "nat \<Rightarrow> nat"
  pyhash :: "token list \<Rightarrow> int"

definition key_match_fn :: "radix_cache \<Rightarrow> token list \<Rightarrow> token list \<Rightarrow> nat" where
  "key_match_fn c = (if page_size c = 1 then key_match_page_size1 else key_match_paged (page_size c))"

definition get_child_key_fn :: "radix_cache \<Rightarrow> token list \<Rightarrow> token list" where
  "get_child_key_fn c ks = take (page_size c) ks"

text \<open>Writing one node object.\<close>

definition upd_node :: "radix_cache \<Rightarrow> node_id \<Rightarrow> (tree_node \<Rightarrow> tree_node) \<Rightarrow> radix_cache" where
  "upd_node c n f = c\<lparr>nodes := (nodes c)(n := f (nodes c n))\<rparr>"

definition touch :: "radix_cache \<Rightarrow> node_id \<Rightarrow> radix_cache" where
  "touch c n =
     (upd_node c n (\<lambda>x. x\<lparr>n_last_access_time := clock c (ticks c)\<rparr>))\<lparr>ticks := Suc (ticks c)\<rparr>"

definition new_tree_node :: "radix_cache \<Rightarrow> node_id \<times> radix_cache" where
  "new_tree_node c =
     (node_counter c,
      c\<lparr>nodes := (nodes c)(node_counter c := tree_node_init (clock c (ticks c))),
        node_counter := Suc (node_counter c), ticks := Suc (ticks c)\<rparr>)"

subsection \<open>KV cache events\<close>

definition record_store_event :: "radix_cache \<Rightarrow> node_id \<Rightarrow> radix_cache" where
  "record_store_event c n =
     (if enable_kv_cache_events c then
        (case n_parent (nodes c n) of
           None \<Rightarrow> c
         | Some q \<Rightarrow>
             c\<lparr>kv_event_queue := kv_event_queue c @
                [BlockStored [pyhash c (n_key (nodes c n))] (pyhash c (n_key (nodes c q)))
                   (n_key (nodes c n)) (length (n_key (nodes c n))) None]\<rparr>)
      else c)"

definition record_remove_event :: "radix_cache \<Rightarrow> node_id \<Rightarrow> radix_cache" where
  "record_remove_event c n =
     (if enable_kv_cache_events c then
        c\<lparr>kv_event_queue := kv_event_queue c @ [BlockRemoved [pyhash c (n_key (nodes c n))]]\<rparr>
      else c)"

definition record_all_cleared_event :: "radix_cache \<Rightarrow> radix_cache" where
  "record_all_cleared_event c =
     (if enable_kv_cache_events c then c\<lparr>kv_event_queue := kv_event_queue c @ [AllBlocksCleared]\<rparr>
      else c)"

definition take_events :: "radix_cache \<Rightarrow> kv_event list \<times> radix_cache" where
  "take_events c =
     (if \<not> enable_kv_cache_events c then ([], c)
      else (kv_event_queue c, c\<lparr>kv_event_queue := []\<rparr>))"

subsection \<open>Reset\<close>

definition radix_reset :: "radix_cache \<Rightarrow> radix_cache" where
  "radix_reset c =
     (case new_tree_node c of (r, c1) \<Rightarrow>
        record_all_cleared_event
          ((upd_node c1 r (\<lambda>x. x\<lparr>n_key := [], n_value := Some [], n_lock_ref := 1\<rparr>))
             \<lparr>root_node := r, evictable_sz := 0, protected_sz := 0\<rparr>))"

definition radix_init ::
  "req_to_token_pool \<Rightarrow> kv_alloc \<Rightarrow> nat \<Rightarrow> bool \<Rightarrow> bool \<Rightarrow> (nat \<Rightarrow> nat) \<Rightarrow> (token list \<Rightarrow> int) \<Rightarrow> radix_cache" where
  "radix_init pool alloc p disable events clk hsh =
     radix_reset
       \<lparr>req_pool = pool, kv_pool = alloc, page_size = p, cache_disable = disable,
        enable_kv_cache_events = events, kv_event_queue = [], nodes = (\<lambda>_. tree_node_init 0),
        node_counter = 0, root_node = 0, evictable_sz = 0, protected_sz = 0,
        ticks = 0, clock = clk, pyhash = hsh\<rparr>"

subsection \<open>Splitting a node\<close>

text \<open>\<open>new_node -> child\<close>: the new node takes the first \<open>split_len\<close> tokens of the child.\<close>

definition split_node :: "radix_cache \<Rightarrow> token list \<Rightarrow> node_id \<Rightarrow> nat \<Rightarrow> (node_id \<times> radix_cache) option" where
  "split_node c ks child split_len =
    (case new_tree_node (record_remove_event c child) of (new, c1) \<Rightarrow>
       let x = nodes c1 child in
       case n_parent x of
         None \<Rightarrow> None
       | Some q \<Rightarrow>
           (let c2 = upd_node c1 new (\<lambda>y. y\<lparr>n_children := [(get_child_key_fn c1 (drop split_len ks), child)],
                       n_parent := Some q, n_lock_ref := n_lock_ref x,
                       n_key := take split_len (n_key x),
                       n_value := map_option (take split_len) (n_value x)\<rparr>);
                c3 = upd_node c2 child (\<lambda>y. y\<lparr>n_parent := Some new,
                       n_key := drop split_len (n_key x),
                       n_value := map_option (drop split_len) (n_value x)\<rparr>);
                c4 = upd_node c3 q (\<lambda>y. y\<lparr>n_children :=
                       AList.update (get_child_key_fn c3 ks) new (n_children y)\<rparr>);
                c5 = record_store_event (record_store_event c4 new) child
            in Some (new, c5)))"

subsection \<open>Matching a prefix\<close>

partial_function (option) match_loop ::
  "radix_cache \<Rightarrow> node_id \<Rightarrow> token list \<Rightarrow> slot list list \<Rightarrow> (slot list list \<times> node_id \<times> radix_cache) option"
where
  "match_loop c node ks acc =
    (if ks = [] then Some (acc, node, c)
     else
       (case map_of (n_children (nodes c node)) (get_child_key_fn c ks) of
          None \<Rightarrow> Some (acc, node, c)
        | Some child \<Rightarrow>
            (let c1 = touch c child;
                 ck = n_key (nodes c1 child);
                 prefix_len = key_match_fn c1 ck ks
             in if prefix_len < length ck then
                  (case split_node c1 ck child prefix_len of
                     None \<Rightarrow> None
                   | Some (new, c2) \<Rightarrow> Some (acc @ [nval (nodes c2 new)], new, c2))
                else
                  match_loop c1 child (drop prefix_len ks) (acc @ [nval (nodes c1 child)]))))"

definition match_prefix_helper ::
  "radix_cache \<Rightarrow> node_id \<Rightarrow> token list \<Rightarrow> (slot list list \<times> node_id \<times> radix_cache) option" where
  "match_prefix_helper c node ks = match_loop (touch c node) node ks []"

definition match_prefix ::
  "radix_cache \<Rightarrow> token list \<Rightarrow> (slot list \<times> node_id \<times> radix_cache) option" where
  "match_prefix c ks =
    (if cache_disable c \<or> ks = [] then Some ([], root_node c, c)
     else
       (let ks' = (if page_size c \<noteq> 1 then take (page_floor (page_size c) (length ks)) ks else ks)
        in case match_prefix_helper c (root_node c) ks' of
             None \<Rightarrow> None
           | Some (vs, last_node, c') \<Rightarrow> Some (concat vs, last_node, c')))"

subsection \<open>Inserting\<close>

partial_function (option) insert_loop ::
  "radix_cache \<Rightarrow> node_id \<Rightarrow> token list \<Rightarrow> slot list \<Rightarrow> nat \<Rightarrow>
   (node_id \<times> token list \<times> slot list \<times> nat \<times> radix_cache) option"
where
  "insert_loop c node ks vs tot =
    (if ks = [] then Some (node, ks, vs, tot, c)
     else
       (case map_of (n_children (nodes c node)) (get_child_key_fn c ks) of
          None \<Rightarrow> Some (node, ks, vs, tot, c)
        | Some child \<Rightarrow>
            (let c1 = touch c child;
                 ck = n_key (nodes c1 child);
                 prefix_len = key_match_fn c1 ck ks
             in if prefix_len < length ck then
                  (case split_node c1 ck child prefix_len of
                     None \<Rightarrow> None
                   | Some (new, c2) \<Rightarrow>
                       insert_loop c2 new (drop prefix_len ks) (drop prefix_len vs) (tot + prefix_len))
                else
                  insert_loop c1 child (drop prefix_len ks) (drop prefix_len vs) (tot + prefix_len))))"

definition add_leaf :: "radix_cache \<Rightarrow> node_id \<Rightarrow> token list \<Rightarrow> slot list \<Rightarrow> radix_cache" where
  "add_leaf c node ks vs =
    (case new_tree_node c of (new, c1) \<Rightarrow>
       let c2 = upd_node c1 new (\<lambda>y. y\<lparr>n_parent := Some node, n_key := ks, n_value := Some vs\<rparr>);
           c3 = upd_node c2 node (\<lambda>y. y\<lparr>n_children :=
                  AList.update (get_child_key_fn c2 ks) new (n_children y)\<rparr>)
       in record_store_event
            (c3\<lparr>evictable_sz := evictable_sz c3 + int (length vs)\<rparr>) new)"

definition insert_helper ::
  "radix_cache \<Rightarrow> node_id \<Rightarrow> token list \<Rightarrow> slot list \<Rightarrow> (nat \<times> radix_cache) option" where
  "insert_helper c node ks vs =
    (let c0 = touch c node in
     if ks = [] then Some (0, c0)
     else
       (case insert_loop c0 node ks vs 0 of
          None \<Rightarrow> None
        | Some (n', ks', vs', tot, c1) \<Rightarrow>
            if ks' \<noteq> [] then Some (tot, add_leaf c1 n' ks' vs') else Some (tot, c1)))"

text \<open>\<open>insert\<close>; without a value the tokens themselves are stored.\<close>

definition radix_insert ::
  "radix_cache \<Rightarrow> token list \<Rightarrow> slot list option \<Rightarrow> (nat \<times> radix_cache) option" where
  "radix_insert c ks val =
    (if cache_disable c then Some (0, c)
     else insert_helper c (root_node c) ks (case val of None \<Rightarrow> ks | Some vs \<Rightarrow> vs))"

subsection \<open>Reference counts\<close>

partial_function (option) inc_lock_loop ::
  "radix_cache \<Rightarrow> node_id \<Rightarrow> int \<Rightarrow> (int \<times> radix_cache) option"
where
  "inc_lock_loop c node delta =
    (if node = root_node c then Some (delta, c)
     else
       (let x = nodes c node; len = int (length (nval x));
            c1 = (if n_lock_ref x = 0 then
                    c\<lparr>evictable_sz := evictable_sz c - len,
                      protected_sz := protected_sz c + len\<rparr>
                  else c);
            delta1 = (if n_lock_ref x = 0 then delta - len else delta);
            c2 = upd_node c1 node (\<lambda>y. y\<lparr>n_lock_ref := n_lock_ref y + 1\<rparr>)
        in case n_parent x of
             None \<Rightarrow> None
           | Some q \<Rightarrow> inc_lock_loop c2 q delta1))"

definition inc_lock_ref :: "radix_cache \<Rightarrow> node_id \<Rightarrow> (int \<times> radix_cache) option" where
  "inc_lock_ref c node = (if cache_disable c then Some (0, c) else inc_lock_loop c node 0)"

partial_function (option) dec_lock_loop ::
  "radix_cache \<Rightarrow> node_id \<Rightarrow> int \<Rightarrow> (int \<times> radix_cache) option"
where
  "dec_lock_loop c node delta =
    (if node = root_node c then Some (delta, c)
     else
       (let x = nodes c node; len = int (length (nval x));
            c1 = (if n_lock_ref x = 1 then
                    c\<lparr>evictable_sz := evictable_sz c + len,
                      protected_sz := protected_sz c - len\<rparr>
                  else c);
            delta1 = (if n_lock_ref x = 1 then delta + len else delta);
            c2 = upd_node c1 node (\<lambda>y. y\<lparr>n_lock_ref := n_lock_ref y - 1\<rparr>)
        in case n_parent x of
             None \<Rightarrow> None
           | Some q \<Rightarrow> dec_lock_loop c2 q delta1))"

definition dec_lock_ref :: "radix_cache \<Rightarrow> node_id \<Rightarrow> (int \<times> radix_cache) option" where
  "dec_lock_ref c node = (if cache_disable c then Some (0, c) else dec_lock_loop c node 0)"

definition evictable_size :: "radix_cache \<Rightarrow> int" where
  "evictable_size c = evictable_sz c"

definition protected_size :: "radix_cache \<Rightarrow> int" where
  "protected_size c = protected_sz c"

end
