(* ===== verification/Radix_Inv.thy ===== *)
theory Radix_Inv
  imports Radix_Tree
begin

text \<open>
  Well-formedness of the radix tree and its abstraction. A node store is well-formed for a set
  \<open>L\<close> of live nodes and a labelling \<open>P\<close> of each live node with the tokens on the path from
  the root to it. What a cache stores is its set of pages: pairs of a page-aligned token prefix
  and the KV slots of the last page of it.
\<close>

section \<open>Key matching\<close>

lemma key_match1_props:
  "key_match_page_size1 a b \<le> length a" "key_match_page_size1 a b \<le> length b"
  "take (key_match_page_size1 a b) a = take (key_match_page_size1 a b) b"
  "key_match_page_size1 a b < length a \<Longrightarrow> key_match_page_size1 a b < length b \<Longrightarrow>
   a ! key_match_page_size1 a b \<noteq> b ! key_match_page_size1 a b"
  by (induction a b rule: key_match_page_size1.induct) (auto split: if_splits)

lemma seg_page: "seg xs i (i + p) = take p (drop i xs)"
  by (simp add: seg_def take_drop add.commute)

lemma key_match_paged_from_props:
  assumes "0 < p" and "p dvd length a" and "p dvd length b" and "p dvd i"
    and "i \<le> length a" and "i \<le> length b" and "take i a = take i b"
  defines "m \<equiv> key_match_paged_from p a b i"
  shows "p dvd m \<and> i \<le> m \<and> m \<le> length a \<and> m \<le> length b \<and> take m a = take m b \<and>
    (m < length a \<longrightarrow> m < length b \<longrightarrow> take p (drop m a) \<noteq> take p (drop m b))"
  unfolding m_def using assms(1-7)
proof (induction p a b i rule: key_match_paged_from.induct)
  case (1 p a b i)
  show ?case
  proof (cases "i < min (length a) (length b) \<and> seg a i (i + p) = seg b i (i + p)")
    case False
    then have "key_match_paged_from p a b i = i"
      using "1.prems"(1) by (auto simp: key_match_paged_from.simps [of p a b i])
    then show ?thesis using "1.prems" False by (auto simp: seg_page)
  next
    case True
    have step: "i + p \<le> length xs" if "p dvd length xs" "i < length xs" for xs :: "token list"
      using that \<open>p dvd i\<close> \<open>0 < p\<close>
      by (metis add_diff_cancel_left' dvd_diff_nat dvd_imp_le le_add_diff_inverse2 le_add_diff_inverse
          less_imp_le_nat add.commute nat_add_left_cancel_le zero_less_diff)
    have "take (i + p) a = take (i + p) b"
      using True "1.prems" by (simp add: take_add seg_page)
    then have "p dvd key_match_paged_from p a b (i + p) \<and> i + p \<le> key_match_paged_from p a b (i + p) \<and>
      key_match_paged_from p a b (i + p) \<le> length a \<and> key_match_paged_from p a b (i + p) \<le> length b \<and>
      take (key_match_paged_from p a b (i + p)) a = take (key_match_paged_from p a b (i + p)) b \<and>
      (key_match_paged_from p a b (i + p) < length a \<longrightarrow> key_match_paged_from p a b (i + p) < length b \<longrightarrow>
       take p (drop (key_match_paged_from p a b (i + p)) a) \<noteq>
       take p (drop (key_match_paged_from p a b (i + p)) b))"
      using True "1.prems" step by (intro "1.IH") (auto simp: dvd_add)
    then show ?thesis
      using True "1.prems"(1) by (simp add: key_match_paged_from.simps [of p a b i])
  qed
qed

text \<open>Both matching functions return the length of the longest common page-aligned prefix.\<close>

lemma key_match_props:
  assumes p: "0 < page_size c" and a: "page_size c dvd length a" and b: "page_size c dvd length b"
  shows "page_size c dvd key_match_fn c a b" and "key_match_fn c a b \<le> length a"
    and "key_match_fn c a b \<le> length b"
    and "take (key_match_fn c a b) a = take (key_match_fn c a b) b"
    and "key_match_fn c a b < length a \<Longrightarrow> key_match_fn c a b < length b \<Longrightarrow>
      take (page_size c) (drop (key_match_fn c a b) a) \<noteq> take (page_size c) (drop (key_match_fn c a b) b)"
proof -
  let ?m = "key_match_fn c a b"
  have "page_size c dvd ?m \<and> ?m \<le> length a \<and> ?m \<le> length b \<and> take ?m a = take ?m b \<and>
    (?m < length a \<longrightarrow> ?m < length b \<longrightarrow> take (page_size c) (drop ?m a) \<noteq> take (page_size c) (drop ?m b))"
  proof (cases "page_size c = 1")
    case True
    then have m: "?m = key_match_page_size1 a b" by (simp add: key_match_fn_def)
    show ?thesis
      using key_match1_props [of a b] True unfolding m
      by (auto simp: take_Suc_conv_app_nth hd_drop_conv_nth Cons_nth_drop_Suc [symmetric])
  next
    case False
    then show ?thesis
      using key_match_paged_from_props [OF p a b, of 0]
      by (simp add: key_match_fn_def key_match_paged_def)
  qed
  then show "page_size c dvd ?m" "?m \<le> length a" "?m \<le> length b" "take ?m a = take ?m b"
    "?m < length a \<Longrightarrow> ?m < length b \<Longrightarrow>
      take (page_size c) (drop ?m a) \<noteq> take (page_size c) (drop ?m b)"
    by auto
qed

section \<open>Well-formed trees\<close>

definition tree_wf ::
  "nat \<Rightarrow> (node_id \<Rightarrow> tree_node) \<Rightarrow> node_id \<Rightarrow> nat \<Rightarrow> node_id set \<Rightarrow> (node_id \<Rightarrow> token list) \<Rightarrow> bool" where
  "tree_wf p ns r cnt L P \<longleftrightarrow>
     0 < p \<and> finite L \<and> r \<in> L \<and> L \<subseteq> {..<cnt} \<and>
     n_key (ns r) = [] \<and> n_value (ns r) = Some [] \<and> P r = [] \<and>
     (\<forall>n\<in>L. distinct (map fst (n_children (ns n)))) \<and>
     (\<forall>n\<in>L. \<forall>k m. (k, m) \<in> set (n_children (ns n)) \<longrightarrow>
        m \<in> L \<and> m \<noteq> r \<and> n_parent (ns m) = Some n \<and> k = take p (n_key (ns m))) \<and>
     (\<forall>m\<in>L. m \<noteq> r \<longrightarrow>
        n_key (ns m) \<noteq> [] \<and> p dvd length (n_key (ns m)) \<and>
        n_value (ns m) = Some (nval (ns m)) \<and> length (nval (ns m)) = length (n_key (ns m)) \<and>
        (\<exists>n\<in>L. n_parent (ns m) = Some n \<and> (take p (n_key (ns m)), m) \<in> set (n_children (ns n)) \<and>
           P m = P n @ n_key (ns m)))"

definition child_of :: "(node_id \<Rightarrow> tree_node) \<Rightarrow> node_id \<Rightarrow> node_id \<Rightarrow> bool" where
  "child_of ns n m \<longleftrightarrow> m \<in> snd ` set (n_children (ns n))"

text \<open>Destruction rules; \<open>wf_parent\<close> names the parent of a node below the root.\<close>

lemma wf_basic:
  assumes "tree_wf p ns r cnt L P"
  shows "0 < p" "finite L" "r \<in> L" "L \<subseteq> {..<cnt}" "n_key (ns r) = []" "n_value (ns r) = Some []"
    "P r = []" "nval (ns r) = []"
  using assms by (auto simp: tree_wf_def nval_def)

lemma wf_child:
  assumes "tree_wf p ns r cnt L P" and "n \<in> L" and "child_of ns n m"
  shows "m \<in> L" "m \<noteq> r" "n_parent (ns m) = Some n" "P m = P n @ n_key (ns m)"
    "(take p (n_key (ns m)), m) \<in> set (n_children (ns n))"
proof -
  obtain k where km: "(k, m) \<in> set (n_children (ns n))"
    using assms(3) by (auto simp: child_of_def)
  show m: "m \<in> L" "m \<noteq> r" and par: "n_parent (ns m) = Some n"
    and "(take p (n_key (ns m)), m) \<in> set (n_children (ns n))"
    using assms(1,2) km unfolding tree_wf_def by blast+
  then obtain n' where "n_parent (ns m) = Some n'" "P m = P n' @ n_key (ns m)"
    using assms(1) unfolding tree_wf_def by blast
  with par show "P m = P n @ n_key (ns m)" by simp
qed

lemma wf_node:
  assumes "tree_wf p ns r cnt L P" and "m \<in> L" and "m \<noteq> r"
  shows "n_key (ns m) \<noteq> []" "p dvd length (n_key (ns m))" "n_value (ns m) = Some (nval (ns m))"
    "length (nval (ns m)) = length (n_key (ns m))" "p \<le> length (n_key (ns m))"
proof -
  show k: "n_key (ns m) \<noteq> []" "p dvd length (n_key (ns m))" "n_value (ns m) = Some (nval (ns m))"
    "length (nval (ns m)) = length (n_key (ns m))"
    using assms unfolding tree_wf_def by blast+
  then show "p \<le> length (n_key (ns m))" by (simp add: dvd_imp_le)
qed

lemma wf_parent:
  assumes "tree_wf p ns r cnt L P" and "m \<in> L" and "m \<noteq> r"
  obtains n where "n \<in> L" "n_parent (ns m) = Some n" "child_of ns n m" "P m = P n @ n_key (ns m)"
proof -
  obtain n where "n \<in> L" "n_parent (ns m) = Some n" "(take p (n_key (ns m)), m) \<in> set (n_children (ns n))"
    "P m = P n @ n_key (ns m)"
    using assms unfolding tree_wf_def by blast
  then show thesis by (intro that) (force simp: child_of_def)+
qed

lemma wf_distinct: "tree_wf p ns r cnt L P \<Longrightarrow> n \<in> L \<Longrightarrow> distinct (map fst (n_children (ns n)))"
  by (simp add: tree_wf_def)

lemma wf_dvd_path: "tree_wf p ns r cnt L P \<Longrightarrow> n \<in> L \<Longrightarrow> p dvd length (P n)"
proof (induction "length (P n)" arbitrary: n rule: less_induct)
  case less
  show ?case
  proof (cases "n = r")
    case True
    then show ?thesis using wf_basic [OF less.prems(1)] by simp
  next
    case False
    then obtain q where "q \<in> L" "P n = P q @ n_key (ns n)"
      using wf_parent [OF less.prems] by metis
    moreover have "n_key (ns n) \<noteq> []" "p dvd length (n_key (ns n))"
      using wf_node [OF less.prems False] by auto
    ultimately show ?thesis using less by simp
  qed
qed

text \<open>Two children of a node whose paths agree with the same string are the same node.\<close>

lemma wf_same_child:
  assumes wf: "tree_wf p ns r cnt L P" and q: "q \<in> L" and c: "child_of ns q c" and m: "child_of ns q m"
    and zc: "take p (n_key (ns c)) = take p (drop (length (P q)) z)"
    and zm: "take p (n_key (ns m)) = take p (drop (length (P q)) z)"
  shows "c = m"
proof -
  have "(take p (n_key (ns c)), c) \<in> set (n_children (ns q))"
    "(take p (n_key (ns c)), m) \<in> set (n_children (ns q))"
    using wf_child [OF wf q c] wf_child [OF wf q m] zc zm by auto
  then show ?thesis
    using wf_distinct [OF wf q] by (meson eq_key_imp_eq_value)
qed

lemma wf_first_page:
  assumes wf: "tree_wf p ns r cnt L P" and q: "q \<in> L" and c: "child_of ns q c"
    and pre: "prefix (P c) z"
  shows "take p (n_key (ns c)) = take p (drop (length (P q)) z)"
proof -
  note ch = wf_child [OF wf q c]
  have "p \<le> length (n_key (ns c))" using wf_node [OF wf ch(1,2)] by simp
  then show ?thesis using pre by (auto simp: prefix_def ch(4))
qed

lemma wf_first_page_within:
  assumes wf: "tree_wf p ns r cnt L P" and q: "q \<in> L" and c: "child_of ns q c"
    and z: "prefix z (P c)" and len: "length (P q) + p \<le> length z"
  shows "take p (n_key (ns c)) = take p (drop (length (P q)) z)"
proof -
  note ch = wf_child [OF wf q c]
  obtain w where w: "P q @ n_key (ns c) = z @ w" using z ch(4) by (auto simp: prefix_def)
  then have "n_key (ns c) = drop (length (P q)) z @ w"
    using len by (metis append_eq_conv_conj drop_append add_leD1 diff_is_0_eq drop0)
  then show ?thesis using len by simp
qed

lemma wf_gap:
  assumes "tree_wf p ns r cnt L P" and "n \<in> L" and "p dvd length z" and "length (P n) < length z"
  shows "length (P n) + p \<le> length z"
proof -
  have "p dvd length z - length (P n)" using assms wf_dvd_path by simp
  then have "p \<le> length z - length (P n)" using assms(4) by (simp add: dvd_imp_le)
  then show ?thesis using assms(4) by simp
qed

text \<open>
  If the path of a live node is a prefix of the path of another, the first is an ancestor of
  the second: they are equal or a child of the first lies between them.
\<close>

lemma wf_one_child:
  assumes wf: "tree_wf p ns r cnt L P" and "q \<in> L" and "child_of ns q c" "prefix (P c) x" and "child_of ns q d" "prefix (P d) x"
  shows "c = d"
  using wf_same_child [OF wf assms(2), of c d x] wf_first_page [OF wf assms(2)] assms(3-6) by blast

text \<open>Two nodes on the same path whose parents are comparable: the longer one is the other, or below it.\<close>

lemma wf_parents_meet:
  assumes wf: "tree_wf p ns r cnt L P" and q: "q \<in> L" "child_of ns q m" and q2: "q2 \<in> L" "child_of ns q2 n"
    and nm: "prefix (P n) (P m)" and longer: "length (P q) < length (P n)"
    and meet: "q2 = q \<or> (\<exists>c. child_of ns q2 c \<and> prefix (P c) (P q)) \<or> (\<exists>c. child_of ns q c \<and> prefix (P c) (P q2))"
    and qm: "prefix (P q) (P m)" and q2m: "prefix (P q2) (P n)" "length (P q2) < length (P n)"
  shows "n = m"
proof -
  have q2m': "prefix (P q2) (P m)" using q2m(1) nm by (rule prefix_order.trans)
  from meet consider "q2 = q" | c where "child_of ns q2 c" "prefix (P c) (P q)" | c where "child_of ns q c" "prefix (P c) (P q2)" by blast
  then show ?thesis
  proof cases
    case 1
    then show ?thesis using wf_one_child [OF wf q(1), of n "P m" m] q2(2) q(2) nm by simp
  next
    case (2 c)
    then have "c = n" using wf_one_child [OF wf q2(1), of c "P m" n] q2(2) nm qm prefix_order.trans by blast
    then show ?thesis using 2(2) longer by (auto dest: prefix_length_le)
  next
    case (3 c)
    then have "c = m" using wf_one_child [OF wf q(1), of c "P m" m] q(2) q2m' prefix_order.trans by blast
    then show ?thesis using 3(2) q2m(2) nm by (auto dest!: prefix_length_le)
  qed
qed

lemma wf_ancestor:
  assumes wf: "tree_wf p ns r cnt L P"
  shows "n \<in> L \<Longrightarrow> m \<in> L \<Longrightarrow> prefix (P n) (P m) \<Longrightarrow> n = m \<or> (\<exists>c. child_of ns n c \<and> prefix (P c) (P m))"
proof (induction "length (P m)" arbitrary: n m rule: less_induct)
  case less
  note prems = less.prems
  show ?case
  proof (cases "m = r")
    case True
    then have "P n = []" using prems wf_basic [OF wf] by simp
    then have "n = r"
      using wf_parent [OF wf prems(1)] wf_node(1) [OF wf prems(1)] by fastforce
    then show ?thesis using True by simp
  next
    case False
    obtain q where q: "q \<in> L" "child_of ns q m" "P m = P q @ n_key (ns m)"
      using wf_parent [OF wf prems(2) False] by metis
    have qm: "length (P q) < length (P m)" "prefix (P q) (P m)" using q wf_node [OF wf prems(2) False] by auto
    show ?thesis
    proof (cases "length (P n) \<le> length (P q)")
      case True
      then have "prefix (P n) (P q)" using prems(3) qm by (meson prefix_length_prefix)
      then have "n = q \<or> (\<exists>c. child_of ns n c \<and> prefix (P c) (P q))" using less.hyps [OF qm(1) prems(1) q(1)] by blast
      then show ?thesis using q qm prefix_order.trans by blast
    next
      case longer: False
      then have "n \<noteq> r" using wf_basic [OF wf] by auto
      then obtain q2 where q2: "q2 \<in> L" "child_of ns q2 n" "P n = P q2 @ n_key (ns n)"
        using wf_parent [OF wf prems(1)] by metis
      then have q2n: "prefix (P q2) (P n)" "length (P q2) < length (P n)" using wf_node [OF wf prems(1) \<open>n \<noteq> r\<close>] by auto
      then have q2m: "prefix (P q2) (P m)" "length (P q2) < length (P m)"
        using prems(3) prefix_length_le [OF prems(3)] prefix_order.trans by (blast, simp)
      have "prefix (P q2) (P q) \<or> prefix (P q) (P q2)" using q2m(1) qm(2) by (rule prefix_same_cases)
      then have "q2 = q \<or> (\<exists>c. child_of ns q2 c \<and> prefix (P c) (P q)) \<or> (\<exists>c. child_of ns q c \<and> prefix (P c) (P q2))"
        using less.hyps [OF qm(1) q2(1) q(1)] less.hyps [OF q2m(2) q(1) q2(1)] by blast
      then have "n = m" using wf_parents_meet [OF wf q(1,2) q2(1,2) prems(3) _ _ qm(2) q2n] longer by simp
      then show ?thesis by simp
    qed
  qed
qed

lemma wf_path_inj: "tree_wf p ns r cnt L P \<Longrightarrow> n \<in> L \<Longrightarrow> m \<in> L \<Longrightarrow> P n = P m \<Longrightarrow> n = m"
proof -
  assume wf: "tree_wf p ns r cnt L P" and n: "n \<in> L" and m: "m \<in> L" and eq: "P n = P m"
  have False if c: "child_of ns n c" "prefix (P c) (P m)" for c
  proof -
    note ch = wf_child [OF wf n c(1)]
    have "n_key (ns c) \<noteq> []" using wf_node [OF wf ch(1,2)] by simp
    then show False using c(2) eq ch(4) by (auto dest: prefix_length_le)
  qed
  then show ?thesis using wf_ancestor [OF wf n m] eq by auto
qed

section \<open>The stored pages\<close>

definition edge_pages :: "nat \<Rightarrow> token list \<Rightarrow> token list \<Rightarrow> slot list \<Rightarrow> (token list \<times> slot list) set" where
  "edge_pages p base ks vs =
     (\<lambda>i. (base @ take (Suc i * p) ks, seg vs (i * p) (Suc i * p))) ` {i. Suc i * p \<le> length ks}"

definition path_base :: "(node_id \<Rightarrow> tree_node) \<Rightarrow> (node_id \<Rightarrow> token list) \<Rightarrow> node_id \<Rightarrow> token list" where
  "path_base ns P m = take (length (P m) - length (n_key (ns m))) (P m)"

definition node_pages :: "nat \<Rightarrow> (node_id \<Rightarrow> tree_node) \<Rightarrow> (node_id \<Rightarrow> token list) \<Rightarrow> node_id \<Rightarrow> (token list \<times> slot list) set" where
  "node_pages p ns P m = edge_pages p (path_base ns P m) (n_key (ns m)) (nval (ns m))"

definition tree_pages ::
  "nat \<Rightarrow> (node_id \<Rightarrow> tree_node) \<Rightarrow> node_id \<Rightarrow> node_id set \<Rightarrow> (node_id \<Rightarrow> token list) \<Rightarrow> (token list \<times> slot list) set" where
  "tree_pages p ns r L P = (\<Union>m \<in> L - {r}. node_pages p ns P m)"

lemma path_base_child: "P m = P n @ n_key (ns m) \<Longrightarrow> path_base ns P m = P n"
  by (simp add: path_base_def)

lemma edge_pages_Nil [simp]: "0 < p \<Longrightarrow> edge_pages p base [] vs = {}"
  by (simp add: edge_pages_def)

lemma seg_drop: "seg (drop k vs) a b = seg vs (k + a) (k + b)"
  by (simp add: seg_def take_drop add.commute)

lemma edge_pages_split:
  assumes p: "0 < p" and k: "p dvd k" "k \<le> length ks"
  shows "edge_pages p base ks vs =
    edge_pages p base (take k ks) (take k vs) \<union>
    edge_pages p (base @ take k ks) (drop k ks) (drop k vs)" (is "?A = ?B \<union> ?C")
proof -
  obtain j where j: "k = j * p" using dvd_div_mult_self [OF k(1)] by metis
  have low: "take (Suc i * p) (take k ks) = take (Suc i * p) ks \<and>
      seg (take k vs) (i * p) (Suc i * p) = seg vs (i * p) (Suc i * p)" if "i < j" for i
  proof -
    have "Suc i * p \<le> k" using that j by (metis Suc_leI mult_le_mono1)
    then show ?thesis by (simp add: seg_def min.absorb1 del: mult_Suc)
  qed
  have high: "(base @ take k ks) @ take (Suc i * p) (drop k ks) = base @ take (Suc (j + i) * p) ks \<and>
      seg (drop k vs) (i * p) (Suc i * p) = seg vs ((j + i) * p) (Suc (j + i) * p)" for i
  proof -
    have e: "Suc (j + i) * p = k + Suc i * p" "(j + i) * p = k + i * p"
      by (simp_all add: j algebra_simps)
    show ?thesis
      unfolding e seg_drop take_add by (simp only: append_assoc)
  qed
  let ?f = "\<lambda>i. (base @ take (Suc i * p) ks, seg vs (i * p) (Suc i * p))"
  have "?B = ?f ` {..<j}"
  proof -
    have "length (take k ks) = j * p" using k(2) by (simp add: j min.absorb2)
    then have "{i. Suc i * p \<le> length (take k ks)} = {..<j}"
      using p by (simp only: mult_le_cancel2 Suc_le_eq) (simp add: lessThan_def)
    then show ?thesis
      unfolding edge_pages_def using low by (intro image_cong) auto
  qed
  moreover have "?C = ?f ` ((+) j ` {i. Suc (j + i) * p \<le> length ks})"
  proof -
    have "Suc i * p \<le> length (drop k ks) \<longleftrightarrow> Suc (j + i) * p \<le> length ks" for i
      using k by (auto simp: j algebra_simps)
    then show ?thesis
      unfolding edge_pages_def image_image using high by (intro image_cong) auto
  qed
  moreover have "{i. Suc i * p \<le> length ks} = {..<j} \<union> (+) j ` {i. Suc (j + i) * p \<le> length ks}"
  proof -
    have "Suc i * p \<le> length ks" if "i < j" for i
      using that k j by (metis Suc_leI le_trans mult_le_mono1)
    moreover have "i \<in> (+) j ` {i. Suc (j + i) * p \<le> length ks}"
      if "Suc i * p \<le> length ks" "\<not> i < j" for i
      using that by (intro image_eqI [of _ _ "i - j"]) auto
    ultimately show ?thesis by blast
  qed
  ultimately show ?thesis
    unfolding edge_pages_def [of p base ks vs] by (simp only: image_Un)
qed

lemma edge_pages_key:
  assumes "0 < p" and "(xs, s) \<in> edge_pages p base ks vs"
  shows "prefix xs (base @ ks)" "length base + p \<le> length xs" "p dvd length base \<Longrightarrow> p dvd length xs"
    "length xs \<le> length base + length ks"
proof -
  obtain i where i: "xs = base @ take (Suc i * p) ks" "Suc i * p \<le> length ks"
    using assms(2) by (auto simp: edge_pages_def)
  then show "prefix xs (base @ ks)" by (simp add: take_is_prefix)
  have "length xs = length base + Suc i * p" using i by (simp add: min.absorb2 del: mult_Suc)
  then show "length base + p \<le> length xs" "p dvd length base \<Longrightarrow> p dvd length xs"
    "length xs \<le> length base + length ks"
    using i by (simp_all del: mult_Suc)
qed

lemma edge_pages_unique:
  assumes "0 < p" and "(xs, s) \<in> edge_pages p base ks vs" and "(xs, s') \<in> edge_pages p base ks vs"
  shows "s = s'"
proof -
  obtain i j where i: "xs = base @ take (Suc i * p) ks" "Suc i * p \<le> length ks" "s = seg vs (i * p) (Suc i * p)"
    and j: "xs = base @ take (Suc j * p) ks" "Suc j * p \<le> length ks" "s' = seg vs (j * p) (Suc j * p)"
    using assms(2,3) unfolding edge_pages_def by blast
  have "length xs = length base + Suc i * p"
    unfolding i(1) using i(2) by (simp add: min.absorb2 del: mult_Suc)
  moreover have "length xs = length base + Suc j * p"
    unfolding j(1) using j(2) by (simp add: min.absorb2 del: mult_Suc)
  ultimately have "Suc i * p = Suc j * p" by linarith
  then have "Suc i = Suc j" using assms(1) by (simp only: mult_cancel2) simp
  then show ?thesis using i j by simp
qed

lemma node_pages_key:
  assumes wf: "tree_wf p ns r cnt L P" and m: "m \<in> L" "m \<noteq> r" and x: "(xs, s) \<in> node_pages p ns P m"
  obtains q where "q \<in> L" "child_of ns q m" "P m = P q @ n_key (ns m)" "prefix xs (P m)"
    "length (P q) + p \<le> length xs" "p dvd length xs"
proof -
  obtain q where q: "q \<in> L" "child_of ns q m" "P m = P q @ n_key (ns m)"
    using wf_parent [OF wf m] by metis
  note e = edge_pages_key [OF wf_basic(1) [OF wf] x [unfolded node_pages_def path_base_child [where P = P and ns = ns, OF q(3)]]]
  show thesis
    using that [OF q] e q(3) wf_dvd_path [OF wf q(1)] by simp
qed

text \<open>A page prefix lies on the edge of exactly one node, so it has at most one page.\<close>

lemma wf_edge_unique:
  assumes wf: "tree_wf p ns r cnt L P"
    and q: "q \<in> L" "child_of ns q m" and q': "q' \<in> L" "child_of ns q' m'"
    and xs: "prefix xs (P m)" "prefix xs (P m')" "p dvd length xs"
    and len: "length (P q) < length xs" "length (P q') < length xs"
  shows "m = m'"
proof -
  have *: "m = m'" if q: "q \<in> L" "child_of ns q m" and q': "q' \<in> L" "child_of ns q' m'"
    and xs: "prefix xs (P m)" "prefix xs (P m')"
    and len: "length (P q) < length xs" "length (P q') < length xs"
    and le: "length (P q) \<le> length (P q')" for q m q' m'
  proof -
    have pq: "prefix (P q) xs" and pq': "prefix (P q') xs"
      using xs len wf_child(4) [OF wf q] wf_child(4) [OF wf q']
      by (metis less_imp_le prefixI prefix_length_prefix)+
    then have "prefix (P q) (P q')" using le by (meson prefix_length_prefix)
    then consider "q = q'" | c where "child_of ns q c" "prefix (P c) (P q')"
      using wf_ancestor [OF wf q(1) q'(1)] by blast
    then show ?thesis
    proof cases
      case 1
      then show ?thesis
        using wf_same_child [OF wf q(1), of m m' xs] q(2) q'(2)
          wf_first_page_within [OF wf q(1) q(2) xs(1)] wf_first_page_within [OF wf q'(1) q'(2) xs(2)]
          wf_gap [OF wf q(1) \<open>p dvd length xs\<close> len(1)] by simp
    next
      case 2
      have cx: "prefix (P c) xs" using 2(2) pq' by (meson prefix_order.trans)
      have "c = m"
        using wf_same_child [OF wf q(1) 2(1) q(2), of xs] wf_first_page [OF wf q(1) 2(1) cx]
          wf_first_page_within [OF wf q(1) q(2) xs(1)] wf_gap [OF wf q(1) \<open>p dvd length xs\<close> len(1)]
        by simp
      then show ?thesis
        using prefix_length_le [OF 2(2)] prefix_length_le [OF xs(1)] len(2) by simp
    qed
  qed
  show ?thesis
  proof (cases "length (P q) \<le> length (P q')")
    case True
    then show ?thesis using * [OF q q' xs(1,2) len] by simp
  next
    case False
    then show ?thesis using * [OF q' q xs(2,1) len(2,1)] by simp
  qed
qed

lemma node_pages_disjoint:
  assumes wf: "tree_wf p ns r cnt L P" and m: "m \<in> L" "m \<noteq> r" and m': "m' \<in> L" "m' \<noteq> r"
    and x: "(xs, s) \<in> node_pages p ns P m" and x': "(xs, s') \<in> node_pages p ns P m'"
  shows "m = m'"
proof -
  have p: "0 < p" using wf_basic [OF wf] by simp
  show ?thesis
    using node_pages_key [OF wf m x] node_pages_key [OF wf m' x'] wf_edge_unique [OF wf] p
    by (metis add_lessD1 less_add_same_cancel1 order_less_le_trans)
qed

lemma tree_pages_unique:
  assumes wf: "tree_wf p ns r cnt L P"
    and "(xs, s) \<in> tree_pages p ns r L P" and "(xs, s') \<in> tree_pages p ns r L P"
  shows "s = s'"
proof -
  obtain m m' where m: "m \<in> L" "m \<noteq> r" "(xs, s) \<in> node_pages p ns P m"
    and m': "m' \<in> L" "m' \<noteq> r" "(xs, s') \<in> node_pages p ns P m'"
    using assms(2,3) by (auto simp: tree_pages_def)
  then have "m = m'" using node_pages_disjoint [OF wf] by blast
  then show ?thesis
    using m(3) m'(3) edge_pages_unique [OF wf_basic(1) [OF wf]] unfolding node_pages_def by blast
qed

end
