(* ===== verification/Radix_Store.thy ===== *)
theory Radix_Store
  imports Radix_Inv
begin

text \<open>
  The structural updates of the node store (moving an access time, splitting an edge, adding and
  removing a leaf) keep the tree well-formed; each lemma says what happens to the stored pages.
\<close>

section \<open>Updates that do not touch the shape\<close>

definition same_shape :: "(node_id \<Rightarrow> tree_node) \<Rightarrow> (node_id \<Rightarrow> tree_node) \<Rightarrow> bool" where
  "same_shape ns ns' \<longleftrightarrow>
     (\<forall>n. n_children (ns' n) = n_children (ns n) \<and> n_parent (ns' n) = n_parent (ns n) \<and>
          n_key (ns' n) = n_key (ns n) \<and> n_value (ns' n) = n_value (ns n))"

lemma same_shape_nval: "same_shape ns ns' \<Longrightarrow> nval (ns' n) = nval (ns n)"
  by (simp add: same_shape_def nval_def)

lemma same_shape_wf: "same_shape ns ns' \<Longrightarrow> tree_wf p ns' r cnt L P = tree_wf p ns r cnt L P"
  using same_shape_nval [of ns ns'] by (simp add: tree_wf_def same_shape_def)

lemma same_shape_pages:
  "same_shape ns ns' \<Longrightarrow> node_pages p ns' P m = node_pages p ns P m"
  using same_shape_nval [of ns ns'] by (simp add: node_pages_def path_base_def same_shape_def)

lemma same_shape_child: "same_shape ns ns' \<Longrightarrow> child_of ns' n m = child_of ns n m"
  by (simp add: child_of_def same_shape_def)

lemma same_shape_tree_pages:
  "same_shape ns ns' \<Longrightarrow> tree_pages p ns' r L P = tree_pages p ns r L P"
  by (simp add: tree_pages_def same_shape_pages)

section \<open>Splitting an edge\<close>

text \<open>
  \<open>split_rel\<close> relates the stores before and after a split: \<open>new\<close> takes the first \<open>k\<close>
  tokens of \<open>child\<close>, becomes its parent and replaces it in the dictionary of \<open>q\<close>.
\<close>

definition split_rel ::
  "nat \<Rightarrow> (node_id \<Rightarrow> tree_node) \<Rightarrow> (node_id \<Rightarrow> tree_node) \<Rightarrow> node_id \<Rightarrow> node_id \<Rightarrow> node_id \<Rightarrow> nat \<Rightarrow> bool" where
  "split_rel p ns ns' q child new k \<longleftrightarrow>
     n_children (ns' new) = [(take p (drop k (n_key (ns child))), child)] \<and>
     n_parent (ns' new) = Some q \<and> n_key (ns' new) = take k (n_key (ns child)) \<and>
     n_value (ns' new) = map_option (take k) (n_value (ns child)) \<and>
     n_lock_ref (ns' new) = n_lock_ref (ns child) \<and>
     n_children (ns' child) = n_children (ns child) \<and> n_parent (ns' child) = Some new \<and>
     n_key (ns' child) = drop k (n_key (ns child)) \<and>
     n_value (ns' child) = map_option (drop k) (n_value (ns child)) \<and>
     n_lock_ref (ns' child) = n_lock_ref (ns child) \<and>
     n_children (ns' q) = AList.update (take p (n_key (ns child))) new (n_children (ns q)) \<and>
     n_parent (ns' q) = n_parent (ns q) \<and> n_key (ns' q) = n_key (ns q) \<and>
     n_value (ns' q) = n_value (ns q) \<and> n_lock_ref (ns' q) = n_lock_ref (ns q) \<and>
     (\<forall>n. n \<noteq> new \<longrightarrow> n \<noteq> child \<longrightarrow> n \<noteq> q \<longrightarrow> ns' n = ns n)"

text \<open>Where an edge may be split: at a page boundary inside the key of a live child.\<close>

definition split_ok ::
  "nat \<Rightarrow> (node_id \<Rightarrow> tree_node) \<Rightarrow> node_id \<Rightarrow> nat \<Rightarrow> node_id set \<Rightarrow> (node_id \<Rightarrow> token list) \<Rightarrow>
   node_id \<Rightarrow> node_id \<Rightarrow> nat \<Rightarrow> bool" where
  "split_ok p ns r cnt L P q child k \<longleftrightarrow>
     tree_wf p ns r cnt L P \<and> q \<in> L \<and> child_of ns q child \<and>
     p dvd k \<and> 0 < k \<and> k < length (n_key (ns child))"

definition split_path ::
  "(node_id \<Rightarrow> tree_node) \<Rightarrow> nat \<Rightarrow> (node_id \<Rightarrow> token list) \<Rightarrow> node_id \<Rightarrow> node_id \<Rightarrow> nat \<Rightarrow> (node_id \<Rightarrow> token list)" where
  "split_path ns cnt P q child k = P(cnt := P q @ take k (n_key (ns child)))"

lemma wf_parent_ne:
  assumes "tree_wf p ns r cnt L P" "q \<in> L" "child_of ns q m"
  shows "q \<noteq> m"
proof
  assume "q = m"
  note ch = wf_child [OF assms]
  have "n_key (ns m) \<noteq> []" using wf_node [OF assms(1) ch(1,2)] by simp
  with ch(4) \<open>q = m\<close> show False by simp
qed

lemma split_facts:
  assumes s: "split_ok p ns r cnt L P q child k"
  shows "tree_wf p ns r cnt L P" "q \<in> L" "child_of ns q child" "p dvd k" "0 < k"
    "k < length (n_key (ns child))" "child \<in> L" "child \<noteq> r" "n_parent (ns child) = Some q"
    "P child = P q @ n_key (ns child)" "child \<noteq> cnt" "q \<noteq> cnt" "q \<noteq> child" "cnt \<notin> L" "r \<noteq> cnt"
    "p \<le> k"
proof -
  show wf: "tree_wf p ns r cnt L P" and q: "q \<in> L" and ch: "child_of ns q child"
    and k: "p dvd k" "0 < k" "k < length (n_key (ns child))"
    using s by (auto simp: split_ok_def)
  show "child \<in> L" "child \<noteq> r" "n_parent (ns child) = Some q"
    "P child = P q @ n_key (ns child)" "child \<noteq> cnt" "q \<noteq> cnt" "q \<noteq> child" "cnt \<notin> L" "r \<noteq> cnt"
    using wf_child [OF wf q ch] wf_basic [OF wf] q wf_parent_ne [OF wf q ch] by auto
  show "p \<le> k" using k by (simp add: dvd_imp_le)
qed

lemma split_fields:
  assumes s: "split_ok p ns r cnt L P q child k" and r: "split_rel p ns ns' q child cnt k"
  shows "nval (ns' cnt) = take k (nval (ns child))" "n_value (ns' cnt) = Some (take k (nval (ns child)))"
    "nval (ns' child) = drop k (nval (ns child))" "n_value (ns' child) = Some (drop k (nval (ns child)))"
    "nval (ns' q) = nval (ns q)" "\<And>n. n \<noteq> cnt \<Longrightarrow> n \<noteq> child \<Longrightarrow> n \<noteq> q \<Longrightarrow> ns' n = ns n"
    "\<And>m. m \<noteq> cnt \<Longrightarrow> m \<noteq> child \<Longrightarrow> n_key (ns' m) = n_key (ns m) \<and> nval (ns' m) = nval (ns m) \<and>
       n_value (ns' m) = n_value (ns m) \<and> n_parent (ns' m) = n_parent (ns m)"
    "\<And>m. m \<noteq> cnt \<Longrightarrow> n_lock_ref (ns' m) = n_lock_ref (ns m)"
proof -
  note f = split_facts [OF s]
  obtain w where w: "n_value (ns child) = Some w" "nval (ns child) = w"
    using wf_node [OF f(1,7,8)] by metis
  show "n_value (ns' cnt) = Some (take k (nval (ns child)))" "nval (ns' cnt) = take k (nval (ns child))"
    "nval (ns' child) = drop k (nval (ns child))" "n_value (ns' child) = Some (drop k (nval (ns child)))"
    "nval (ns' q) = nval (ns q)"
    unfolding w(2) using r w(1) by (simp_all add: split_rel_def nval_def)
  show o: "ns' n = ns n" if "n \<noteq> cnt" "n \<noteq> child" "n \<noteq> q" for n
    using r that unfolding split_rel_def by blast
  show "n_key (ns' m) = n_key (ns m) \<and> nval (ns' m) = nval (ns m) \<and>
       n_value (ns' m) = n_value (ns m) \<and> n_parent (ns' m) = n_parent (ns m)"
    if "m \<noteq> cnt" "m \<noteq> child" for m
    using that r o [of m] by (cases "m = q") (auto simp: split_rel_def nval_def)
  show "n_lock_ref (ns' m) = n_lock_ref (ns m)" if "m \<noteq> cnt" for m
    using that r o [of m] by (cases "m = q"; cases "m = child") (auto simp: split_rel_def)
qed

lemma split_children:
  assumes s: "split_ok p ns r cnt L P q child k" and r: "split_rel p ns ns' q child cnt k"
  shows "set (n_children (ns' q)) =
      insert (take p (n_key (ns child)), cnt) {e \<in> set (n_children (ns q)). snd e \<noteq> child}"
    and "distinct (map fst (n_children (ns' q)))"
    and "n \<in> L \<Longrightarrow> n \<noteq> q \<Longrightarrow> n_children (ns' n) = n_children (ns n)"
proof -
  note f = split_facts [OF s]
  have c: "n_children (ns' q) = AList.update (take p (n_key (ns child))) cnt (n_children (ns q))"
    using r by (simp add: split_rel_def)
  have "fst e = take p (n_key (ns child)) \<longleftrightarrow> snd e = child" if e: "e \<in> set (n_children (ns q))" for e
  proof -
    have "fst e = take p (n_key (ns (snd e)))"
      using e f(1,2) unfolding tree_wf_def by (metis prod.collapse)
    then show ?thesis
      using wf_child(5) [OF f(1-3)] wf_distinct [OF f(1,2)] e
      by (metis eq_key_imp_eq_value prod.collapse)
  qed
  then show "set (n_children (ns' q)) =
      insert (take p (n_key (ns child)), cnt) {e \<in> set (n_children (ns q)). snd e \<noteq> child}"
    unfolding c using set_update_distinct [OF wf_distinct [OF f(1,2)]] by auto
  show "distinct (map fst (n_children (ns' q)))"
    unfolding c using wf_distinct [OF f(1,2)] by (auto simp: map_fst_update)
  show "n_children (ns' n) = n_children (ns n)" if "n \<in> L" "n \<noteq> q"
    using that f(14) r split_fields(6) [OF s r, of n]
    by (cases "n = child"; cases "n = cnt") (auto simp: split_rel_def)
qed

lemma split_new_fields:
  assumes "split_rel p ns ns' q child cnt k"
  shows "n_children (ns' cnt) = [(take p (drop k (n_key (ns child))), child)]" "n_parent (ns' cnt) = Some q"
    "n_key (ns' cnt) = take k (n_key (ns child))" "n_children (ns' child) = n_children (ns child)"
    "n_parent (ns' child) = Some cnt" "n_key (ns' child) = drop k (n_key (ns child))"
  using assms by (auto simp: split_rel_def)

lemma split_kids:
  assumes s: "split_ok p ns r cnt L P q child k" and rel: "split_rel p ns ns' q child cnt k"
    and n: "n \<in> insert cnt L" and km: "(kk, m) \<in> set (n_children (ns' n))"
  shows "m \<in> insert cnt L \<and> m \<noteq> r \<and> n_parent (ns' m) = Some n \<and> kk = take p (n_key (ns' m))"
proof -
  note f = split_facts [OF s] and fl = split_fields [OF s rel] and chl = split_children [OF s rel] and new = split_new_fields [OF rel]
  note wf = f(1)
  show ?thesis
  proof (cases "n = cnt")
    case True
    then show ?thesis using km f new by simp
  next
    case False
    then have nL: "n \<in> L" using n by simp
    show ?thesis
    proof (cases "m = cnt")
      case True
      have "n = q"
        using km chl(3) [OF nL] wf nL f(14) True unfolding tree_wf_def by metis
      then have "kk = take p (n_key (ns child))"
        using km chl(1) True wf f(2,14) unfolding tree_wf_def by auto
      then show ?thesis using True \<open>n = q\<close> f new by (simp add: min.absorb1)
    next
      case False
      have old: "(kk, m) \<in> set (n_children (ns n))" and mc: "n = q \<Longrightarrow> m \<noteq> child"
        using km False nL chl(1) chl(3) [of n] by (cases "n = q"; auto)+
      then have m: "m \<in> L" "m \<noteq> r" "n_parent (ns m) = Some n" "kk = take p (n_key (ns m))"
        using wf nL unfolding tree_wf_def by blast+
      have "m \<noteq> child" using m(3) mc f(9) by auto
      then show ?thesis using m fl(7) [OF False] by simp
    qed
  qed
qed

lemma split_live:
  assumes s: "split_ok p ns r cnt L P q child k" and rel: "split_rel p ns ns' q child cnt k"
    and P': "P' = split_path ns cnt P q child k" and m: "m \<in> insert cnt L" "m \<noteq> r"
  shows "n_key (ns' m) \<noteq> [] \<and> p dvd length (n_key (ns' m)) \<and> n_value (ns' m) = Some (nval (ns' m)) \<and>
     length (nval (ns' m)) = length (n_key (ns' m)) \<and>
     (\<exists>n\<in>insert cnt L. n_parent (ns' m) = Some n \<and> (take p (n_key (ns' m)), m) \<in> set (n_children (ns' n)) \<and>
       P' m = P' n @ n_key (ns' m))"
proof -
  note f = split_facts [OF s] and fl = split_fields [OF s rel] and chl = split_children [OF s rel] and nf = split_new_fields [OF rel]
  note wf = f(1) and cn = wf_node [OF f(1,7,8)]
  consider (new) "m = cnt" | (child) "m = child" | (old) "m \<in> L" "m \<noteq> child" "m \<noteq> cnt"
    using m(1) by blast
  then show ?thesis
  proof cases
    case new
    have "n_key (ns child) \<noteq> []" using cn by simp
    then have "n_key (ns' cnt) \<noteq> []" "p dvd length (n_key (ns' cnt))" "length (nval (ns' cnt)) = length (n_key (ns' cnt))"
      using f cn fl(1) nf(3) by (auto simp: min.absorb2)
    moreover have "(take p (n_key (ns' cnt)), cnt) \<in> set (n_children (ns' q))" using chl(1) f nf(3) by (simp add: min.absorb1)
    moreover have "P' cnt = P' q @ n_key (ns' cnt)" using f nf(3) by (simp add: P' split_path_def)
    ultimately show ?thesis unfolding new using fl(1,2) f(2) nf(2) by auto
  next
    case child
    have "n_key (ns' child) \<noteq> []" "p dvd length (n_key (ns' child))" "length (nval (ns' child)) = length (n_key (ns' child))"
      using f cn fl(3) nf by auto
    moreover have "(take p (n_key (ns' child)), child) \<in> set (n_children (ns' cnt))" using nf by simp
    moreover have "P' child = P' cnt @ n_key (ns' child)" using f nf by (simp add: P' split_path_def)
    ultimately show ?thesis unfolding child using fl(3,4) nf(5) by auto
  next
    case old
    obtain n where n: "n \<in> L" "n_parent (ns m) = Some n" "child_of ns n m" "P m = P n @ n_key (ns m)"
      using wf_parent [OF wf old(1) m(2)] by metis
    have "(take p (n_key (ns m)), m) \<in> set (n_children (ns n))" using wf_child(5) [OF wf n(1,3)] .
    then have "(take p (n_key (ns m)), m) \<in> set (n_children (ns' n))"
      using old n chl(1) chl(3) [OF n(1)] by (cases "n = q") auto
    moreover have "P' m = P' n @ n_key (ns m)" using n old f(14) by (auto simp: P' split_path_def)
    ultimately show ?thesis using wf_node [OF wf old(1) m(2)] fl(7) [OF old(3,2)] n(1,2) by auto
  qed
qed

lemma split_wf:
  assumes s: "split_ok p ns r cnt L P q child k" and rel: "split_rel p ns ns' q child cnt k"
  shows "tree_wf p ns' r (Suc cnt) (insert cnt L) (split_path ns cnt P q child k)"
proof -
  note f = split_facts [OF s] and fl = split_fields [OF s rel] and chl = split_children [OF s rel] and new = split_new_fields [OF rel]
  note b = wf_basic [OF f(1)]
  have root: "n_key (ns' r) = []" "n_value (ns' r) = Some []" "split_path ns cnt P q child k r = []"
    using b fl(7) [of r] f(8,15) by (auto simp: split_path_def)
  have dist: "distinct (map fst (n_children (ns' n)))" if "n \<in> insert cnt L" for n
    using that wf_distinct [OF f(1), of n] chl(2) chl(3) [of n] new by (cases "n = q") auto
  have cnts: "finite (insert cnt L)" "r \<in> insert cnt L" "insert cnt L \<subseteq> {..<Suc cnt}" using b by auto
  show ?thesis
    unfolding tree_wf_def using b(1) cnts root dist split_kids [OF s rel] split_live [OF s rel refl] by blast
qed

text \<open>A split stores the same pages.\<close>

lemma split_pages:
  assumes s: "split_ok p ns r cnt L P q child k" and rel: "split_rel p ns ns' q child cnt k"
  shows "tree_pages p ns' r (insert cnt L) (split_path ns cnt P q child k) = tree_pages p ns r L P"
proof -
  note f = split_facts [OF s] and fl = split_fields [OF s rel]
  let ?P = "split_path ns cnt P q child k"
  have new: "n_key (ns' cnt) = take k (n_key (ns child))" and chd: "n_key (ns' child) = drop k (n_key (ns child))"
    using rel by (auto simp: split_rel_def)
  have other: "node_pages p ns' ?P m = node_pages p ns P m" if "m \<in> L" "m \<noteq> child" for m
    using that f(14) fl(7) [of m] by (auto simp: node_pages_def path_base_def split_path_def)
  have pc: "path_base ns P child = P q"
    by (rule path_base_child) (rule f(10))
  have p1: "path_base ns' ?P cnt = P q"
    using f new by (simp add: path_base_def split_path_def)
  have p2: "path_base ns' ?P child = P q @ take k (n_key (ns child))"
    using f chd by (simp add: path_base_def split_path_def)
  have "node_pages p ns P child = node_pages p ns' ?P cnt \<union> node_pages p ns' ?P child"
    unfolding node_pages_def pc p1 p2 new chd fl(1,3)
    using edge_pages_split [OF wf_basic(1) [OF f(1)] f(4) less_imp_le [OF f(6)]] .
  moreover have "insert cnt L - {r} = insert cnt (insert child (L - {r} - {child}))"
    using f by auto
  moreover have "L - {r} = insert child (L - {r} - {child})" using f by auto
  moreover have "(\<Union>m\<in>L - {r} - {child}. node_pages p ns' ?P m) = (\<Union>m\<in>L - {r} - {child}. node_pages p ns P m)"
    using other by (intro SUP_cong) auto
  ultimately show ?thesis
    unfolding tree_pages_def by (metis (no_types, lifting) UN_insert Un_assoc)
qed

section \<open>Adding a leaf\<close>

definition add_rel ::
  "nat \<Rightarrow> (node_id \<Rightarrow> tree_node) \<Rightarrow> (node_id \<Rightarrow> tree_node) \<Rightarrow> node_id \<Rightarrow> node_id \<Rightarrow> token list \<Rightarrow> slot list \<Rightarrow> bool" where
  "add_rel p ns ns' n new ks vs \<longleftrightarrow>
     n_children (ns' new) = [] \<and> n_parent (ns' new) = Some n \<and> n_key (ns' new) = ks \<and>
     n_value (ns' new) = Some vs \<and> n_lock_ref (ns' new) = 0 \<and>
     n_children (ns' n) = AList.update (take p ks) new (n_children (ns n)) \<and>
     n_parent (ns' n) = n_parent (ns n) \<and> n_key (ns' n) = n_key (ns n) \<and>
     n_value (ns' n) = n_value (ns n) \<and> n_lock_ref (ns' n) = n_lock_ref (ns n) \<and>
     (\<forall>m. m \<noteq> new \<longrightarrow> m \<noteq> n \<longrightarrow> ns' m = ns m)"

definition add_ok ::
  "nat \<Rightarrow> (node_id \<Rightarrow> tree_node) \<Rightarrow> node_id \<Rightarrow> nat \<Rightarrow> node_id set \<Rightarrow> (node_id \<Rightarrow> token list) \<Rightarrow>
   node_id \<Rightarrow> token list \<Rightarrow> slot list \<Rightarrow> bool" where
  "add_ok p ns r cnt L P n ks vs \<longleftrightarrow>
     tree_wf p ns r cnt L P \<and> n \<in> L \<and> ks \<noteq> [] \<and> p dvd length ks \<and> length vs = length ks \<and>
     map_of (n_children (ns n)) (take p ks) = None"

lemma add_fields:
  assumes s: "add_ok p ns r cnt L P n ks vs" and rel: "add_rel p ns ns' n cnt ks vs"
  shows "cnt \<notin> L" "n \<noteq> cnt" "nval (ns' cnt) = vs"
    "\<And>m. m \<noteq> cnt \<Longrightarrow> n_key (ns' m) = n_key (ns m) \<and> nval (ns' m) = nval (ns m) \<and>
       n_value (ns' m) = n_value (ns m) \<and> n_parent (ns' m) = n_parent (ns m) \<and>
       n_lock_ref (ns' m) = n_lock_ref (ns m)"
    "\<And>m. m \<noteq> cnt \<Longrightarrow> m \<noteq> n \<Longrightarrow> n_children (ns' m) = n_children (ns m)"
    "set (n_children (ns' n)) = insert (take p ks, cnt) (set (n_children (ns n)))"
    "distinct (map fst (n_children (ns' n)))"
proof -
  have wf: "tree_wf p ns r cnt L P" and n: "n \<in> L" and none: "take p ks \<notin> fst ` set (n_children (ns n))"
    using s by (auto simp: add_ok_def map_of_eq_None_iff)
  show c: "cnt \<notin> L" using wf_basic [OF wf] by auto
  then show "n \<noteq> cnt" using n by auto
  show "nval (ns' cnt) = vs" using rel by (simp add: add_rel_def nval_def)
  show "n_key (ns' m) = n_key (ns m) \<and> nval (ns' m) = nval (ns m) \<and>
       n_value (ns' m) = n_value (ns m) \<and> n_parent (ns' m) = n_parent (ns m) \<and>
       n_lock_ref (ns' m) = n_lock_ref (ns m)" if "m \<noteq> cnt" for m
    using rel that by (cases "m = n") (auto simp: add_rel_def nval_def)
  show "n_children (ns' m) = n_children (ns m)" if "m \<noteq> cnt" "m \<noteq> n" for m
    using rel that by (auto simp: add_rel_def)
  have ch: "n_children (ns' n) = AList.update (take p ks) cnt (n_children (ns n))"
    using rel by (simp add: add_rel_def)
  show "set (n_children (ns' n)) = insert (take p ks, cnt) (set (n_children (ns n)))"
  proof -
    have "{e \<in> set (n_children (ns n)). fst e \<noteq> take p ks} = set (n_children (ns n))"
      using none by (auto simp: image_iff)
    then show ?thesis
      unfolding ch set_update_distinct [OF wf_distinct [OF wf n]] by simp
  qed
  show "distinct (map fst (n_children (ns' n)))"
    unfolding ch using wf_distinct [OF wf n] none by (auto simp: map_fst_update)
qed

lemma add_wf:
  assumes s: "add_ok p ns r cnt L P n ks vs" and rel: "add_rel p ns ns' n cnt ks vs"
  shows "tree_wf p ns' r (Suc cnt) (insert cnt L) (P(cnt := P n @ ks))"
proof -
  have wf: "tree_wf p ns r cnt L P" and n: "n \<in> L" and ks: "ks \<noteq> []" "p dvd length ks" "length vs = length ks"
    using s by (auto simp: add_ok_def)
  note f = add_fields [OF s rel] and b = wf_basic [OF wf]
  let ?P = "P(cnt := P n @ ks)"
  have new: "n_children (ns' cnt) = []" "n_parent (ns' cnt) = Some n" "n_key (ns' cnt) = ks"
    "n_value (ns' cnt) = Some vs"
    using rel by (auto simp: add_rel_def)
  have rc: "r \<noteq> cnt" using b f(1) by auto
  have root: "n_key (ns' r) = []" "n_value (ns' r) = Some []" "?P r = []"
    using b f(4) [OF rc] rc by auto
  have dist: "distinct (map fst (n_children (ns' m)))" if "m \<in> insert cnt L" for m
    using that wf_distinct [OF wf, of m] f(5) [of m] f(7) new(1) by (cases "m = n"; cases "m = cnt") auto
  have kids: "m \<in> insert cnt L \<and> m \<noteq> r \<and> n_parent (ns' m) = Some l \<and> kk = take p (n_key (ns' m))"
    if l: "l \<in> insert cnt L" and km: "(kk, m) \<in> set (n_children (ns' l))" for l kk m
  proof (cases "m = cnt")
    case True
    have "l = n"
    proof (rule ccontr)
      assume "l \<noteq> n"
      then have "(kk, m) \<in> set (n_children (ns l)) \<and> l \<in> L"
        using km l new(1) f(5) [of l] by (cases "l = cnt") auto
      then show False using wf True f(1) unfolding tree_wf_def by blast
    qed
    then have "kk = take p ks"
      using km f(6) True wf n f(1) unfolding tree_wf_def by auto
    then show ?thesis using True \<open>l = n\<close> new rc by simp
  next
    case False
    have "l \<in> L" "(kk, m) \<in> set (n_children (ns l))"
      using km l new(1) f(5) [of l] f(6) False by (cases "l = cnt"; cases "l = n"; auto)+
    then have "m \<in> L" "m \<noteq> r" "n_parent (ns m) = Some l" "kk = take p (n_key (ns m))"
      using wf unfolding tree_wf_def by blast+
    then show ?thesis using f(4) [OF False] by simp
  qed
  have live: "n_key (ns' m) \<noteq> [] \<and> p dvd length (n_key (ns' m)) \<and> n_value (ns' m) = Some (nval (ns' m)) \<and>
     length (nval (ns' m)) = length (n_key (ns' m)) \<and>
     (\<exists>l\<in>insert cnt L. n_parent (ns' m) = Some l \<and> (take p (n_key (ns' m)), m) \<in> set (n_children (ns' l)) \<and>
       ?P m = ?P l @ n_key (ns' m))"
    if m: "m \<in> insert cnt L" "m \<noteq> r" for m
  proof (cases "m = cnt")
    case True
    then show ?thesis using ks new f(2,3,6) n by auto
  next
    case False
    then have mL: "m \<in> L" using m by simp
    obtain l where l: "l \<in> L" "n_parent (ns m) = Some l" "child_of ns l m" "P m = P l @ n_key (ns m)"
      using wf_parent [OF wf mL m(2)] by metis
    have "(take p (n_key (ns m)), m) \<in> set (n_children (ns' l))"
      using wf_child(5) [OF wf l(1,3)] f(6) f(5) [of l] l(1) f(1) by (cases "l = n"; cases "l = cnt") auto
    moreover have "?P m = ?P l @ n_key (ns m)" using l False f(1) by auto
    ultimately show ?thesis
      using wf_node [OF wf mL m(2)] f(4) [OF False] l(1,2) by auto
  qed
  have cnts: "finite (insert cnt L)" "r \<in> insert cnt L" "insert cnt L \<subseteq> {..<Suc cnt}"
    using b by auto
  show ?thesis
    unfolding tree_wf_def using b(1) cnts root dist kids live by blast
qed

lemma add_pages:
  assumes s: "add_ok p ns r cnt L P n ks vs" and rel: "add_rel p ns ns' n cnt ks vs"
  shows "tree_pages p ns' r (insert cnt L) (P(cnt := P n @ ks)) =
    tree_pages p ns r L P \<union> edge_pages p (P n) ks vs"
proof -
  have wf: "tree_wf p ns r cnt L P" and n: "n \<in> L" using s by (auto simp: add_ok_def)
  note f = add_fields [OF s rel]
  let ?P = "P(cnt := P n @ ks)"
  have k: "n_key (ns' cnt) = ks" using rel by (simp add: add_rel_def)
  have "node_pages p ns' ?P cnt = edge_pages p (P n) ks vs"
    using f(2,3) k by (simp add: node_pages_def path_base_def)
  moreover have "node_pages p ns' ?P m = node_pages p ns P m" if "m \<in> L" for m
    using that f(1) f(4) [of m] by (auto simp: node_pages_def path_base_def)
  moreover have "insert cnt L - {r} = insert cnt (L - {r})"
    using f(1) wf_basic [OF wf] by auto
  ultimately show ?thesis unfolding tree_pages_def by auto
qed

section \<open>Removing a leaf\<close>

definition del_rel :: "nat \<Rightarrow> (node_id \<Rightarrow> tree_node) \<Rightarrow> (node_id \<Rightarrow> tree_node) \<Rightarrow> node_id \<Rightarrow> node_id \<Rightarrow> bool" where
  "del_rel p ns ns' q m \<longleftrightarrow>
     ns' = ns(q := (ns q)\<lparr>n_children := AList.delete (take p (n_key (ns m))) (n_children (ns q))\<rparr>)"

definition del_ok ::
  "nat \<Rightarrow> (node_id \<Rightarrow> tree_node) \<Rightarrow> node_id \<Rightarrow> nat \<Rightarrow> node_id set \<Rightarrow> (node_id \<Rightarrow> token list) \<Rightarrow> node_id \<Rightarrow> node_id \<Rightarrow> bool" where
  "del_ok p ns r cnt L P q m \<longleftrightarrow>
     tree_wf p ns r cnt L P \<and> q \<in> L \<and> child_of ns q m \<and> n_children (ns m) = []"

lemma del_fields:
  assumes "del_rel p ns ns' q m"
  shows "n_key (ns' x) = n_key (ns x)" "nval (ns' x) = nval (ns x)" "n_value (ns' x) = n_value (ns x)"
    "n_parent (ns' x) = n_parent (ns x)" "n_lock_ref (ns' x) = n_lock_ref (ns x)"
    "n_last_access_time (ns' x) = n_last_access_time (ns x)"
    "x \<noteq> q \<Longrightarrow> n_children (ns' x) = n_children (ns x)"
  using assms by (auto simp: del_rel_def nval_def)

lemma del_children:
  assumes s: "del_ok p ns r cnt L P q m" and rel: "del_rel p ns ns' q m"
  shows "set (n_children (ns' q)) = {e \<in> set (n_children (ns q)). snd e \<noteq> m}"
proof -
  have wf: "tree_wf p ns r cnt L P" and q: "q \<in> L" and m: "child_of ns q m"
    using s by (auto simp: del_ok_def)
  have "fst e = take p (n_key (ns m)) \<longleftrightarrow> snd e = m" if e: "e \<in> set (n_children (ns q))" for e
  proof -
    have "fst e = take p (n_key (ns (snd e)))"
      using e wf q unfolding tree_wf_def by (metis prod.collapse)
    then show ?thesis
      using wf_child(5) [OF wf q m] wf_distinct [OF wf q] e
      by (metis eq_key_imp_eq_value prod.collapse)
  qed
  then show ?thesis using rel by (auto simp: del_rel_def set_delete_eq)
qed

lemma del_wf:
  assumes s: "del_ok p ns r cnt L P q m" and rel: "del_rel p ns ns' q m"
  shows "tree_wf p ns' r cnt (L - {m}) P"
proof -
  have wf: "tree_wf p ns r cnt L P" and q: "q \<in> L" and m: "child_of ns q m" and leaf: "n_children (ns m) = []"
    using s by (auto simp: del_ok_def)
  note b = wf_basic [OF wf] and f = del_fields [OF rel] and ch = del_children [OF s rel]
    and cm = wf_child [OF wf q m]
  have dist: "distinct (map fst (n_children (ns' n)))" if "n \<in> L - {m}" for n
    using that wf_distinct [OF wf, of n] f(7) [of n] rel
    by (cases "n = q") (auto simp: del_rel_def Prelude.distinct_delete)
  have sub: "set (n_children (ns' n)) \<subseteq> set (n_children (ns n))" for n
    using ch f(7) [of n] by (cases "n = q") auto
  have kids: "x \<in> L - {m} \<and> x \<noteq> r \<and> n_parent (ns' x) = Some n \<and> kk = take p (n_key (ns' x))"
    if n: "n \<in> L - {m}" and kx: "(kk, x) \<in> set (n_children (ns' n))" for n kk x
  proof -
    have "(kk, x) \<in> set (n_children (ns n))" using sub kx by blast
    then have x: "x \<in> L" "x \<noteq> r" "n_parent (ns x) = Some n" "kk = take p (n_key (ns x))"
      using wf n unfolding tree_wf_def by blast+
    have "x \<noteq> m" using x(3) cm(3) ch kx by auto
    then show ?thesis using x f by simp
  qed
  have live: "n_key (ns' x) \<noteq> [] \<and> p dvd length (n_key (ns' x)) \<and> n_value (ns' x) = Some (nval (ns' x)) \<and>
     length (nval (ns' x)) = length (n_key (ns' x)) \<and>
     (\<exists>l\<in>L - {m}. n_parent (ns' x) = Some l \<and> (take p (n_key (ns' x)), x) \<in> set (n_children (ns' l)) \<and>
       P x = P l @ n_key (ns' x))"
    if x: "x \<in> L - {m}" "x \<noteq> r" for x
  proof -
    obtain l where l: "l \<in> L" "n_parent (ns x) = Some l" "child_of ns l x" "P x = P l @ n_key (ns x)"
      using wf_parent [OF wf _ x(2)] x(1) by blast
    have "l \<noteq> m" using l(3) leaf by (auto simp: child_of_def)
    moreover have "(take p (n_key (ns x)), x) \<in> set (n_children (ns' l))"
      using wf_child(5) [OF wf l(1,3)] x ch f(7) [of l] by (cases "l = q") auto
    ultimately show ?thesis
      using wf_node [OF wf _ x(2)] x(1) l f by auto
  qed
  have cnts: "finite (L - {m})" "r \<in> L - {m}" "L - {m} \<subseteq> {..<cnt}"
    "n_key (ns' r) = []" "n_value (ns' r) = Some []"
    using b cm f by auto
  show ?thesis
    unfolding tree_wf_def using b(1,7) cnts dist kids live by blast
qed

lemma del_pages:
  assumes s: "del_ok p ns r cnt L P q m" and rel: "del_rel p ns ns' q m"
  shows "tree_pages p ns' r (L - {m}) P = tree_pages p ns r L P - node_pages p ns P m"
proof -
  have wf: "tree_wf p ns r cnt L P" and q: "q \<in> L" and m: "child_of ns q m"
    using s by (auto simp: del_ok_def)
  note f = del_fields [OF rel] and cm = wf_child [OF wf q m]
  have "node_pages p ns' P x = node_pages p ns P x" for x
    using f by (simp add: node_pages_def path_base_def)
  moreover have "x = m" if "x \<in> L" "x \<noteq> r" "e \<in> node_pages p ns P x" "e \<in> node_pages p ns P m" for x e
    using node_pages_disjoint [OF wf that(1,2) cm(1,2)] that(3,4) by (metis prod.collapse)
  ultimately show ?thesis unfolding tree_pages_def using cm by auto
qed

section \<open>Sums over the live nodes\<close>

text \<open>The slots the tree holds, and the tokens in the nodes whose lock count satisfies \<open>R\<close>.\<close>

definition tree_slots :: "(node_id \<Rightarrow> tree_node) \<Rightarrow> node_id \<Rightarrow> node_id set \<Rightarrow> slot multiset" where
  "tree_slots ns r L = (\<Sum>m\<in>L - {r}. mset (nval (ns m)))"

definition lock_sum :: "(int \<Rightarrow> bool) \<Rightarrow> (node_id \<Rightarrow> tree_node) \<Rightarrow> node_id \<Rightarrow> node_id set \<Rightarrow> int" where
  "lock_sum R ns r L = (\<Sum>m\<in>L - {r}. if R (n_lock_ref (ns m)) then int (length (nval (ns m))) else 0)"

lemma sum_split_point:
  fixes f g :: "nat \<Rightarrow> 'a :: comm_monoid_add"
  assumes "finite A" "x \<notin> A" "y \<notin> A" "x \<noteq> y" "\<And>m. m \<in> A \<Longrightarrow> g m = f m" "g x + g y = f y"
  shows "sum g (insert x (insert y A)) = sum f (insert y A)"
proof -
  have "sum g (insert x (insert y A)) = (g x + g y) + sum g A"
    using assms(1-4) by (simp add: add.assoc)
  also have "\<dots> = sum f (insert y A)" using assms by simp
  finally show ?thesis .
qed

lemma sum_new_point:
  fixes f g :: "nat \<Rightarrow> 'a :: comm_monoid_add"
  assumes "finite A" "x \<notin> A" "\<And>m. m \<in> A \<Longrightarrow> g m = f m"
  shows "sum g (insert x A) = sum f A + g x"
  using assms by (simp add: add.commute)

lemma split_sums:
  assumes s: "split_ok p ns r cnt L P q child k" and rel: "split_rel p ns ns' q child cnt k"
  shows "tree_slots ns' r (insert cnt L) = tree_slots ns r L"
    and "lock_sum R ns' r (insert cnt L) = lock_sum R ns r L"
proof -
  note f = split_facts [OF s] and fl = split_fields [OF s rel]
  have fin: "finite (L - {r} - {child})" using wf_basic [OF f(1)] by simp
  have e: "insert cnt L - {r} = insert cnt (insert child (L - {r} - {child}))"
    "L - {r} = insert child (L - {r} - {child})"
    using f by auto
  have o: "nval (ns' m) = nval (ns m) \<and> n_lock_ref (ns' m) = n_lock_ref (ns m)"
    if "m \<in> L - {r} - {child}" for m
  proof -
    have "m \<noteq> cnt" "m \<noteq> child" using that f(14) by auto
    then show ?thesis using fl(7) [of m] fl(8) [of m] by simp
  qed
  have nl: "n_lock_ref (ns' cnt) = n_lock_ref (ns child)" "n_lock_ref (ns' child) = n_lock_ref (ns child)"
    using rel by (auto simp: split_rel_def)
  have "mset (nval (ns' cnt)) + mset (nval (ns' child)) = mset (nval (ns child))"
    using fl(1,3) by (simp add: mset_take_drop)
  then show "tree_slots ns' r (insert cnt L) = tree_slots ns r L"
    unfolding tree_slots_def e(1)
    by (subst e(2), intro sum_split_point) (use fin f o in auto)
  have "length (nval (ns' cnt)) + length (nval (ns' child)) = length (nval (ns child))"
    using fl(1,3) f(6) wf_node(4) [OF f(1,7,8)] by simp
  then have "int (length (nval (ns' cnt))) + int (length (nval (ns' child))) = int (length (nval (ns child)))"
    by linarith
  then show "lock_sum R ns' r (insert cnt L) = lock_sum R ns r L"
    unfolding lock_sum_def e(1)
    by (subst e(2), intro sum_split_point) (use fin f o nl in auto)
qed

lemma add_sums:
  assumes s: "add_ok p ns r cnt L P n ks vs" and rel: "add_rel p ns ns' n cnt ks vs"
  shows "tree_slots ns' r (insert cnt L) = tree_slots ns r L + mset vs"
    and "lock_sum R ns' r (insert cnt L) = lock_sum R ns r L + (if R 0 then int (length vs) else 0)"
proof -
  have wf: "tree_wf p ns r cnt L P" using s by (auto simp: add_ok_def)
  note f = add_fields [OF s rel] and b = wf_basic [OF wf]
  have e: "insert cnt L - {r} = insert cnt (L - {r})" using f(1) b by auto
  have o: "nval (ns' m) = nval (ns m) \<and> n_lock_ref (ns' m) = n_lock_ref (ns m)" if "m \<in> L - {r}" for m
    using f(4) [of m] that f(1) by auto
  have nl: "n_lock_ref (ns' cnt) = 0" using rel by (simp add: add_rel_def)
  show "tree_slots ns' r (insert cnt L) = tree_slots ns r L + mset vs"
    unfolding tree_slots_def e using b(2) f o by (simp add: add.commute)
  show "lock_sum R ns' r (insert cnt L) = lock_sum R ns r L + (if R 0 then int (length vs) else 0)"
    unfolding lock_sum_def e
    by (subst sum_new_point [where f = "\<lambda>m. if R (n_lock_ref (ns m)) then int (length (nval (ns m))) else 0"])
      (use b(2) f(1,3) o nl in auto)
qed

lemma del_sums:
  assumes s: "del_ok p ns r cnt L P q m" and rel: "del_rel p ns ns' q m"
  shows "tree_slots ns r L = tree_slots ns' r (L - {m}) + mset (nval (ns m))"
    and "lock_sum R ns r L = lock_sum R ns' r (L - {m}) +
      (if R (n_lock_ref (ns m)) then int (length (nval (ns m))) else 0)"
proof -
  have wf: "tree_wf p ns r cnt L P" and q: "q \<in> L" and m: "child_of ns q m"
    using s by (auto simp: del_ok_def)
  note f = del_fields [OF rel] and b = wf_basic [OF wf] and cm = wf_child [OF wf q m]
  have e: "L - {r} = insert m (L - {m} - {r})" using cm by auto
  show "tree_slots ns r L = tree_slots ns' r (L - {m}) + mset (nval (ns m))"
    unfolding tree_slots_def by (subst e) (use b(2) f in \<open>simp add: add.commute\<close>)
  show "lock_sum R ns r L = lock_sum R ns' r (L - {m}) +
      (if R (n_lock_ref (ns m)) then int (length (nval (ns m))) else 0)"
    unfolding lock_sum_def f(2,5)
    by (subst e, subst sum_new_point [where f = "\<lambda>m. if R (n_lock_ref (ns m)) then int (length (nval (ns m))) else 0"])
      (use b(2) in auto)
qed

end
