(* ===== verification/Radix_Loops.thy ===== *)
theory Radix_Loops
  imports Radix_Store
begin

text \<open>
  The loops of \<open>radix_cache.py\<close> that walk down the tree, on well-formed caches:
  they return, they keep the tree well-formed and its pages, and they find the longest cached
  page-aligned prefix. \<open>grows\<close> collects what any such walk leaves unchanged.
\<close>

abbreviation cwf :: "radix_cache \<Rightarrow> node_id set \<Rightarrow> (node_id \<Rightarrow> token list) \<Rightarrow> bool" where
  "cwf c L P \<equiv> tree_wf (page_size c) (nodes c) (root_node c) (node_counter c) L P"

abbreviation cpages :: "radix_cache \<Rightarrow> node_id set \<Rightarrow> (node_id \<Rightarrow> token list) \<Rightarrow> (token list \<times> slot list) set" where
  "cpages c L P \<equiv> tree_pages (page_size c) (nodes c) (root_node c) L P"

definition same_env :: "radix_cache \<Rightarrow> radix_cache \<Rightarrow> bool" where
  "same_env c c' \<longleftrightarrow>
     req_pool c' = req_pool c \<and> kv_pool c' = kv_pool c \<and> page_size c' = page_size c \<and>
     cache_disable c' = cache_disable c \<and> enable_kv_cache_events c' = enable_kv_cache_events c \<and>
     root_node c' = root_node c \<and> clock c' = clock c \<and> pyhash c' = pyhash c"

text \<open>
  \<open>refs\<close> is the multiset of nodes that running requests have locked: the lock count of a
  node is the number of locked nodes at or below it.
\<close>

definition lock_ok ::
  "(node_id \<Rightarrow> tree_node) \<Rightarrow> node_id \<Rightarrow> node_id set \<Rightarrow> (node_id \<Rightarrow> token list) \<Rightarrow> node_id multiset \<Rightarrow> bool" where
  "lock_ok ns r L P refs \<longleftrightarrow>
     set_mset refs \<subseteq> L \<and>
     (\<forall>m\<in>L - {r}. n_lock_ref (ns m) = int (size (filter_mset (\<lambda>x. prefix (P m) (P x)) refs)))"

definition grows ::
  "radix_cache \<Rightarrow> node_id set \<Rightarrow> (node_id \<Rightarrow> token list) \<Rightarrow>
   radix_cache \<Rightarrow> node_id set \<Rightarrow> (node_id \<Rightarrow> token list) \<Rightarrow> bool" where
  "grows c L P c' L' P' \<longleftrightarrow>
     cwf c' L' P' \<and> same_env c c' \<and>
     evictable_sz c' = evictable_sz c \<and> protected_sz c' = protected_sz c \<and>
     L \<subseteq> L' \<and> (\<forall>x\<in>L. P' x = P x) \<and> cpages c' L' P' = cpages c L P \<and>
     tree_slots (nodes c') (root_node c) L' = tree_slots (nodes c) (root_node c) L \<and>
     (\<forall>R. lock_sum R (nodes c') (root_node c) L' = lock_sum R (nodes c) (root_node c) L) \<and>
     (\<forall>refs. lock_ok (nodes c) (root_node c) L P refs \<longrightarrow> lock_ok (nodes c') (root_node c) L' P' refs)"

lemma grows_refl: "cwf c L P \<Longrightarrow> grows c L P c L P"
  by (simp add: grows_def same_env_def)

lemma grows_trans: "grows c L P c1 L1 P1 \<Longrightarrow> grows c1 L1 P1 c2 L2 P2 \<Longrightarrow> grows c L P c2 L2 P2"
  unfolding grows_def same_env_def
  by (elim conjE, intro conjI) (simp_all add: subset_iff)

lemma growsD:
  assumes "grows c L P c' L' P'"
  shows "cwf c' L' P'" "page_size c' = page_size c" "root_node c' = root_node c" "L \<subseteq> L'"
    "\<And>x. x \<in> L \<Longrightarrow> P' x = P x" "cpages c' L' P' = cpages c L P" "same_env c c'"
  using assms by (auto simp: grows_def same_env_def)

section \<open>One step\<close>

lemma touch_fields:
  "same_shape (nodes c) (nodes (touch c n))" "n_lock_ref (nodes (touch c n) m) = n_lock_ref (nodes c m)"
  "same_env c (touch c n)" "node_counter (touch c n) = node_counter c"
  "evictable_sz (touch c n) = evictable_sz c" "protected_sz (touch c n) = protected_sz c"
  by (simp_all add: touch_def upd_node_def same_shape_def same_env_def)

lemma touch_simps [simp]:
  "n_key (nodes (touch c n) m) = n_key (nodes c m)" "nval (nodes (touch c n) m) = nval (nodes c m)"
  "n_children (nodes (touch c n) m) = n_children (nodes c m)"
  "n_parent (nodes (touch c n) m) = n_parent (nodes c m)"
  "page_size (touch c n) = page_size c" "root_node (touch c n) = root_node c"
  "child_of (nodes (touch c n)) m x = child_of (nodes c) m x"
  by (simp_all add: touch_def upd_node_def nval_def child_of_def)

lemma key_match_touch [simp]: "key_match_fn (touch c n) = key_match_fn c"
  by (simp add: key_match_fn_def fun_eq_iff)

lemma grows_touch: "cwf c L P \<Longrightarrow> grows c L P (touch c n) L P"
proof -
  assume wf: "cwf c L P"
  note t = touch_fields [of c n]
  have "lock_sum R (nodes (touch c n)) r L = lock_sum R (nodes c) r L"
    "tree_slots (nodes (touch c n)) r L = tree_slots (nodes c) r L"
    "lock_ok (nodes (touch c n)) r L P refs = lock_ok (nodes c) r L P refs" for R r refs
    by (simp_all add: lock_sum_def tree_slots_def lock_ok_def t(2) cong del: if_weak_cong)
  then show ?thesis
    using wf t same_shape_wf [OF t(1)] same_shape_tree_pages [OF t(1)]
    by (simp add: grows_def)
qed

lemma record_events_simps [simp]:
  "nodes (record_store_event c n) = nodes c" "nodes (record_remove_event c n) = nodes c"
  "node_counter (record_store_event c n) = node_counter c"
  "node_counter (record_remove_event c n) = node_counter c"
  "evictable_sz (record_store_event c n) = evictable_sz c"
  "evictable_sz (record_remove_event c n) = evictable_sz c"
  "protected_sz (record_store_event c n) = protected_sz c"
  "protected_sz (record_remove_event c n) = protected_sz c"
  "root_node (record_store_event c n) = root_node c" "root_node (record_remove_event c n) = root_node c"
  "page_size (record_store_event c n) = page_size c" "page_size (record_remove_event c n) = page_size c"
  "req_pool (record_store_event c n) = req_pool c" "req_pool (record_remove_event c n) = req_pool c"
  "kv_pool (record_store_event c n) = kv_pool c" "kv_pool (record_remove_event c n) = kv_pool c"
  "cache_disable (record_store_event c n) = cache_disable c"
  "cache_disable (record_remove_event c n) = cache_disable c"
  "enable_kv_cache_events (record_store_event c n) = enable_kv_cache_events c"
  "enable_kv_cache_events (record_remove_event c n) = enable_kv_cache_events c"
  "clock (record_store_event c n) = clock c" "clock (record_remove_event c n) = clock c"
  "pyhash (record_store_event c n) = pyhash c" "pyhash (record_remove_event c n) = pyhash c"
  by (simp_all add: record_store_event_def record_remove_event_def split: option.split)

lemma split_node_spec:
  assumes s: "split_ok (page_size c) (nodes c) (root_node c) (node_counter c) L P q child k"
  obtains c' where "split_node c (n_key (nodes c child)) child k = Some (node_counter c, c')"
    "split_rel (page_size c) (nodes c) (nodes c') q child (node_counter c) k"
    "node_counter c' = Suc (node_counter c)" "same_env c c'"
    "evictable_sz c' = evictable_sz c" "protected_sz c' = protected_sz c"
proof -
  note f = split_facts [OF s]
  obtain n c' where e: "split_node c (n_key (nodes c child)) child k = Some (n, c')"
    using f(9,11) by (simp add: split_node_def new_tree_node_def Let_def)
  have "n = node_counter c" "split_rel (page_size c) (nodes c) (nodes c') q child (node_counter c) k"
    "node_counter c' = Suc (node_counter c)" "same_env c c'"
    "evictable_sz c' = evictable_sz c" "protected_sz c' = protected_sz c"
    using e f(9,11-13)
    by (auto simp: split_node_def new_tree_node_def Let_def upd_node_def get_child_key_fn_def
        split_rel_def same_env_def)
  with e that show thesis by blast
qed

lemma lock_ok_split:
  assumes s: "split_ok p ns r cnt L P q child k" and rel: "split_rel p ns ns' q child cnt k"
    and lock: "lock_ok ns r L P refs"
  shows "lock_ok ns' r (insert cnt L) (split_path ns cnt P q child k) refs"
proof -
  note f = split_facts [OF s] and fl = split_fields [OF s rel]
  let ?P = "split_path ns cnt P q child k"
  have wf': "tree_wf p ns' r (Suc cnt) (insert cnt L) ?P" by (rule split_wf [OF s rel])
  have sub: "set_mset refs \<subseteq> L" using lock by (simp add: lock_ok_def)
  have old: "?P x = P x" if "x \<in> L" for x using that f(14) by (auto simp: split_path_def)
  have count: "filter_mset (\<lambda>x. prefix (?P m) (?P x)) refs = filter_mset (\<lambda>x. prefix (P m) (P x)) refs"
    if "m \<in> L" for m
    using sub old that by (intro filter_mset_cong) auto
  have "prefix (?P cnt) (?P x) \<longleftrightarrow> prefix (P child) (P x)" if x: "x \<in> L" for x
  proof
    assume "prefix (?P cnt) (?P x)"
    then have "cnt = x \<or> (\<exists>c. child_of ns' cnt c \<and> prefix (?P c) (?P x))"
      using wf_ancestor [OF wf'] x by blast
    moreover have "child_of ns' cnt c \<longleftrightarrow> c = child" for c
      using rel by (auto simp: split_rel_def child_of_def)
    ultimately show "prefix (P child) (P x)" using x f(7,14) old by auto
  next
    assume "prefix (P child) (P x)"
    moreover have "prefix (?P cnt) (P child)"
      using f(10) by (simp add: split_path_def take_is_prefix)
    ultimately show "prefix (?P cnt) (?P x)" using old [OF x] by (metis prefix_order.trans)
  qed
  then have new: "filter_mset (\<lambda>x. prefix (?P cnt) (?P x)) refs = filter_mset (\<lambda>x. prefix (P child) (P x)) refs"
    using sub by (intro filter_mset_cong) auto
  have "n_lock_ref (ns' cnt) = n_lock_ref (ns child)" using rel by (simp add: split_rel_def)
  moreover have "m \<noteq> cnt" if "m \<in> L" for m using that f(14) by blast
  ultimately have "n_lock_ref (ns' m) = int (size (filter_mset (\<lambda>x. prefix (?P m) (?P x)) refs))"
    if "m \<in> insert cnt L - {r}" for m
    using that lock count [of m] new fl(8) [of m] f(7,8) unfolding lock_ok_def
    by (cases "m = cnt") auto
  then show ?thesis using sub unfolding lock_ok_def by blast
qed

lemma grows_split:
  assumes wf: "cwf c L P" and q: "q \<in> L" "child_of (nodes c) q child"
    and k: "page_size c dvd k" "0 < k" "k < length (n_key (nodes c child))"
  obtains c' where "split_node c (n_key (nodes c child)) child k = Some (node_counter c, c')"
    "split_rel (page_size c) (nodes c) (nodes c') q child (node_counter c) k"
    "grows c L P c' (insert (node_counter c) L) (split_path (nodes c) (node_counter c) P q child k)"
proof -
  have s: "split_ok (page_size c) (nodes c) (root_node c) (node_counter c) L P q child k"
    using assms by (simp add: split_ok_def)
  obtain c' where c': "split_node c (n_key (nodes c child)) child k = Some (node_counter c, c')"
    and rel: "split_rel (page_size c) (nodes c) (nodes c') q child (node_counter c) k"
    and e: "node_counter c' = Suc (node_counter c)" "same_env c c'"
      "evictable_sz c' = evictable_sz c" "protected_sz c' = protected_sz c"
    using split_node_spec [OF s] by blast
  have "page_size c' = page_size c" "root_node c' = root_node c" using e by (auto simp: same_env_def)
  moreover have "\<forall>x\<in>L. split_path (nodes c) (node_counter c) P q child k x = P x"
    using split_facts(14) [OF s] by (auto simp: split_path_def)
  ultimately have "grows c L P c' (insert (node_counter c) L) (split_path (nodes c) (node_counter c) P q child k)"
    unfolding grows_def
    using e split_wf [OF s rel] split_pages [OF s rel] split_sums [OF s rel] lock_ok_split [OF s rel]
    by auto
  with c' rel show thesis by (rule that)
qed

section \<open>The child a key leads to\<close>

lemma child_lookup:
  assumes wf: "cwf c L P" and n: "n \<in> L" and ks: "ks \<noteq> []" "page_size c dvd length ks"
    and m: "map_of (n_children (nodes c n)) (get_child_key_fn c ks) = Some child"
  defines "k \<equiv> key_match_fn c (n_key (nodes c child)) ks"
  shows "child_of (nodes c) n child" "0 < k" "page_size c dvd k" "k \<le> length (n_key (nodes c child))"
    "k \<le> length ks" "take k (n_key (nodes c child)) = take k ks"
    "k < length (n_key (nodes c child)) \<Longrightarrow> k < length ks \<Longrightarrow>
      take (page_size c) (drop k (n_key (nodes c child))) \<noteq> take (page_size c) (drop k ks)"
    "P child = P n @ n_key (nodes c child)" "child \<in> L"
    "length (nval (nodes c child)) = length (n_key (nodes c child))"
proof -
  have in_ch: "(get_child_key_fn c ks, child) \<in> set (n_children (nodes c n))"
    using m by (rule map_of_SomeD)
  then show ch: "child_of (nodes c) n child" by (force simp: child_of_def)
  note w = wf_child [OF wf n ch]
  show "P child = P n @ n_key (nodes c child)" "child \<in> L" using w by auto
  have nd: "n_key (nodes c child) \<noteq> []" "page_size c dvd length (n_key (nodes c child))"
    using wf_node [OF wf w(1,2)] by auto
  show "length (nval (nodes c child)) = length (n_key (nodes c child))"
    using wf_node [OF wf w(1,2)] by simp
  have p: "0 < page_size c" using wf_basic [OF wf] by simp
  note km = key_match_props [OF p nd(2) ks(2)]
  show "page_size c dvd k" "k \<le> length (n_key (nodes c child))" "k \<le> length ks"
    "take k (n_key (nodes c child)) = take k ks"
    "k < length (n_key (nodes c child)) \<Longrightarrow> k < length ks \<Longrightarrow>
      take (page_size c) (drop k (n_key (nodes c child))) \<noteq> take (page_size c) (drop k ks)"
    using km unfolding k_def by auto
  have "take (page_size c) (n_key (nodes c child)) = take (page_size c) ks"
    using wf n in_ch unfolding tree_wf_def get_child_key_fn_def by metis
  then show "0 < k" using km(5) nd(1) ks(1) unfolding k_def by (cases "key_match_fn c (n_key (nodes c child)) ks") auto
qed

text \<open>A cached page below a node starts with the first page of one of its children.\<close>

lemma page_below:
  assumes wf: "tree_wf p ns r cnt L P" and n: "n \<in> L" and x: "(xs, s) \<in> tree_pages p ns r L P"
    and pre: "prefix (P n) xs" "length (P n) < length xs"
  obtains c where "child_of ns n c" "take p (n_key (ns c)) = take p (drop (length (P n)) xs)"
proof -
  obtain m where m: "m \<in> L" "m \<noteq> r" "(xs, s) \<in> node_pages p ns P m"
    using x by (auto simp: tree_pages_def)
  obtain q where xm: "prefix xs (P m)" and dvd: "p dvd length xs"
    using node_pages_key [OF wf m] by metis
  have "prefix (P n) (P m)" using pre xm by (meson prefix_order.trans)
  then have "n = m \<or> (\<exists>c. child_of ns n c \<and> prefix (P c) (P m))"
    using wf_ancestor [OF wf n m(1)] by blast
  moreover have "n \<noteq> m" using pre xm by (auto dest: prefix_length_le)
  ultimately obtain c where c: "child_of ns n c" "prefix (P c) (P m)" by blast
  have gap: "length (P n) + p \<le> length xs" using wf_gap [OF wf n dvd pre(2)] .
  obtain w where w: "P m = xs @ w" using xm by (auto simp: prefix_def)
  have "take p (n_key (ns c)) = take p (drop (length (P n)) (P m))"
    using wf_first_page [OF wf n c] .
  also have "\<dots> = take p (drop (length (P n)) xs)" using gap by (simp add: w)
  finally show thesis using that [OF c(1)] by blast
qed

lemma no_page_beyond:
  assumes wf: "tree_wf p ns r cnt L P" and n: "n \<in> L" and ks: "ks \<noteq> []" "p dvd length ks"
    and no: "\<And>c. child_of ns n c \<Longrightarrow> take p (n_key (ns c)) \<noteq> take p ks"
  shows "(P n @ take p ks, s) \<notin> tree_pages p ns r L P"
proof
  assume x: "(P n @ take p ks, s) \<in> tree_pages p ns r L P"
  have "0 < p" using wf_basic [OF wf] by simp
  then show False
    using page_below [OF wf n x] ks(1) no by (auto simp: take_eq_Nil2)
qed

lemma no_child_no_page:
  assumes wf: "tree_wf p ns r cnt L P" and n: "n \<in> L"
    and none: "map_of (n_children (ns n)) (take p ks) = None" and c: "child_of ns n c"
  shows "take p (n_key (ns c)) \<noteq> take p ks"
proof
  assume "take p (n_key (ns c)) = take p ks"
  then have "(take p ks, c) \<in> set (n_children (ns n))" using wf_child(5) [OF wf n c] by simp
  then show False using none by (metis weak_map_of_SomeI option.discI)
qed

end
