(* ===== verification/Radix_Walk.thy ===== *)
theory Radix_Walk
  imports Radix_Loops
begin

text \<open>
  The loops of \<open>_match_prefix_helper\<close> and \<open>_insert_helper\<close>. Both walk down the longest cached
  page-aligned prefix of a key (\<open>walk\<close>), splitting the last edge when the key leaves it in the
  middle; both return on every well-formed cache.
\<close>

section \<open>A walk along cached pages\<close>

definition walk ::
  "nat \<Rightarrow> (token list \<times> slot list) set \<Rightarrow> token list \<Rightarrow> token list \<Rightarrow> nat \<Rightarrow> slot list \<Rightarrow> bool" where
  "walk p E base ks k V \<longleftrightarrow>
     p dvd k \<and> k \<le> length ks \<and> length V = k \<and> edge_pages p base (take k ks) V \<subseteq> E \<and>
     (k < length ks \<longrightarrow> (\<forall>s. (base @ take (k + p) ks, s) \<notin> E))"

lemma walk_stop:
  "0 < p \<Longrightarrow> (ks \<noteq> [] \<Longrightarrow> \<forall>s. (base @ take p ks, s) \<notin> E) \<Longrightarrow> walk p E base ks 0 []"
  by (auto simp: walk_def)

lemma walk_step:
  assumes w: "walk p E (base @ take j ks) (drop j ks) k V" and p: "0 < p"
    and u: "edge_pages p base (take j ks) U \<subseteq> E" "length U = j" and j: "p dvd j" "j \<le> length ks"
  shows "walk p E base ks (j + k) (U @ V)"
proof -
  have k: "p dvd k" "k \<le> length ks - j" "length V = k"
    and e: "edge_pages p (base @ take j ks) (take k (drop j ks)) V \<subseteq> E"
    and no: "k < length ks - j \<Longrightarrow> \<forall>s. ((base @ take j ks) @ take (k + p) (drop j ks), s) \<notin> E"
    using w by (auto simp: walk_def)
  have "edge_pages p base (take (j + k) ks) (U @ V) \<subseteq> E"
    using edge_pages_split [OF p j(1), of "take (j + k) ks" base "U @ V"] j k u e
    by (simp add: take_add min_def)
  moreover have "\<forall>s. (base @ take (j + k + p) ks, s) \<notin> E" if "j + k < length ks"
    using no that by (simp add: take_add add.assoc)
  ultimately show ?thesis using j k u by (simp add: walk_def)
qed

section \<open>One edge\<close>

lemma node_pages_child:
  assumes wf: "tree_wf p ns r cnt L P" and n: "n \<in> L" and ch: "child_of ns n child"
  shows "edge_pages p (P n) (n_key (ns child)) (nval (ns child)) \<subseteq> tree_pages p ns r L P"
proof -
  note w = wf_child [OF wf n ch]
  show ?thesis using w path_base_child [of P child n ns] by (auto simp: tree_pages_def node_pages_def)
qed

lemma prefix_pages:
  assumes "0 < p" and "p dvd k" and "k \<le> length ks" and "edge_pages p base ks vs \<subseteq> E"
  shows "edge_pages p base (take k ks) (take k vs) \<subseteq> E"
  using edge_pages_split [OF assms(1-3), of base vs] assms(4) by auto

lemma step_whole:
  assumes wf: "cwf c L P" and n: "n \<in> L" and ks: "ks \<noteq> []" "page_size c dvd length ks"
    and m: "map_of (n_children (nodes c n)) (get_child_key_fn c ks) = Some child"
  defines "k \<equiv> key_match_fn c (n_key (nodes c child)) ks"
  assumes whole: "\<not> k < length (n_key (nodes c child))"
  shows "grows c L P (touch c child) L P" "child \<in> L" "P child = P n @ take k ks"
    "edge_pages (page_size c) (P n) (take k ks) (nval (nodes c child)) \<subseteq> cpages c L P"
    "length (nval (nodes c child)) = k"
proof -
  note cl = child_lookup [OF wf n ks m, folded k_def]
  have k: "k = length (n_key (nodes c child))" using whole cl(4) by simp
  show "grows c L P (touch c child) L P" by (rule grows_touch [OF wf])
  show "child \<in> L" by (rule cl(9))
  show "length (nval (nodes c child)) = k" using cl(10) k by simp
  have "n_key (nodes c child) = take k ks" using cl(6) k by simp
  then show "P child = P n @ take k ks"
    "edge_pages (page_size c) (P n) (take k ks) (nval (nodes c child)) \<subseteq> cpages c L P"
    using cl(8) node_pages_child [OF wf n cl(1)] by simp_all
qed

lemma step_split:
  assumes wf: "cwf c L P" and n: "n \<in> L" and ks: "ks \<noteq> []" "page_size c dvd length ks"
    and m: "map_of (n_children (nodes c n)) (get_child_key_fn c ks) = Some child"
  defines "k \<equiv> key_match_fn c (n_key (nodes c child)) ks"
  assumes inside: "k < length (n_key (nodes c child))"
  obtains c2 L2 P2 new where
    "split_node (touch c child) (n_key (nodes c child)) child k = Some (new, c2)"
    "grows c L P c2 L2 P2" "new \<in> L2" "P2 new = P n @ take k ks"
    "edge_pages (page_size c) (P n) (take k ks) (nval (nodes c2 new)) \<subseteq> cpages c L P"
    "length (nval (nodes c2 new)) = k"
    "k < length ks \<longrightarrow> (\<forall>s. (P n @ take (k + page_size c) ks, s) \<notin> cpages c L P)"
proof -
  note cl = child_lookup [OF wf n ks m, folded k_def]
  let ?c1 = "touch c child" and ?new = "node_counter (touch c child)"
  have g1: "grows c L P ?c1 L P" by (rule grows_touch [OF wf])
  have wf1: "cwf ?c1 L P" using growsD(1) [OF g1] .
  have p: "0 < page_size c" using wf_basic [OF wf] by simp
  obtain c2 where c2: "split_node ?c1 (n_key (nodes ?c1 child)) child k = Some (?new, c2)"
    and rel: "split_rel (page_size ?c1) (nodes ?c1) (nodes c2) n child ?new k"
    and g2: "grows ?c1 L P c2 (insert ?new L) (split_path (nodes ?c1) ?new P n child k)"
    using grows_split [OF wf1 n, of child k] cl(1-3) inside by auto
  let ?L2 = "insert ?new L" and ?P2 = "split_path (nodes ?c1) ?new P n child k"
  have g: "grows c L P c2 ?L2 ?P2" by (rule grows_trans [OF g1 g2])
  have s: "split_ok (page_size ?c1) (nodes ?c1) (root_node ?c1) (node_counter ?c1) L P n child k"
    using wf1 n cl(1-3) inside by (simp add: split_ok_def)
  have v: "nval (nodes c2 ?new) = take k (nval (nodes c child))"
    using split_fields(1) [OF s rel] by simp
  have pn: "?P2 ?new = P n @ take k ks" using cl(6) by (simp add: split_path_def)
  have e: "edge_pages (page_size c) (P n) (take k ks) (nval (nodes c2 ?new)) \<subseteq> cpages c L P"
    using prefix_pages [OF p cl(3,4) node_pages_child [OF wf n cl(1)]] cl(6) v by simp
  have len: "length (nval (nodes c2 ?new)) = k" using v cl(4,10) by simp
  have no: "\<forall>s. (P n @ take (k + page_size c) ks, s) \<notin> cpages c L P" if kl: "k < length ks"
  proof
    fix s
    have ch: "child_of (nodes c2) ?new x \<Longrightarrow> x = child" for x
      using rel by (auto simp: split_rel_def child_of_def)
    have key: "n_key (nodes c2 child) = drop k (n_key (nodes c child))"
      using rel by (auto simp: split_rel_def)
    have "(?P2 ?new @ take (page_size c) (drop k ks), s) \<notin> tree_pages (page_size c) (nodes c2) (root_node c2) ?L2 ?P2"
    proof (rule no_page_beyond)
      show "tree_wf (page_size c) (nodes c2) (root_node c2) (node_counter c2) ?L2 ?P2"
        using growsD(1,2) [OF g] by simp
      show "drop k ks \<noteq> []" "page_size c dvd length (drop k ks)" using kl cl(3) ks(2) by auto
      show "take (page_size c) (n_key (nodes c2 x)) \<noteq> take (page_size c) (drop k ks)"
        if "child_of (nodes c2) ?new x" for x
        using ch [OF that] key cl(7) inside kl by simp
    qed simp
    then show "(P n @ take (k + page_size c) ks, s) \<notin> cpages c L P"
      using growsD(2,6) [OF g] pn by (simp add: take_add)
  qed
  show thesis using that [of ?new c2 ?L2 ?P2] c2 g pn e len no by simp
qed

section \<open>The loop of a match\<close>

lemma match_loop_spec:
  assumes "cwf c L P" and "n \<in> L" and "page_size c dvd length ks"
  shows "\<exists>vs n' c' L' P' k. match_loop c n ks acc = Some (acc @ vs, n', c') \<and>
    grows c L P c' L' P' \<and> n' \<in> L' \<and> P' n' = P n @ take k ks \<and>
    walk (page_size c) (cpages c L P) (P n) ks k (concat vs)"
  using assms
proof (induction "length ks" arbitrary: c L P n ks acc rule: less_induct)
  case less
  note wf = less.prems(1) and n = less.prems(2) and dvd = less.prems(3)
  have p: "0 < page_size c" using wf_basic [OF wf] by simp
  show ?case
  proof (cases "ks = []")
    case True
    then show ?thesis
      using n grows_refl [OF wf] walk_stop [OF p, of "[]"]
      by (intro exI [of _ "[]"] exI [of _ n] exI [of _ c] exI [of _ L] exI [of _ P] exI [of _ 0])
        (simp add: match_loop.simps)
  next
    case ne: False
    show ?thesis
    proof (cases "map_of (n_children (nodes c n)) (get_child_key_fn c ks)")
      case None
      then have "\<forall>s. (P n @ take (page_size c) ks, s) \<notin> cpages c L P"
        using no_page_beyond [OF wf n ne dvd] no_child_no_page [OF wf n]
        by (simp add: get_child_key_fn_def)
      then show ?thesis
        using n grows_refl [OF wf] walk_stop [OF p] None ne
        by (intro exI [of _ "[]"] exI [of _ n] exI [of _ c] exI [of _ L] exI [of _ P] exI [of _ 0])
          (simp add: match_loop.simps [of c n ks])
    next
      case (Some child)
      let ?k = "key_match_fn c (n_key (nodes c child)) ks"
      note cl = child_lookup [OF wf n ne dvd Some]
      show ?thesis
      proof (cases "?k < length (n_key (nodes c child))")
        case True
        obtain c2 L2 P2 new where s: "split_node (touch c child) (n_key (nodes c child)) child ?k = Some (new, c2)"
          "grows c L P c2 L2 P2" "new \<in> L2" "P2 new = P n @ take ?k ks"
          "edge_pages (page_size c) (P n) (take ?k ks) (nval (nodes c2 new)) \<subseteq> cpages c L P"
          "length (nval (nodes c2 new)) = ?k"
          "?k < length ks \<longrightarrow> (\<forall>s. (P n @ take (?k + page_size c) ks, s) \<notin> cpages c L P)"
          by (rule step_split [OF wf n ne dvd Some True])
        have "walk (page_size c) (cpages c L P) (P n) ks ?k (concat [nval (nodes c2 new)])"
          using s cl by (simp add: walk_def)
        then show ?thesis
          using s True ne Some
          by (intro exI [of _ "[nval (nodes c2 new)]"] exI [of _ new] exI [of _ c2] exI [of _ L2]
              exI [of _ P2] exI [of _ ?k]) (simp add: match_loop.simps [of c n ks])
      next
        case False
        note s = step_whole [OF wf n ne dvd Some False]
        have small: "length (drop ?k ks) < length ks" using cl(2) ne by simp
        have "page_size (touch c child) dvd length (drop ?k ks)" using cl(3) dvd by simp
        from less.hyps [OF small growsD(1) [OF s(1)] s(2) this, of "acc @ [nval (nodes c child)]"]
        obtain vs n' c' L' P' k' where IH:
          "match_loop (touch c child) child (drop ?k ks) (acc @ [nval (nodes c child)]) =
             Some ((acc @ [nval (nodes c child)]) @ vs, n', c')"
          "grows (touch c child) L P c' L' P'" "n' \<in> L'" "P' n' = P child @ take k' (drop ?k ks)"
          "walk (page_size c) (cpages c L P) (P n @ take ?k ks) (drop ?k ks) k' (concat vs)"
          using s(3) growsD(6) [OF s(1)] by auto
        have "walk (page_size c) (cpages c L P) (P n) ks (?k + k') (concat (nval (nodes c child) # vs))"
          using walk_step [OF IH(5) p s(4,5) cl(3,5)] by simp
        moreover have "P' n' = P n @ take (?k + k') ks" using IH(4) s(3) by (simp add: take_add)
        moreover have "match_loop c n ks acc = Some (acc @ nval (nodes c child) # vs, n', c')"
          using IH(1) ne Some False by (simp add: match_loop.simps [of c n ks])
        ultimately show ?thesis using grows_trans [OF s(1) IH(2)] IH(3) by blast
      qed
    qed
  qed
qed

section \<open>The loop of an insert\<close>

lemma insert_loop_spec:
  assumes "cwf c L P" and "n \<in> L" and "page_size c dvd length ks"
  shows "\<exists>n' c' L' P' k V. insert_loop c n ks vs tot = Some (n', drop k ks, drop k vs, tot + k, c') \<and>
    grows c L P c' L' P' \<and> n' \<in> L' \<and> P' n' = P n @ take k ks \<and>
    walk (page_size c) (cpages c L P) (P n) ks k V \<and>
    (k < length ks \<longrightarrow> map_of (n_children (nodes c' n')) (take (page_size c) (drop k ks)) = None)"
  using assms
proof (induction "length ks" arbitrary: c L P n ks vs tot rule: less_induct)
  case less
  note wf = less.prems(1) and n = less.prems(2) and dvd = less.prems(3)
  have p: "0 < page_size c" using wf_basic [OF wf] by simp
  show ?case
  proof (cases "ks = []")
    case True
    then show ?thesis
      using n grows_refl [OF wf] walk_stop [OF p, of "[]"]
      by (intro exI [of _ n] exI [of _ c] exI [of _ L] exI [of _ P] exI [of _ 0] exI [of _ "[]"])
        (simp add: insert_loop.simps)
  next
    case ne: False
    show ?thesis
    proof (cases "map_of (n_children (nodes c n)) (get_child_key_fn c ks)")
      case None
      then have "\<forall>s. (P n @ take (page_size c) ks, s) \<notin> cpages c L P"
        using no_page_beyond [OF wf n ne dvd] no_child_no_page [OF wf n]
        by (simp add: get_child_key_fn_def)
      then show ?thesis
        using n grows_refl [OF wf] walk_stop [OF p] None ne
        by (intro exI [of _ n] exI [of _ c] exI [of _ L] exI [of _ P] exI [of _ 0] exI [of _ "[]"])
          (simp add: insert_loop.simps [of c n ks] get_child_key_fn_def)
    next
      case (Some child)
      let ?k = "key_match_fn c (n_key (nodes c child)) ks"
      note cl = child_lookup [OF wf n ne dvd Some]
      have small: "length (drop ?k ks) < length ks" using cl(2) ne by simp
      obtain c1 L1 P1 m where s: "grows c L P c1 L1 P1" "m \<in> L1" "P1 m = P n @ take ?k ks"
        "edge_pages (page_size c) (P n) (take ?k ks) (nval (nodes c1 m)) \<subseteq> cpages c L P"
        "length (nval (nodes c1 m)) = ?k"
        and loop: "insert_loop c n ks vs tot = insert_loop c1 m (drop ?k ks) (drop ?k vs) (tot + ?k)"
      proof (cases "?k < length (n_key (nodes c child))")
        case True
        obtain c2 L2 P2 new where s: "split_node (touch c child) (n_key (nodes c child)) child ?k = Some (new, c2)"
          "grows c L P c2 L2 P2" "new \<in> L2" "P2 new = P n @ take ?k ks"
          "edge_pages (page_size c) (P n) (take ?k ks) (nval (nodes c2 new)) \<subseteq> cpages c L P"
          "length (nval (nodes c2 new)) = ?k"
          by (rule step_split [OF wf n ne dvd Some True])
        then show thesis
          using True ne Some by (intro that [of c2 L2 P2 new]) (simp_all add: insert_loop.simps [of c n ks] Let_def)
      next
        case False
        note s = step_whole [OF wf n ne dvd Some False]
        then show thesis
          using False ne Some
          by (intro that [of "touch c child" L P child]) (simp_all add: insert_loop.simps [of c n ks] Let_def)
      qed
      have "page_size c1 dvd length (drop ?k ks)" using cl(3) dvd growsD(2) [OF s(1)] by simp
      from less.hyps [OF small growsD(1) [OF s(1)] s(2) this, of "drop ?k vs" "tot + ?k"]
      obtain n' c' L' P' k' V where IH:
        "insert_loop c1 m (drop ?k ks) (drop ?k vs) (tot + ?k) =
           Some (n', drop (?k + k') ks, drop (?k + k') vs, tot + (?k + k'), c')"
        "grows c1 L1 P1 c' L' P'" "n' \<in> L'" "P' n' = P1 m @ take k' (drop ?k ks)"
        "walk (page_size c) (cpages c L P) (P n @ take ?k ks) (drop ?k ks) k' V"
        "k' < length (drop ?k ks) \<longrightarrow>
           map_of (n_children (nodes c' n')) (take (page_size c) (drop (?k + k') ks)) = None"
        using s(3) growsD(2,6) [OF s(1)] by (auto simp: add.assoc add.commute [of _ ?k])
      have "walk (page_size c) (cpages c L P) (P n) ks (?k + k') (nval (nodes c1 m) @ V)"
        by (rule walk_step [OF IH(5) p s(4,5) cl(3,5)])
      moreover have "P' n' = P n @ take (?k + k') ks" using IH(4) s(3) by (simp add: take_add)
      moreover have "k' < length (drop ?k ks)" if "?k + k' < length ks" using that by simp
      ultimately show ?thesis using loop IH(1,3,6) grows_trans [OF s(1) IH(2)] by metis
    qed
  qed
qed

end
