(* ===== verification/Radix_Spec.thy ===== *)
theory Radix_Spec
  imports Radix_Walk
begin

text \<open>
  What a client of the radix cache sees: the live nodes with their paths, the cached pages (a
  finite map from page-aligned prefixes to the slots of their last page) and the cached slots.
  \<open>radix_inv\<close> is the invariant of the cache; matching keeps the map, inserting extends it.
\<close>

section \<open>The abstraction\<close>

inductive node_path :: "(node_id \<Rightarrow> tree_node) \<Rightarrow> node_id \<Rightarrow> node_id \<Rightarrow> token list \<Rightarrow> bool"
  for ns :: "node_id \<Rightarrow> tree_node" and r :: node_id
where
  at_root: "node_path ns r r []"
| below: "node_path ns r n xs \<Longrightarrow> child_of ns n m \<Longrightarrow> node_path ns r m (xs @ n_key (ns m))"

definition live :: "radix_cache \<Rightarrow> node_id set" where
  "live c = {n. \<exists>xs. node_path (nodes c) (root_node c) n xs}"

definition path_of :: "radix_cache \<Rightarrow> node_id \<Rightarrow> token list" where
  "path_of c n = (THE xs. node_path (nodes c) (root_node c) n xs)"

definition cached_pages :: "radix_cache \<Rightarrow> (token list \<times> slot list) set" where
  "cached_pages c = cpages c (live c) (path_of c)"

definition cached_slots :: "radix_cache \<Rightarrow> slot multiset" where
  "cached_slots c = tree_slots (nodes c) (root_node c) (live c)"

text \<open>\<open>refs\<close> are the nodes locked by running requests, with multiplicity.\<close>

definition radix_inv :: "radix_cache \<Rightarrow> node_id multiset \<Rightarrow> bool" where
  "radix_inv c refs \<longleftrightarrow>
     cwf c (live c) (path_of c) \<and> lock_ok (nodes c) (root_node c) (live c) (path_of c) refs \<and>
     evictable_sz c = lock_sum (\<lambda>l. l = 0) (nodes c) (root_node c) (live c) \<and>
     protected_sz c = lock_sum (\<lambda>l. l \<noteq> 0) (nodes c) (root_node c) (live c)"

declare radix_inv_def [inv_defs]

lemma path_in_tree:
  assumes wf: "tree_wf p ns r cnt L P"
  shows "node_path ns r n xs \<longleftrightarrow> n \<in> L \<and> xs = P n"
proof
  assume "node_path ns r n xs"
  then show "n \<in> L \<and> xs = P n"
  proof (induction rule: node_path.induct)
    case at_root
    then show ?case using wf_basic [OF wf] by simp
  next
    case (below n xs m)
    then show ?case using wf_child [OF wf, of n m] by simp
  qed
next
  have "n \<in> L \<Longrightarrow> node_path ns r n (P n)"
  proof (induction "length (P n)" arbitrary: n rule: less_induct)
    case less
    show ?case
    proof (cases "n = r")
      case True
      then show ?thesis using wf_basic [OF wf] node_path.at_root by simp
    next
      case False
      then obtain q where q: "q \<in> L" "child_of ns q n" "P n = P q @ n_key (ns n)"
        using wf_parent [OF wf less.prems] by metis
      then show ?thesis
        using less.hyps [of q] wf_node(1) [OF wf less.prems False] node_path.below by simp
    qed
  qed
  then show "n \<in> L \<and> xs = P n \<Longrightarrow> node_path ns r n xs" by simp
qed

lemma live_eq: "cwf c L P \<Longrightarrow> live c = L"
  by (simp add: live_def path_in_tree)

lemma path_of_eq: "cwf c L P \<Longrightarrow> n \<in> L \<Longrightarrow> path_of c n = P n"
  by (simp add: path_of_def path_in_tree)

lemma tree_wf_cong:
  assumes "\<And>n. n \<in> L \<Longrightarrow> P' n = P n" shows "tree_wf p ns r cnt L P' = tree_wf p ns r cnt L P"
  by (cases "r \<in> L") (simp_all add: tree_wf_def assms cong: conj_cong ball_cong bex_cong)

lemma tree_pages_cong:
  "(\<And>n. n \<in> L \<Longrightarrow> P' n = P n) \<Longrightarrow> tree_pages p ns r L P' = tree_pages p ns r L P"
  by (simp add: tree_pages_def node_pages_def path_base_def)

lemma lock_ok_cong:
  assumes "\<And>n. n \<in> L \<Longrightarrow> P' n = P n" shows "lock_ok ns r L P' refs = lock_ok ns r L P refs"
proof (cases "set_mset refs \<subseteq> L")
  case True
  have "filter_mset (\<lambda>x. prefix (P' m) (P' x)) refs = filter_mset (\<lambda>x. prefix (P m) (P x)) refs"
    if "m \<in> L" for m
    using True assms that by (intro filter_mset_cong) auto
  then show ?thesis by (simp add: lock_ok_def)
qed (simp add: lock_ok_def)

text \<open>The way into and out of the abstraction for the lemmas on explicit trees.\<close>

lemma abs_eqs:
  assumes "cwf c L P"
  shows "live c = L" "\<And>n. n \<in> L \<Longrightarrow> path_of c n = P n" "cached_pages c = cpages c L P"
    "cached_slots c = tree_slots (nodes c) (root_node c) L"
    "cwf c (live c) (path_of c)"
proof -
  show l: "live c = L" and p: "\<And>n. n \<in> L \<Longrightarrow> path_of c n = P n"
    using live_eq [OF assms] path_of_eq [OF assms] by auto
  show "cached_pages c = cpages c L P" "cached_slots c = tree_slots (nodes c) (root_node c) L"
    using l p tree_pages_cong [of L "path_of c" P] by (simp_all add: cached_pages_def cached_slots_def)
  show "cwf c (live c) (path_of c)" using tree_wf_cong [of L "path_of c" P] l p assms by simp
qed

lemma radix_inv_iff:
  assumes wf: "cwf c L P"
  shows "radix_inv c refs \<longleftrightarrow>
    lock_ok (nodes c) (root_node c) L P refs \<and>
    evictable_sz c = lock_sum (\<lambda>l. l = 0) (nodes c) (root_node c) L \<and>
    protected_sz c = lock_sum (\<lambda>l. l \<noteq> 0) (nodes c) (root_node c) L"
  using abs_eqs [OF wf] lock_ok_cong [of L "path_of c" P]
  by (simp add: radix_inv_def)

lemma radix_invE:
  assumes "radix_inv c refs"
  obtains L P where "cwf c L P" "L = live c" "P = path_of c" "cached_pages c = cpages c L P"
  using assms by (auto simp: radix_inv_def cached_pages_def)

lemma cached_unique:
  "radix_inv c refs \<Longrightarrow> (xs, s) \<in> cached_pages c \<Longrightarrow> (xs, s') \<in> cached_pages c \<Longrightarrow> s = s'"
  unfolding cached_pages_def radix_inv_def by (meson tree_pages_unique)

text \<open>What a walk down the tree leaves unchanged, seen from outside.\<close>

definition same_cache :: "radix_cache \<Rightarrow> radix_cache \<Rightarrow> bool" where
  "same_cache c c' \<longleftrightarrow>
     same_env c c' \<and> evictable_sz c' = evictable_sz c \<and> protected_sz c' = protected_sz c \<and>
     cached_pages c' = cached_pages c \<and> cached_slots c' = cached_slots c \<and>
     live c \<subseteq> live c' \<and> (\<forall>n\<in>live c. path_of c' n = path_of c n)"

lemma grows_same_cache:
  assumes wf: "cwf c L P" and g: "grows c L P c' L' P'" and inv: "radix_inv c refs"
  shows "radix_inv c' refs" "same_cache c c'"
proof -
  note wf' = growsD(1) [OF g]
  show "radix_inv c' refs"
    using inv g unfolding radix_inv_iff [OF wf] radix_inv_iff [OF wf'] by (simp add: grows_def same_env_def)
  have "\<forall>n\<in>L. path_of c' n = path_of c n"
    using abs_eqs(2) [OF wf] abs_eqs(2) [OF wf'] growsD(4,5) [OF g] by auto
  then show "same_cache c c'"
    using g growsD(3,4,6) [OF g] unfolding same_cache_def abs_eqs(1,3,4) [OF wf] abs_eqs(1,3,4) [OF wf']
    by (simp add: grows_def)
qed

section \<open>Matching\<close>

definition aligned :: "radix_cache \<Rightarrow> token list \<Rightarrow> token list" where
  "aligned c ks = take (page_floor (page_size c) (length ks)) ks"

lemma aligned_props:
  assumes "0 < page_size c"
  shows "page_size c dvd length (aligned c ks)" "length (aligned c ks) \<le> length ks"
    "page_size c dvd length ks \<Longrightarrow> aligned c ks = ks"
    "page_size c dvd k \<Longrightarrow> k < length (aligned c ks) \<longleftrightarrow> k + page_size c \<le> length ks"
    "k \<le> length (aligned c ks) \<Longrightarrow> take k (aligned c ks) = take k ks"
proof -
  let ?p = "page_size c" and ?n = "length ks"
  have len: "length (aligned c ks) = ?n div ?p * ?p" by (simp add: aligned_def page_floor_def)
  show "?p dvd length (aligned c ks)" "length (aligned c ks) \<le> ?n" using len by simp_all
  show "?p dvd ?n \<Longrightarrow> aligned c ks = ks" by (simp add: aligned_def page_floor_def)
  show "k < length (aligned c ks) \<longleftrightarrow> k + ?p \<le> ?n" if d: "?p dvd k"
  proof -
    obtain j where k: "k = j * ?p" using d by (metis dvd_div_mult_self)
    have "k < ?n div ?p * ?p \<longleftrightarrow> j < ?n div ?p" using assms by (simp add: k)
    also have "\<dots> \<longleftrightarrow> Suc j * ?p \<le> ?n"
      using assms by (metis Suc_le_eq less_eq_div_iff_mult_less_eq)
    finally show ?thesis by (simp add: len k add.commute)
  qed
  show "take k (aligned c ks) = take k ks" if "k \<le> length (aligned c ks)"
    using that by (simp add: aligned_def min_absorb1)
qed

text \<open>
  \<open>longest_match c ks V\<close>: \<open>V\<close> holds the slots of the longest prefix of \<open>ks\<close> all of whose pages are
  cached.
\<close>

definition longest_match :: "radix_cache \<Rightarrow> token list \<Rightarrow> slot list \<Rightarrow> bool" where
  "longest_match c ks V \<longleftrightarrow>
     page_size c dvd length V \<and> length V \<le> length ks \<and>
     (\<forall>i. Suc i * page_size c \<le> length V \<longrightarrow>
        (take (Suc i * page_size c) ks, seg V (i * page_size c) (Suc i * page_size c)) \<in> cached_pages c) \<and>
     (length V + page_size c \<le> length ks \<longrightarrow> (\<forall>s. (take (length V + page_size c) ks, s) \<notin> cached_pages c))"

lemma walk_longest:
  assumes p: "0 < page_size c" and w: "walk (page_size c) (cached_pages c) [] (aligned c ks) k V"
  shows "longest_match c ks V" "length V = k"
proof -
  note a = aligned_props [OF p]
  show k: "length V = k" using w by (simp add: walk_def)
  have e: "edge_pages (page_size c) [] (take k ks) V \<subseteq> cached_pages c"
    and le: "k \<le> length (aligned c ks)" "page_size c dvd k"
    and no: "k < length (aligned c ks) \<longrightarrow> (\<forall>s. (take (k + page_size c) (aligned c ks), s) \<notin> cached_pages c)"
    using w a(5) [of k ks] by (auto simp: walk_def)
  have low: "(take (Suc i * page_size c) ks, seg V (i * page_size c) (Suc i * page_size c)) \<in> cached_pages c"
    if i: "Suc i * page_size c \<le> k" for i
  proof -
    have "k \<le> length ks" using le(1) a(2) [of ks] by linarith
    then have "([] @ take (Suc i * page_size c) (take k ks), seg V (i * page_size c) (Suc i * page_size c))
        \<in> edge_pages (page_size c) [] (take k ks) V"
      using i unfolding edge_pages_def by (intro imageI) simp
    then show ?thesis using e i by (auto simp: min_absorb1 simp del: mult_Suc)
  qed
  have high: "\<forall>s. (take (k + page_size c) ks, s) \<notin> cached_pages c" if "k + page_size c \<le> length ks"
  proof -
    have lt: "k < length (aligned c ks)" using a(4) [OF le(2)] that by blast
    have "k + page_size c \<le> length (aligned c ks)"
      using lt le(2) a(1) [of ks] by (metis dvd_add_right_iff dvd_imp_le le_add_diff_inverse nat_add_left_cancel_le
          zero_less_diff less_imp_le)
    then show ?thesis using no lt a(5) by simp
  qed
  show "longest_match c ks V"
    unfolding longest_match_def k using le a(2) [of ks] low high
    by (intro conjI allI impI) (blast intro: le_trans)+
qed

lemma match_prefix_spec:
  assumes inv: "radix_inv c refs" and on: "\<not> cache_disable c"
  obtains V n c' where "match_prefix c ks = Some (V, n, c')" "radix_inv c' refs" "same_cache c c'"
    "n \<in> live c'" "path_of c' n = take (length V) ks" "longest_match c ks V"
proof -
  obtain L P where wf: "cwf c L P" and pg: "cached_pages c = cpages c L P" and LP: "L = live c" "P = path_of c"
    using inv by (rule radix_invE)
  have p: "0 < page_size c" and r: "root_node c \<in> L" "P (root_node c) = []" using wf_basic [OF wf] by auto
  show thesis
  proof (cases "ks = []")
    case True
    have "longest_match c ks []" using True p by (simp add: longest_match_def)
    moreover have "same_cache c c" by (simp add: same_cache_def same_env_def)
    ultimately show thesis
      using that [of "[]" "root_node c" c] True inv r LP by (simp add: match_prefix_def)
  next
    case False
    have al: "(if page_size c \<noteq> 1 then take (page_floor (page_size c) (length ks)) ks else ks) = aligned c ks"
      using aligned_props(3) [OF p, of ks] by (simp add: aligned_def)
    have g1: "grows c L P (touch c (root_node c)) L P" by (rule grows_touch [OF wf])
    from match_loop_spec [OF growsD(1) [OF g1], of "root_node c" "aligned c ks" "[]"]
    obtain vs n c' L' P' k where m: "match_loop (touch c (root_node c)) (root_node c) (aligned c ks) [] = Some (vs, n, c')"
      "grows (touch c (root_node c)) L P c' L' P'" "n \<in> L'" "P' n = take k (aligned c ks)"
      "walk (page_size c) (cached_pages c) [] (aligned c ks) k (concat vs)"
      using r aligned_props(1) [OF p] growsD(6) [OF g1] pg by auto
    have g: "grows c L P c' L' P'" by (rule grows_trans [OF g1 m(2)])
    note wl = walk_longest [OF p m(5)]
    have "path_of c' n = take (length (concat vs)) ks"
      using path_of_eq [OF growsD(1) [OF g] m(3)] m(4,5) wl(2) aligned_props(5) [OF p, of k ks]
      by (simp add: walk_def)
    moreover have "match_prefix c ks = Some (concat vs, n, c')"
      using m(1) False on al by (simp add: match_prefix_def match_prefix_helper_def)
    ultimately show thesis
      using that [of "concat vs" n c'] grows_same_cache [OF wf g inv] wl live_eq [OF growsD(1) [OF g]] m(3)
      by simp
  qed
qed

section \<open>Inserting\<close>

lemma add_leaf_rel:
  assumes n: "n \<noteq> node_counter c"
  shows "add_rel (page_size c) (nodes c) (nodes (add_leaf c n ks vs)) n (node_counter c) ks vs"
    "same_env c (add_leaf c n ks vs)" "node_counter (add_leaf c n ks vs) = Suc (node_counter c)"
    "evictable_sz (add_leaf c n ks vs) = evictable_sz c + int (length vs)"
    "protected_sz (add_leaf c n ks vs) = protected_sz c"
  using n by (auto simp: add_leaf_def new_tree_node_def Let_def upd_node_def get_child_key_fn_def
      add_rel_def same_env_def tree_node_init_def)

lemma lock_ok_add:
  assumes s: "add_ok p ns r cnt L P n ks vs" and rel: "add_rel p ns ns' n cnt ks vs"
    and lock: "lock_ok ns r L P refs"
  shows "lock_ok ns' r (insert cnt L) (P(cnt := P n @ ks)) refs"
proof -
  have wf: "tree_wf p ns r cnt L P" and none: "map_of (n_children (ns n)) (take p ks) = None"
    and n: "n \<in> L" and ks: "ks \<noteq> []" using s by (auto simp: add_ok_def)
  note f = add_fields [OF s rel]
  let ?P = "P(cnt := P n @ ks)"
  have wf': "tree_wf p ns' r (Suc cnt) (insert cnt L) ?P" by (rule add_wf [OF s rel])
  have sub: "set_mset refs \<subseteq> L" using lock by (simp add: lock_ok_def)
  have old: "?P x = P x" if "x \<in> L" for x using that f(1) by auto
  have "\<not> prefix (?P cnt) (?P x)" if x: "x \<in> L" for x
  proof
    assume "prefix (?P cnt) (?P x)"
    then have "cnt = x \<or> (\<exists>c. child_of ns' cnt c \<and> prefix (?P c) (?P x))"
      using wf_ancestor [OF wf', of cnt x] x by blast
    then show False using rel x f(1) by (auto simp: add_rel_def child_of_def)
  qed
  then have "filter_mset (\<lambda>x. prefix (?P cnt) (?P x)) refs = filter_mset (\<lambda>_. False) refs"
    using sub by (intro filter_mset_cong) blast+
  then have new: "filter_mset (\<lambda>x. prefix (?P cnt) (?P x)) refs = {#}" by simp
  have cong: "filter_mset (\<lambda>x. prefix (?P m) (?P x)) refs = filter_mset (\<lambda>x. prefix (P m) (P x)) refs"
    if "m \<in> L" for m using sub old that by (intro filter_mset_cong) (simp_all add: subset_iff)
  have "n_lock_ref (ns' cnt) = 0" using rel by (simp add: add_rel_def)
  then have "n_lock_ref (ns' m) = int (size (filter_mset (\<lambda>x. prefix (?P m) (?P x)) refs))"
    if "m \<in> insert cnt L - {r}" for m
    using that lock new cong [of m] f(1) f(4) [of m] by (cases "m = cnt") (auto simp: lock_ok_def)
  then show ?thesis using sub unfolding lock_ok_def by blast
qed

lemma add_leaf_spec:
  assumes wf: "cwf c L P" and n: "n \<in> L" and ks: "ks \<noteq> []" "page_size c dvd length ks"
    and vs: "length vs = length ks" and none: "map_of (n_children (nodes c n)) (take (page_size c) ks) = None"
    and inv: "radix_inv c refs"
  shows "radix_inv (add_leaf c n ks vs) refs"
    "cached_pages (add_leaf c n ks vs) = cached_pages c \<union> edge_pages (page_size c) (P n) ks vs"
    "cached_slots (add_leaf c n ks vs) = cached_slots c + mset vs"
    "same_env c (add_leaf c n ks vs)"
    "evictable_sz (add_leaf c n ks vs) = evictable_sz c + int (length vs)"
    "live c \<subseteq> live (add_leaf c n ks vs)"
    "\<And>x. x \<in> live c \<Longrightarrow> path_of (add_leaf c n ks vs) x = path_of c x"
proof -
  let ?c = "add_leaf c n ks vs" and ?L = "insert (node_counter c) L" and ?P = "P(node_counter c := P n @ ks)"
  have cnt: "node_counter c \<notin> L" "n \<noteq> node_counter c" using wf_basic [OF wf] n by auto
  note rel = add_leaf_rel [OF cnt(2), of ks vs]
  have s: "add_ok (page_size c) (nodes c) (root_node c) (node_counter c) L P n ks vs"
    using wf n ks vs none by (simp add: add_ok_def)
  have env: "page_size ?c = page_size c" "root_node ?c = root_node c" using rel(2) by (auto simp: same_env_def)
  have wf': "cwf ?c ?L ?P" using add_wf [OF s rel(1)] env rel(3) by simp
  note ab = abs_eqs [OF wf] and ab' = abs_eqs [OF wf']
  show "radix_inv ?c refs"
    using inv lock_ok_add [OF s rel(1)] add_sums(2) [OF s rel(1)] rel(4,5) env
    unfolding radix_inv_iff [OF wf] radix_inv_iff [OF wf'] by simp
  show "cached_pages ?c = cached_pages c \<union> edge_pages (page_size c) (P n) ks vs"
    using add_pages [OF s rel(1)] ab(3) ab'(3) env by simp
  show "cached_slots ?c = cached_slots c + mset vs"
    using add_sums(1) [OF s rel(1)] ab(4) ab'(4) env by simp
  show "same_env c ?c" "evictable_sz ?c = evictable_sz c + int (length vs)" by (rule rel)+
  show "live c \<subseteq> live ?c" using ab(1) ab'(1) by auto
  show "path_of ?c x = path_of c x" if "x \<in> live c" for x
    using that ab(1,2) ab'(2) cnt by auto
qed

lemma same_env_trans: "same_env a b \<Longrightarrow> same_env b c \<Longrightarrow> same_env a c"
  by (simp add: same_env_def)

lemma insert_helper_spec:
  assumes inv: "radix_inv c refs" and ks: "page_size c dvd length ks" and vs: "length vs = length ks"
  obtains k V c' where "insert_helper c (root_node c) ks vs = Some (k, c')" "radix_inv c' refs"
    "longest_match c ks V" "length V = k"
    "cached_pages c' = cached_pages c \<union> edge_pages (page_size c) (take k ks) (drop k ks) (drop k vs)"
    "cached_slots c' = cached_slots c + mset (drop k vs)" "same_env c c'"
    "evictable_sz c' = evictable_sz c + int (length ks - k)"
    "live c \<subseteq> live c'" "\<And>n. n \<in> live c \<Longrightarrow> path_of c' n = path_of c n"
proof -
  obtain L P where wf: "cwf c L P" and pg: "cached_pages c = cpages c L P" and LP: "L = live c" "P = path_of c"
    using inv by (rule radix_invE)
  have p: "0 < page_size c" and r: "root_node c \<in> L" "P (root_node c) = []" using wf_basic [OF wf] by auto
  have al: "aligned c ks = ks" using aligned_props(3) [OF p ks] .
  have g1: "grows c L P (touch c (root_node c)) L P" by (rule grows_touch [OF wf])
  from insert_loop_spec [OF growsD(1) [OF g1], of "root_node c" ks vs 0]
  obtain n c' L' P' k V where m:
    "insert_loop (touch c (root_node c)) (root_node c) ks vs 0 = Some (n, drop k ks, drop k vs, k, c')"
    "grows (touch c (root_node c)) L P c' L' P'" "n \<in> L'" "P' n = take k ks"
    "walk (page_size c) (cached_pages c) [] (aligned c ks) k V"
    "k < length ks \<longrightarrow> map_of (n_children (nodes c' n)) (take (page_size c) (drop k ks)) = None"
    using r ks growsD(6) [OF g1] pg al by auto
  have g: "grows c L P c' L' P'" by (rule grows_trans [OF g1 m(2)])
  note wl = walk_longest [OF p m(5)] and sc = grows_same_cache [OF wf g inv]
  have k: "page_size c dvd k" "k \<le> length ks" using m(5) al by (auto simp: walk_def)
  have pg': "cached_pages c' = cached_pages c" "cached_slots c' = cached_slots c" "same_env c c'"
    "live c \<subseteq> live c'" "\<And>n. n \<in> live c \<Longrightarrow> path_of c' n = path_of c n"
    "evictable_sz c' = evictable_sz c"
    using sc(2) by (auto simp: same_cache_def)
  note ps = growsD(2) [OF g]
  show thesis
  proof (cases "k < length ks")
    case True
    have d: "drop k ks \<noteq> []" "page_size c' dvd length (drop k ks)" "length (drop k vs) = length (drop k ks)"
      "map_of (n_children (nodes c' n)) (take (page_size c') (drop k ks)) = None"
      using True k ks vs m(6) ps by auto
    note al = add_leaf_spec [OF growsD(1) [OF g] m(3) d sc(1)]
    have "insert_helper c (root_node c) ks vs = Some (k, add_leaf c' n (drop k ks) (drop k vs))"
      using m(1) True by (auto simp: insert_helper_def Let_def)
    then show thesis
      by (rule that [OF _ al(1) wl]) (use al pg' ps m(4) vs same_env_trans [OF pg'(3) al(4)] in auto)
  next
    case False
    then have e: "drop k ks = []" "drop k vs = []" "k = length ks" using k vs by auto
    have "insert_helper c (root_node c) ks vs = Some (k, c')"
      using m(1) e r by (cases "ks = []") (auto simp: insert_helper_def Let_def insert_loop.simps [of "touch c (root_node c)" _ "[]"])
    then show thesis
      by (rule that [OF _ sc(1) wl]) (use pg' p e in auto)
  qed
qed

end
