(* ===== verification/Radix_Lock.thy ===== *)
theory Radix_Lock
  imports Radix_Spec
begin

text \<open>
  \<open>inc_lock_ref\<close> and \<open>dec_lock_ref\<close> walk from a node up to the root. Both loops satisfy one
  recursion equation, for a change \<open>s\<close> of the count and a count \<open>z\<close> at which a node changes
  between evictable and protected; their effect is computed once from it.
\<close>

definition lock_body ::
  "int \<Rightarrow> int \<Rightarrow> (radix_cache \<Rightarrow> node_id \<Rightarrow> int \<Rightarrow> (int \<times> radix_cache) option) \<Rightarrow>
   radix_cache \<Rightarrow> node_id \<Rightarrow> int \<Rightarrow> (int \<times> radix_cache) option" where
  "lock_body s z f c node d =
    (if node = root_node c then Some (d, c)
     else
       (let len = int (length (nval (nodes c node)));
            e = (if n_lock_ref (nodes c node) = z then s * len else 0);
            c2 = upd_node (c\<lparr>evictable_sz := evictable_sz c - e, protected_sz := protected_sz c + e\<rparr>) node
                   (\<lambda>y. y\<lparr>n_lock_ref := n_lock_ref y + s\<rparr>)
        in case n_parent (nodes c node) of None \<Rightarrow> None | Some q \<Rightarrow> f c2 q (d - e)))"

lemma inc_lock_body: "inc_lock_loop c node d = lock_body 1 0 inc_lock_loop c node d"
  by (subst inc_lock_loop.simps) (simp add: lock_body_def Let_def split: option.split)

lemma dec_lock_body: "dec_lock_loop c node d = lock_body (- 1) 1 dec_lock_loop c node d"
  by (subst dec_lock_loop.simps) (simp add: lock_body_def Let_def split: option.split)

definition ancestors :: "node_id \<Rightarrow> node_id set \<Rightarrow> (node_id \<Rightarrow> token list) \<Rightarrow> node_id \<Rightarrow> node_id set" where
  "ancestors r L P n = {m \<in> L - {r}. prefix (P m) (P n)}"

definition add_locks :: "int \<Rightarrow> node_id set \<Rightarrow> (node_id \<Rightarrow> tree_node) \<Rightarrow> node_id \<Rightarrow> tree_node" where
  "add_locks s A ns = (\<lambda>m. if m \<in> A then (ns m)\<lparr>n_lock_ref := n_lock_ref (ns m) + s\<rparr> else ns m)"

definition at_count :: "int \<Rightarrow> (node_id \<Rightarrow> tree_node) \<Rightarrow> node_id set \<Rightarrow> int" where
  "at_count z ns A = (\<Sum>m\<in>A. if n_lock_ref (ns m) = z then int (length (nval (ns m))) else 0)"

lemma add_locks_shape: "same_shape ns (add_locks s A ns)"
  by (simp add: same_shape_def add_locks_def)

lemma ancestors_root:
  assumes wf: "tree_wf p ns r cnt L P" shows "ancestors r L P r = {}"
proof -
  have "m = r" if "m \<in> L" "prefix (P m) (P r)" for m
    using wf_path_inj [OF wf that(1), of r] wf_basic [OF wf] that by simp
  then show ?thesis by (auto simp: ancestors_def)
qed

lemma ancestors_step:
  assumes wf: "tree_wf p ns r cnt L P" and q: "q \<in> L" and n: "child_of ns q n"
  shows "ancestors r L P n = insert n (ancestors r L P q)" "n \<notin> ancestors r L P q"
proof -
  note ch = wf_child [OF wf q n]
  have kn: "n_key (ns n) \<noteq> []" using wf_node [OF wf ch(1,2)] by simp
  show "n \<notin> ancestors r L P q" using kn ch(4) by (auto simp: ancestors_def dest: prefix_length_le)
  have "m = n \<or> prefix (P m) (P q)" if m: "m \<in> L" "m \<noteq> r" "prefix (P m) (P n)" for m
  proof (cases "length (P m) \<le> length (P q)")
    case True
    then show ?thesis using m(3) ch(4) by (auto simp: prefix_append dest: prefix_length_le)
  next
    case False
    obtain q' where q': "q' \<in> L" "child_of ns q' m" "P m = P q' @ n_key (ns m)"
      using wf_parent [OF wf m(1,2)] by metis
    have "length (P q') < length (P m)" using q'(3) wf_node(1) [OF wf m(1,2)] by simp
    then have "m = n"
      using wf_edge_unique [OF wf q'(1,2) q n, of "P m"] m(3) wf_dvd_path [OF wf m(1)] False by simp
    then show ?thesis ..
  qed
  then show "ancestors r L P n = insert n (ancestors r L P q)"
    using ch by (auto simp: ancestors_def)
qed

lemma at_count_insert:
  "finite A \<Longrightarrow> n \<notin> A \<Longrightarrow>
   at_count z ns (insert n A) = (if n_lock_ref (ns n) = z then int (length (nval (ns n))) else 0) + at_count z ns A"
  by (simp add: at_count_def)

lemma lock_loop_spec:
  assumes f: "\<And>c node d. f c node d = lock_body s z f c node d"
    and "cwf c L P" and "n \<in> L"
  defines "A \<equiv> ancestors (root_node c) L P n"
  shows "f c n d = Some (d - s * at_count z (nodes c) A,
      c\<lparr>nodes := add_locks s A (nodes c), evictable_sz := evictable_sz c - s * at_count z (nodes c) A,
        protected_sz := protected_sz c + s * at_count z (nodes c) A\<rparr>)"
  using assms(2,3) unfolding A_def
proof (induction "length (P n)" arbitrary: c n d rule: less_induct)
  case less
  note wf = less.prems(1)
  show ?case
  proof (cases "n = root_node c")
    case True
    then show ?thesis
      using ancestors_root [OF wf] by (subst f) (simp add: lock_body_def at_count_def add_locks_def)
  next
    case False
    let ?r = "root_node c"
    obtain q where q: "q \<in> L" "n_parent (nodes c n) = Some q" "child_of (nodes c) q n"
      "P n = P q @ n_key (nodes c n)"
      using wf_parent [OF wf less.prems(2) False] by metis
    note st = ancestors_step [OF wf q(1,3)]
    have fin: "finite (ancestors ?r L P q)" using wf_basic(2) [OF wf] by (simp add: ancestors_def)
    have short: "length (P q) < length (P n)" using q(4) wf_node(1) [OF wf less.prems(2) False] by simp
    let ?e = "if n_lock_ref (nodes c n) = z then s * int (length (nval (nodes c n))) else 0"
    let ?c2 = "upd_node (c\<lparr>evictable_sz := evictable_sz c - ?e, protected_sz := protected_sz c + ?e\<rparr>) n
        (\<lambda>y. y\<lparr>n_lock_ref := n_lock_ref y + s\<rparr>)"
    have n2: "nodes ?c2 = (nodes c)(n := (nodes c n)\<lparr>n_lock_ref := n_lock_ref (nodes c n) + s\<rparr>)"
      by (simp add: upd_node_def)
    then have sh: "same_shape (nodes c) (nodes ?c2)" by (simp add: same_shape_def)
    have wf2: "cwf ?c2 L P"
      using wf same_shape_wf [OF sh] by (simp add: upd_node_def)
    have t: "at_count z (nodes ?c2) (ancestors ?r L P q) = at_count z (nodes c) (ancestors ?r L P q)"
      using st(2) unfolding at_count_def n2 by (intro sum.cong) auto
    have l: "add_locks s (ancestors ?r L P q) (nodes ?c2) = add_locks s (ancestors ?r L P n) (nodes c)"
      using st unfolding add_locks_def n2 by auto
    have IH: "f ?c2 q (d - ?e) = Some (d - ?e - s * at_count z (nodes c) (ancestors ?r L P q),
        ?c2\<lparr>nodes := add_locks s (ancestors ?r L P n) (nodes c),
          evictable_sz := evictable_sz c - ?e - s * at_count z (nodes c) (ancestors ?r L P q),
          protected_sz := protected_sz c + ?e + s * at_count z (nodes c) (ancestors ?r L P q)\<rparr>)"
      using less.hyps [OF short wf2 q(1), of "d - ?e"] t l by (simp add: upd_node_def)
    have "s * at_count z (nodes c) (ancestors ?r L P n) = ?e + s * at_count z (nodes c) (ancestors ?r L P q)"
      unfolding st(1) at_count_insert [OF fin st(2)] by (simp add: distrib_left)
    moreover have "f c n d = f ?c2 q (d - ?e)"
      by (subst f, unfold lock_body_def) (simp add: False q(2) Let_def)
    ultimately show ?thesis
      unfolding IH by (simp add: upd_node_def)
  qed
qed

section \<open>Counts and sizes\<close>

lemma lock_sum_disj:
  "finite A \<Longrightarrow> A \<subseteq> L - {r} \<Longrightarrow> finite L \<Longrightarrow>
   lock_sum R ns r L = (\<Sum>m\<in>A. if R (n_lock_ref (ns m)) then int (length (nval (ns m))) else 0) +
     (\<Sum>m\<in>L - {r} - A. if R (n_lock_ref (ns m)) then int (length (nval (ns m))) else 0)"
  unfolding lock_sum_def by (metis (no_types, lifting) add.commute finite_Diff sum.subset_diff)

text \<open>
  Counting a lock in or out moves the nodes whose count passes zero between the two sizes:
  \<open>z\<close> is 0 when a lock is added and 1 when it is removed.
\<close>

lemma lock_sum_add_locks:
  assumes fin: "finite L" and A: "A \<subseteq> L - {r}"
    and sz: "s = 1 \<and> z = 0 \<and> (\<forall>m\<in>A. 0 \<le> n_lock_ref (ns m)) \<or> s = - 1 \<and> z = 1 \<and> (\<forall>m\<in>A. 1 \<le> n_lock_ref (ns m))"
  shows "lock_sum (\<lambda>l. l = 0) (add_locks s A ns) r L = lock_sum (\<lambda>l. l = 0) ns r L - s * at_count z ns A"
    "lock_sum (\<lambda>l. l \<noteq> 0) (add_locks s A ns) r L = lock_sum (\<lambda>l. l \<noteq> 0) ns r L + s * at_count z ns A"
proof -
  have fA: "finite A" using fin A by (meson finite_Diff finite_subset)
  let ?ns = "add_locks s A ns" and ?len = "\<lambda>m. int (length (nval (ns m)))"
  have nv: "nval (?ns m) = nval (ns m)" for m by (simp add: add_locks_def nval_def)
  have out: "(\<Sum>m\<in>L - {r} - A. if R (n_lock_ref (?ns m)) then int (length (nval (?ns m))) else 0) =
      (\<Sum>m\<in>L - {r} - A. if R (n_lock_ref (ns m)) then ?len m else 0)" for R
    by (intro sum.cong) (auto simp: add_locks_def)
  have lk: "n_lock_ref (?ns m) = n_lock_ref (ns m) + s" if "m \<in> A" for m
    using that by (simp add: add_locks_def)
  have "(\<Sum>m\<in>A. if n_lock_ref (?ns m) = 0 then int (length (nval (?ns m))) else 0) =
      (\<Sum>m\<in>A. (if n_lock_ref (ns m) = 0 then ?len m else 0) - s * (if n_lock_ref (ns m) = z then ?len m else 0))"
    using sz by (intro sum.cong) (auto simp: lk nv)
  moreover have "(\<Sum>m\<in>A. if n_lock_ref (?ns m) \<noteq> 0 then int (length (nval (?ns m))) else 0) =
      (\<Sum>m\<in>A. (if n_lock_ref (ns m) \<noteq> 0 then ?len m else 0) + s * (if n_lock_ref (ns m) = z then ?len m else 0))"
    using sz by (intro sum.cong) (auto simp: lk nv)
  ultimately show "lock_sum (\<lambda>l. l = 0) ?ns r L = lock_sum (\<lambda>l. l = 0) ns r L - s * at_count z ns A"
    "lock_sum (\<lambda>l. l \<noteq> 0) ?ns r L = lock_sum (\<lambda>l. l \<noteq> 0) ns r L + s * at_count z ns A"
    unfolding lock_sum_disj [OF fA A fin] at_count_def
    using out [of "\<lambda>l. l = 0"] out [of "\<lambda>l. l \<noteq> 0"]
    by (simp_all add: sum_subtractf sum.distrib sum_distrib_left)
qed

lemma lock_ok_add_locks:
  assumes lock: "lock_ok ns r L P refs" and sub: "set_mset refs' \<subseteq> L"
    and cnt: "\<And>m. m \<in> L - {r} \<Longrightarrow>
      int (size (filter_mset (\<lambda>x. prefix (P m) (P x)) refs')) =
      int (size (filter_mset (\<lambda>x. prefix (P m) (P x)) refs)) + (if prefix (P m) (P n) then s else 0)"
  shows "lock_ok (add_locks s (ancestors r L P n) ns) r L P refs'"
  using lock sub cnt by (auto simp: lock_ok_def add_locks_def ancestors_def)

lemma relock_inv:
  assumes inv: "radix_inv c refs" and n: "n \<in> live c" and refs': "set_mset refs' \<subseteq> live c"
    and cnt: "\<And>m. m \<in> live c - {root_node c} \<Longrightarrow>
      int (size (filter_mset (\<lambda>x. prefix (path_of c m) (path_of c x)) refs')) =
      int (size (filter_mset (\<lambda>x. prefix (path_of c m) (path_of c x)) refs)) +
      (if prefix (path_of c m) (path_of c n) then s else 0)"
    and sz: "s = 1 \<and> z = 0 \<or> s = - 1 \<and> z = 1 \<and> n \<in># refs"
  defines "A \<equiv> ancestors (root_node c) (live c) (path_of c) n"
  defines "c' \<equiv> c\<lparr>nodes := add_locks s A (nodes c),
      evictable_sz := evictable_sz c - s * at_count z (nodes c) A,
      protected_sz := protected_sz c + s * at_count z (nodes c) A\<rparr>"
  shows "radix_inv c' refs'" "live c' = live c" "path_of c' = path_of c"
    "cached_pages c' = cached_pages c" "cached_slots c' = cached_slots c"
proof -
  have wf: "cwf c (live c) (path_of c)" and lock: "lock_ok (nodes c) (root_node c) (live c) (path_of c) refs"
    using inv by (auto simp: radix_inv_def)
  have sh: "same_shape (nodes c) (nodes c')" using add_locks_shape by (simp add: c'_def)
  have wf': "cwf c' (live c) (path_of c)" using wf same_shape_wf [OF sh] by (simp add: c'_def)
  show l: "live c' = live c" by (rule live_eq [OF wf'])
  have "node_path (nodes c') (root_node c') x xs = node_path (nodes c) (root_node c) x xs" for x xs
    using path_in_tree [OF wf'] path_in_tree [OF wf] by simp
  then show "path_of c' = path_of c" by (simp add: path_of_def fun_eq_iff)
  show "cached_pages c' = cached_pages c" "cached_slots c' = cached_slots c"
    using abs_eqs(3,4) [OF wf'] same_shape_tree_pages [OF sh] same_shape_nval [OF sh]
    by (simp_all add: cached_pages_def cached_slots_def tree_slots_def c'_def)
  have pos: "1 \<le> n_lock_ref (nodes c m)" if m: "m \<in> A" and "n \<in># refs" for m
  proof -
    have "n \<in># filter_mset (\<lambda>x. prefix (path_of c m) (path_of c x)) refs"
      using that by (simp add: A_def ancestors_def)
    then have "0 < size (filter_mset (\<lambda>x. prefix (path_of c m) (path_of c x)) refs)"
      by (metis gr0I in_diff_count not_less_zero size_eq_0_iff_empty empty_iff set_mset_empty)
    then show ?thesis using lock m by (auto simp: lock_ok_def A_def ancestors_def)
  qed
  have nonneg: "0 \<le> n_lock_ref (nodes c m)" if m: "m \<in> A" for m
    using lock m by (auto simp: lock_ok_def A_def ancestors_def)
  have sz': "s = 1 \<and> z = 0 \<and> (\<forall>m\<in>A. 0 \<le> n_lock_ref (nodes c m)) \<or>
      s = - 1 \<and> z = 1 \<and> (\<forall>m\<in>A. 1 \<le> n_lock_ref (nodes c m))"
    using sz pos nonneg by blast
  have sub: "A \<subseteq> live c - {root_node c}" by (auto simp: A_def ancestors_def)
  have "lock_ok (add_locks s A (nodes c)) (root_node c) (live c) (path_of c) refs'"
    unfolding A_def by (rule lock_ok_add_locks [OF lock refs' cnt])
  then show "radix_inv c' refs'"
    unfolding radix_inv_iff [OF wf']
    using inv lock_sum_add_locks [OF wf_basic(2) [OF wf] sub sz']
    by (simp add: c'_def radix_inv_def)
qed

lemma inc_lock_ref_spec:
  assumes inv: "radix_inv c refs" and on: "\<not> cache_disable c" and n: "n \<in> live c"
  obtains d c' where "inc_lock_ref c n = Some (d, c')" "radix_inv c' (add_mset n refs)" "same_env c c'"
    "d = evictable_sz c' - evictable_sz c" "protected_sz c' = protected_sz c - d"
    "live c' = live c" "path_of c' = path_of c" "cached_pages c' = cached_pages c"
    "cached_slots c' = cached_slots c" "\<forall>m. nval (nodes c' m) = nval (nodes c m)"
proof -
  have wf: "cwf c (live c) (path_of c)" using inv by (simp add: radix_inv_def)
  have sub: "set_mset (add_mset n refs) \<subseteq> live c" using inv n by (auto simp: radix_inv_def lock_ok_def)
  show thesis
    by (rule that [of "- at_count 0 (nodes c) (ancestors (root_node c) (live c) (path_of c) n)",
        OF _ relock_inv(1) [OF inv n sub, of 1 0] _ _ _ relock_inv(2-5) [OF inv n sub, of 1 0]])
      (use on lock_loop_spec [OF inc_lock_body wf n, of 0] in \<open>simp_all add: inc_lock_ref_def same_env_def add_locks_def nval_def\<close>)
qed

lemma dec_lock_ref_spec:
  assumes inv: "radix_inv c refs" and on: "\<not> cache_disable c" and n: "n \<in># refs"
  obtains d c' where "dec_lock_ref c n = Some (d, c')" "radix_inv c' (refs - {#n#})" "same_env c c'"
    "d = evictable_sz c' - evictable_sz c" "protected_sz c' = protected_sz c - d"
    "live c' = live c" "path_of c' = path_of c" "cached_pages c' = cached_pages c"
    "cached_slots c' = cached_slots c" "\<forall>m. nval (nodes c' m) = nval (nodes c m)"
proof -
  have wf: "cwf c (live c) (path_of c)" using inv by (simp add: radix_inv_def)
  have nl: "n \<in> live c" and sub: "set_mset (refs - {#n#}) \<subseteq> live c"
    using inv n by (auto simp: radix_inv_def lock_ok_def dest: in_diffD)
  obtain refs0 where r0: "refs = add_mset n refs0" using n by (metis mset_add)
  show thesis
    by (rule that [of "at_count 1 (nodes c) (ancestors (root_node c) (live c) (path_of c) n)",
        OF _ relock_inv(1) [OF inv nl sub, of "- 1" 1] _ _ _ relock_inv(2-5) [OF inv nl sub, of "- 1" 1]])
      (use on lock_loop_spec [OF dec_lock_body wf nl, of 0] in \<open>simp_all add: dec_lock_ref_def same_env_def r0 add_locks_def nval_def\<close>)
qed

text \<open>The locked nodes determine the lock counts and with them both sizes.\<close>

lemma lock_count:
  "radix_inv c refs \<Longrightarrow> m \<in> live c - {root_node c} \<Longrightarrow>
   n_lock_ref (nodes c m) = int (size (filter_mset (\<lambda>x. prefix (path_of c m) (path_of c x)) refs))"
  by (auto simp: radix_inv_def lock_ok_def)

lemma sizes_determined:
  assumes a: "radix_inv a refs" and b: "radix_inv b refs" and same: "live b = live a" "path_of b = path_of a"
    "root_node b = root_node a" "\<forall>m. nval (nodes b m) = nval (nodes a m)"
  shows "evictable_sz b = evictable_sz a" "protected_sz b = protected_sz a"
proof -
  have "lock_sum R (nodes b) (root_node b) (live b) = lock_sum R (nodes a) (root_node a) (live a)" for R
    unfolding lock_sum_def same(1,3)
    using lock_count [OF a] lock_count [OF b] same by (intro sum.cong) simp_all
  then show "evictable_sz b = evictable_sz a" "protected_sz b = protected_sz a"
    using a b by (simp_all add: radix_inv_def)
qed

end
