(* ===== verification/Heapq.thy ===== *)
theory Heapq
  imports Prelude
begin

text \<open>
  The operations of Python's \<open>heapq\<close> that the caches use, as CPython's \<open>Lib/heapq.py\<close> defines
  them (the accelerated version makes the same comparisons): a binary heap in a list, ordered by
  \<open>lt\<close>. Elements of equal priority come out in the order these array operations produce.
\<close>

section \<open>Operations\<close>

text \<open>\<open>_siftdown(heap, startpos, pos)\<close>: the new item moves towards the root.\<close>

function sift_down :: "('a \<Rightarrow> 'a \<Rightarrow> bool) \<Rightarrow> nat \<Rightarrow> 'a \<Rightarrow> 'a list \<Rightarrow> nat \<Rightarrow> 'a list" where
  "sift_down lt start new heap pos =
     (if start < pos then
        (let par = heap ! ((pos - 1) div 2)
         in if lt new par then sift_down lt start new (heap[pos := par]) ((pos - 1) div 2)
            else heap[pos := new])
      else heap[pos := new])"
  by pat_completeness auto
termination by (relation "measure (\<lambda>(lt, start, new, heap, pos). pos)") auto

text \<open>\<open>_siftup(heap, pos)\<close>: the smaller child moves up until a leaf is reached.\<close>

definition min_child :: "('a \<Rightarrow> 'a \<Rightarrow> bool) \<Rightarrow> 'a list \<Rightarrow> nat \<Rightarrow> nat" where
  "min_child lt heap pos =
     (if 2 * pos + 2 < length heap \<and> \<not> lt (heap ! (2 * pos + 1)) (heap ! (2 * pos + 2))
      then 2 * pos + 2 else 2 * pos + 1)"

function sift_hole :: "('a \<Rightarrow> 'a \<Rightarrow> bool) \<Rightarrow> 'a list \<Rightarrow> nat \<Rightarrow> 'a list \<times> nat" where
  "sift_hole lt heap pos =
     (if 2 * pos + 1 < length heap then
        sift_hole lt (heap[pos := heap ! min_child lt heap pos]) (min_child lt heap pos)
      else (heap, pos))"
  by pat_completeness auto
termination
  by (relation "measure (\<lambda>(lt, heap, pos). length heap - pos)") (auto simp: min_child_def)

declare sift_down.simps [simp del] sift_hole.simps [simp del]

definition sift_up :: "('a \<Rightarrow> 'a \<Rightarrow> bool) \<Rightarrow> 'a list \<Rightarrow> nat \<Rightarrow> 'a list" where
  "sift_up lt heap pos =
     (case sift_hole lt heap pos of (heap', pos') \<Rightarrow> sift_down lt pos (heap ! pos) heap' pos')"

fun heapify_from :: "('a \<Rightarrow> 'a \<Rightarrow> bool) \<Rightarrow> nat \<Rightarrow> 'a list \<Rightarrow> 'a list" where
  "heapify_from lt 0 heap = heap"
| "heapify_from lt (Suc i) heap = heapify_from lt i (sift_up lt heap i)"

definition heapify :: "('a \<Rightarrow> 'a \<Rightarrow> bool) \<Rightarrow> 'a list \<Rightarrow> 'a list" where
  "heapify lt heap = heapify_from lt (length heap div 2) heap"

definition heappush :: "('a \<Rightarrow> 'a \<Rightarrow> bool) \<Rightarrow> 'a list \<Rightarrow> 'a \<Rightarrow> 'a list" where
  "heappush lt heap x = sift_down lt 0 x (heap @ [x]) (length heap)"

text \<open>\<open>heappop\<close> on a heap that is not empty.\<close>

definition heappop :: "('a \<Rightarrow> 'a \<Rightarrow> bool) \<Rightarrow> 'a list \<Rightarrow> 'a \<times> 'a list" where
  "heappop lt heap =
     (let lastelt = last heap; rest = butlast heap
      in if rest = [] then (lastelt, []) else (hd rest, sift_up lt (rest[0 := lastelt]) 0))"

section \<open>The elements are kept\<close>

lemma mset_hole_move:
  assumes "pos < length heap" "ch < length heap" "pos \<noteq> ch"
  shows "mset ((heap[pos := heap ! ch])[ch := x]) = mset (heap[pos := x])"
proof -
  have "(heap[pos := heap ! ch])[ch := x] = (heap[pos := x])[pos := heap[pos := x] ! ch, ch := heap[pos := x] ! pos]"
    using assms by simp
  then show ?thesis using assms by (simp only: mset_swap length_list_update)
qed

lemma length_sift_down [simp]: "length (sift_down lt start new heap pos) = length heap"
  by (induction lt start new heap pos rule: sift_down.induct)
    (subst sift_down.simps, simp add: Let_def)

lemma mset_sift_down:
  "pos < length heap \<Longrightarrow> mset (sift_down lt start new heap pos) = mset (heap[pos := new])"
proof (induction lt start new heap pos rule: sift_down.induct)
  case (1 lt start new heap pos)
  let ?par = "(pos - 1) div 2"
  show ?case
  proof (cases "start < pos \<and> lt new (heap ! ?par)")
    case True
    then have "mset ((heap[pos := heap ! ?par])[?par := new]) = mset (heap[pos := new])"
      using 1(2) by (intro mset_hole_move) auto
    then show ?thesis
      using True 1 by (subst sift_down.simps) (simp add: Let_def)
  qed (subst sift_down.simps, auto simp: Let_def)
qed

lemma min_child_bounds:
  assumes "2 * pos + 1 < length heap"
  shows "pos < min_child lt heap pos" "min_child lt heap pos < length heap"
    "min_child lt heap pos = 2 * pos + 1 \<or> min_child lt heap pos = 2 * pos + 2"
  using assms by (auto simp: min_child_def)

lemma sift_hole_props:
  assumes "pos < length heap"
  shows "length (fst (sift_hole lt heap pos)) = length heap \<and> snd (sift_hole lt heap pos) < length heap \<and>
    mset ((fst (sift_hole lt heap pos))[snd (sift_hole lt heap pos) := x]) = mset (heap[pos := x]) \<and>
    length heap \<le> 2 * snd (sift_hole lt heap pos) + 1"
  using assms
proof (induction lt heap pos rule: sift_hole.induct)
  case (1 lt heap pos)
  show ?case
  proof (cases "2 * pos + 1 < length heap")
    case True
    note mc = min_child_bounds [OF True, of lt]
    have "mset ((heap[pos := heap ! min_child lt heap pos])[min_child lt heap pos := x]) = mset (heap[pos := x])"
      using mc 1(2) by (intro mset_hole_move) auto
    then show ?thesis using 1(1) True mc by (simp add: sift_hole.simps [of lt heap pos])
  next
    case False
    then show ?thesis using 1(2) by (simp add: sift_hole.simps [of lt heap pos])
  qed
qed

lemma sift_up_props:
  assumes "pos < length heap"
  shows "length (sift_up lt heap pos) = length heap" "mset (sift_up lt heap pos) = mset heap"
  using sift_hole_props [OF assms, of lt "heap ! pos"]
  by (auto simp: sift_up_def mset_sift_down split: prod.split)

lemma heapify_from_props:
  "n \<le> length heap \<Longrightarrow> length (heapify_from lt n heap) = length heap \<and> mset (heapify_from lt n heap) = mset heap"
  by (induction lt n heap rule: heapify_from.induct) (auto simp: sift_up_props)

lemma mset_heapify: "mset (heapify lt heap) = mset heap"
  using heapify_from_props [of "length heap div 2" heap lt] by (simp add: heapify_def)

lemma mset_heappush: "mset (heappush lt heap x) = add_mset x (mset heap)"
  by (simp add: heappush_def mset_sift_down)

lemma mset_heappop:
  assumes "heappop lt heap = (x, heap')" and "heap \<noteq> []"
  shows "mset heap = add_mset x (mset heap')"
proof (cases "butlast heap")
  case Nil
  then have "heap = [last heap]" using assms(2) by (metis append_butlast_last_id append_Nil)
  then show ?thesis using assms Nil by (simp add: heappop_def)
next
  case (Cons y ys)
  then have "heap = (y # ys) @ [last heap]" using assms(2) by (metis append_butlast_last_id)
  then have "mset heap = add_mset y (mset (last heap # ys))" by (metis mset_append mset.simps add_mset_add_single
        union_commute union_mset_add_mset_left add_mset_commute)
  then show ?thesis using assms Cons by (auto simp: heappop_def sift_up_props)
qed

section \<open>The heap order\<close>

text \<open>
  \<open>heap_above key xs k\<close>: every element whose parent has an index of at least \<open>k\<close> is not smaller
  than its parent. \<open>hole_ok\<close> is the same with a hole at \<open>pos\<close>: the two sides of the hole are in
  order with each other, so the hole may be filled by either.
\<close>

definition heap_above :: "('a \<Rightarrow> 'k::linorder) \<Rightarrow> 'a list \<Rightarrow> nat \<Rightarrow> bool" where
  "heap_above key xs k \<longleftrightarrow>
     (\<forall>j<length xs. 0 < j \<longrightarrow> k \<le> (j - 1) div 2 \<longrightarrow> key (xs ! ((j - 1) div 2)) \<le> key (xs ! j))"

definition hole_ok :: "('a \<Rightarrow> 'k::linorder) \<Rightarrow> nat \<Rightarrow> 'a list \<Rightarrow> nat \<Rightarrow> bool" where
  "hole_ok key k xs pos \<longleftrightarrow>
     (\<forall>j<length xs. 0 < j \<longrightarrow> j \<noteq> pos \<longrightarrow> (j - 1) div 2 \<noteq> pos \<longrightarrow> k \<le> (j - 1) div 2 \<longrightarrow>
        key (xs ! ((j - 1) div 2)) \<le> key (xs ! j)) \<and>
     (k < pos \<longrightarrow> (\<forall>j<length xs. 0 < j \<longrightarrow> (j - 1) div 2 = pos \<longrightarrow> key (xs ! ((pos - 1) div 2)) \<le> key (xs ! j)))"

definition fits :: "('a \<Rightarrow> 'k::linorder) \<Rightarrow> 'a list \<Rightarrow> nat \<Rightarrow> 'a \<Rightarrow> bool" where
  "fits key xs pos new \<longleftrightarrow> (\<forall>j<length xs. 0 < j \<longrightarrow> (j - 1) div 2 = pos \<longrightarrow> key new \<le> key (xs ! j))"

inductive under :: "nat \<Rightarrow> nat \<Rightarrow> bool" for k :: nat where
  under_refl: "under k k"
| under_left: "under k i \<Longrightarrow> under k (2 * i + 1)"
| under_right: "under k i \<Longrightarrow> under k (2 * i + 2)"

lemma under_ge: "under k i \<Longrightarrow> k \<le> i"
  by (induction rule: under.induct) auto

lemma under_parent: "under k i \<Longrightarrow> k < i \<Longrightarrow> under k ((i - 1) div 2) \<and> (i - 1) div 2 < i"
  by (erule under.cases) auto

lemma hole_okD1:
  "hole_ok key k xs pos \<Longrightarrow> j < length xs \<Longrightarrow> 0 < j \<Longrightarrow> j \<noteq> pos \<Longrightarrow> (j - 1) div 2 \<noteq> pos \<Longrightarrow>
   k \<le> (j - 1) div 2 \<Longrightarrow> key (xs ! ((j - 1) div 2)) \<le> key (xs ! j)"
  by (simp add: hole_ok_def)

lemma hole_okD2:
  "hole_ok key k xs pos \<Longrightarrow> k < pos \<Longrightarrow> j < length xs \<Longrightarrow> 0 < j \<Longrightarrow> (j - 1) div 2 = pos \<Longrightarrow>
   key (xs ! ((pos - 1) div 2)) \<le> key (xs ! j)"
  by (simp add: hole_ok_def)

lemma sift_down_heap:
  fixes key :: "'a \<Rightarrow> 'k::linorder"
  assumes "hole_ok key k xs pos" "fits key xs pos new" "under k pos" "pos < length xs"
  shows "heap_above key (sift_down (\<lambda>a b. key a < key b) k new xs pos) k"
  using assms
proof (induction pos arbitrary: xs rule: less_induct)
  case (less pos)
  let ?par = "(pos - 1) div 2"
  note h = less.prems(1) and fit = less.prems(2)
  show ?case
  proof (cases "k < pos \<and> key new < key (xs ! ?par)")
    case True
    let ?xs = "xs[pos := xs ! ?par]"
    have par: "under k ?par" "?par < pos" "k \<le> ?par"
      using under_parent [OF less.prems(3)] True under_ge by auto
    have h': "hole_ok key k ?xs ?par"
      unfolding hole_ok_def
    proof (intro conjI allI impI)
      fix j assume j: "j < length ?xs" "0 < j" "j \<noteq> ?par" "(j - 1) div 2 \<noteq> ?par" "k \<le> (j - 1) div 2"
      then have "j \<noteq> pos" by auto
      then show "key (?xs ! ((j - 1) div 2)) \<le> key (?xs ! j)"
        using j less.prems(4) True hole_okD1 [OF h, of j] hole_okD2 [OF h, of j] par
        by (cases "(j - 1) div 2 = pos") auto
    next
      fix j assume k: "k < ?par" and j: "j < length ?xs" "0 < j" "(j - 1) div 2 = ?par"
      have "?par \<noteq> pos" "(?par - 1) div 2 \<noteq> pos" "0 < ?par" "?par < length xs"
        "k \<le> (?par - 1) div 2" "(?par - 1) div 2 < length xs"
        using par k less.prems(4) under_parent [OF par(1) k] under_ge [of k] by auto
      then have up: "key (xs ! ((?par - 1) div 2)) \<le> key (xs ! ?par)" using hole_okD1 [OF h, of ?par] by simp
      have "key (xs ! ?par) \<le> key (?xs ! j)"
        using j par less.prems(4) hole_okD1 [OF h, of j] by (cases "j = pos") auto
      then show "key (?xs ! ((?par - 1) div 2)) \<le> key (?xs ! j)"
        using up \<open>(?par - 1) div 2 \<noteq> pos\<close> by auto
    qed
    have "fits key ?xs ?par new"
      unfolding fits_def
    proof (intro allI impI)
      fix j assume j: "j < length ?xs" "0 < j" "(j - 1) div 2 = ?par"
      have "key (xs ! ?par) \<le> key (?xs ! j)"
        using j par less.prems(4) hole_okD1 [OF h, of j] by (cases "j = pos") auto
      then show "key new \<le> key (?xs ! j)" using True by auto
    qed
    then show ?thesis
      using less.IH [OF par(2) h' _ par(1)] par less.prems(4) True by (simp add: sift_down.simps [of _ _ _ xs] Let_def)
  next
    case False
    have "heap_above key (xs[pos := new]) k"
      unfolding heap_above_def
    proof (intro allI impI)
      fix j assume j: "j < length (xs[pos := new])" "0 < j" "k \<le> (j - 1) div 2"
      consider "j = pos" | "j \<noteq> pos" "(j - 1) div 2 = pos" | "j \<noteq> pos" "(j - 1) div 2 \<noteq> pos" by blast
      then show "key ((xs[pos := new]) ! ((j - 1) div 2)) \<le> key ((xs[pos := new]) ! j)"
      proof cases
        case 1
        then have "?par < pos" "k < pos" using j by auto
        then show ?thesis using 1 False less.prems(4) by (auto simp: not_less)
      next
        case 2
        then show ?thesis using fit j less.prems(4) by (auto simp: fits_def)
      next
        case 3
        then show ?thesis using hole_okD1 [OF h, of j] j by simp
      qed
    qed
    then show ?thesis using False by (auto simp: sift_down.simps [of _ _ _ xs] Let_def)
  qed
qed

lemma sift_hole_heap:
  fixes key :: "'a \<Rightarrow> 'k::linorder"
  assumes "hole_ok key k xs pos" "under k pos" "pos < length xs"
  shows "hole_ok key k (fst (sift_hole (\<lambda>a b. key a < key b) xs pos)) (snd (sift_hole (\<lambda>a b. key a < key b) xs pos)) \<and>
    under k (snd (sift_hole (\<lambda>a b. key a < key b) xs pos))"
  using assms
proof (induction "\<lambda>a b. key a < key b" xs pos rule: sift_hole.induct)
  case (1 xs pos)
  let ?lt = "\<lambda>a b. key a < key b"
  let ?ch = "min_child ?lt xs pos"
  note h = "1.prems"(1)
  show ?case
  proof (cases "2 * pos + 1 < length xs")
    case True
    note mc = min_child_bounds [OF True, of ?lt]
    let ?xs = "xs[pos := xs ! ?ch]"
    have parch: "(?ch - 1) div 2 = pos" using mc(3) by auto
    have small: "key (xs ! ?ch) \<le> key (xs ! j)" if j: "j < length xs" "0 < j" "(j - 1) div 2 = pos" for j
    proof -
      have "j = 2 * pos + 1 \<or> j = 2 * pos + 2" using j by auto
      then show ?thesis using j by (auto simp: min_child_def not_less)
    qed
    have kp: "k \<le> pos" using under_ge "1.prems"(2) .
    have "hole_ok key k ?xs ?ch"
      unfolding hole_ok_def
    proof (intro conjI allI impI)
      fix j assume j: "j < length ?xs" "0 < j" "j \<noteq> ?ch" "(j - 1) div 2 \<noteq> ?ch" "k \<le> (j - 1) div 2"
      consider "j = pos" | "j \<noteq> pos" "(j - 1) div 2 = pos" | "j \<noteq> pos" "(j - 1) div 2 \<noteq> pos" by blast
      then show "key (?xs ! ((j - 1) div 2)) \<le> key (?xs ! j)"
      proof cases
        case 1
        then have "(pos - 1) div 2 \<noteq> pos" "k < pos" using j by auto
        then show ?thesis using 1 hole_okD2 [OF h, of ?ch] mc parch "1.prems"(3) by auto
      next
        case 2
        then show ?thesis using small [of j] j "1.prems"(3) by auto
      next
        case 3
        then show ?thesis using hole_okD1 [OF h, of j] j by simp
      qed
    next
      fix j assume j: "j < length ?xs" "0 < j" "(j - 1) div 2 = ?ch"
      then have "j \<noteq> pos" using mc(1) by auto
      then show "key (?xs ! ((?ch - 1) div 2)) \<le> key (?xs ! j)"
        using hole_okD1 [OF h, of j] j mc parch kp "1.prems"(3) by auto
    qed
    moreover have "under k ?ch" using mc(3) under_left under_right "1.prems"(2) by metis
    ultimately show ?thesis
      using "1.hyps" [OF True] mc True by (simp add: sift_hole.simps [of ?lt xs pos])
  next
    case False
    then show ?thesis using "1.prems" by (simp add: sift_hole.simps [of ?lt xs pos])
  qed
qed

lemma sift_up_heap:
  fixes key :: "'a \<Rightarrow> 'k::linorder"
  assumes "heap_above key xs (Suc k)" "k < length xs"
  shows "heap_above key (sift_up (\<lambda>a b. key a < key b) xs k) k"
proof -
  let ?lt = "\<lambda>a b. key a < key b"
  obtain xs' pos where e: "sift_hole ?lt xs k = (xs', pos)" by force
  have "hole_ok key k xs k" using assms(1) by (auto simp: hole_ok_def heap_above_def)
  then have h: "hole_ok key k xs' pos" "under k pos"
    using sift_hole_heap [of key k xs k] assms(2) under_refl e by auto
  have l: "pos < length xs'" "length xs' \<le> 2 * pos + 1" using sift_hole_props [OF assms(2), of ?lt] e by auto
  then have "fits key xs' pos (xs ! k)" by (auto simp: fits_def)
  then show ?thesis using sift_down_heap [OF h(1) _ h(2) l(1)] by (simp add: sift_up_def e)
qed

lemma heapify_from_heap:
  fixes key :: "'a \<Rightarrow> 'k::linorder"
  shows "heap_above key xs n \<Longrightarrow> n \<le> length xs \<Longrightarrow> heap_above key (heapify_from (\<lambda>a b. key a < key b) n xs) 0"
  by (induction n arbitrary: xs) (simp_all add: sift_up_heap sift_up_props)

lemma heapify_heap:
  fixes key :: "'a \<Rightarrow> 'k::linorder"
  shows "heap_above key (heapify (\<lambda>a b. key a < key b) xs) 0"
proof -
  have "heap_above key xs (length xs div 2)" by (auto simp: heap_above_def)
  then show ?thesis unfolding heapify_def by (rule heapify_from_heap) simp
qed

lemma heappush_heap:
  fixes key :: "'a \<Rightarrow> 'k::linorder"
  assumes "heap_above key xs 0"
  shows "heap_above key (heappush (\<lambda>a b. key a < key b) xs x) 0"
proof -
  have "under 0 i" for i
  proof (induction i rule: less_induct)
    case (less i)
    then have "i = 0 \<or> i = 2 * ((i - 1) div 2) + 1 \<or> i = 2 * ((i - 1) div 2) + 2" "i = 0 \<or> under 0 ((i - 1) div 2)"
      by (presburger, cases i) auto
    then show ?case by (metis under.intros)
  qed
  moreover have "hole_ok key 0 (xs @ [x]) (length xs)"
    using assms by (auto simp: hole_ok_def heap_above_def nth_append)
  moreover have "fits key (xs @ [x]) (length xs) x" by (auto simp: fits_def)
  ultimately show ?thesis unfolding heappush_def by (intro sift_down_heap) auto
qed

lemma heappop_heap:
  fixes key :: "'a \<Rightarrow> 'k::linorder"
  assumes "heap_above key xs 0" "heappop (\<lambda>a b. key a < key b) xs = (x, xs')"
  shows "heap_above key xs' 0"
proof (cases "butlast xs = []")
  case True
  then show ?thesis using assms(2) by (simp add: heappop_def heap_above_def)
next
  case False
  have "heap_above key ((butlast xs)[0 := last xs]) (Suc 0)"
    using assms(1) by (auto simp: heap_above_def nth_butlast nth_list_update)
  then have "heap_above key (sift_up (\<lambda>a b. key a < key b) ((butlast xs)[0 := last xs]) 0) 0"
    by (rule sift_up_heap) (metis False length_greater_0_conv length_list_update)
  then show ?thesis using assms(2) False by (simp add: heappop_def Let_def)
qed

lemma heap_min:
  assumes "heap_above key xs 0" "i < length xs"
  shows "key (xs ! 0) \<le> key (xs ! i)"
  using assms(2)
proof (induction i rule: less_induct)
  case (less i)
  show ?case
  proof (cases "i = 0")
    case False
    then have "(i - 1) div 2 < i" by auto
    then have "key (xs ! 0) \<le> key (xs ! ((i - 1) div 2))" using less by auto
    also have "\<dots> \<le> key (xs ! i)" using assms(1) less.prems False by (simp add: heap_above_def)
    finally show ?thesis .
  qed simp
qed

lemma heappop_min:
  fixes key :: "'a \<Rightarrow> 'k::linorder"
  assumes "heap_above key xs 0" "xs \<noteq> []" "heappop (\<lambda>a b. key a < key b) xs = (x, xs')" "y \<in> set xs"
  shows "key x \<le> key y"
proof -
  have "x = xs ! 0"
    using assms(2,3) by (cases xs) (auto simp: heappop_def Let_def split: if_splits)
  then show ?thesis using heap_min [OF assms(1)] assms(4) by (auto simp: in_set_conv_nth)
qed

section \<open>The interface of a priority queue\<close>

locale heap_queue =
  fixes prio :: "'a \<Rightarrow> 'k::linorder"
    and qinv :: "'a list \<Rightarrow> bool"
    and build :: "'a list \<Rightarrow> 'a list"
    and push :: "'a list \<Rightarrow> 'a \<Rightarrow> 'a list"
    and pop :: "'a list \<Rightarrow> 'a \<times> 'a list"
  assumes build_ok: "qinv (build xs)" "mset (build xs) = mset xs"
    and push_ok: "qinv q \<Longrightarrow> qinv (push q x)" "mset (push q x) = add_mset x (mset q)"
    and pop_inv: "qinv q \<Longrightarrow> pop q = (x, q') \<Longrightarrow> qinv q'"
    and pop_mset: "q \<noteq> [] \<Longrightarrow> pop q = (x, q') \<Longrightarrow> mset q = add_mset x (mset q')"
    and pop_least: "qinv q \<Longrightarrow> q \<noteq> [] \<Longrightarrow> pop q = (x, q') \<Longrightarrow> y \<in> set q \<Longrightarrow> prio x \<le> prio y"
begin

lemma build_set: "set (build xs) = set xs"
  by (metis build_ok(2) set_mset_mset)

lemma push_set: "set (push q x) = insert x (set q)"
  by (metis push_ok(2) set_mset_add_mset_insert set_mset_mset)

lemma pop_set: "q \<noteq> [] \<Longrightarrow> pop q = (x, q') \<Longrightarrow> set q = insert x (set q') \<and> length q = Suc (length q')"
  using pop_mset [of q x q'] by (metis set_mset_add_mset_insert set_mset_mset size_add_mset size_mset)

text \<open>Elements come out in order.\<close>

lemma pops_sorted:
  assumes "qinv q" "q \<noteq> []" "pop q = (x, q')" "q' \<noteq> []" "pop q' = (y, q'')"
  shows "prio x \<le> prio y"
  using assms pop_least [of q x q' y] pop_set [of q x q'] pop_set [of q' y q''] by auto

end

interpretation hq: heap_queue prio "\<lambda>q. heap_above prio q 0" "heapify (\<lambda>a b. prio a < prio b)"
  "heappush (\<lambda>a b. prio a < prio b)" "heappop (\<lambda>a b. prio a < prio b)"
  for prio :: "'a \<Rightarrow> 'k::linorder"
  by unfold_locales
    (auto simp: heapify_heap mset_heapify heappush_heap mset_heappush
      intro: heappop_heap mset_heappop heappop_min)

end
