(* ===== verification/Radix_Evict.thy ===== *)
theory Radix_Evict
  imports Radix_Lock Heapq
begin

text \<open>
  Traversals of the radix tree and eviction: \<open>_collect_leaves\<close>, \<open>_total_size_helper\<close>,
  \<open>all_values_flatten\<close>, \<open>_delete_leaf\<close> and \<open>evict\<close> of \<open>radix_cache.py\<close>. \<open>evict\<close> implements the
  specification \<open>lru_run\<close>: remove the least recently used unlocked leaf until enough slots are
  freed or no unlocked leaf is left.
\<close>

section \<open>Operations\<close>

partial_function (option) collect_loop ::
  "radix_cache \<Rightarrow> node_id list \<Rightarrow> node_id list \<Rightarrow> node_id list option"
where
  "collect_loop c stack ret_list =
    (if stack = [] then Some ret_list
     else
       (let cur = last stack; st = butlast stack
        in if n_children (nodes c cur) = [] then collect_loop c st (ret_list @ [cur])
           else collect_loop c (st @ map snd (n_children (nodes c cur))) ret_list))"

definition collect_leaves :: "radix_cache \<Rightarrow> node_id list option" where
  "collect_leaves c = collect_loop c [root_node c] []"

partial_function (option) total_size_loop :: "radix_cache \<Rightarrow> node_id list \<Rightarrow> nat \<Rightarrow> nat option" where
  "total_size_loop c stack tot =
    (if stack = [] then Some tot
     else
       (let cur = last stack; st = butlast stack
        in case n_value (nodes c cur) of
             None \<Rightarrow> None
           | Some v \<Rightarrow>
               total_size_loop c
                 (st @ filter (\<lambda>ch. \<not> evicted (nodes c ch)) (map snd (n_children (nodes c cur))))
                 (tot + length v)))"

definition total_size_helper :: "radix_cache \<Rightarrow> nat option" where
  "total_size_helper c = total_size_loop c [root_node c] 0"

definition radix_total_size :: "radix_cache \<Rightarrow> nat option" where
  "radix_total_size c = total_size_helper c"

text \<open>The recursive helper appends to the list of values of its caller.\<close>

partial_function (option) dfs_values ::
  "radix_cache \<Rightarrow> node_id list \<Rightarrow> slot list option list \<Rightarrow> slot list option list option"
where
  "dfs_values c children values =
    (case children of
       [] \<Rightarrow> Some values
     | child # rest \<Rightarrow>
         Option.bind
           (dfs_values c (map snd (n_children (nodes c child))) (values @ [n_value (nodes c child)]))
           (\<lambda>values'. dfs_values c rest values'))"

text \<open>\<open>torch.cat\<close> raises on an empty list and on a list with a \<open>None\<close> in it.\<close>

definition all_values_flatten :: "radix_cache \<Rightarrow> slot list option" where
  "all_values_flatten c =
    (case dfs_values c (map snd (n_children (nodes c (root_node c)))) [] of
       None \<Rightarrow> None
     | Some values \<Rightarrow> if values = [] \<or> None \<in> set values then None else Some (concat (map the values)))"

text \<open>The loop leaves \<open>k\<close> at the key of the node, or at the last key if it is not found.\<close>

definition delete_leaf :: "radix_cache \<Rightarrow> node_id \<Rightarrow> radix_cache option" where
  "delete_leaf c node =
    (case n_parent (nodes c node) of
       None \<Rightarrow> None
     | Some q \<Rightarrow>
         (let ch = n_children (nodes c q) in
          if ch = [] then None
          else
            (let k = (case find (\<lambda>(k, v). v = node) ch of Some (k, v) \<Rightarrow> k | None \<Rightarrow> fst (last ch))
             in Some ((upd_node c q (\<lambda>y. y\<lparr>n_children := AList.delete k ch\<rparr>))
                        \<lparr>evictable_sz := evictable_sz c - int (length (n_key (nodes c node)))\<rparr>))))"

definition heap_lt :: "radix_cache \<Rightarrow> node_id \<Rightarrow> node_id \<Rightarrow> bool" where
  "heap_lt c a b = node_lt (nodes c a) (nodes c b)"

partial_function (option) evict_loop ::
  "radix_cache \<Rightarrow> int \<Rightarrow> int \<Rightarrow> node_id list \<Rightarrow> radix_cache option"
where
  "evict_loop c num_tokens num_evicted leaves =
    (if num_evicted < num_tokens \<and> leaves \<noteq> [] then
       (case heappop (heap_lt c) leaves of (x, rest) \<Rightarrow>
          if x = root_node c then Some c
          else if n_lock_ref (nodes c x) > 0 then evict_loop c num_tokens num_evicted rest
          else
            (case n_value (nodes c x) of
               None \<Rightarrow> None
             | Some v \<Rightarrow>
                 (case kv_free (kv_pool c) v of
                    Inl e \<Rightarrow> None
                  | Inr a \<Rightarrow>
                      (case delete_leaf (c\<lparr>kv_pool := a\<rparr>) x of
                         None \<Rightarrow> None
                       | Some c1 \<Rightarrow>
                           (case n_parent (nodes c1 x) of
                              None \<Rightarrow> None
                            | Some q \<Rightarrow>
                                evict_loop (record_remove_event c1 x) num_tokens
                                  (num_evicted + int (length v))
                                  (if n_children (nodes c1 q) = [] then heappush (heap_lt c1) rest q
                                   else rest))))))
     else Some c)"

definition radix_evict :: "radix_cache \<Rightarrow> int \<Rightarrow> radix_cache option" where
  "radix_evict c num_tokens =
    (if cache_disable c then Some c
     else
       (case collect_leaves c of
          None \<Rightarrow> None
        | Some leaves \<Rightarrow> evict_loop c num_tokens 0 (heapify (heap_lt c) leaves)))"

section \<open>Traversal with a stack\<close>

text \<open>
  \<open>pending\<close> are the nodes at or below a node of the stack; no stack node is below another.
  Replacing a node by its children removes exactly this node.
\<close>

definition pending :: "node_id set \<Rightarrow> (node_id \<Rightarrow> token list) \<Rightarrow> node_id list \<Rightarrow> node_id set" where
  "pending L P st = {m \<in> L. \<exists>n\<in>set st. prefix (P n) (P m)}"

definition antichain :: "(node_id \<Rightarrow> token list) \<Rightarrow> node_id list \<Rightarrow> bool" where
  "antichain P st \<longleftrightarrow> distinct st \<and> (\<forall>a\<in>set st. \<forall>b\<in>set st. prefix (P a) (P b) \<longrightarrow> a = b)"

lemma children_list:
  assumes wf: "tree_wf p ns r cnt L P" and n: "n \<in> L"
  shows "distinct (map snd (n_children (ns n)))" "set (map snd (n_children (ns n))) = {m. child_of ns n m}"
proof -
  have "k = take p (n_key (ns m))" if "(k, m) \<in> set (n_children (ns n))" for k m
    using wf n that unfolding tree_wf_def by blast
  then have "inj_on snd (set (n_children (ns n)))" by (intro inj_onI) (metis prod.collapse)
  moreover have "distinct (n_children (ns n))" using wf_distinct [OF wf n] by (simp add: distinct_map)
  ultimately show "distinct (map snd (n_children (ns n)))" by (simp add: distinct_map)
  show "set (map snd (n_children (ns n))) = {m. child_of ns n m}" by (auto simp: child_of_def)
qed

lemma sibling_eq:
  assumes wf: "tree_wf p ns r cnt L P" and q: "q \<in> L" and a: "child_of ns q a" and b: "child_of ns q b"
    and pre: "prefix (P a) (P b)"
  shows "a = b"
proof -
  note ca = wf_child [OF wf q a]
  have "length (P q) < length (P a)" using ca(4) wf_node(1) [OF wf ca(1,2)] by simp
  then show ?thesis
    using wf_edge_unique [OF wf q a q b, of "P a"] pre wf_dvd_path [OF wf ca(1)] by simp
qed

lemma child_longer:
  assumes wf: "tree_wf p ns r cnt L P" and q: "q \<in> L" and a: "child_of ns q a"
  shows "strict_prefix (P q) (P a)"
  using wf_child [OF wf q a] wf_node(1) [OF wf, of a] by (simp add: strict_prefix_def)

lemma pending_step:
  assumes wf: "tree_wf p ns r cnt L P" and st: "antichain P (st @ [cur])" "set (st @ [cur]) \<subseteq> L"
  defines "ch \<equiv> map snd (n_children (ns cur))"
  shows "antichain P (st @ ch)" "set (st @ ch) \<subseteq> L" "pending L P (st @ ch) = pending L P (st @ [cur]) - {cur}"
    "cur \<in> pending L P (st @ [cur])"
proof -
  have cur: "cur \<in> L" using st(2) by simp
  note chl = children_list [OF wf cur, folded ch_def]
  have sub: "c \<in> L" "strict_prefix (P cur) (P c)" if "c \<in> set ch" for c
    using that chl wf_child(1) [OF wf cur] child_longer [OF wf cur] by auto
  have inc: "\<not> prefix (P a) (P cur)" "\<not> prefix (P cur) (P a)" if "a \<in> set st" for a
    using st(1) that by (auto simp: antichain_def)
  have no: "\<not> prefix (P a) (P c)" "\<not> prefix (P c) (P a)" if "a \<in> set st" "c \<in> set ch" for a c
  proof -
    have cc: "prefix (P cur) (P c)" using sub(2) [OF that(2)] by simp
    show "\<not> prefix (P a) (P c)" using cc inc [OF that(1)] prefix_same_cases by blast
    show "\<not> prefix (P c) (P a)" using cc inc [OF that(1)] by (meson prefix_order.trans)
  qed
  have sib: "a = b" if "a \<in> set ch" "b \<in> set ch" "prefix (P a) (P b)" for a b
    using sibling_eq [OF wf cur] that chl by auto
  show "antichain P (st @ ch)"
    using st(1) chl(1) no sib unfolding antichain_def by auto
  show "set (st @ ch) \<subseteq> L" using st(2) sub(1) by auto
  show "cur \<in> pending L P (st @ [cur])" using cur by (auto simp: pending_def)
  have low: "(\<exists>n\<in>set ch. prefix (P n) (P m)) \<longleftrightarrow> prefix (P cur) (P m) \<and> m \<noteq> cur" if m: "m \<in> L" for m
  proof
    assume "\<exists>n\<in>set ch. prefix (P n) (P m)"
    then show "prefix (P cur) (P m) \<and> m \<noteq> cur"
      using sub(2) by (meson prefix_order.less_le_not_le prefix_order.less_le_trans strict_prefix_def)
  next
    assume "prefix (P cur) (P m) \<and> m \<noteq> cur"
    then show "\<exists>n\<in>set ch. prefix (P n) (P m)" using wf_ancestor [OF wf cur m] chl(2) by blast
  qed
  then show "pending L P (st @ ch) = pending L P (st @ [cur]) - {cur}"
    using inc by (intro set_eqI) (auto simp: pending_def bex_Un)
qed

lemma pending_root: "tree_wf p ns r cnt L P \<Longrightarrow> pending L P [r] = L \<and> antichain P [r] \<and> set [r] \<subseteq> L"
  using wf_basic [of p ns r cnt L P] by (auto simp: pending_def antichain_def)

lemma collect_loop_spec:
  assumes wf: "cwf c L P" and "antichain P st" "set st \<subseteq> L"
  shows "\<exists>ls. collect_loop c st acc = Some (acc @ ls) \<and> distinct ls \<and>
    set ls = {m \<in> pending L P st. n_children (nodes c m) = []}"
  using assms(2,3)
proof (induction "card (pending L P st)" arbitrary: st acc rule: less_induct)
  case less
  have fin: "finite (pending L P st)" using wf_basic(2) [OF wf] by (simp add: pending_def)
  show ?case
  proof (cases st rule: rev_cases)
    case Nil
    then show ?thesis by (simp add: collect_loop.simps pending_def)
  next
    case (snoc rest cur)
    note ps = pending_step [OF wf less.prems [unfolded snoc]]
    have small: "card (pending L P (rest @ map snd (n_children (nodes c cur)))) < card (pending L P st)"
      using ps(3,4) fin snoc by (metis card_Diff1_less)
    show ?thesis
    proof (cases "n_children (nodes c cur) = []")
      case True
      obtain ls where ls: "collect_loop c rest (acc @ [cur]) = Some ((acc @ [cur]) @ ls)" "distinct ls"
        "set ls = {m \<in> pending L P rest. n_children (nodes c m) = []}"
        using less.hyps [OF small, of "acc @ [cur]"] ps(1,2) True by auto
      have "collect_loop c st acc = Some (acc @ cur # ls)"
        using ls(1) True snoc by (subst collect_loop.simps) simp
      moreover have "pending L P rest = pending L P st - {cur}" using ps(3) True snoc by simp
      ultimately show ?thesis
        using ls ps(4) True snoc by (intro exI [of _ "cur # ls"]) auto
    next
      case False
      then have "collect_loop c st acc = collect_loop c (rest @ map snd (n_children (nodes c cur))) acc"
        using snoc by (subst collect_loop.simps) simp
      then show ?thesis using less.hyps [OF small ps(1,2), of acc] ps(3) snoc False by auto
    qed
  qed
qed

lemma collect_leaves_spec:
  assumes wf: "cwf c L P"
  obtains ls where "collect_leaves c = Some ls" "distinct ls" "set ls = {m \<in> L. n_children (nodes c m) = []}"
  using collect_loop_spec [OF wf, of "[root_node c]" "[]"] pending_root [OF wf] that
  by (auto simp: collect_leaves_def)

lemma total_size_loop_spec:
  assumes wf: "cwf c L P" and "antichain P st" "set st \<subseteq> L"
  shows "total_size_loop c st t = Some (t + (\<Sum>m\<in>pending L P st. length (nval (nodes c m))))"
  using assms(2,3)
proof (induction "card (pending L P st)" arbitrary: st t rule: less_induct)
  case less
  have fin: "finite (pending L P st)" using wf_basic(2) [OF wf] by (simp add: pending_def)
  have val: "n_value (nodes c m) = Some (nval (nodes c m))" if "m \<in> L" for m
    using that wf_basic [OF wf] wf_node(3) [OF wf] by (cases "m = root_node c") auto
  show ?case
  proof (cases st rule: rev_cases)
    case Nil
    then show ?thesis by (simp add: total_size_loop.simps pending_def)
  next
    case (snoc rest cur)
    note ps = pending_step [OF wf less.prems [unfolded snoc]]
    let ?ch = "map snd (n_children (nodes c cur))"
    have small: "card (pending L P (rest @ ?ch)) < card (pending L P st)"
      using ps(3,4) fin snoc by (metis card_Diff1_less)
    have "filter (\<lambda>ch. \<not> evicted (nodes c ch)) ?ch = ?ch"
      using ps(2) val by (intro filter_True) (auto simp: evicted_def)
    then have "total_size_loop c st t = total_size_loop c (rest @ ?ch) (t + length (nval (nodes c cur)))"
      using snoc val [of cur] less.prems(2) by (subst total_size_loop.simps) simp
    moreover have "(\<Sum>m\<in>pending L P st. length (nval (nodes c m))) =
        length (nval (nodes c cur)) + (\<Sum>m\<in>pending L P st - {cur}. length (nval (nodes c m)))"
      using fin ps(4) snoc by (metis sum.remove)
    ultimately show ?thesis using less.hyps [OF small ps(1,2)] ps(3) snoc by simp
  qed
qed

lemma pending_Cons:
  assumes "antichain P (a # rest)" "set (a # rest) \<subseteq> L"
  shows "pending L P (a # rest) = pending L P [a] \<union> pending L P rest" "pending L P [a] \<inter> pending L P rest = {}"
    "antichain P [a]" "antichain P rest"
proof -
  show "pending L P (a # rest) = pending L P [a] \<union> pending L P rest" by (auto simp: pending_def)
  have "\<not> prefix (P b) (P m)" if "prefix (P a) (P m)" "b \<in> set rest" for b m
    using assms(1) that prefix_same_cases [of "P a" "P m" "P b"] by (auto simp: antichain_def)
  then show "pending L P [a] \<inter> pending L P rest = {}" by (auto simp: pending_def)
  show "antichain P [a]" "antichain P rest" using assms(1) by (auto simp: antichain_def)
qed

lemma dfs_values_spec:
  assumes wf: "cwf c L P" and "antichain P st" "set st \<subseteq> L"
  shows "\<exists>vs. dfs_values c st acc = Some (acc @ vs) \<and> None \<notin> set vs \<and> length vs = card (pending L P st) \<and>
    mset (concat (map the vs)) = (\<Sum>m\<in>pending L P st. mset (nval (nodes c m)))"
  using assms(2,3)
proof (induction "card (pending L P st)" arbitrary: st acc rule: less_induct)
  case less
  have fin: "finite (pending L P s)" for s using wf_basic(2) [OF wf] by (simp add: pending_def)
  show ?case
  proof (cases st)
    case Nil
    then show ?thesis by (simp add: dfs_values.simps pending_def)
  next
    case (Cons a rest)
    note pc = pending_Cons [OF less.prems [unfolded Cons]]
    have al: "a \<in> L" using less.prems(2) Cons by simp
    have ps: "antichain P ([] @ map snd (n_children (nodes c a)))" "set ([] @ map snd (n_children (nodes c a))) \<subseteq> L"
      "pending L P ([] @ map snd (n_children (nodes c a))) = pending L P ([] @ [a]) - {a}" "a \<in> pending L P ([] @ [a])"
      using pending_step [OF wf, of "[]" a] pc(3) al by simp_all
    let ?ch = "map snd (n_children (nodes c a))"
    have parts: "pending L P st = insert a (pending L P ?ch \<union> pending L P rest)"
      "a \<notin> pending L P ?ch \<union> pending L P rest" "pending L P ?ch \<inter> pending L P rest = {}"
      using pc(1,2) ps(3,4) Cons by auto
    have card: "card (pending L P st) = Suc (card (pending L P ?ch) + card (pending L P rest))"
      unfolding parts(1) using parts(2,3) fin by (simp add: card_Un_disjoint)
    have sm: "card (pending L P ?ch) < card (pending L P st)" "card (pending L P rest) < card (pending L P st)"
      using card by auto
    have rl: "set rest \<subseteq> L" using less.prems(2) Cons by simp
    have val: "n_value (nodes c a) = Some (nval (nodes c a))"
      using al wf_basic [OF wf] wf_node(3) [OF wf] by (cases "a = root_node c") auto
    obtain us where us: "dfs_values c ?ch (acc @ [n_value (nodes c a)]) = Some ((acc @ [n_value (nodes c a)]) @ us)"
      "None \<notin> set us" "length us = card (pending L P ?ch)"
      "mset (concat (map the us)) = (\<Sum>m\<in>pending L P ?ch. mset (nval (nodes c m)))"
      using less.hyps [OF sm(1) ps(1,2) [unfolded append_Nil], of "acc @ [n_value (nodes c a)]"] by blast
    obtain ws where ws: "dfs_values c rest ((acc @ [n_value (nodes c a)]) @ us) = Some (((acc @ [n_value (nodes c a)]) @ us) @ ws)"
      "None \<notin> set ws" "length ws = card (pending L P rest)"
      "mset (concat (map the ws)) = (\<Sum>m\<in>pending L P rest. mset (nval (nodes c m)))"
      using less.hyps [OF sm(2) pc(4) rl, of "(acc @ [n_value (nodes c a)]) @ us"] by blast
    have "dfs_values c st acc = Some (acc @ (n_value (nodes c a) # us @ ws))"
      using us(1) ws(1) Cons by (subst dfs_values.simps) simp
    moreover have "(\<Sum>m\<in>pending L P st. mset (nval (nodes c m))) = mset (concat (map the (n_value (nodes c a) # us @ ws)))"
      unfolding parts(1) using parts(2,3) fin us(4) ws(4) val by (simp add: sum.union_disjoint)
    ultimately show ?thesis
      using us(2,3) ws(2,3) val card by (intro exI [of _ "n_value (nodes c a) # us @ ws"]) simp
  qed
qed

section \<open>The specification of eviction\<close>

definition unlocked_leaf :: "radix_cache \<Rightarrow> node_id \<Rightarrow> bool" where
  "unlocked_leaf c x \<longleftrightarrow>
     x \<in> live c \<and> x \<noteq> root_node c \<and> n_children (nodes c x) = [] \<and> n_lock_ref (nodes c x) \<le> 0"

definition access_time :: "radix_cache \<Rightarrow> node_id \<Rightarrow> nat" where
  "access_time c x = n_last_access_time (nodes c x)"

text \<open>
  One eviction: the least recently used unlocked leaf leaves the tree, its slots go back to the
  allocator, and nothing else changes.
\<close>

definition lru_step :: "radix_cache \<Rightarrow> node_id \<Rightarrow> radix_cache \<Rightarrow> bool" where
  "lru_step c x c' \<longleftrightarrow>
     unlocked_leaf c x \<and> (\<forall>y. unlocked_leaf c y \<longrightarrow> access_time c x \<le> access_time c y) \<and>
     kv_free (kv_pool c) (nval (nodes c x)) = Inr (kv_pool c') \<and>
     live c' = live c - {x} \<and>
     (\<forall>m\<in>live c'. path_of c' m = path_of c m \<and> nval (nodes c' m) = nval (nodes c m) \<and>
        n_lock_ref (nodes c' m) = n_lock_ref (nodes c m) \<and> access_time c' m = access_time c m) \<and>
     cached_pages c' = cached_pages c - node_pages (page_size c) (nodes c) (path_of c) x \<and>
     cached_slots c = cached_slots c' + mset (nval (nodes c x)) \<and>
     evictable_sz c' = evictable_sz c - int (length (nval (nodes c x))) \<and>
     protected_sz c' = protected_sz c \<and> root_node c' = root_node c \<and> page_size c' = page_size c \<and>
     req_pool c' = req_pool c \<and> cache_disable c' = cache_disable c"

inductive lru_run :: "int \<Rightarrow> int \<Rightarrow> radix_cache \<Rightarrow> radix_cache \<Rightarrow> bool" for n :: int where
  enough: "n \<le> k \<Longrightarrow> lru_run n k c c"
| none_left: "(\<And>x. \<not> unlocked_leaf c x) \<Longrightarrow> lru_run n k c c"
| evict_one: "k < n \<Longrightarrow> lru_step c x c1 \<Longrightarrow>
     lru_run n (k + int (length (nval (nodes c x)))) c1 c' \<Longrightarrow> lru_run n k c c'"

section \<open>One eviction\<close>

lemma find_child:
  assumes wf: "tree_wf p ns r cnt L P" and q: "q \<in> L" and x: "child_of ns q x"
  shows "find (\<lambda>(k, v). v = x) (n_children (ns q)) = Some (take p (n_key (ns x)), x)"
proof -
  obtain i where i: "i < length (n_children (ns q))" "n_children (ns q) ! i = (take p (n_key (ns x)), x)"
    using wf_child(5) [OF wf q x] by (metis in_set_conv_nth)
  have d: "distinct (map snd (n_children (ns q)))" by (rule children_list(1) [OF wf q])
  have "snd (n_children (ns q) ! j) \<noteq> x" if "j < i" for j
    using nth_eq_iff_index_eq [OF d, of j i] i that by auto
  then show ?thesis using i unfolding find_Some_iff case_prod_unfold by (intro exI [of _ i]) auto
qed

lemma delete_leaf_spec:
  assumes wf: "cwf c L P" and q: "q \<in> L" and x: "child_of (nodes c) q x"
  obtains c1 where "delete_leaf c x = Some c1"
    "del_rel (page_size c) (nodes c) (nodes c1) q x"
    "c1 = c\<lparr>nodes := nodes c1, evictable_sz := evictable_sz c - int (length (n_key (nodes c x)))\<rparr>"
proof -
  have "n_children (nodes c q) \<noteq> []" using x by (auto simp: child_of_def)
  then show thesis
    using that wf_child(3) [OF wf q x] find_child [OF wf q x]
    by (simp add: delete_leaf_def Let_def upd_node_def del_rel_def)
qed

lemma lock_ok_del:
  assumes lock: "lock_ok ns r L P refs" and x: "x \<in> L" "x \<noteq> r" "n_lock_ref (ns x) \<le> 0"
    and same: "\<And>m. n_lock_ref (ns' m) = n_lock_ref (ns m)"
  shows "lock_ok ns' r (L - {x}) P refs"
proof -
  have "x \<notin># refs"
  proof
    assume "x \<in># refs"
    then obtain refs0 where "refs = add_mset x refs0" by (metis mset_add)
    then show False using lock x by (auto simp: lock_ok_def)
  qed
  then show ?thesis using lock same by (auto simp: lock_ok_def)
qed

lemma evict_one_spec:
  assumes inv: "radix_inv c refs" and x: "unlocked_leaf c x"
    and a: "kv_free (kv_pool c) (nval (nodes c x)) = Inr a"
  obtains q c1 where "delete_leaf (c\<lparr>kv_pool := a\<rparr>) x = Some c1" "n_parent (nodes c1 x) = Some q"
    "q \<in> live c" "q \<noteq> x" "n_children (nodes c q) \<noteq> []"
    "del_rel (page_size c) (nodes c) (nodes c1) q x"
    "radix_inv (record_remove_event c1 x) refs"
    "live (record_remove_event c1 x) = live c - {x}" "kv_pool c1 = a" "same_env (c\<lparr>kv_pool := a\<rparr>) c1"
    "\<forall>m\<in>live c - {x}. path_of (record_remove_event c1 x) m = path_of c m"
    "cached_pages (record_remove_event c1 x) = cached_pages c - node_pages (page_size c) (nodes c) (path_of c) x"
    "cached_slots c = cached_slots (record_remove_event c1 x) + mset (nval (nodes c x))"
    "evictable_sz c1 = evictable_sz c - int (length (nval (nodes c x)))" "protected_sz c1 = protected_sz c"
proof -
  let ?L = "live c" and ?P = "path_of c" and ?c = "c\<lparr>kv_pool := a\<rparr>"
  have wf: "cwf c ?L ?P" and lock: "lock_ok (nodes c) (root_node c) ?L ?P refs" using inv by (auto simp: radix_inv_def)
  have xl: "x \<in> ?L" "x \<noteq> root_node c" "n_children (nodes c x) = []" "n_lock_ref (nodes c x) \<le> 0"
    using x by (auto simp: unlocked_leaf_def)
  obtain q where q: "q \<in> ?L" "n_parent (nodes c x) = Some q" "child_of (nodes c) q x"
    by (rule wf_parent [OF wf xl(1,2)])
  have len: "length (nval (nodes c x)) = length (n_key (nodes c x))" using wf_node [OF wf xl(1,2)] by simp
  obtain c1 where d: "delete_leaf ?c x = Some c1" and rel: "del_rel (page_size c) (nodes c) (nodes c1) q x"
    and c1: "c1 = ?c\<lparr>nodes := nodes c1, evictable_sz := evictable_sz c - int (length (n_key (nodes c x)))\<rparr>"
    using delete_leaf_spec [of ?c ?L ?P q x] wf q by auto
  have f1: "page_size c1 = page_size c" "root_node c1 = root_node c" "node_counter c1 = node_counter c"
    "kv_pool c1 = a" "same_env ?c c1" "protected_sz c1 = protected_sz c"
    "evictable_sz c1 = evictable_sz c - int (length (nval (nodes c x)))"
    by (subst c1, simp add: same_env_def len)+
  have s: "del_ok (page_size c) (nodes c) (root_node c) (node_counter c) ?L ?P q x"
    using wf q xl(3) by (simp add: del_ok_def)
  let ?c2 = "record_remove_event c1 x"
  have wf2: "cwf ?c2 (?L - {x}) ?P" using del_wf [OF s rel] f1 by simp
  note ab = abs_eqs [OF wf2] and ab0 = abs_eqs [OF wf]
  note lo = lock_ok_del [OF lock xl(1,2,4) del_fields(5) [OF rel]]
  have l0: "n_lock_ref (nodes c x) = 0" using lock xl by (auto simp: lock_ok_def)
  have inv2: "radix_inv ?c2 refs"
    unfolding radix_inv_iff [OF wf2]
    using inv lo del_sums(2) [OF s rel, of "\<lambda>l. l = 0"] del_sums(2) [OF s rel, of "\<lambda>l. l \<noteq> 0"] l0 f1
    by (simp add: radix_inv_def)
  show thesis
  proof (rule that [OF d _ q(1) _ _ rel inv2])
    show "n_parent (nodes c1 x) = Some q" using q(2) del_fields(4) [OF rel] by simp
    show "q \<noteq> x" "n_children (nodes c q) \<noteq> []" using q(3) xl(3) by (auto simp: child_of_def)
    show "live ?c2 = ?L - {x}" by (rule ab(1))
    show "\<forall>m\<in>?L - {x}. path_of ?c2 m = path_of c m" using ab(2) by blast
    show "cached_pages ?c2 = cached_pages c - node_pages (page_size c) (nodes c) (path_of c) x"
      using ab(3) ab0(3) del_pages [OF s rel] f1 by simp
    show "cached_slots c = cached_slots ?c2 + mset (nval (nodes c x))"
      using ab(4) ab0(4) del_sums(1) [OF s rel] f1 by simp
  qed (use f1 in auto)
qed

lemma no_unlocked_leaf:
  assumes inv: "radix_inv c refs" and none: "\<And>x. \<not> unlocked_leaf c x"
  shows "evictable_sz c = 0"
proof -
  let ?L = "live c" and ?P = "path_of c" and ?U = "{m \<in> live c - {root_node c}. n_lock_ref (nodes c m) = 0}"
  have wf: "cwf c ?L ?P" and lock: "lock_ok (nodes c) (root_node c) ?L ?P refs" using inv by (auto simp: radix_inv_def)
  have "?U = {}"
  proof (rule ccontr)
    assume "?U \<noteq> {}"
    moreover have fin: "finite ?U" using wf_basic(2) [OF wf] by simp
    ultimately have "Max ((\<lambda>u. length (?P u)) ` ?U) \<in> (\<lambda>u. length (?P u)) ` ?U" by (intro Max_in) auto
    then obtain m where m: "m \<in> ?U" "Max ((\<lambda>u. length (?P u)) ` ?U) = length (?P m)" by blast
    then have mx: "\<forall>u\<in>?U. length (?P u) \<le> length (?P m)"
      using fin by (metis (no_types, lifting) Max_ge finite_imageI image_eqI)
    obtain k ch where "(k, ch) \<in> set (n_children (nodes c m))"
      using none [of m] m(1) by (cases "n_children (nodes c m)") (auto simp: unlocked_leaf_def)
    then have ch: "child_of (nodes c) m ch" by (force simp: child_of_def)
    have ml: "m \<in> ?L" using m by simp
    note cc = wf_child [OF wf ml ch] and lg = child_longer [OF wf ml ch]
    have "filter_mset (\<lambda>x. prefix (?P ch) (?P x)) refs \<subseteq># filter_mset (\<lambda>x. prefix (?P m) (?P x)) refs"
      using lg by (intro filter_mset_mono_strong) (auto intro: prefix_order.trans dest: prefix_order.less_imp_le)
    moreover have lk: "n_lock_ref (nodes c z) = int (size (filter_mset (\<lambda>x. prefix (?P z) (?P x)) refs))"
      if "z \<in> ?L" "z \<noteq> root_node c" for z using lock that by (simp add: lock_ok_def)
    ultimately have "n_lock_ref (nodes c ch) \<le> n_lock_ref (nodes c m)"
      using lk [OF cc(1,2)] lk [of m] m(1) size_mset_mono by (metis (mono_tags, lifting) DiffE insertI1 mem_Collect_eq of_nat_mono)
    then have "n_lock_ref (nodes c ch) = 0" using m lk [OF cc(1,2)] by simp
    then have "length (?P ch) \<le> length (?P m)" using mx cc by auto
    then show False using lg prefix_length_less by fastforce
  qed
  then have "lock_sum (\<lambda>l. l = 0) (nodes c) (root_node c) ?L = 0"
    unfolding lock_sum_def by (intro sum.neutral) auto
  then show ?thesis using inv by (simp add: radix_inv_def)
qed

section \<open>The eviction loop\<close>

text \<open>
  Freeing slots raises only in the debug mode of the paged allocator.
\<close>

fun no_debug :: "kv_alloc \<Rightarrow> bool" where
  "no_debug (TokenAlloc a) = True"
| "no_debug (PagedAlloc a) = (\<not> debug_mode a)"

lemma kv_free_total: "no_debug a \<Longrightarrow> \<exists>a'. kv_free a v = Inr a' \<and> no_debug a'"
  by (cases a) (auto simp: pka_free_def Let_def)

lemma heap_lt_time: "heap_lt c = (\<lambda>a b. access_time c a < access_time c b)"
  by (simp add: heap_lt_def node_lt_def access_time_def fun_eq_iff)

text \<open>What the heap of the loop holds: leaves of the tree, among them every unlocked one.\<close>

definition heap_ok :: "radix_cache \<Rightarrow> node_id list \<Rightarrow> bool" where
  "heap_ok c h \<longleftrightarrow>
     heap_above (access_time c) h 0 \<and> distinct h \<and>
     set h \<subseteq> {m \<in> live c. n_children (nodes c m) = []} \<and> (\<forall>x. unlocked_leaf c x \<longrightarrow> x \<in> set h)"

lemma heap_ok_pop:
  assumes h: "heap_ok c h" "h \<noteq> []" "heappop (heap_lt c) h = (x, rest)"
  shows "x \<in> live c" "n_children (nodes c x) = []" "heap_above (access_time c) rest 0" "distinct rest"
    "x \<notin> set rest" "set h = insert x (set rest)" "length h = Suc (length rest)"
    "unlocked_leaf c y \<Longrightarrow> access_time c x \<le> access_time c y"
proof -
  have pop: "heappop (\<lambda>a b. access_time c a < access_time c b) h = (x, rest)"
    using h(3) by (simp add: heap_lt_time)
  have inv: "heap_above (access_time c) h 0" and sub: "set h \<subseteq> {m \<in> live c. n_children (nodes c m) = []}"
    and d: "distinct h" and all: "\<And>x. unlocked_leaf c x \<Longrightarrow> x \<in> set h"
    using h(1) by (auto simp: heap_ok_def)
  show "heap_above (access_time c) rest 0" by (rule hq.pop_inv [OF inv pop])
  show s: "set h = insert x (set rest)" "length h = Suc (length rest)" using hq.pop_set [OF h(2) pop] by auto
  show "x \<in> live c" "n_children (nodes c x) = []" using s sub by auto
  have "distinct (x # rest)"
    using d hq.pop_mset [OF h(2) pop] by (metis mset.simps(2) distinct_count_atmost_1 mset_eq_setD)
  then show "distinct rest" "x \<notin> set rest" by auto
  show "unlocked_leaf c y \<Longrightarrow> access_time c x \<le> access_time c y"
    using hq.pop_least [OF inv h(2) pop] all by blast
qed

lemma root_leaf_alone:
  assumes inv: "radix_inv c refs" and leaf: "n_children (nodes c (root_node c)) = []"
  shows "\<not> unlocked_leaf c x"
proof
  assume x: "unlocked_leaf c x"
  have wf: "cwf c (live c) (path_of c)" using inv by (simp add: radix_inv_def)
  have "\<exists>m. child_of (nodes c) (root_node c) m"
    using wf_ancestor [OF wf, of "root_node c" x] wf_basic [OF wf] x by (auto simp: unlocked_leaf_def)
  then show False using leaf by (auto simp: child_of_def)
qed

lemma heap_ok_evict:
  assumes h: "heap_ok c h" "h \<noteq> []" "heappop (heap_lt c) h = (x, rest)"
    and inv: "radix_inv c refs" and x: "unlocked_leaf c x"
    and rel: "del_rel p (nodes c) (nodes c1) q x" and q: "q \<in> live c" "q \<noteq> x" "n_children (nodes c q) \<noteq> []"
    and c2: "nodes c2 = nodes c1" "live c2 = live c - {x}" "root_node c2 = root_node c"
  shows "heap_ok c2 (if n_children (nodes c1 q) = [] then heappush (heap_lt c1) rest q else rest)"
proof -
  note pop = heap_ok_pop [OF h]
  have time: "access_time c2 = access_time c" "access_time c1 = access_time c"
    using del_fields(6) [OF rel] c2(1) by (auto simp: access_time_def fun_eq_iff)
  have ch: "n_children (nodes c2 m) = n_children (nodes c m)" if "m \<noteq> q" for m
    using del_fields(7) [OF rel that] c2(1) by simp
  have lk: "n_lock_ref (nodes c2 m) = n_lock_ref (nodes c m)" for m
    using del_fields(5) [OF rel] c2(1) by simp
  have rest_sub: "set rest \<subseteq> live c - {x}" "\<forall>m\<in>set rest. n_children (nodes c m) = []"
    "\<And>y. unlocked_leaf c y \<Longrightarrow> y = x \<or> y \<in> set rest"
    using h(1) pop(5,6) by (auto simp: heap_ok_def)
  have qr: "q \<notin> set rest" using rest_sub(2) q(3) by auto
  have old: "y \<in> set rest" if "unlocked_leaf c2 y" "y \<noteq> q" for y
    using that rest_sub(3) [of y] ch lk c2 by (auto simp: unlocked_leaf_def)
  have leaf: "\<forall>m\<in>set rest. n_children (nodes c2 m) = []" using rest_sub(2) ch qr by metis
  show ?thesis
  proof (cases "n_children (nodes c1 q) = []")
    case True
    let ?h = "heappush (\<lambda>a b. access_time c a < access_time c b) rest q"
    have s: "set ?h = insert q (set rest)" by (rule hq.push_set)
    have "distinct ?h"
      using mset_heappush [of "\<lambda>a b. access_time c a < access_time c b" rest q] pop(4) qr
      by (metis distinct.simps(2) mset.simps(2) mset_eq_imp_distinct_iff)
    moreover have "heap_above (access_time c) ?h 0" by (rule hq.push_ok(1) [OF pop(3)])
    ultimately have "heap_ok c2 ?h"
      unfolding heap_ok_def time s c2(2) using rest_sub(1) leaf q(1,2) True old c2(1) by auto
    then show ?thesis using True by (simp add: heap_lt_time time)
  next
    case False
    then have "unlocked_leaf c2 y \<Longrightarrow> y \<noteq> q" for y using c2(1) by (auto simp: unlocked_leaf_def)
    then show ?thesis
      unfolding heap_ok_def time c2(2) using False rest_sub(1) leaf pop(3,4) old by auto
  qed
qed

lemma evict_loop_spec:
  assumes "radix_inv c refs" "heap_ok c h" "no_debug (kv_pool c)"
  shows "\<exists>c'. evict_loop c n k h = Some c' \<and> radix_inv c' refs \<and> lru_run n k c c' \<and> no_debug (kv_pool c')"
  using assms
proof (induction "2 * card (live c) + length h" arbitrary: c h k rule: less_induct)
  case less
  note inv = less.prems(1) and h = less.prems(2)
  show ?case
  proof (cases "k < n \<and> h \<noteq> []")
    case False
    have "lru_run n k c c"
    proof (cases "k < n")
      case True
      then have "\<not> unlocked_leaf c x" for x using False h by (auto simp: heap_ok_def)
      then show ?thesis by (rule lru_run.none_left)
    qed (simp add: lru_run.enough)
    then show ?thesis using False less.prems by (subst evict_loop.simps) auto
  next
    case True
    obtain x rest where pop: "heappop (heap_lt c) h = (x, rest)" by force
    note hp = heap_ok_pop [OF h _ pop]
    show ?thesis
    proof (cases "x = root_node c \<or> n_lock_ref (nodes c x) > 0")
      case skip: True
      show ?thesis
      proof (cases "x = root_node c")
        case True
        then have "lru_run n k c c"
          using root_leaf_alone [OF inv] hp(2) \<open>k < n \<and> h \<noteq> []\<close> by (intro lru_run.none_left) auto
        then show ?thesis using True \<open>k < n \<and> h \<noteq> []\<close> less.prems pop by (subst evict_loop.simps) auto
      next
        case False
        have "heap_ok c rest"
          using h hp(3-6) True skip False unfolding heap_ok_def unlocked_leaf_def by auto
        moreover have "evict_loop c n k h = evict_loop c n k rest"
          using False skip True pop by (subst evict_loop.simps) auto
        ultimately show ?thesis using less.hyps [of c rest k] inv less.prems(3) hp(7) True by simp
      qed
    next
      case False
      have x: "unlocked_leaf c x" using hp(1,2) True False by (auto simp: unlocked_leaf_def)
      have wf: "cwf c (live c) (path_of c)" using inv by (simp add: radix_inv_def)
      obtain a where a: "kv_free (kv_pool c) (nval (nodes c x)) = Inr a" "no_debug a"
        using kv_free_total [OF less.prems(3)] by blast
      obtain q c1 where e: "delete_leaf (c\<lparr>kv_pool := a\<rparr>) x = Some c1" "n_parent (nodes c1 x) = Some q"
        "q \<in> live c" "q \<noteq> x" "n_children (nodes c q) \<noteq> []"
        "del_rel (page_size c) (nodes c) (nodes c1) q x"
        "radix_inv (record_remove_event c1 x) refs"
        "live (record_remove_event c1 x) = live c - {x}" "kv_pool c1 = a" "same_env (c\<lparr>kv_pool := a\<rparr>) c1"
        and pth: "\<forall>m\<in>live c - {x}. path_of (record_remove_event c1 x) m = path_of c m"
        and e2: "cached_pages (record_remove_event c1 x) = cached_pages c - node_pages (page_size c) (nodes c) (path_of c) x"
        "cached_slots c = cached_slots (record_remove_event c1 x) + mset (nval (nodes c x))"
        "evictable_sz c1 = evictable_sz c - int (length (nval (nodes c x)))" "protected_sz c1 = protected_sz c"
        by (rule evict_one_spec [OF inv x a(1)])
      let ?c2 = "record_remove_event c1 x"
      let ?h = "if n_children (nodes c1 q) = [] then heappush (heap_lt c1) rest q else rest"
      have env: "root_node c1 = root_node c" "page_size c1 = page_size c" "req_pool c1 = req_pool c"
        "cache_disable c1 = cache_disable c"
        using e(10) by (auto simp: same_env_def)
      have h2: "heap_ok ?c2 ?h"
        using heap_ok_evict [OF h _ pop inv x e(6,3-5), of ?c2] e(8) env True by simp
      have v: "n_value (nodes c x) = Some (nval (nodes c x))"
        using wf_node(3) [OF wf] x by (simp add: unlocked_leaf_def)
      have fin: "finite (live c)" using wf_basic(2) [OF wf] .
      have "card (live ?c2) < card (live c)"
        using x fin unfolding e(8) unlocked_leaf_def by (meson card_Diff1_less)
      moreover have "length ?h \<le> length h"
        using hp(7) True size_mset [of "heappush (heap_lt c1) rest q"] mset_heappush [of "heap_lt c1" rest q]
        by (auto simp flip: size_mset)
      ultimately have "2 * card (live ?c2) + length ?h < 2 * card (live c) + length h" by linarith
      from less.hyps [OF this e(7) h2, of "k + int (length (nval (nodes c x)))"]
      obtain c' where IH: "evict_loop ?c2 n (k + int (length (nval (nodes c x)))) ?h = Some c'"
        "radix_inv c' refs" "lru_run n (k + int (length (nval (nodes c x)))) ?c2 c'" "no_debug (kv_pool c')"
        using a(2) e(9) by auto
      have step: "lru_step c x ?c2"
        unfolding lru_step_def
        using x a(1) e(8,9) e2 env pth hp(8) True del_fields [OF e(6)] by (simp add: access_time_def)
      have "lru_run n k c c'" using lru_run.evict_one [OF _ step IH(3)] True by simp
      moreover have "evict_loop c n k h = evict_loop ?c2 n (k + int (length (nval (nodes c x)))) ?h"
        using True False pop v a(1) e(1,2) by (simp add: evict_loop.simps [of c n k h])
      ultimately show ?thesis using IH by auto
    qed
  qed
qed

lemma radix_evict_spec:
  assumes inv: "radix_inv c refs" and on: "\<not> cache_disable c" and nd: "no_debug (kv_pool c)"
  obtains c' where "radix_evict c n = Some c'" "radix_inv c' refs" "lru_run n 0 c c'" "no_debug (kv_pool c')"
proof -
  have wf: "cwf c (live c) (path_of c)" using inv by (simp add: radix_inv_def)
  obtain ls where ls: "collect_leaves c = Some ls" "distinct ls" "set ls = {m \<in> live c. n_children (nodes c m) = []}"
    by (rule collect_leaves_spec [OF wf])
  let ?h = "heapify (\<lambda>a b. access_time c a < access_time c b) ls"
  have "distinct ?h" using ls(2) mset_heapify by (metis mset_eq_imp_distinct_iff)
  moreover have "set ?h = set ls" by (rule hq.build_set)
  ultimately have "heap_ok c ?h"
    using ls(3) hq.build_ok(1) by (auto simp: heap_ok_def unlocked_leaf_def)
  from evict_loop_spec [OF inv this nd, of n 0] show thesis
    using that ls(1) on by (auto simp: radix_evict_def heap_lt_time)
qed

end
