(* ===== verification/Sampling.thy ===== *)
theory Sampling
  imports Prelude Complex_Main
begin

text \<open>
  \<open>sampling/sampling_params.py\<close>: the sampling parameters of a request, their validation and the
  normalisation of stop strings. Floating point numbers are rationals here: every check compares
  them with constants and none computes with them. \<open>tokenizer.encode\<close> is a parameter, and
  \<open>custom_params\<close>, a dictionary no code here reads, is left out.
\<close>

datatype stop_spec = NoStop | OneStop string | StopList "string list"

record sampling_params =
  max_new_tokens :: "int option"
  stop_strs :: stop_spec
  stop_str_max_len :: nat
  stop_token_ids :: "token set option"
  temperature :: rat
  top_p :: rat
  top_k :: int
  min_p :: rat
  frequency_penalty :: rat
  presence_penalty :: rat
  repetition_penalty :: rat
  min_new_tokens :: int
  n_samples :: int
  json_schema :: "string option"
  regex :: "string option"
  ebnf :: "string option"
  structural_tag :: "string option"
  ignore_eos :: bool
  skip_special_tokens :: bool
  spaces_between_special_tokens :: bool
  no_stop_trim :: bool
  stream_interval :: "int option"

definition SAMPLING_EPS :: rat where
  "SAMPLING_EPS = 1 / 1000000"

text \<open>
  The arguments of the constructor are a record of the same shape whose \<open>stop_token_ids\<close> is a
  list; the special cases of the constructor follow.
\<close>

definition special_cases :: "sampling_params \<Rightarrow> sampling_params" where
  "special_cases p =
     (let p1 = (if 0 \<le> temperature p \<and> temperature p < SAMPLING_EPS
                then p\<lparr>temperature := 1, top_k := 1\<rparr> else p)
      in if top_k p1 = - 1 then p1\<lparr>top_k := 2 ^ 30\<rparr> else p1)"

definition sampling_params_init :: "sampling_params \<Rightarrow> token list option \<Rightarrow> sampling_params" where
  "sampling_params_init args stop_ids =
     special_cases
       (args\<lparr>stop_token_ids := (case stop_ids of None \<Rightarrow> None | Some [] \<Rightarrow> None | Some xs \<Rightarrow> Some (set xs))\<rparr>)"

definition default_params :: sampling_params where
  "default_params =
     \<lparr>max_new_tokens = Some 128, stop_strs = NoStop, stop_str_max_len = 0, stop_token_ids = None,
      temperature = 1, top_p = 1, top_k = - 1, min_p = 0, frequency_penalty = 0, presence_penalty = 0,
      repetition_penalty = 1, min_new_tokens = 0, n_samples = 1, json_schema = None, regex = None,
      ebnf = None, structural_tag = None, ignore_eos = False, skip_special_tokens = True,
      spaces_between_special_tokens = True, no_stop_trim = False, stream_interval = None\<rparr>"

text \<open>The checks raise in this order.\<close>

definition sampling_verify :: "sampling_params \<Rightarrow> unit result" where
  "sampling_verify p =
     (if temperature p < 0 then Inl ValueError
      else if \<not> (0 < top_p p \<and> top_p p \<le> 1) then Inl ValueError
      else if \<not> (0 \<le> min_p p \<and> min_p p \<le> 1) then Inl ValueError
      else if top_k p < 1 \<or> top_k p = - 1 then Inl ValueError
      else if \<not> (- 2 \<le> frequency_penalty p \<and> frequency_penalty p \<le> 2) then Inl ValueError
      else if \<not> (- 2 \<le> presence_penalty p \<and> presence_penalty p \<le> 2) then Inl ValueError
      else if \<not> (0 \<le> repetition_penalty p \<and> repetition_penalty p \<le> 2) then Inl ValueError
      else if \<not> 0 \<le> min_new_tokens p then Inl ValueError
      else if (case max_new_tokens p of
                 None \<Rightarrow> False
               | Some m \<Rightarrow> m < 0 \<or> \<not> min_new_tokens p \<le> m) then Inl ValueError
      else if length (filter (\<lambda>x. x \<noteq> None) [json_schema p, regex p, ebnf p]) > 1 then Inl ValueError
      else Inr ())"

fun stop_list :: "stop_spec \<Rightarrow> string list" where
  "stop_list NoStop = []"
| "stop_list (OneStop s) = [s]"
| "stop_list (StopList ss) = ss"

definition sampling_normalize :: "(string \<Rightarrow> token list) option \<Rightarrow> sampling_params \<Rightarrow> sampling_params" where
  "sampling_normalize encode p =
     (if stop_strs p = NoStop then p\<lparr>stop_strs := StopList [], stop_str_max_len := 0\<rparr>
      else
        (let ss = stop_list (stop_strs p)
         in p\<lparr>stop_strs := StopList ss,
              stop_str_max_len := fold (\<lambda>s m. case encode of
                                                Some f \<Rightarrow> max m (length (f s))
                                              | None \<Rightarrow> max m (length s)) ss 0\<rparr>))"

section \<open>Facts\<close>

lemma verify_ok_iff:
  "sampling_verify p = Inr () \<longleftrightarrow>
     0 \<le> temperature p \<and> 0 < top_p p \<and> top_p p \<le> 1 \<and> 0 \<le> min_p p \<and> min_p p \<le> 1 \<and> 1 \<le> top_k p \<and>
     \<bar>frequency_penalty p\<bar> \<le> 2 \<and> \<bar>presence_penalty p\<bar> \<le> 2 \<and>
     0 \<le> repetition_penalty p \<and> repetition_penalty p \<le> 2 \<and> 0 \<le> min_new_tokens p \<and>
     (\<forall>m. max_new_tokens p = Some m \<longrightarrow> min_new_tokens p \<le> m) \<and>
     length (filter (\<lambda>x. x \<noteq> None) [json_schema p, regex p, ebnf p]) \<le> 1"
  by (auto simp: sampling_verify_def not_less abs_le_iff split: option.splits)

lemma fold_max_ge:
  fixes f :: "'a \<Rightarrow> nat"
  shows "m \<le> fold (\<lambda>s m. max m (f s)) ss m \<and> (\<forall>s\<in>set ss. f s \<le> fold (\<lambda>s m. max m (f s)) ss m)"
  by (induction ss arbitrary: m) (auto intro: order_trans [OF max.cobounded2] order_trans [OF max.cobounded1])

lemma normalize_bound:
  assumes "s \<in> set (stop_list (stop_strs p))"
  shows "(case encode of Some f \<Rightarrow> length (f s) | None \<Rightarrow> length s) \<le>
    stop_str_max_len (sampling_normalize encode p)"
proof -
  let ?f = "\<lambda>s. case encode of Some f \<Rightarrow> length (f s) | None \<Rightarrow> length s"
  have "fold (\<lambda>s m. case encode of Some f \<Rightarrow> max m (length (f s)) | None \<Rightarrow> max m (length s)) ss 0 =
      fold (\<lambda>s m. max m (?f s)) ss 0" for ss
    by (cases encode) simp_all
  then show ?thesis
    using assms fold_max_ge [of 0 ?f "stop_list (stop_strs p)"]
    by (cases "stop_strs p") (auto simp: sampling_normalize_def)
qed

lemma normalize_idem: "sampling_normalize e (sampling_normalize e p) = sampling_normalize e p"
  by (cases "stop_strs p") (simp_all add: sampling_normalize_def)

end
