(* ===== verification/Req.thy ===== *)
theory Req
  imports Sampling
begin

text \<open>
  The request of \<open>managers/schedule_batch.py\<close>: its state and the methods that change it. Fields
  that only carry data through to other processes (metrics, multimodal features, hidden states)
  are left out. The tokenizer and the grammar object are third-party code: \<open>tok_decode\<close> is a
  field of the tokenizer, \<open>is_terminated\<close> an argument. Optional arguments of the constructor that
  \<open>req_init\<close> does not take have their defaults there and are set by record update.
\<close>

section \<open>Finish reasons\<close>

datatype finish_reason =
    FINISH_MATCHED_TOKEN token
  | FINISH_MATCHED_STR string
  | FINISH_LENGTH "int option"
  | FINISH_ABORT "string option" "nat option" "string option"

fun is_error :: "finish_reason \<Rightarrow> bool" where
  "is_error (FINISH_ABORT _ _ _) = True"
| "is_error _ = False"

section \<open>State\<close>

record tokenizer =
  eos_token_id :: "token option"
  additional_stop_token_ids :: "token list option"
  tok_decode :: "token list \<Rightarrow> string"

record req =
  rid :: string
  origin_input_ids_unpadded :: "token list"
  origin_input_ids :: "token list"
  output_ids :: "token list"
  fill_ids :: "token list option"
  session_id :: "string option"
  r_params :: sampling_params
  lora_path :: "string option"
  req_pool_idx :: "nat option"
  r_tokenizer :: "tokenizer option"
  finished_reason :: "finish_reason option"
  finished_output :: "bool option"
  to_abort :: bool
  to_abort_message :: "string option"
  stream :: bool
  eos_token_ids :: "token list option"
  surr_offset :: "nat option"
  read_offset :: "nat option"
  decoded_text :: string
  prefix_indices :: "slot list"
  extend_input_len :: int
  extend_logprob_start_len :: int
  last_node :: "node_id option"
  last_node_global :: "node_id option"
  is_chunked :: int
  is_retracted :: bool
  return_logprob :: bool
  logprob_start_len :: int
  top_logprobs_num :: int
  token_ids_logprob :: "token list option"
  input_token_logprobs :: "(rat \<times> token) list option"
  temp_input_top_logprobs_val :: "rat list option"
  temp_input_top_logprobs_idx :: "nat list option"
  grammar :: "nat option"
  cached_tokens :: int
  already_computed :: int
  spec_verify_ct :: nat
  send_token_offset :: nat
  send_decode_id_offset :: nat
  r_processor :: "string option"
  r_custom_params :: "string option"
  r_return_hidden_states :: bool

definition req_init ::
  "string \<Rightarrow> token list \<Rightarrow> sampling_params \<Rightarrow> bool \<Rightarrow> int \<Rightarrow> token list option \<Rightarrow> bool \<Rightarrow>
   token list option \<Rightarrow> string option \<Rightarrow> string option \<Rightarrow> token list option \<Rightarrow> req" where
  "req_init i ids params logprob top_num ids_logprob strm unpadded lora session eos =
     \<lparr>rid = i,
      origin_input_ids_unpadded = (case unpadded of None \<Rightarrow> ids | Some [] \<Rightarrow> ids | Some u \<Rightarrow> u),
      origin_input_ids = ids, output_ids = [], fill_ids = None, session_id = session,
      r_params = params, lora_path = lora, req_pool_idx = None, r_tokenizer = None,
      finished_reason = None, finished_output = None, to_abort = False, to_abort_message = None, stream = strm,
      eos_token_ids = eos, surr_offset = None, read_offset = None, decoded_text = [],
      prefix_indices = [], extend_input_len = 0, extend_logprob_start_len = 0,
      last_node = None, last_node_global = None, is_chunked = 0, is_retracted = False,
      return_logprob = logprob, logprob_start_len = 0, top_logprobs_num = top_num,
      token_ids_logprob = ids_logprob, input_token_logprobs = None,
      temp_input_top_logprobs_val = None, temp_input_top_logprobs_idx = None,
      grammar = None, cached_tokens = 0, already_computed = 0, spec_verify_ct = 0,
      send_token_offset = 0, send_decode_id_offset = 0,
      r_processor = None, r_custom_params = None, r_return_hidden_states = False\<rparr>"

definition seqlen :: "req \<Rightarrow> nat" where
  "seqlen r = length (origin_input_ids r) + length (output_ids r)"

definition finished :: "req \<Rightarrow> bool" where
  "finished r \<longleftrightarrow> finished_reason r \<noteq> None"

section \<open>The tokens of the next round\<close>

definition max_prefix_len :: "req \<Rightarrow> int" where
  "max_prefix_len r =
     (let input_len = int (length (origin_input_ids r @ output_ids r));
          m0 = input_len - 1;
          m1 = (case max_new_tokens (r_params r) of
                  Some m \<Rightarrow> if m > 0 then min m0 (input_len - 1) else m0
                | None \<Rightarrow> m0);
          m2 = (if return_logprob r then min m1 (logprob_start_len r) else m1)
      in max m2 0)"

text \<open>It also sets \<open>fill_ids\<close>. \<open>max_new_tokens\<close> is an integer once the request is scheduled.\<close>

definition adjust_max_prefix_ids :: "req \<Rightarrow> token list \<times> req" where
  "adjust_max_prefix_ids r =
     (let ids = origin_input_ids r @ output_ids r
      in (py_to ids (max_prefix_len r), r\<lparr>fill_ids := Some ids\<rparr>))"

text \<open>
  \<open>init_next_round_input\<close> without the hierarchical cache: \<open>mtch\<close> is \<open>tree_cache.match_prefix\<close>
  with the state of the cache, \<open>None\<close> when there is no cache.
\<close>

definition init_next_round_input ::
  "('c \<Rightarrow> token list \<Rightarrow> (slot list \<times> node_id \<times> 'c) option) option \<Rightarrow> 'c \<Rightarrow> req \<Rightarrow> (req \<times> 'c) option" where
  "init_next_round_input mtch c r =
     (let r0 = r\<lparr>fill_ids := Some (origin_input_ids r @ output_ids r)\<rparr>;
          len = int (length (origin_input_ids r @ output_ids r))
      in case mtch of
           None \<Rightarrow> Some (r0\<lparr>extend_input_len := len - int (length (prefix_indices r0))\<rparr>, c)
         | Some m \<Rightarrow>
             (case adjust_max_prefix_ids r0 of (ks, r1) \<Rightarrow>
                (case m c ks of
                   None \<Rightarrow> None
                 | Some (idx, node, c') \<Rightarrow>
                     Some (r1\<lparr>prefix_indices := idx, last_node := Some node,
                             extend_input_len := len - int (length idx)\<rparr>, c'))))"

definition INIT_INCREMENTAL_DETOKENIZATION_OFFSET :: nat where
  "INIT_INCREMENTAL_DETOKENIZATION_OFFSET = 5"

definition init_incremental_detokenize :: "req \<Rightarrow> (token list \<times> int) \<times> req" where
  "init_incremental_detokenize r =
     (let r1 = (case (surr_offset r, read_offset r) of
                  (Some s, Some d) \<Rightarrow> r
                | _ \<Rightarrow> r\<lparr>read_offset := Some (length (origin_input_ids_unpadded r)),
                         surr_offset := Some (length (origin_input_ids_unpadded r) -
                                              INIT_INCREMENTAL_DETOKENIZATION_OFFSET)\<rparr>);
          ids = origin_input_ids_unpadded r1 @ output_ids r1
      in ((drop (the (surr_offset r1)) ids, int (the (read_offset r1)) - int (the (surr_offset r1))), r1))"

section \<open>Finishing\<close>

definition matched_eos :: "req \<Rightarrow> token \<Rightarrow> bool" where
  "matched_eos r t \<longleftrightarrow>
     (case stop_token_ids (r_params r) of None \<Rightarrow> False | Some S \<Rightarrow> t \<in> S) \<or>
     (case eos_token_ids r of None \<Rightarrow> False | Some xs \<Rightarrow> t \<in> set xs) \<or>
     (case r_tokenizer r of
        None \<Rightarrow> False
      | Some tk \<Rightarrow> Some t = eos_token_id tk \<or>
          (case additional_stop_token_ids tk of None \<Rightarrow> False | Some xs \<Rightarrow> t \<in> set xs))"

definition check_stop_strs :: "req \<Rightarrow> req result" where
  "check_stop_strs r =
     (let ss = stop_list (stop_strs (r_params r)) in
      if ss = [] then Inr r
      else
        (case r_tokenizer r of
           None \<Rightarrow> Inl AttributeError
         | Some tk \<Rightarrow>
             (let tail = tok_decode tk (py_from (output_ids r) (- (int (stop_str_max_len (r_params r)) + 1)))
              in case find (\<lambda>s. sublist s tail \<or> sublist s (decoded_text r)) ss of
                   None \<Rightarrow> Inr r
                 | Some s \<Rightarrow> Inr (r\<lparr>finished_reason := Some (FINISH_MATCHED_STR s)\<rparr>))))"

definition check_finished :: "(nat \<Rightarrow> bool) \<Rightarrow> req \<Rightarrow> req result" where
  "check_finished is_terminated r =
     (if finished r then Inr r
      else if to_abort r then
        Inr (r\<lparr>finished_reason := Some (FINISH_ABORT (to_abort_message r) None None)\<rparr>)
      else
        (case max_new_tokens (r_params r) of
           None \<Rightarrow> Inl TypeError
         | Some m \<Rightarrow>
             if int (length (output_ids r)) \<ge> m then
               Inr (r\<lparr>finished_reason := Some (FINISH_LENGTH (Some m))\<rparr>)
             else
               (case py_get (output_ids r) (- 1) of
                  Inl e \<Rightarrow> Inl e
                | Inr t \<Rightarrow>
                    if (case grammar r of None \<Rightarrow> False | Some g \<Rightarrow> is_terminated g) then
                      Inr (r\<lparr>finished_reason := Some (FINISH_MATCHED_TOKEN t)\<rparr>)
                    else if \<not> ignore_eos (r_params r) \<and> matched_eos r t then
                      Inr (r\<lparr>finished_reason := Some (FINISH_MATCHED_TOKEN t)\<rparr>)
                    else check_stop_strs r)))"

definition reset_for_retract :: "req \<Rightarrow> req" where
  "reset_for_retract r =
     r\<lparr>prefix_indices := [], last_node := None, extend_input_len := 0, is_retracted := True,
       input_token_logprobs := None, temp_input_top_logprobs_val := None,
       temp_input_top_logprobs_idx := None, extend_logprob_start_len := 0, is_chunked := 0,
       req_pool_idx := None, already_computed := 0\<rparr>"

definition set_finish_with_abort :: "req \<Rightarrow> string \<Rightarrow> req" where
  "set_finish_with_abort r msg =
     r\<lparr>grammar := None, origin_input_ids := [0],
       finished_reason := Some (FINISH_ABORT (Some msg) (Some 400) (Some ''BadRequestError''))\<rparr>"

end
