(* ===== verification/Radix_Req.thy ===== *)
theory Radix_Req
  imports Radix_Evict Req "HOL-Library.Monad_Syntax"
begin

text \<open>
  \<open>cache_finished_req\<close> and \<open>cache_unfinished_req\<close> of \<open>radix_cache.py\<close>: a request hands its KV
  slots over to the cache. The lemmas account for every slot: it ends up in the cache or is
  freed, and the request's lock moves to the node of its new prefix.
\<close>

section \<open>Operations\<close>

definition pool_free :: "radix_cache \<Rightarrow> slot list \<Rightarrow> radix_cache option" where
  "pool_free c xs = (case kv_free (kv_pool c) xs of Inl e \<Rightarrow> None | Inr a \<Rightarrow> Some (c\<lparr>kv_pool := a\<rparr>))"

definition aligned_len :: "radix_cache \<Rightarrow> nat \<Rightarrow> nat" where
  "aligned_len c n = (if page_size c \<noteq> 1 then page_floor (page_size c) n else n)"

text \<open>The slots of an incomplete last page are freed.\<close>

definition free_tail :: "radix_cache \<Rightarrow> nat \<Rightarrow> slot list \<Rightarrow> radix_cache option" where
  "free_tail c al kv_indices =
     (if page_size c \<noteq> 1 then pool_free c (drop al kv_indices) else Some c)"

definition release_row :: "radix_cache \<Rightarrow> nat \<Rightarrow> radix_cache" where
  "release_row c i = c\<lparr>req_pool := rtp_free (req_pool c) (FreeOne i)\<rparr>"

definition cache_finished_req :: "radix_cache \<Rightarrow> req \<Rightarrow> radix_cache option" where
  "cache_finished_req c r =
    (case req_pool_idx r of
       None \<Rightarrow> None
     | Some i \<Rightarrow>
         if \<not> i < length (req_to_token (req_pool c)) then None
         else if cache_disable c then
           do {
             c1 \<leftarrow> pool_free c (py_to (req_to_token (req_pool c) ! i)
                     (int (length (origin_input_ids r)) + int (length (output_ids r)) - 1));
             Some (release_row c1 i)
           }
         else
           (let token_ids = py_to (origin_input_ids r @ output_ids r) (- 1);
                kv_indices = rtp_row (req_pool c) i (length token_ids);
                page_aligned_len = aligned_len c (length kv_indices)
            in do {
                 c1 \<leftarrow> free_tail c page_aligned_len kv_indices;
                 (new_prefix_len, c2) \<leftarrow>
                   radix_insert c1 (take page_aligned_len token_ids) (Some (take page_aligned_len kv_indices));
                 c3 \<leftarrow> pool_free c2 (seg kv_indices (length (prefix_indices r)) new_prefix_len);
                 node \<leftarrow> last_node r;
                 (d, c5) \<leftarrow> dec_lock_ref (release_row c3 i) node;
                 Some c5
               }))"

definition cache_unfinished_req :: "radix_cache \<Rightarrow> req \<Rightarrow> (req \<times> radix_cache) option" where
  "cache_unfinished_req c r =
    (if cache_disable c then Some (r, c)
     else
       do {
         token_ids \<leftarrow> fill_ids r;
         i \<leftarrow> req_pool_idx r;
         if \<not> i < length (req_to_token (req_pool c)) then None
         else
           (let kv_indices = rtp_row (req_pool c) i (length token_ids);
                page_aligned_len = aligned_len c (length kv_indices);
                ids = take page_aligned_len token_ids
            in do {
                 (new_prefix_len, c1) \<leftarrow> radix_insert c ids (Some (take page_aligned_len kv_indices));
                 c2 \<leftarrow> pool_free c1 (seg kv_indices (length (prefix_indices r)) new_prefix_len);
                 (new_indices, new_last_node, c3) \<leftarrow> match_prefix c2 ids;
                 c4 \<leftarrow> (case rtp_write (req_pool c3)
                               (RowSlice i (length (prefix_indices r)) (length new_indices))
                               (drop (length (prefix_indices r)) new_indices) of
                          Inl e \<Rightarrow> None
                        | Inr rp \<Rightarrow> Some (c3\<lparr>req_pool := rp\<rparr>));
                 node \<leftarrow> last_node r;
                 (d1, c5) \<leftarrow> dec_lock_ref c4 node;
                 (d2, c6) \<leftarrow> inc_lock_ref c5 new_last_node;
                 Some (r\<lparr>prefix_indices :=
                           (if page_size c \<noteq> 1 then new_indices @ drop (length new_indices) kv_indices
                            else new_indices),
                         last_node := Some new_last_node\<rparr>, c6)
               })
       })"

section \<open>Changes of the pools do not concern the tree\<close>

lemma pool_update_simps [simp]:
  "live (c\<lparr>kv_pool := a\<rparr>) = live c" "live (c\<lparr>req_pool := b\<rparr>) = live c"
  "path_of (c\<lparr>kv_pool := a\<rparr>) = path_of c" "path_of (c\<lparr>req_pool := b\<rparr>) = path_of c"
  "cached_pages (c\<lparr>kv_pool := a\<rparr>) = cached_pages c" "cached_pages (c\<lparr>req_pool := b\<rparr>) = cached_pages c"
  "cached_slots (c\<lparr>kv_pool := a\<rparr>) = cached_slots c" "cached_slots (c\<lparr>req_pool := b\<rparr>) = cached_slots c"
  "radix_inv (c\<lparr>kv_pool := a\<rparr>) refs = radix_inv c refs"
  "radix_inv (c\<lparr>req_pool := b\<rparr>) refs = radix_inv c refs"
  "longest_match (c\<lparr>kv_pool := a\<rparr>) ks V = longest_match c ks V"
  "longest_match (c\<lparr>req_pool := b\<rparr>) ks V = longest_match c ks V"
proof -
  show live: "live (c\<lparr>kv_pool := a\<rparr>) = live c" "live (c\<lparr>req_pool := b\<rparr>) = live c" by (simp_all add: live_def)
  show path: "path_of (c\<lparr>kv_pool := a\<rparr>) = path_of c" "path_of (c\<lparr>req_pool := b\<rparr>) = path_of c"
    by (simp_all add: path_of_def fun_eq_iff)
  show pages: "cached_pages (c\<lparr>kv_pool := a\<rparr>) = cached_pages c" "cached_pages (c\<lparr>req_pool := b\<rparr>) = cached_pages c"
    by (simp_all add: cached_pages_def live path)
  show "cached_slots (c\<lparr>kv_pool := a\<rparr>) = cached_slots c" "cached_slots (c\<lparr>req_pool := b\<rparr>) = cached_slots c"
    "radix_inv (c\<lparr>kv_pool := a\<rparr>) refs = radix_inv c refs" "radix_inv (c\<lparr>req_pool := b\<rparr>) refs = radix_inv c refs"
    "longest_match (c\<lparr>kv_pool := a\<rparr>) ks V = longest_match c ks V"
    "longest_match (c\<lparr>req_pool := b\<rparr>) ks V = longest_match c ks V"
    by (simp_all add: cached_slots_def radix_inv_def longest_match_def live path pages)
qed

lemma longest_match_cong:
  "cached_pages c' = cached_pages c \<Longrightarrow> page_size c' = page_size c \<Longrightarrow> longest_match c' = longest_match c"
  by (simp add: longest_match_def fun_eq_iff)

lemma aligned_len_props:
  assumes "0 < page_size c"
  shows "page_size c dvd aligned_len c n" "aligned_len c n \<le> n" "page_size c = 1 \<Longrightarrow> aligned_len c n = n"
    "n < aligned_len c n + page_size c"
proof -
  have "n < n div page_size c * page_size c + page_size c"
    using assms div_mult_mod_eq [of n "page_size c"] mod_less_divisor [OF assms, of n] by linarith
  then show "n < aligned_len c n + page_size c" by (simp add: aligned_len_def page_floor_def)
qed (simp_all add: aligned_len_def page_floor_def)

text \<open>A sequence of \<open>free\<close> calls.\<close>

fun kv_frees :: "kv_alloc \<Rightarrow> slot list list \<Rightarrow> kv_alloc result" where
  "kv_frees a [] = Inr a"
| "kv_frees a (xs # xss) = (case kv_free a xs of Inl e \<Rightarrow> Inl e | Inr a' \<Rightarrow> kv_frees a' xss)"

section \<open>The pages of a live node are cached\<close>

lemma live_pages_cached:
  assumes wf: "tree_wf p ns r cnt L P"
  shows "n \<in> L \<Longrightarrow> Suc i * p \<le> length (P n) \<Longrightarrow> \<exists>s. (take (Suc i * p) (P n), s) \<in> tree_pages p ns r L P"
proof (induction "length (P n)" arbitrary: n rule: less_induct)
  case less
  have p: "0 < p" using wf_basic [OF wf] by simp
  have nr: "n \<noteq> r" using less.prems(2) wf_basic [OF wf] p by auto
  obtain q where q: "q \<in> L" "child_of ns q n" "P n = P q @ n_key (ns n)"
    by (rule wf_parent [OF wf less.prems(1) nr])
  have short: "length (P q) < length (P n)" using q(3) wf_node(1) [OF wf less.prems(1) nr] by simp
  show ?case
  proof (cases "Suc i * p \<le> length (P q)")
    case True
    then show ?thesis using less.hyps [OF short q(1)] q(3) by simp
  next
    case False
    obtain j where j: "length (P q) = j * p" using wf_dvd_path [OF wf q(1)] by (metis dvd_div_mult_self)
    then have "j \<le> i" using False p by (metis mult_le_mono1 not_less_eq_eq)
    then obtain d where d: "i = j + d" by (metis le_Suc_ex)
    have e: "Suc i * p = length (P q) + Suc d * p" by (simp add: j d algebra_simps)
    have le: "Suc d * p \<le> length (n_key (ns n))" using less.prems(2) e q(3) by simp
    have "(P q @ take (Suc d * p) (n_key (ns n)), seg (nval (ns n)) (d * p) (Suc d * p))
        \<in> edge_pages p (P q) (n_key (ns n)) (nval (ns n))"
      unfolding edge_pages_def using le by (intro image_eqI [of _ _ d]) simp_all
    then show ?thesis using node_pages_child [OF wf q(1,2)] q(3) unfolding e by auto
  qed
qed

text \<open>A match reaches at least as far as the path of any live node on the key.\<close>

lemma match_covers_path:
  assumes inv: "radix_inv c refs" and n: "n \<in> live c" "path_of c n = take m ks" "m \<le> length ks"
    and V: "longest_match c ks V"
  shows "m \<le> length V"
proof (rule ccontr)
  assume lt: "\<not> m \<le> length V"
  have wf: "cwf c (live c) (path_of c)" using inv by (simp add: radix_inv_def)
  have p: "0 < page_size c" using wf_basic [OF wf] by simp
  have dm: "page_size c dvd m" using wf_dvd_path [OF wf n(1)] n(2,3) by simp
  obtain j where j: "length V = j * page_size c" using V unfolding longest_match_def by (metis dvd_div_mult_self)
  have "length V + page_size c \<le> m"
    using lt dm j by (metis dvd_add_right_iff dvd_imp_le dvd_triv_right le_add_diff_inverse
        nat_add_left_cancel_le nat_le_linear not_le zero_less_diff)
  then have "Suc j * page_size c \<le> m" "length V + page_size c \<le> length ks" using j n(3) by auto
  moreover have "take (Suc j * page_size c) (path_of c n) = take (length V + page_size c) ks"
    using calculation n(2) j by (simp add: min_absorb1 add.commute)
  ultimately show False
    using live_pages_cached [OF wf n(1), of j] n(2,3) V
    by (auto simp: longest_match_def cached_pages_def min_absorb2 simp del: mult_Suc)
qed

section \<open>A finished request\<close>

lemma insert_spec:
  assumes "radix_inv c refs" "\<not> cache_disable c" "page_size c dvd length ks" "length vs = length ks"
  obtains k V c' where "radix_insert c ks (Some vs) = Some (k, c')" "radix_inv c' refs"
    "longest_match c ks V" "length V = k"
    "cached_pages c' = cached_pages c \<union> edge_pages (page_size c) (take k ks) (drop k ks) (drop k vs)"
    "cached_slots c' = cached_slots c + mset (drop k vs)" "same_env c c'"
    "evictable_sz c' = evictable_sz c + int (length ks - k)"
    "live c \<subseteq> live c'" "\<forall>n\<in>live c. path_of c' n = path_of c n"
  by (rule insert_helper_spec [OF assms(1,3,4)]) (use assms(2) that in \<open>auto simp: radix_insert_def\<close>)

lemma pool_free_total:
  "no_debug (kv_pool c) \<Longrightarrow>
   \<exists>a. pool_free c xs = Some (c\<lparr>kv_pool := a\<rparr>) \<and> kv_free (kv_pool c) xs = Inr a \<and> no_debug a"
  using kv_free_total [of "kv_pool c" xs] by (auto simp: pool_free_def)

lemma cache_finished_req_spec:
  assumes inv: "radix_inv c refs" and on: "\<not> cache_disable c" and nd: "no_debug (kv_pool c)"
    and i: "req_pool_idx r = Some i" "i < length (req_to_token (req_pool c))"
    and node: "last_node r = Some n" "n \<in># refs"
  defines "ids \<equiv> butlast (origin_input_ids r @ output_ids r)"
  defines "kv \<equiv> rtp_row (req_pool c) i (length ids)"
  defines "al \<equiv> aligned_len c (length kv)"
  assumes ctx: "length ids \<le> length (req_to_token (req_pool c) ! i)"
  obtains c' k V where "cache_finished_req c r = Some c'" "radix_inv c' (refs - {#n#})"
    "longest_match c (take al ids) V" "length V = k" "k \<le> al"
    "kv_frees (kv_pool c) ((if page_size c \<noteq> 1 then [drop al kv] else []) @ [seg kv (length (prefix_indices r)) k])
       = Inr (kv_pool c')"
    "cached_slots c' = cached_slots c + mset (seg kv k al)"
    "cached_pages c' = cached_pages c \<union> edge_pages (page_size c) (take k ids) (seg ids k al) (seg kv k al)"
    "req_pool c' = rtp_free (req_pool c) (FreeOne i)" "no_debug (kv_pool c')"
    "page_size c' = page_size c" "\<not> cache_disable c'" "live c \<subseteq> live c'" "\<forall>m\<in>live c. path_of c' m = path_of c m"
proof -
  have wf: "cwf c (live c) (path_of c)" using inv by (simp add: radix_inv_def)
  have p: "0 < page_size c" using wf_basic [OF wf] by simp
  have lk: "length kv = length ids" using ctx by (simp add: kv_def rtp_row_def)
  have al: "page_size c dvd al" "al \<le> length kv" using aligned_len_props [OF p] by (auto simp: al_def)
  obtain c1 where c1: "free_tail c al kv = Some c1"
    "kv_frees (kv_pool c) (if page_size c \<noteq> 1 then [drop al kv] else []) = Inr (kv_pool c1)"
    "c1 = c\<lparr>kv_pool := kv_pool c1\<rparr>" "no_debug (kv_pool c1)"
  proof (cases "page_size c = 1")
    case True
    then show thesis using that [of c] nd by (simp add: free_tail_def)
  next
    case False
    then show thesis
      using pool_free_total [OF nd, of "drop al kv"] that [of "c\<lparr>kv_pool := a\<rparr>" for a]
      by (auto simp: free_tail_def)
  qed
  have c1p: "page_size c1 = page_size c" "cache_disable c1 = cache_disable c" "req_pool c1 = req_pool c"
    by (subst c1(3), simp)+
  have inv1: "radix_inv c1 refs" by (subst c1(3)) (simp add: inv)
  have on1: "\<not> cache_disable c1" and d1: "page_size c1 dvd length (take al ids)"
    "length (take al kv) = length (take al ids)" using c1p on al lk by auto
  obtain k V c2 where s: "radix_insert c1 (take al ids) (Some (take al kv)) = Some (k, c2)" "radix_inv c2 refs"
    "longest_match c1 (take al ids) V" "length V = k"
    "cached_pages c2 = cached_pages c1 \<union> edge_pages (page_size c1) (take k (take al ids)) (drop k (take al ids)) (drop k (take al kv))"
    "cached_slots c2 = cached_slots c1 + mset (drop k (take al kv))" "same_env c1 c2"
    "live c1 \<subseteq> live c2" "\<forall>m\<in>live c1. path_of c2 m = path_of c1 m"
    by (rule insert_spec [OF inv1 on1 d1])
  have k: "k \<le> al" using s(3,4) al lk by (simp add: longest_match_def)
  have c2p: "kv_pool c2 = kv_pool c1" "req_pool c2 = req_pool c" "cache_disable c2 = cache_disable c"
    using s(7) c1p by (auto simp: same_env_def)
  obtain a3 where a3: "pool_free c2 (seg kv (length (prefix_indices r)) k) = Some (c2\<lparr>kv_pool := a3\<rparr>)"
    "kv_free (kv_pool c2) (seg kv (length (prefix_indices r)) k) = Inr a3" "no_debug a3"
    using pool_free_total [of c2] c1(4) c2p(1) by auto
  let ?c4 = "release_row (c2\<lparr>kv_pool := a3\<rparr>) i"
  have inv4: "radix_inv ?c4 refs" using s(2) by (simp add: release_row_def)
  obtain d c5 where dec: "dec_lock_ref ?c4 n = Some (d, c5)" "radix_inv c5 (refs - {#n#})" "same_env ?c4 c5"
    "cached_pages c5 = cached_pages ?c4" "cached_slots c5 = cached_slots ?c4"
    "live c5 = live ?c4" "path_of c5 = path_of ?c4"
    by (rule dec_lock_ref_spec [OF inv4 _ node(2)]) (use on c2p in \<open>simp_all add: release_row_def\<close>)
  have abs1: "cached_pages c1 = cached_pages c" "cached_slots c1 = cached_slots c"
    "longest_match c1 ks W = longest_match c ks W" "live c1 = live c" "path_of c1 = path_of c" for ks W
    by (subst c1(3), simp)+
  have "cache_finished_req c r = Some c5"
    using i on node(1) c1(1) s(1) a3(1) dec(1)
    by (simp add: cache_finished_req_def py_to_minus1 ids_def [symmetric] kv_def [symmetric]
        al_def [symmetric] Let_def del: butlast_append)
  moreover have "kv_frees (kv_pool c) ((if page_size c \<noteq> 1 then [drop al kv] else []) @
      [seg kv (length (prefix_indices r)) k]) = Inr (kv_pool c5)"
    using c1(2) a3(2) c2p dec(3) by (auto simp: same_env_def release_row_def split: sum.splits if_splits)
  ultimately show thesis
    using that [of c5 V k] dec s(3-9) k abs1 c1p c2p a3(3) on
    by (simp add: release_row_def same_env_def seg_def min_absorb1)
qed

section \<open>A match after an insert\<close>

lemma seg_concat:
  "length V = m * p \<Longrightarrow> concat (map (\<lambda>i. seg V (i * p) (Suc i * p)) [0..<m]) = V"
proof -
  assume len: "length V = m * p"
  have "j \<le> m \<Longrightarrow> concat (map (\<lambda>i. seg V (i * p) (Suc i * p)) [0..<j]) = take (j * p) V" for j
  proof (induction j)
    case (Suc j)
    have "take (Suc j * p) V = take (j * p) V @ seg V (j * p) (Suc j * p)"
      by (metis seg_def append_take_drop_id le_add2 mult_Suc take_take min_absorb1)
    then show ?case using Suc by (simp del: mult_Suc)
  qed simp
  then show ?thesis using len by simp
qed

lemma longest_match_unique:
  assumes inv: "radix_inv c refs" and V: "longest_match c ks V" and W: "longest_match c ks W"
  shows "V = W"
proof -
  let ?p = "page_size c"
  have wf: "cwf c (live c) (path_of c)" using inv by (simp add: radix_inv_def)
  have p: "0 < ?p" using wf_basic [OF wf] by simp
  have le: "length B \<le> length A" if A: "longest_match c ks A" and B: "longest_match c ks B" for A B
  proof (rule ccontr)
    assume lt: "\<not> length B \<le> length A"
    obtain a b where a: "length A = a * ?p" and b: "length B = b * ?p"
      using A B unfolding longest_match_def by (metis dvd_div_mult_self)
    have "Suc a * ?p \<le> length B" using lt a b p by (metis Suc_leI mult_le_mono1 mult_less_cancel2 not_le)
    moreover have "length B \<le> length ks" using B by (simp add: longest_match_def)
    ultimately show False
      using A B a unfolding longest_match_def by (metis add.commute mult_Suc order_trans)
  qed
  have len: "length V = length W" using le [OF V W] le [OF W V] by simp
  obtain m where m: "length V = m * ?p" using V unfolding longest_match_def by (metis dvd_div_mult_self)
  have "seg V (i * ?p) (Suc i * ?p) = seg W (i * ?p) (Suc i * ?p)" if "i < m" for i
  proof -
    have "Suc i * ?p \<le> length V" using that m by (metis Suc_leI mult_le_mono1)
    then show ?thesis
      using V W len cached_unique [OF inv] unfolding longest_match_def by metis
  qed
  then have "concat (map (\<lambda>i. seg V (i * ?p) (Suc i * ?p)) [0..<m]) = concat (map (\<lambda>i. seg W (i * ?p) (Suc i * ?p)) [0..<m])"
    by (intro arg_cong [where f = concat] map_cong) (auto simp del: mult_Suc)
  then show ?thesis using seg_concat [OF m] seg_concat [of W m ?p] m len by simp
qed

lemma match_after_insert:
  assumes p: "0 < page_size c" and V: "longest_match c ks V" and ks: "page_size c dvd length ks"
    and vs: "length vs = length ks"
    and pg: "cached_pages c' = cached_pages c \<union>
      edge_pages (page_size c) (take (length V) ks) (drop (length V) ks) (drop (length V) vs)"
    and p': "page_size c' = page_size c"
  shows "longest_match c' ks (V @ drop (length V) vs)"
proof -
  let ?p = "page_size c" and ?k = "length V"
  have k: "?p dvd ?k" "?k \<le> length ks" using V by (auto simp: longest_match_def)
  have len: "length (V @ drop ?k vs) = length ks" using k vs by simp
  obtain j where j: "?k = j * ?p" using k(1) by (metis dvd_div_mult_self)
  have "(take (Suc i * ?p) ks, seg (V @ drop ?k vs) (i * ?p) (Suc i * ?p)) \<in> cached_pages c'"
    if i: "Suc i * ?p \<le> length ks" for i
  proof (cases "Suc i * ?p \<le> ?k")
    case True
    then have "seg (V @ drop ?k vs) (i * ?p) (Suc i * ?p) = seg V (i * ?p) (Suc i * ?p)"
      by (simp add: seg_def del: mult_Suc)
    then show ?thesis using V True pg by (auto simp: longest_match_def simp del: mult_Suc)
  next
    case False
    then have "j \<le> i" using j p by (metis mult_le_mono1 not_less_eq_eq)
    then obtain d where d: "i = j + d" by (metis le_Suc_ex)
    have e: "Suc i * ?p = ?k + Suc d * ?p" "i * ?p = ?k + d * ?p" by (simp_all add: j d algebra_simps)
    have "Suc d * ?p \<le> length (drop ?k ks)" using i e(1) by simp
    then have "(take ?k ks @ take (Suc d * ?p) (drop ?k ks), seg (drop ?k vs) (d * ?p) (Suc d * ?p))
        \<in> edge_pages ?p (take ?k ks) (drop ?k ks) (drop ?k vs)"
      unfolding edge_pages_def by (intro image_eqI [of _ _ d]) simp_all
    moreover have "seg (V @ drop ?k vs) (i * ?p) (Suc i * ?p) = seg (drop ?k vs) (d * ?p) (Suc d * ?p)"
      unfolding e seg_def by (simp del: mult_Suc)
    ultimately show ?thesis using pg unfolding e(1) take_add by (auto simp del: mult_Suc)
  qed
  then show ?thesis unfolding longest_match_def p' len using ks p by simp
qed

section \<open>An unfinished request\<close>

lemma cache_unfinished_req_spec:
  assumes inv: "radix_inv c refs" and on: "\<not> cache_disable c" and nd: "no_debug (kv_pool c)"
    and ids: "fill_ids r = Some ids" and i: "req_pool_idx r = Some i" "i < length (req_to_token (req_pool c))"
    and node: "last_node r = Some n" "n \<in># refs"
  defines "kv \<equiv> rtp_row (req_pool c) i (length ids)"
  defines "al \<equiv> aligned_len c (length kv)" and "pl \<equiv> length (prefix_indices r)"
  assumes ctx: "length ids \<le> length (req_to_token (req_pool c) ! i)"
  obtains c' n' k V W rp where "W = V @ seg kv k al"
    "cache_unfinished_req c r =
       Some (r\<lparr>prefix_indices := (if page_size c \<noteq> 1 then W @ drop al kv else W), last_node := Some n'\<rparr>, c')"
    "radix_inv c' (add_mset n' (refs - {#n#}))" "n' \<in> live c'" "path_of c' n' = take al ids"
    "longest_match c (take al ids) V" "length V = k" "k \<le> al" "longest_match c' (take al ids) W"
    "kv_free (kv_pool c) (seg kv pl k) = Inr (kv_pool c')"
    "cached_slots c' = cached_slots c + mset (seg kv k al)"
    "rtp_write (req_pool c) (RowSlice i pl al) (drop pl W) = Inr (req_pool c')" "no_debug (kv_pool c')"
proof -
  have wf: "cwf c (live c) (path_of c)" using inv by (simp add: radix_inv_def)
  have p: "0 < page_size c" using wf_basic [OF wf] by simp
  have lk: "length kv = length ids" using ctx by (simp add: kv_def rtp_row_def)
  have al: "page_size c dvd al" "al \<le> length kv" using aligned_len_props [OF p] by (auto simp: al_def)
  have d1: "page_size c dvd length (take al ids)" "length (take al kv) = length (take al ids)"
    and lal: "length (take al ids) = al" using al lk by auto
  obtain k V c1 where s: "radix_insert c (take al ids) (Some (take al kv)) = Some (k, c1)" "radix_inv c1 refs"
    "longest_match c (take al ids) V" "length V = k"
    "cached_pages c1 = cached_pages c \<union> edge_pages (page_size c) (take k (take al ids)) (drop k (take al ids)) (drop k (take al kv))"
    "cached_slots c1 = cached_slots c + mset (drop k (take al kv))" "same_env c c1"
    by (rule insert_spec [OF inv on d1])
  have k: "k \<le> al" using s(3,4) lal by (simp add: longest_match_def)
  have e1: "kv_pool c1 = kv_pool c" "req_pool c1 = req_pool c" "cache_disable c1 = cache_disable c" "page_size c1 = page_size c"
    using s(7) by (auto simp: same_env_def)
  let ?W = "V @ seg kv k al"
  have W1: "longest_match c1 (take al ids) ?W"
    using match_after_insert [OF p s(3) d1 s(5) [folded s(4)] e1(4)] s(4) by (simp add: seg_def)
  obtain a where a: "pool_free c1 (seg kv pl k) = Some (c1\<lparr>kv_pool := a\<rparr>)" "kv_free (kv_pool c) (seg kv pl k) = Inr a" "no_debug a"
    using pool_free_total [of c1] nd e1(1) by auto
  let ?c2 = "c1\<lparr>kv_pool := a\<rparr>"
  have inv2: "radix_inv ?c2 refs" and on2: "\<not> cache_disable ?c2" using s(2) on e1 by simp_all
  obtain W n' c3 where m: "match_prefix ?c2 (take al ids) = Some (W, n', c3)" "radix_inv c3 refs" "same_cache ?c2 c3"
    "n' \<in> live c3" "path_of c3 n' = take (length W) (take al ids)" "longest_match ?c2 (take al ids) W"
    by (rule match_prefix_spec [OF inv2 on2])
  have W: "W = ?W" using longest_match_unique [OF inv2 m(6)] W1 by simp
  have lW: "length W = al" using W s(4) k al by simp
  have e3: "kv_pool c3 = a" "req_pool c3 = req_pool c" "cache_disable c3 = cache_disable c" "page_size c3 = page_size c"
    "cached_slots c3 = cached_slots c1" "cached_pages c3 = cached_pages c1"
    using m(3) e1 by (auto simp: same_cache_def same_env_def)
  have len: "length (drop pl W) = max (min pl (length (req_to_token (req_pool c) ! i))) (min al (length (req_to_token (req_pool c) ! i)))
      - min pl (length (req_to_token (req_pool c) ! i))"
    using lW al lk ctx by (auto simp: max_def min_def)
  obtain rp where rp: "rtp_write (req_pool c) (RowSlice i pl al) (drop pl W) = Inr rp"
    using i(2) len by (simp add: broadcast_def Let_def)
  let ?c4 = "c3\<lparr>req_pool := rp\<rparr>"
  have inv4: "radix_inv ?c4 refs" using m(2) by simp
  obtain dd c5 where dec: "dec_lock_ref ?c4 n = Some (dd, c5)" "radix_inv c5 (refs - {#n#})" "same_env ?c4 c5"
    "live c5 = live ?c4" "path_of c5 = path_of ?c4" "cached_pages c5 = cached_pages ?c4" "cached_slots c5 = cached_slots ?c4"
    by (rule dec_lock_ref_spec [OF inv4 _ node(2)]) (use on e3 in simp_all)
  have n5: "n' \<in> live c5" "\<not> cache_disable c5" using m(4) dec(3,4) on e3 by (auto simp: same_env_def)
  obtain di c6 where inc: "inc_lock_ref c5 n' = Some (di, c6)" "radix_inv c6 (add_mset n' (refs - {#n#}))" "same_env c5 c6"
    "live c6 = live c5" "path_of c6 = path_of c5" "cached_pages c6 = cached_pages c5" "cached_slots c6 = cached_slots c5"
    by (rule inc_lock_ref_spec [OF dec(2) n5(2,1)])
  have env: "kv_pool c6 = a" "req_pool c6 = rp" "page_size c6 = page_size c"
    using dec(3) inc(3) e3 by (auto simp: same_env_def)
  have "longest_match c6 (take al ids) W"
    using W1 W longest_match_cong [of c6 c1] inc(6) dec(6) e3(6) e1(4) env(3) by simp
  moreover have "cache_unfinished_req c r =
      Some (r\<lparr>prefix_indices := (if page_size c \<noteq> 1 then W @ drop al kv else W), last_node := Some n'\<rparr>, c6)"
    using on ids i node(1) s(1) a(1) m(1) rp dec(1) inc(1) lW e3(2)
    by (simp add: cache_unfinished_req_def Let_def kv_def [symmetric] al_def [symmetric] pl_def [symmetric] del: rtp_write.simps)
  ultimately show thesis
    using that [of W V k n' c6] W inc dec m(4,5) s(3,4,6) k rp a(2,3) env lW e3(5)
    by (simp add: seg_def min_absorb1)
qed

end
