(* ===== verification/Radix_Props.thy ===== *)
theory Radix_Props
  imports Radix_Req
begin

text \<open>
  The properties of the radix cache, over its abstraction: the cached pages, the cached slots
  and the locked nodes. Every operation returns on a cache that satisfies the invariant, and the
  invariant holds in every reachable state.
\<close>

section \<open>Reachable states\<close>

lemma fresh_root:
  assumes p: "0 < page_size c" and n: "n_children (nodes c (root_node c)) = []" "n_key (nodes c (root_node c)) = []"
      "n_value (nodes c (root_node c)) = Some []" "root_node c < node_counter c"
    and z: "evictable_sz c = 0" "protected_sz c = 0"
  shows "radix_inv c {#}" "live c = {root_node c}" "cached_pages c = {}" "cached_slots c = {#}"
proof -
  have wf: "cwf c {root_node c} (\<lambda>_. [])" using p n by (auto simp: tree_wf_def)
  note ab = abs_eqs [OF wf]
  show "live c = {root_node c}" by (rule ab(1))
  show "cached_pages c = {}" "cached_slots c = {#}" using ab(3,4) by (simp_all add: tree_pages_def tree_slots_def)
  show "radix_inv c {#}" unfolding radix_inv_iff [OF wf] using z by (simp add: lock_ok_def lock_sum_def)
qed

lemma reset_fields:
  "n_children (nodes (radix_reset c) (node_counter c)) = []" "n_key (nodes (radix_reset c) (node_counter c)) = []"
  "n_value (nodes (radix_reset c) (node_counter c)) = Some []" "root_node (radix_reset c) = node_counter c"
  "node_counter (radix_reset c) = Suc (node_counter c)" "evictable_sz (radix_reset c) = 0"
  "protected_sz (radix_reset c) = 0" "page_size (radix_reset c) = page_size c"
  "cache_disable (radix_reset c) = cache_disable c" "kv_pool (radix_reset c) = kv_pool c"
  "req_pool (radix_reset c) = req_pool c"
  by (simp_all add: radix_reset_def new_tree_node_def upd_node_def record_all_cleared_event_def tree_node_init_def)

lemma reset_inv:
  "0 < page_size c \<Longrightarrow> radix_inv (radix_reset c) {#} \<and> cached_pages (radix_reset c) = {} \<and> cached_slots (radix_reset c) = {#}"
  using fresh_root [of "radix_reset c"] reset_fields [of c] by simp

lemma init_fields:
  "page_size (radix_init pool a p dis ev clk hsh) = p" "cache_disable (radix_init pool a p dis ev clk hsh) = dis"
  "kv_pool (radix_init pool a p dis ev clk hsh) = a" "req_pool (radix_init pool a p dis ev clk hsh) = pool"
  by (simp_all add: radix_init_def reset_fields)

lemma init_inv: "0 < p \<Longrightarrow> radix_inv (radix_init pool a p dis ev clk hsh) {#}"
  using reset_inv by (simp add: radix_init_def)

text \<open>
  The states a cache can be in, with the nodes its clients have locked: clients match, insert
  page-aligned keys with one slot per token, lock live nodes, unlock nodes they have locked,
  evict, and reset the cache.
\<close>

inductive cache_run :: "radix_cache \<Rightarrow> radix_cache \<Rightarrow> node_id multiset \<Rightarrow> bool" for c0 :: radix_cache where
  run_start: "cache_run c0 c0 {#}"
| run_match: "cache_run c0 c refs \<Longrightarrow> match_prefix c ks = Some (V, n, c') \<Longrightarrow> cache_run c0 c' refs"
| run_insert: "cache_run c0 c refs \<Longrightarrow> page_size c dvd length ks \<Longrightarrow> length vs = length ks \<Longrightarrow>
     radix_insert c ks (Some vs) = Some (k, c') \<Longrightarrow> cache_run c0 c' refs"
| run_lock: "cache_run c0 c refs \<Longrightarrow> n \<in> live c \<Longrightarrow> inc_lock_ref c n = Some (d, c') \<Longrightarrow>
     cache_run c0 c' (add_mset n refs)"
| run_unlock: "cache_run c0 c refs \<Longrightarrow> n \<in># refs \<Longrightarrow> dec_lock_ref c n = Some (d, c') \<Longrightarrow>
     cache_run c0 c' (refs - {#n#})"
| run_evict: "cache_run c0 c refs \<Longrightarrow> radix_evict c m = Some c' \<Longrightarrow> cache_run c0 c' refs"
| run_reset: "cache_run c0 c refs \<Longrightarrow> cache_run c0 (radix_reset c) {#}"

inductive_cases cache_runE: "cache_run c0 c refs"

lemma lru_run_keeps:
  "lru_run n k c c' \<Longrightarrow> page_size c' = page_size c \<and> cache_disable c' = cache_disable c \<and> req_pool c' = req_pool c"
  by (induction rule: lru_run.induct) (auto simp: lru_step_def)

lemma lru_run_end:
  "lru_run n k c c' \<Longrightarrow> n \<le> k + (evictable_sz c - evictable_sz c') \<or> (\<forall>x. \<not> unlocked_leaf c' x)"
  by (induction rule: lru_run.induct) (auto simp: lru_step_def)

lemma lru_run_slots:
  "lru_run n k c c' \<Longrightarrow> \<exists>vs. kv_frees (kv_pool c) vs = Inr (kv_pool c') \<and>
     cached_slots c = cached_slots c' + mset (concat vs) \<and>
     evictable_sz c = evictable_sz c' + int (length (concat vs)) \<and> protected_sz c' = protected_sz c"
proof (induction rule: lru_run.induct)
  case (evict_one k c x c1 c')
  then obtain vs where "kv_frees (kv_pool c1) vs = Inr (kv_pool c')" "cached_slots c1 = cached_slots c' + mset (concat vs)"
    "evictable_sz c1 = evictable_sz c' + int (length (concat vs))" "protected_sz c' = protected_sz c1" by blast
  then show ?case
    using evict_one.hyps(2) by (intro exI [of _ "nval (nodes c x) # vs"]) (simp add: lru_step_def ac_simps)
qed (intro exI [of _ "[]"], simp)+

lemma lru_run_locked:
  "lru_run n k c c' \<Longrightarrow> m \<in> live c \<Longrightarrow> 0 < n_lock_ref (nodes c m) \<Longrightarrow> m \<in> live c' \<and> path_of c' m = path_of c m"
proof (induction rule: lru_run.induct)
  case (evict_one k c x c1 c')
  have "m \<noteq> x" using evict_one.prems evict_one.hyps(2) by (auto simp: lru_step_def unlocked_leaf_def)
  then show ?case using evict_one by (auto simp: lru_step_def)
qed simp_all

lemma locked_ref:
  assumes "radix_inv c refs" "m \<in># refs" "m \<noteq> root_node c"
  shows "m \<in> live c" "0 < n_lock_ref (nodes c m)"
proof -
  have lock: "lock_ok (nodes c) (root_node c) (live c) (path_of c) refs" using assms(1) by (simp add: radix_inv_def)
  then show m: "m \<in> live c" using assms(2) by (auto simp: lock_ok_def)
  obtain refs0 where "refs = add_mset m refs0" using assms(2) by (metis mset_add)
  then show "0 < n_lock_ref (nodes c m)" using lock m assms(3) by (auto simp: lock_ok_def)
qed

lemma cache_run_inv:
  assumes "cache_run c0 c refs" and start: "radix_inv c0 {#}" "\<not> cache_disable c0" "no_debug (kv_pool c0)"
  shows "radix_inv c refs \<and> \<not> cache_disable c \<and> no_debug (kv_pool c) \<and> page_size c = page_size c0"
  using assms(1)
proof (induction rule: cache_run.induct)
  case run_start
  then show ?case using start by simp
next
  case (run_match c refs ks V n c')
  then have inv: "radix_inv c refs" "\<not> cache_disable c" by auto
  obtain V' n2 c2 where "match_prefix c ks = Some (V', n2, c2)" "radix_inv c2 refs" "same_cache c c2"
    by (rule match_prefix_spec [OF inv])
  then show ?case using run_match by (auto simp: same_cache_def same_env_def)
next
  case (run_insert c refs ks vs k c')
  then have inv: "radix_inv c refs" "\<not> cache_disable c" by auto
  obtain k2 V c2 where "radix_insert c ks (Some vs) = Some (k2, c2)" "radix_inv c2 refs" "same_env c c2"
    by (rule insert_spec [OF inv run_insert.hyps(2,3)])
  then show ?case using run_insert by (auto simp: same_env_def)
next
  case (run_lock c refs n d c')
  then have inv: "radix_inv c refs" "\<not> cache_disable c" by auto
  obtain d2 c2 where "inc_lock_ref c n = Some (d2, c2)" "radix_inv c2 (add_mset n refs)" "same_env c c2"
    by (rule inc_lock_ref_spec [OF inv run_lock.hyps(2)])
  then show ?case using run_lock by (auto simp: same_env_def)
next
  case (run_unlock c refs n d c')
  then have inv: "radix_inv c refs" "\<not> cache_disable c" by auto
  obtain d2 c2 where "dec_lock_ref c n = Some (d2, c2)" "radix_inv c2 (refs - {#n#})" "same_env c c2"
    by (rule dec_lock_ref_spec [OF inv run_unlock.hyps(2)])
  then show ?case using run_unlock by (auto simp: same_env_def)
next
  case (run_evict c refs m c')
  then have inv: "radix_inv c refs" "\<not> cache_disable c" "no_debug (kv_pool c)" by auto
  obtain c2 where "radix_evict c m = Some c2" "radix_inv c2 refs" "lru_run m 0 c c2" "no_debug (kv_pool c2)"
    by (rule radix_evict_spec [OF inv])
  then show ?case using run_evict lru_run_keeps by auto
next
  case (run_reset c refs)
  then have "0 < page_size c" using wf_basic(1) by (auto simp: radix_inv_def)
  then show ?case using run_reset reset_inv [of c] reset_fields [of c] by simp
qed

lemma evict_outcome:
  assumes "radix_inv c refs" and "\<not> cache_disable c" and "no_debug (kv_pool c)"
  shows "\<exists>c' vs. radix_evict c n = Some c' \<and> kv_frees (kv_pool c) vs = Inr (kv_pool c') \<and>
    cached_slots c = cached_slots c' + mset (concat vs) \<and>
    int (length (concat vs)) = evictable_size c - evictable_size c' \<and>
    (n \<le> int (length (concat vs)) \<or> evictable_size c' = 0) \<and> protected_size c' = protected_size c \<and>
    (\<forall>m\<in>#refs. m \<noteq> root_node c \<longrightarrow> m \<in> live c' \<and> path_of c' m = path_of c m) \<and>
    radix_inv c' refs \<and> page_size c' = page_size c \<and> cache_disable c' = cache_disable c \<and>
    req_pool c' = req_pool c \<and> no_debug (kv_pool c')"
proof -
  obtain c' where e: "radix_evict c n = Some c'" "radix_inv c' refs" "lru_run n 0 c c'" "no_debug (kv_pool c')"
    by (rule radix_evict_spec [OF assms, of n])
  obtain vs where vs: "kv_frees (kv_pool c) vs = Inr (kv_pool c')" "cached_slots c = cached_slots c' + mset (concat vs)"
    "evictable_sz c = evictable_sz c' + int (length (concat vs))" "protected_sz c' = protected_sz c"
    using lru_run_slots [OF e(3)] by blast
  have "n \<le> int (length (concat vs)) \<or> evictable_sz c' = 0"
    using lru_run_end [OF e(3)] no_unlocked_leaf [OF e(2)] vs(3) by auto
  moreover have "m \<in> live c' \<and> path_of c' m = path_of c m" if "m \<in># refs" "m \<noteq> root_node c" for m
    using lru_run_locked [OF e(3)] locked_ref [OF assms(1) that] by blast
  ultimately show ?thesis
    using e(1,2,4) lru_run_keeps [OF e(3)] vs by (intro exI [of _ c'] exI [of _ vs]) (simp add: evictable_size_def protected_size_def)
qed

section \<open>An example cache\<close>

text \<open>A cache over ten slots that holds the tokens 7, 8, 9 in the slots 1, 2, 3.\<close>

definition demo_empty :: radix_cache where
  "demo_empty = radix_init (rtp_init 2 8) (TokenAlloc (tka_init 10)) 1 False False (\<lambda>k. k) (\<lambda>ks. 0)"

definition demo_cache :: radix_cache where
  "demo_cache = snd (the (radix_insert demo_empty [7, 8, 9] (Some [1, 2, 3])))"

lemma demo_empty_inv: "radix_inv demo_empty {#}" "\<not> cache_disable demo_empty" "no_debug (kv_pool demo_empty)"
  "page_size demo_empty = 1"
  using init_inv by (simp_all add: demo_empty_def init_fields)

lemma demo_run: "cache_run demo_empty demo_cache {#}"
proof -
  obtain k V c' where "radix_insert demo_empty [7, 8, 9] (Some [1, 2, 3]) = Some (k, c')"
    by (rule insert_spec [OF demo_empty_inv(1,2), of "[7, 8, 9]" "[1, 2, 3]"]) (simp_all add: demo_empty_inv)
  then show ?thesis
    unfolding demo_cache_def
    by (auto intro: run_insert [OF run_start, of _ "[7, 8, 9]" "[1, 2, 3]"] simp: demo_empty_inv)
qed

lemma demo_inv: "radix_inv demo_cache {#}" "\<not> cache_disable demo_cache" "no_debug (kv_pool demo_cache)"
  "page_size demo_cache = 1"
  using cache_run_inv [OF demo_run demo_empty_inv(1-3)] demo_empty_inv(4) by auto

lemma demo_root: "root_node demo_cache \<in> live demo_cache"
  using wf_basic(3) demo_inv(1) by (auto simp: radix_inv_def)

section \<open>Properties\<close>

text \<open>
  C1: In every state a radix cache can reach from its construction by matches, aligned inserts,
  locks, unlocks, evictions and resets, the tree is well-formed, lock counts are the numbers of
  client locks at or below a node, the two size counters are the sizes of the unlocked and
  locked nodes, and no lookup or eviction gets stuck or raises.
\<close>

theorem radix_cache_safe:
  assumes "0 < p" and "no_debug a" and "cache_run (radix_init pool a p False ev clk hsh) c refs"
  shows "radix_inv c refs \<and> page_size c = p \<and>
    (\<forall>ks. \<exists>V n c'. match_prefix c ks = Some (V, n, c')) \<and> (\<forall>m. \<exists>c'. radix_evict c m = Some c')"
proof -
  have c: "radix_inv c refs" "\<not> cache_disable c" "no_debug (kv_pool c)" "page_size c = p"
    using cache_run_inv [OF assms(3) init_inv [OF assms(1)]] assms(2) by (auto simp: init_fields)
  have "\<exists>V n c'. match_prefix c ks = Some (V, n, c')" for ks by (rule match_prefix_spec [OF c(1,2), of ks]) blast
  moreover have "\<exists>c'. radix_evict c m = Some c'" for m by (rule radix_evict_spec [OF c(1-3), of m]) blast
  ultimately show ?thesis using c by blast
qed

theorem radix_cache_safe_witness:
  "radix_inv demo_cache {#} \<and> page_size demo_cache = 1 \<and>
    (\<forall>ks. \<exists>V n c'. match_prefix demo_cache ks = Some (V, n, c')) \<and> (\<forall>m. \<exists>c'. radix_evict demo_cache m = Some c')"
  using radix_cache_safe [OF _ _ demo_run [unfolded demo_empty_def]] by simp

text \<open>
  C2: \<open>match_prefix\<close> returns the KV slots of the longest prefix of the key all of whose pages are
  cached, together with the node that ends this prefix; it changes neither what is cached nor
  the locks nor the sizes.
\<close>

theorem match_prefix_longest:
  assumes "radix_inv c refs" and "\<not> cache_disable c"
  shows "\<exists>V n c'. match_prefix c ks = Some (V, n, c') \<and> longest_match c ks V \<and>
    n \<in> live c' \<and> path_of c' n = take (length V) ks \<and> same_cache c c' \<and> radix_inv c' refs"
  by (rule match_prefix_spec [OF assms, of ks]) blast

theorem match_prefix_longest_witness:
  "\<exists>V n c'. match_prefix demo_cache [7, 8, 5] = Some (V, n, c') \<and> longest_match demo_cache [7, 8, 5] V \<and>
    n \<in> live c' \<and> path_of c' n = take (length V) [7, 8, 5] \<and> same_cache demo_cache c' \<and> radix_inv c' {#}"
  by (rule match_prefix_longest [OF demo_inv(1,2)])

text \<open>
  C3: \<open>insert\<close> of a page-aligned key returns the length of its longest cached prefix, adds
  exactly the pages beyond it with the given slots, and accounts for the new slots as evictable.
\<close>

theorem insert_extends:
  assumes "radix_inv c refs" and "\<not> cache_disable c" and "page_size c dvd length ks" and "length vs = length ks"
  shows "\<exists>k V c'. radix_insert c ks (Some vs) = Some (k, c') \<and> longest_match c ks V \<and> k = length V \<and>
    cached_pages c' = cached_pages c \<union> edge_pages (page_size c) (take k ks) (drop k ks) (drop k vs) \<and>
    cached_slots c' = cached_slots c + mset (drop k vs) \<and>
    evictable_size c' = evictable_size c + int (length ks - k) \<and> radix_inv c' refs"
  by (rule insert_spec [OF assms]) (auto simp: evictable_size_def)

theorem insert_extends_witness:
  "\<exists>k V c'. radix_insert demo_cache [7, 5] (Some [4, 6]) = Some (k, c') \<and> longest_match demo_cache [7, 5] V \<and>
    k = length V \<and>
    cached_pages c' = cached_pages demo_cache \<union>
      edge_pages (page_size demo_cache) (take k [7, 5]) (drop k [7, 5]) (drop k [4, 6]) \<and>
    cached_slots c' = cached_slots demo_cache + mset (drop k [4, 6]) \<and>
    evictable_size c' = evictable_size demo_cache + int (length [7, 5 :: token] - k) \<and> radix_inv c' {#}"
  by (rule insert_extends [OF demo_inv(1,2)]) (simp_all add: demo_inv)

text \<open>
  C16: A match after an insert finds the whole key: the slots already cached for its prefix
  followed by the inserted slots.
\<close>

theorem insert_match_roundtrip:
  assumes "radix_inv c refs" and "\<not> cache_disable c" and "page_size c dvd length ks" and "length vs = length ks"
  shows "\<exists>k V c' n c''. radix_insert c ks (Some vs) = Some (k, c') \<and> longest_match c ks V \<and>
    match_prefix c' ks = Some (V @ drop k vs, n, c'') \<and> path_of c'' n = ks"
proof -
  have p: "0 < page_size c" using assms(1) wf_basic(1) by (auto simp: radix_inv_def)
  obtain k V c' where i: "radix_insert c ks (Some vs) = Some (k, c')" "radix_inv c' refs"
    "longest_match c ks V" "length V = k"
    "cached_pages c' = cached_pages c \<union> edge_pages (page_size c) (take k ks) (drop k ks) (drop k vs)"
    "same_env c c'"
    by (rule insert_spec [OF assms])
  have on: "\<not> cache_disable c'" "page_size c' = page_size c" using i(6) assms(2) by (auto simp: same_env_def)
  obtain W n c'' where m: "match_prefix c' ks = Some (W, n, c'')" "path_of c'' n = take (length W) ks"
    "longest_match c' ks W"
    by (rule match_prefix_spec [OF i(2) on(1)])
  have "W = V @ drop k vs"
    using longest_match_unique [OF i(2) m(3)] match_after_insert [OF p i(3) assms(3,4)] i(4,5) on(2) by simp
  moreover have "length (V @ drop k vs) = length ks" using i(3,4) assms(4) by (simp add: longest_match_def)
  ultimately show ?thesis using i(1,3) m by (intro exI [of _ k] exI [of _ V] exI [of _ c'] exI [of _ n] exI [of _ c'']) simp
qed

theorem insert_match_roundtrip_witness:
  "\<exists>k V c' n c''. radix_insert demo_cache [7, 5] (Some [4, 6]) = Some (k, c') \<and> longest_match demo_cache [7, 5] V \<and>
    match_prefix c' [7, 5] = Some (V @ drop k [4, 6], n, c'') \<and> path_of c'' n = [7, 5]"
  by (rule insert_match_roundtrip [OF demo_inv(1,2)]) (simp_all add: demo_inv)

text \<open>
  Unlocking a node that was just locked restores every lock count and both sizes; in between,
  the slots of the node's path are protected.
\<close>

lemma lock_unlock:
  assumes "radix_inv c refs" and "\<not> cache_disable c" and "n \<in> live c"
  shows "\<exists>d c' c''. inc_lock_ref c n = Some (d, c') \<and> dec_lock_ref c' n = Some (- d, c'') \<and>
    evictable_size c' = evictable_size c + d \<and> protected_size c' = protected_size c - d \<and>
    evictable_size c'' = evictable_size c \<and> protected_size c'' = protected_size c \<and>
    (\<forall>m\<in>live c - {root_node c}. n_lock_ref (nodes c'' m) = n_lock_ref (nodes c m) \<and>
       n_lock_ref (nodes c' m) = n_lock_ref (nodes c m) + (if prefix (path_of c m) (path_of c n) then 1 else 0))"
proof -
  obtain d c' where i: "inc_lock_ref c n = Some (d, c')" "radix_inv c' (add_mset n refs)" "same_env c c'"
    "d = evictable_sz c' - evictable_sz c" "protected_sz c' = protected_sz c - d" "live c' = live c" "path_of c' = path_of c"
    "\<forall>m. nval (nodes c' m) = nval (nodes c m)"
    by (rule inc_lock_ref_spec [OF assms])
  have on: "\<not> cache_disable c'" and nin: "n \<in># add_mset n refs" using i(3) assms(2) by (simp_all add: same_env_def)
  obtain e c'' where u: "dec_lock_ref c' n = Some (e, c'')" "radix_inv c'' (add_mset n refs - {#n#})" "same_env c' c''"
    "e = evictable_sz c'' - evictable_sz c'" "protected_sz c'' = protected_sz c' - e" "live c'' = live c'" "path_of c'' = path_of c'"
    "\<forall>m. nval (nodes c'' m) = nval (nodes c' m)"
    by (rule dec_lock_ref_spec [OF i(2) on nin])
  have root: "root_node c' = root_node c" "root_node c'' = root_node c" using i(3) u(3) by (auto simp: same_env_def)
  have counts: "n_lock_ref (nodes c'' m) = n_lock_ref (nodes c m)"
    "n_lock_ref (nodes c' m) = n_lock_ref (nodes c m) + (if prefix (path_of c m) (path_of c n) then 1 else 0)"
    if "m \<in> live c - {root_node c}" for m
    using that lock_count [OF assms(1)] lock_count [OF i(2)] lock_count [OF u(2)] root i(6,7) u(6,7) by simp_all
  have "evictable_sz c'' = evictable_sz c" "protected_sz c'' = protected_sz c"
    using sizes_determined [OF assms(1), of c''] u(2) root i(6,7,8) u(6,7,8) by simp_all
  then show ?thesis
    using i(1,4,5) u(1,4) counts
    by (intro exI [of _ d] exI [of _ c'] exI [of _ c'']) (simp add: evictable_size_def protected_size_def)
qed

text \<open>
  C4: \<open>evict\<close> implements least-recently-used eviction: it removes, one after the other, the
  unlocked leaf with the oldest access time, until the requested number of slots is freed or no
  unlocked leaf is left.
\<close>

theorem evict_refines_lru:
  assumes "radix_inv c refs" and "\<not> cache_disable c" and "no_debug (kv_pool c)"
  shows "\<exists>c'. radix_evict c n = Some c' \<and> lru_run n 0 c c' \<and> radix_inv c' refs"
  by (rule radix_evict_spec [OF assms, of n]) blast

theorem evict_refines_lru_witness:
  "\<exists>c'. radix_evict demo_cache 2 = Some c' \<and> lru_run 2 0 demo_cache c' \<and> radix_inv c' {#}"
  by (rule evict_refines_lru [OF demo_inv(1-3)])

text \<open>
  C7: Eviction frees the requested number of slots, or everything that is evictable; the slots
  it takes out of the cache are exactly the ones it frees, and locked prefixes stay cached.
\<close>

theorem evict_frees_enough:
  assumes "radix_inv c refs" and "\<not> cache_disable c" and "no_debug (kv_pool c)"
  shows "\<exists>c' vs. radix_evict c n = Some c' \<and> kv_frees (kv_pool c) vs = Inr (kv_pool c') \<and>
    cached_slots c = cached_slots c' + mset (concat vs) \<and>
    int (length (concat vs)) = evictable_size c - evictable_size c' \<and>
    (n \<le> int (length (concat vs)) \<or> evictable_size c' = 0) \<and> protected_size c' = protected_size c \<and>
    (\<forall>m\<in>#refs. m \<noteq> root_node c \<longrightarrow> m \<in> live c' \<and> path_of c' m = path_of c m)"
  using evict_outcome [OF assms, of n] by blast

theorem evict_frees_enough_witness:
  "\<exists>c' vs. radix_evict demo_cache 2 = Some c' \<and> kv_frees (kv_pool demo_cache) vs = Inr (kv_pool c') \<and>
    cached_slots demo_cache = cached_slots c' + mset (concat vs) \<and>
    int (length (concat vs)) = evictable_size demo_cache - evictable_size c' \<and>
    (2 \<le> int (length (concat vs)) \<or> evictable_size c' = 0) \<and> protected_size c' = protected_size demo_cache \<and>
    (\<forall>m\<in>#{#}. m \<noteq> root_node demo_cache \<longrightarrow> m \<in> live c' \<and> path_of c' m = path_of demo_cache m)"
  by (rule evict_frees_enough [OF demo_inv(1-3)])

text \<open>\<open>total_size\<close> is the sum of the evictable and the protected size.\<close>

lemma total_size_split:
  assumes "radix_inv c refs"
  shows "\<exists>t. radix_total_size c = Some t \<and> int t = evictable_size c + protected_size c \<and>
    t = size (cached_slots c)"
proof -
  have wf: "cwf c (live c) (path_of c)" using assms by (simp add: radix_inv_def)
  note b = wf_basic [OF wf]
  let ?len = "\<lambda>m. length (nval (nodes c m))"
  have "radix_total_size c = Some (\<Sum>m\<in>live c. ?len m)"
    using total_size_loop_spec [OF wf, of "[root_node c]" 0] pending_root [OF wf]
    by (simp add: radix_total_size_def total_size_helper_def)
  moreover have "(\<Sum>m\<in>live c. ?len m) = (\<Sum>m\<in>live c - {root_node c}. ?len m)"
    using b by (simp add: sum.remove [of "live c" "root_node c"])
  moreover have "int (\<Sum>m\<in>live c - {root_node c}. ?len m) = evictable_sz c + protected_sz c"
  proof -
    have "(\<Sum>m\<in>live c - {root_node c}. int (?len m)) =
        lock_sum (\<lambda>l. l = 0) (nodes c) (root_node c) (live c) + lock_sum (\<lambda>l. l \<noteq> 0) (nodes c) (root_node c) (live c)"
      unfolding lock_sum_def sum.distrib [symmetric] by (intro sum.cong) auto
    then show ?thesis using assms by (simp add: radix_inv_def)
  qed
  moreover have "(\<Sum>m\<in>live c - {root_node c}. ?len m) = size (cached_slots c)"
    by (simp add: cached_slots_def tree_slots_def)
  ultimately show ?thesis by (simp add: evictable_size_def protected_size_def)
qed

text \<open>
  \<open>all_values_flatten\<close> returns every cached slot exactly as often as the tree holds it; it
  raises only on an empty cache, where there is nothing to concatenate.
\<close>

lemma values_flatten_all:
  assumes "radix_inv c refs"
  shows "all_values_flatten c = None \<and> live c = {root_node c} \<or>
    (\<exists>vs. all_values_flatten c = Some vs \<and> mset vs = cached_slots c)"
proof -
  have wf: "cwf c (live c) (path_of c)" using assms by (simp add: radix_inv_def)
  note b = wf_basic [OF wf]
  let ?ch = "map snd (n_children (nodes c (root_node c)))"
  note pr = pending_root [OF wf]
  have ps: "antichain (path_of c) ?ch" "set ?ch \<subseteq> live c" "pending (live c) (path_of c) ?ch = live c - {root_node c}"
    using pending_step [OF wf, of "[]" "root_node c"] pr by simp_all
  obtain vs where vs: "dfs_values c ?ch [] = Some vs" "None \<notin> set vs" "length vs = card (live c - {root_node c})"
    "mset (concat (map the vs)) = cached_slots c"
    using dfs_values_spec [OF wf ps(1,2), of "[]"] ps(3) by (auto simp: cached_slots_def tree_slots_def)
  show ?thesis
  proof (cases "vs = []")
    case True
    then have "live c - {root_node c} = {}" using vs(3) b(2) by (metis card_0_eq finite_Diff list.size(3))
    then have "live c = {root_node c}" using b(3) by blast
    then show ?thesis using True vs(1) by (simp add: all_values_flatten_def)
  next
    case False
    then show ?thesis using vs by (simp add: all_values_flatten_def)
  qed
qed

section \<open>Requests\<close>

text \<open>The slots an allocator has got back, inside or outside a free group.\<close>

definition returned_slots :: "token_allocator \<Rightarrow> slot multiset" where
  "returned_slots a = mset (tka_free_slots a) + mset (concat (tka_free_group a))"

lemma returned_slots_free: "returned_slots (tka_free a xs) = returned_slots a + mset xs"
  by (simp add: returned_slots_def tka_free_def)

lemma seg_append: "a \<le> b \<Longrightarrow> b \<le> length xs \<Longrightarrow> seg xs a b @ drop b xs = drop a xs"
  by (metis append_take_drop_id drop_append drop_take length_take min.absorb2 diff_is_0_eq' drop0 seg_def)


definition demo_req :: req where
  "demo_req = (req_init ''r'' [7, 8, 5] default_params False 0 None False None None None None)
     \<lparr>output_ids := [6], req_pool_idx := Some 0, last_node := Some (root_node demo_cache)\<rparr>"

lemma demo_pools: "req_pool demo_cache = rtp_init 2 8" "kv_pool demo_cache = TokenAlloc (tka_init 10)"
proof -
  obtain k V c' where "radix_insert demo_empty [7, 8, 9] (Some [1, 2, 3]) = Some (k, c')" "same_env demo_empty c'"
    by (rule insert_spec [OF demo_empty_inv(1,2), of "[7, 8, 9]" "[1, 2, 3]"]) (simp_all add: demo_empty_inv)
  then show "req_pool demo_cache = rtp_init 2 8" "kv_pool demo_cache = TokenAlloc (tka_init 10)"
    by (simp_all add: demo_cache_def same_env_def) (simp_all add: demo_empty_def init_fields)
qed

lemma demo_locked: "radix_inv demo_cache {#root_node demo_cache#}"
proof -
  obtain d c' where "inc_lock_ref demo_cache (root_node demo_cache) = Some (d, c')"
    "radix_inv c' (add_mset (root_node demo_cache) {#})"
    by (rule inc_lock_ref_spec [OF demo_inv(1,2) demo_root])
  then show ?thesis using demo_inv(2) by (simp add: inc_lock_ref_def inc_lock_loop.simps)
qed

lemma demo_root_path: "path_of demo_cache (root_node demo_cache) = []"
  using wf_basic(7) demo_inv(1) by (auto simp: radix_inv_def)


text \<open>
  C6: \<open>cache_unfinished_req\<close> leaves the request locked on a node whose path is its page-aligned
  prefix; the row of the request and its \<open>prefix_indices\<close> hold the slots that the cache has for
  this prefix, and the slots it had computed again are freed.
\<close>

theorem unfinished_req_shares:
  assumes "radix_inv c refs" and "\<not> cache_disable c" and "no_debug (kv_pool c)"
    and "fill_ids r = Some ids" and "req_pool_idx r = Some i" and "i < length (req_to_token (req_pool c))"
    and "last_node r = Some n" and "n \<in># refs" and "length ids \<le> length (req_to_token (req_pool c) ! i)"
    and "kv = rtp_row (req_pool c) i (length ids)" and "al = aligned_len c (length ids)"
  shows "\<exists>c' r' n' W k. cache_unfinished_req c r = Some (r', c') \<and> last_node r' = Some n' \<and>
    path_of c' n' = take al ids \<and> radix_inv c' (add_mset n' (refs - {#n#})) \<and>
    longest_match c' (take al ids) W \<and> length W = al \<and>
    prefix_indices r' = W @ (if page_size c = 1 then [] else drop al kv) \<and>
    rtp_write (req_pool c) (RowSlice i (length (prefix_indices r)) al) (drop (length (prefix_indices r)) W) =
      Inr (req_pool c') \<and>
    kv_free (kv_pool c) (seg kv (length (prefix_indices r)) k) = Inr (kv_pool c') \<and>
    cached_slots c' = cached_slots c + mset (seg kv k al)"
proof -
  have lk: "length kv = length ids" using assms(9,10) by (simp add: rtp_row_def)
  have p: "0 < page_size c" using assms(1) wf_basic(1) by (auto simp: radix_inv_def)
  obtain c' n' k V W where u: "W = V @ seg kv k al"
    "cache_unfinished_req c r =
       Some (r\<lparr>prefix_indices := (if page_size c \<noteq> 1 then W @ drop al kv else W), last_node := Some n'\<rparr>, c')"
    "radix_inv c' (add_mset n' (refs - {#n#}))" "path_of c' n' = take al ids"
    "length V = k" "k \<le> al" "longest_match c' (take al ids) W"
    "kv_free (kv_pool c) (seg kv (length (prefix_indices r)) k) = Inr (kv_pool c')"
    "cached_slots c' = cached_slots c + mset (seg kv k al)"
    "rtp_write (req_pool c) (RowSlice i (length (prefix_indices r)) al) (drop (length (prefix_indices r)) W) = Inr (req_pool c')"
    by (rule cache_unfinished_req_spec [OF assms(1-9), folded assms(10), unfolded lk, folded assms(11)])
  have "length W = al" using u(1,5,6) aligned_len_props(2) [OF p, of "length ids"] lk assms(11) by simp
  then show ?thesis using u(2-4,7-10)
    by (intro exI [of _ c'] exI [of _ "r\<lparr>prefix_indices := (if page_size c \<noteq> 1 then W @ drop al kv else W), last_node := Some n'\<rparr>"]
        exI [of _ n'] exI [of _ W] exI [of _ k]) (simp del: rtp_write.simps)
qed

theorem unfinished_req_shares_witness:
  "\<exists>c' r' n' W k. cache_unfinished_req demo_cache (demo_req\<lparr>fill_ids := Some [7, 8, 5]\<rparr>) = Some (r', c') \<and>
    last_node r' = Some n' \<and> path_of c' n' = take 3 [7, 8, 5] \<and>
    radix_inv c' (add_mset n' ({#root_node demo_cache#} - {#root_node demo_cache#})) \<and>
    longest_match c' (take 3 [7, 8, 5]) W \<and> length W = 3 \<and>
    prefix_indices r' = W @ (if page_size demo_cache = 1 then [] else drop 3 [0, 0, 0]) \<and>
    rtp_write (req_pool demo_cache) (RowSlice 0 (length (prefix_indices (demo_req\<lparr>fill_ids := Some [7, 8, 5]\<rparr>))) 3)
      (drop (length (prefix_indices (demo_req\<lparr>fill_ids := Some [7, 8, 5]\<rparr>))) W) = Inr (req_pool c') \<and>
    kv_free (kv_pool demo_cache) (seg [0, 0, 0] (length (prefix_indices (demo_req\<lparr>fill_ids := Some [7, 8, 5]\<rparr>))) k) =
      Inr (kv_pool c') \<and>
    cached_slots c' = cached_slots demo_cache + mset (seg [0, 0, 0] k 3)"
  by (rule unfinished_req_shares [OF demo_locked demo_inv(2,3)])
    (simp_all add: demo_req_def req_init_def demo_pools rtp_init_def rtp_row_def aligned_len_def demo_inv numeral_eq_Suc)

end
