(* ===== verification/Schedule_Policy.thy ===== *)
theory Schedule_Policy
  imports Radix_Props "HOL-Library.Product_Lexorder"
begin

text \<open>
  The order of the waiting queue, \<open>SchedulePolicy\<close> of \<open>managers/schedule_policy.py\<close>: first come
  first serve, longest output first, longest cached prefix first, and the depth-first order of
  the radix tree. Python's \<open>list.sort\<close> is stable, as is \<open>sort_key\<close>. \<open>random.shuffle\<close> is a
  parameter. The branches for the hierarchical cache are not modelled here.
\<close>

section \<open>Policies\<close>

datatype cache_aware_policy = LPM | DFS_WEIGHT

datatype cache_agnostic_policy = FCFS | LOF | RANDOM

datatype policy = Aware cache_aware_policy | Agnostic cache_agnostic_policy

fun policy_of_name :: "string \<Rightarrow> policy option" where
  "policy_of_name s =
     (if s = ''lpm'' then Some (Aware LPM)
      else if s = ''dfs-weight'' then Some (Aware DFS_WEIGHT)
      else if s = ''fcfs'' then Some (Agnostic FCFS)
      else if s = ''lof'' then Some (Agnostic LOF)
      else if s = ''random'' then Some (Agnostic RANDOM)
      else None)"

definition validate_and_adjust_policy :: "string \<Rightarrow> radix_cache \<Rightarrow> policy result" where
  "validate_and_adjust_policy s tree =
     (case policy_of_name s of
        None \<Rightarrow> Inl ValueError
      | Some (Aware p) \<Rightarrow> if cache_disable tree then Inr (Agnostic FCFS) else Inr (Aware p)
      | Some (Agnostic p) \<Rightarrow> Inr (Agnostic p))"

definition determine_active_policy :: "policy \<Rightarrow> req list \<Rightarrow> policy" where
  "determine_active_policy pol q =
     (if pol = Aware LPM \<and> length q > 128 then Agnostic FCFS else pol)"

section \<open>Matching the waiting queue\<close>

definition IN_BATCH_CHECK_THRESHOLD :: int where
  "IN_BATCH_CHECK_THRESHOLD = 32"

definition IN_BATCH_DEPRIORITIZE_THRESHOLD :: int where
  "IN_BATCH_DEPRIORITIZE_THRESHOLD = 32"

text \<open>
  The state of the loop: the requests with their matches, the deprioritised requests, the tree
  cache and the tree of the waiting queue (whose values are never read).
\<close>

definition match_one ::
  "req \<Rightarrow> req list \<times> string set \<times> radix_cache \<times> radix_cache \<Rightarrow>
   (req list \<times> string set \<times> radix_cache \<times> radix_cache) option" where
  "match_one r st =
    (case st of (done, depri, tree, wq) \<Rightarrow>
       (case adjust_max_prefix_ids r of (prefix_ids, r1) \<Rightarrow>
          do {
            (idx, node, tree') \<leftarrow> match_prefix tree prefix_ids;
            let r2 = r1\<lparr>prefix_indices := idx, last_node := Some node\<rparr>;
            if int (length idx) \<le> IN_BATCH_CHECK_THRESHOLD then
              do {
                (in_batch, n', wq1) \<leftarrow> match_prefix wq prefix_ids;
                if int (length in_batch) \<ge> IN_BATCH_DEPRIORITIZE_THRESHOLD then
                  Some (done @ [r2], insert (rid r) depri, tree', wq1)
                else
                  do {
                    (k, wq2) \<leftarrow> radix_insert wq1 prefix_ids (Some (replicate (length prefix_ids) 0));
                    Some (done @ [r2], depri, tree', wq2)
                  }
              }
            else Some (done @ [r2], depri, tree', wq)
          }))"

fun match_all ::
  "req list \<Rightarrow> req list \<times> string set \<times> radix_cache \<times> radix_cache \<Rightarrow>
   (req list \<times> string set \<times> radix_cache \<times> radix_cache) option" where
  "match_all [] st = Some st"
| "match_all (r # rs) st = Option.bind (match_one r st) (match_all rs)"

definition compute_prefix_matches ::
  "req list \<Rightarrow> radix_cache \<Rightarrow> radix_cache \<Rightarrow> (req list \<times> string set \<times> radix_cache \<times> radix_cache) option" where
  "compute_prefix_matches q tree wq = match_all q ([], {}, tree, radix_reset wq)"

section \<open>Sorting\<close>

text \<open>\<open>float("inf")\<close> comes after every number: \<open>None\<close> is infinity here.\<close>

definition prefix_key :: "string set \<Rightarrow> req \<Rightarrow> int option" where
  "prefix_key depri r = (if rid r \<notin> depri then Some (- int (length (prefix_indices r))) else None)"

definition inf_last :: "int option \<Rightarrow> int \<times> int" where
  "inf_last k = (case k of Some x \<Rightarrow> (0, x) | None \<Rightarrow> (1, 0))" \<comment> \<open>lexicographic order\<close>

definition sort_by_longest_prefix :: "req list \<Rightarrow> string set \<Rightarrow> req list" where
  "sort_by_longest_prefix q depri = sort_key (\<lambda>r. inf_last (prefix_key depri r)) q"

text \<open>\<open>max_new_tokens\<close> is an integer for every queued request.\<close>

definition new_tokens_of :: "req \<Rightarrow> int" where
  "new_tokens_of r = (case max_new_tokens (r_params r) of Some m \<Rightarrow> m | None \<Rightarrow> 0)"

definition sort_by_longest_output :: "req list \<Rightarrow> req list" where
  "sort_by_longest_output q = sort_key (\<lambda>r. - new_tokens_of r) q"

section \<open>Depth-first weights\<close>

definition reqs_at :: "req list \<Rightarrow> node_id \<Rightarrow> req list" where
  "reqs_at q n = filter (\<lambda>r. last_node r = Some n) q"

partial_function (option) calc_weight_list ::
  "radix_cache \<Rightarrow> node_id \<Rightarrow> node_id list \<Rightarrow> (node_id \<Rightarrow> nat) \<Rightarrow> (node_id \<Rightarrow> nat) option"
where
  "calc_weight_list c cur children w =
    (case children of
       [] \<Rightarrow> Some w
     | child # rest \<Rightarrow>
         Option.bind (calc_weight_list c child (map snd (n_children (nodes c child))) w)
           (\<lambda>w1. calc_weight_list c cur rest (w1(cur := w1 cur + w1 child))))"

definition calc_weight :: "radix_cache \<Rightarrow> node_id \<Rightarrow> (node_id \<Rightarrow> nat) \<Rightarrow> (node_id \<Rightarrow> nat) option" where
  "calc_weight c cur w = calc_weight_list c cur (map snd (n_children (nodes c cur))) w"

definition sorted_children :: "radix_cache \<Rightarrow> (node_id \<Rightarrow> nat) \<Rightarrow> node_id \<Rightarrow> node_id list" where
  "sorted_children c prio n = sort_key (\<lambda>x. - int (prio x)) (map snd (n_children (nodes c n)))"

partial_function (option) dfs_priority_list ::
  "radix_cache \<Rightarrow> (node_id \<Rightarrow> nat) \<Rightarrow> (node_id \<Rightarrow> req list) \<Rightarrow> node_id list \<Rightarrow> req list \<Rightarrow> req list option"
where
  "dfs_priority_list c prio reqs childs q =
    (case childs of
       [] \<Rightarrow> Some q
     | child # rest \<Rightarrow>
         Option.bind (dfs_priority_list c prio reqs (sorted_children c prio child) q)
           (\<lambda>q1. dfs_priority_list c prio reqs rest (q1 @ reqs child)))"

definition get_dfs_priority ::
  "radix_cache \<Rightarrow> node_id \<Rightarrow> (node_id \<Rightarrow> nat) \<Rightarrow> (node_id \<Rightarrow> req list) \<Rightarrow> req list \<Rightarrow> req list option" where
  "get_dfs_priority c cur prio reqs q =
     Option.bind (dfs_priority_list c prio reqs (sorted_children c prio cur) q)
       (\<lambda>q1. Some (q1 @ reqs cur))"

definition sort_by_dfs_weight :: "radix_cache \<Rightarrow> req list \<Rightarrow> req list option" where
  "sort_by_dfs_weight c q =
     Option.bind (calc_weight c (root_node c) (\<lambda>n. length (reqs_at q n)))
       (\<lambda>w. get_dfs_priority c (root_node c) w (reqs_at q) [])"

section \<open>The order of the queue\<close>

text \<open>
  The result: what \<open>calc_priority\<close> returns (\<open>None\<close> on the shortcut of first come first serve), the
  new queue, and the two trees.
\<close>

definition calc_priority ::
  "(req list \<Rightarrow> req list) \<Rightarrow> policy \<Rightarrow> req list \<Rightarrow> radix_cache \<Rightarrow> radix_cache \<Rightarrow>
   (bool option \<times> req list \<times> radix_cache \<times> radix_cache) option" where
  "calc_priority shuffle pol q tree wq =
    (if pol = Agnostic FCFS then Some (None, q, tree, wq)
     else
       (case determine_active_policy pol q of
          Aware p \<Rightarrow>
            do {
              (q1, depri, tree1, wq1) \<leftarrow> compute_prefix_matches q tree wq;
              (case p of
                 LPM \<Rightarrow> Some (Some True, sort_by_longest_prefix q1 depri, tree1, wq1)
               | DFS_WEIGHT \<Rightarrow>
                   do { q2 \<leftarrow> sort_by_dfs_weight tree1 q1; Some (Some True, q2, tree1, wq1) })
            }
        | Agnostic FCFS \<Rightarrow> Some (Some False, q, tree, wq)
        | Agnostic LOF \<Rightarrow> Some (Some False, sort_by_longest_output q, tree, wq)
        | Agnostic RANDOM \<Rightarrow> Some (Some False, shuffle q, tree, wq)))"

section \<open>The matches of the queue\<close>

text \<open>
  \<open>matched t r r'\<close>: \<open>r'\<close> is the request with its match in the cache \<open>t\<close>, the cached slots
  aligned with the node it is locked on.
\<close>

definition matched :: "radix_cache \<Rightarrow> req \<Rightarrow> req \<Rightarrow> bool" where
  "matched t r r' \<longleftrightarrow>
     (\<exists>n. last_node r' = Some n \<and> n \<in> live t \<and>
        path_of t n = take (length (prefix_indices r')) (fst (adjust_max_prefix_ids r)) \<and>
        longest_match t (fst (adjust_max_prefix_ids r)) (prefix_indices r') \<and>
        r' = (snd (adjust_max_prefix_ids r))\<lparr>prefix_indices := prefix_indices r', last_node := Some n\<rparr>)"

lemma matched_mono: "matched t r r' \<Longrightarrow> same_cache t t' \<Longrightarrow> matched t' r r'"
  using longest_match_cong [of t' t] by (fastforce simp: matched_def same_cache_def same_env_def)

lemma same_cache_trans: "same_cache a b \<Longrightarrow> same_cache b c \<Longrightarrow> same_cache a c"
  by (auto simp: same_cache_def same_env_def)

lemma match_one_spec:
  assumes t: "radix_inv t refs" "\<not> cache_disable t" and w: "radix_inv w wrefs" "\<not> cache_disable w" "page_size w = 1"
  obtains r' depri' t' w' where "match_one r (ds, depri, t, w) = Some (ds @ [r'], depri', t', w')"
    "radix_inv t' refs" "same_cache t t'" "matched t' r r'"
    "radix_inv w' wrefs" "\<not> cache_disable w'" "page_size w' = 1"
proof -
  obtain ids r1 where a: "adjust_max_prefix_ids r = (ids, r1)" by force
  obtain V n t' where m: "match_prefix t ids = Some (V, n, t')" "radix_inv t' refs" "same_cache t t'"
    "n \<in> live t'" "path_of t' n = take (length V) ids" "longest_match t ids V"
    by (rule match_prefix_spec [OF t])
  let ?r = "r1\<lparr>prefix_indices := V, last_node := Some n\<rparr>"
  have mt: "matched t' r ?r"
    using m longest_match_cong [of t' t] by (auto simp: matched_def a same_cache_def same_env_def)
  show thesis
  proof (cases "int (length V) \<le> IN_BATCH_CHECK_THRESHOLD")
    case False
    then show thesis using that [of ?r depri t' w] m mt w a by (simp add: match_one_def)
  next
    case True
    obtain V2 n2 w1 where m2: "match_prefix w ids = Some (V2, n2, w1)" "radix_inv w1 wrefs" "same_cache w w1"
      by (rule match_prefix_spec [OF w(1,2)])
    have w1: "\<not> cache_disable w1" "page_size w1 = 1" using m2(3) w by (auto simp: same_cache_def same_env_def)
    obtain k V3 w2 where i: "radix_insert w1 ids (Some (replicate (length ids) 0)) = Some (k, w2)" "radix_inv w2 wrefs"
      "same_env w1 w2"
      by (rule insert_spec [OF m2(2) w1(1), of ids "replicate (length ids) 0"]) (simp_all add: w1)
    have w2: "\<not> cache_disable w2" "page_size w2 = 1" using i(3) w1 by (auto simp: same_env_def)
    show thesis
    proof (cases "int (length V2) \<ge> IN_BATCH_DEPRIORITIZE_THRESHOLD")
      case dep: True
      then show thesis using that [of ?r "insert (rid r) depri" t' w1] True m m2 mt w1 a by (simp add: match_one_def)
    next
      case dep: False
      then show thesis using that [of ?r depri t' w2] True m m2 i mt w2 a by (simp add: match_one_def)
    qed
  qed
qed

lemma match_all_spec:
  assumes "radix_inv t refs" "\<not> cache_disable t" "radix_inv w wrefs" "\<not> cache_disable w" "page_size w = 1"
    and "list_all2 (matched t) ps ds"
  shows "\<exists>new depri' t' w'. match_all q (ds, depri, t, w) = Some (ds @ new, depri', t', w') \<and>
    radix_inv t' refs \<and> same_cache t t' \<and> list_all2 (matched t') (ps @ q) (ds @ new)"
  using assms
proof (induction q arbitrary: t w ps ds depri)
  case Nil
  then show ?case by (auto simp: same_cache_def same_env_def intro!: exI [of _ "[]"])
next
  case (Cons r q)
  obtain r' depri' t' w' where m: "match_one r (ds, depri, t, w) = Some (ds @ [r'], depri', t', w')"
    "radix_inv t' refs" "same_cache t t'" "matched t' r r'"
    "radix_inv w' wrefs" "\<not> cache_disable w'" "page_size w' = 1"
    by (rule match_one_spec [OF Cons.prems(1-5)])
  have t': "\<not> cache_disable t'" using m(3) Cons.prems(2) by (auto simp: same_cache_def same_env_def)
  have "list_all2 (matched t') (ps @ [r]) (ds @ [r'])"
    using Cons.prems(6) matched_mono [OF _ m(3)] m(4) by (auto intro: list_all2_appendI list_all2_mono)
  from Cons.IH [OF m(2) t' m(5-7) this, of depri'] obtain new depri'' t'' w'' where
    IH: "match_all q (ds @ [r'], depri', t', w') = Some ((ds @ [r']) @ new, depri'', t'', w'')"
    "radix_inv t'' refs" "same_cache t' t''" "list_all2 (matched t'') ((ps @ [r]) @ q) ((ds @ [r']) @ new)" by blast
  show ?case
    using IH m(1) same_cache_trans [OF m(3) IH(3)] by (intro exI [of _ "r' # new"]) auto
qed

lemma compute_prefix_matches_spec:
  assumes "radix_inv t refs" "\<not> cache_disable t" "\<not> cache_disable w" "page_size w = 1"
  obtains new depri t' w' where "compute_prefix_matches q t w = Some (new, depri, t', w')"
    "radix_inv t' refs" "same_cache t t'" "list_all2 (matched t') q new"
proof -
  have w: "radix_inv (radix_reset w) {#}" "\<not> cache_disable (radix_reset w)" "page_size (radix_reset w) = 1"
    using reset_inv [of w] assms(3,4) by (auto simp: reset_fields)
  show thesis
    using match_all_spec [OF assms(1,2) w, of "[]" "[]" q "{}"] that
    by (auto simp: compute_prefix_matches_def)
qed

section \<open>The depth-first order\<close>

definition subtree :: "node_id set \<Rightarrow> (node_id \<Rightarrow> token list) \<Rightarrow> node_id \<Rightarrow> node_id set" where
  "subtree L P n = pending L P [n]"

lemma antichain_set: "set st = set st' \<Longrightarrow> distinct st \<Longrightarrow> distinct st' \<Longrightarrow> antichain P st \<Longrightarrow> antichain P st'"
  by (simp add: antichain_def)

lemma pending_set: "set st = set st' \<Longrightarrow> pending L P st = pending L P st'"
  by (simp add: pending_def)

lemma subtree_parts:
  assumes wf: "tree_wf p ns r cnt L P" and st: "antichain P (a # rest)" "set (a # rest) \<subseteq> L"
    and ch: "set ch = set (map snd (n_children (ns a)))" "distinct ch"
  shows "pending L P (a # rest) = insert a (pending L P ch \<union> pending L P rest)"
    "a \<notin> pending L P ch \<union> pending L P rest" "pending L P ch \<inter> pending L P rest = {}"
    "antichain P ch" "set ch \<subseteq> L" "antichain P rest" "set rest \<subseteq> L"
    "card (pending L P ch) < card (pending L P (a # rest))" "card (pending L P rest) < card (pending L P (a # rest))"
    "subtree L P a = insert a (pending L P ch)"
proof -
  note pc = pending_Cons [OF st]
  have al: "a \<in> L" using st(2) by simp
  have ps: "antichain P (map snd (n_children (ns a)))" "set (map snd (n_children (ns a))) \<subseteq> L"
    "pending L P (map snd (n_children (ns a))) = pending L P [a] - {a}" "a \<in> pending L P [a]"
    using pending_step [OF wf, of "[]" a] pc(3) al by simp_all
  have pch: "pending L P ch = pending L P [a] - {a}" using ps(3) pending_set [OF ch(1)] by simp
  show parts: "pending L P (a # rest) = insert a (pending L P ch \<union> pending L P rest)"
    "a \<notin> pending L P ch \<union> pending L P rest" "pending L P ch \<inter> pending L P rest = {}"
    using pc(1,2) ps(4) pch by auto
  show "antichain P ch" using antichain_set [OF ch(1) [symmetric] _ ch(2) ps(1)] children_list(1) [OF wf al] by simp
  show "set ch \<subseteq> L" "antichain P rest" "set rest \<subseteq> L" using ps(2) ch(1) pc(4) st(2) by auto
  show "subtree L P a = insert a (pending L P ch)" using pch ps(4) by (auto simp: subtree_def)
  have fin: "finite (pending L P s)" for s using wf_basic(2) [OF wf] by (simp add: pending_def)
  have "card (pending L P (a # rest)) = Suc (card (pending L P ch) + card (pending L P rest))"
    unfolding parts(1) using parts(2,3) fin by (simp add: card_Un_disjoint)
  then show "card (pending L P ch) < card (pending L P (a # rest))" "card (pending L P rest) < card (pending L P (a # rest))"
    by simp_all
qed

lemma dfs_priority_list_spec:
  assumes wf: "cwf c L P" and "antichain P st" "set st \<subseteq> L"
  shows "\<exists>q'. dfs_priority_list c prio reqs st q = Some q' \<and>
    mset q' = mset q + (\<Sum>m\<in>pending L P st. mset (reqs m))"
  using assms(2,3)
proof (induction "card (pending L P st)" arbitrary: st q rule: less_induct)
  case less
  have fin: "finite (pending L P s)" for s using wf_basic(2) [OF wf] by (simp add: pending_def)
  show ?case
  proof (cases st)
    case Nil
    then show ?thesis by (simp add: dfs_priority_list.simps pending_def)
  next
    case (Cons a rest)
    have al: "a \<in> L" using less.prems(2) Cons by simp
    have ch: "set (sorted_children c prio a) = set (map snd (n_children (nodes c a)))" "distinct (sorted_children c prio a)"
      using children_list(1) [OF wf al] by (simp_all add: sorted_children_def)
    note sp = subtree_parts [OF wf less.prems [unfolded Cons] ch]
    obtain q1 where q1: "dfs_priority_list c prio reqs (sorted_children c prio a) q = Some q1"
      "mset q1 = mset q + (\<Sum>m\<in>pending L P (sorted_children c prio a). mset (reqs m))"
      using less.hyps [OF sp(8) [folded Cons] sp(4,5), of q] by blast
    obtain q2 where q2: "dfs_priority_list c prio reqs rest (q1 @ reqs a) = Some q2"
      "mset q2 = mset (q1 @ reqs a) + (\<Sum>m\<in>pending L P rest. mset (reqs m))"
      using less.hyps [OF sp(9) [folded Cons] sp(6,7), of "q1 @ reqs a"] by blast
    have "dfs_priority_list c prio reqs st q = Some q2"
      using q1(1) q2(1) Cons by (subst dfs_priority_list.simps) simp
    moreover have "(\<Sum>m\<in>pending L P st. mset (reqs m)) = mset (reqs a) +
        ((\<Sum>m\<in>pending L P (sorted_children c prio a). mset (reqs m)) + (\<Sum>m\<in>pending L P rest. mset (reqs m)))"
      unfolding Cons sp(1) using sp(2,3) fin by (simp add: sum.union_disjoint)
    ultimately show ?thesis using q1(2) q2(2) by (simp add: ac_simps)
  qed
qed

text \<open>The weights count the requests at or below a node.\<close>

lemma calc_weight_list_spec:
  assumes wf: "cwf c L P" and "antichain P st" "set st \<subseteq> L" "cur \<notin> pending L P st"
  shows "\<exists>w'. calc_weight_list c cur st w = Some w' \<and>
    w' cur = w cur + (\<Sum>m\<in>pending L P st. w m) \<and>
    (\<forall>m\<in>pending L P st. w' m = (\<Sum>x\<in>subtree L P m. w x)) \<and>
    (\<forall>m. m \<noteq> cur \<longrightarrow> m \<notin> pending L P st \<longrightarrow> w' m = w m)"
  using assms(2-4)
proof (induction "card (pending L P st)" arbitrary: st cur w rule: less_induct)
  case less
  have fin: "finite (pending L P s)" for s using wf_basic(2) [OF wf] by (simp add: pending_def)
  show ?case
  proof (cases st)
    case Nil
    then show ?thesis by (simp add: calc_weight_list.simps pending_def)
  next
    case (Cons a rest)
    let ?ch = "map snd (n_children (nodes c a))"
    have al: "a \<in> L" using less.prems(2) Cons by simp
    note sp = subtree_parts [OF wf less.prems(1,2) [unfolded Cons] refl children_list(1) [OF wf al]]
    have ca: "cur \<noteq> a" "cur \<notin> pending L P ?ch" "cur \<notin> pending L P rest" "a \<notin> pending L P ?ch" "a \<notin> pending L P rest"
      using less.prems(3) sp(1,2) Cons by auto
    obtain w1 where w1: "calc_weight_list c a ?ch w = Some w1" "w1 a = w a + (\<Sum>m\<in>pending L P ?ch. w m)"
      "\<forall>m\<in>pending L P ?ch. w1 m = (\<Sum>x\<in>subtree L P m. w x)"
      "\<forall>m. m \<noteq> a \<longrightarrow> m \<notin> pending L P ?ch \<longrightarrow> w1 m = w m"
      using less.hyps [OF sp(8) [folded Cons] sp(4,5) ca(4), of w] by blast
    let ?w = "w1(cur := w1 cur + w1 a)"
    obtain w2 where w2: "calc_weight_list c cur rest ?w = Some w2" "w2 cur = ?w cur + (\<Sum>m\<in>pending L P rest. ?w m)"
      "\<forall>m\<in>pending L P rest. w2 m = (\<Sum>x\<in>subtree L P m. ?w x)"
      "\<forall>m. m \<noteq> cur \<longrightarrow> m \<notin> pending L P rest \<longrightarrow> w2 m = ?w m"
      using less.hyps [OF sp(9) [folded Cons] sp(6,7) ca(3), of ?w] by blast
    have same: "?w x = w x" if "x \<in> pending L P rest" for x
      using that w1(4) ca sp(2,3) by auto
    have sub: "subtree L P m \<subseteq> pending L P rest" if "m \<in> pending L P rest" for m
      using that by (auto simp: subtree_def pending_def intro: prefix_order.trans)
    have wa: "w1 a = (\<Sum>x\<in>subtree L P a. w x)" using w1(2) sp(10) ca(4) fin by simp
    have "calc_weight_list c cur st w = Some w2"
      using w1(1) w2(1) Cons by (subst calc_weight_list.simps) simp
    moreover have "w2 cur = w cur + (\<Sum>m\<in>pending L P st. w m)"
    proof -
      have "(\<Sum>m\<in>pending L P st. w m) = w a + ((\<Sum>m\<in>pending L P ?ch. w m) + (\<Sum>m\<in>pending L P rest. w m))"
        unfolding Cons sp(1) using sp(2,3) fin by (simp add: sum.union_disjoint)
      moreover have "(\<Sum>m\<in>pending L P rest. ?w m) = (\<Sum>m\<in>pending L P rest. w m)" using same by (intro sum.cong) auto
      moreover have "w1 cur = w cur" using w1(4) ca by simp
      ultimately show ?thesis using w2(2) w1(2) by simp
    qed
    moreover have "w2 m = (\<Sum>x\<in>subtree L P m. w x)" if m: "m \<in> pending L P st" for m
    proof -
      consider "m = a" | "m \<in> pending L P ?ch" | "m \<in> pending L P rest" using m sp(1) Cons by auto
      then show ?thesis
      proof cases
        case 1
        then show ?thesis using w2(4) ca wa by simp
      next
        case 2
        then have "m \<noteq> cur" "m \<notin> pending L P rest" using ca sp(3) by auto
        then show ?thesis using w2(4) w1(3) 2 by simp
      next
        case 3
        then have "w2 m = (\<Sum>x\<in>subtree L P m. ?w x)" using w2(3) by simp
        also have "\<dots> = (\<Sum>x\<in>subtree L P m. w x)" 
          by (intro sum.cong refl same) (use sub [OF 3] in blast)
        finally show ?thesis .
      qed
    qed
    moreover have "w2 m = w m" if "m \<noteq> cur" "m \<notin> pending L P st" for m
      using that w2(4) w1(4) sp(1) Cons by auto
    ultimately show ?thesis by blast
  qed
qed

lemma reqs_at_sum:
  "finite L \<Longrightarrow> \<forall>r\<in>set q. \<exists>n\<in>L. last_node r = Some n \<Longrightarrow> (\<Sum>m\<in>L. mset (reqs_at q m)) = mset q"
proof (induction q)
  case Nil
  then show ?case by (simp add: reqs_at_def)
next
  case (Cons r q)
  then obtain n where n: "n \<in> L" "last_node r = Some n" by auto
  have "mset (reqs_at (r # q) m) = mset (reqs_at q m) + (if m = n then {#r#} else {#})" for m
    using n by (auto simp: reqs_at_def)
  then have "(\<Sum>m\<in>L. mset (reqs_at (r # q) m)) = mset q + {#r#}"
    using Cons n by (simp add: sum.distrib)
  then show ?case by simp
qed

lemma sort_by_dfs_weight_spec:
  assumes inv: "radix_inv c refs" and q: "\<forall>r\<in>set q. \<exists>n\<in>live c. last_node r = Some n"
  obtains q' where "sort_by_dfs_weight c q = Some q'" "mset q' = mset q"
proof -
  have wf: "cwf c (live c) (path_of c)" using inv by (simp add: radix_inv_def)
  note b = wf_basic [OF wf]
  let ?r = "root_node c" and ?ch = "map snd (n_children (nodes c (root_node c)))"
  note pr = pending_root [OF wf]
  have ps: "antichain (path_of c) ?ch" "set ?ch \<subseteq> live c" "pending (live c) (path_of c) ?ch = live c - {?r}"
    using pending_step [OF wf, of "[]" ?r] pr by simp_all
  obtain w where w: "calc_weight c ?r (\<lambda>n. length (reqs_at q n)) = Some w"
    using calc_weight_list_spec [OF wf ps(1,2), of ?r "\<lambda>n. length (reqs_at q n)"] ps(3)
    by (auto simp: calc_weight_def)
  have sc: "set (sorted_children c w ?r) = set ?ch" "distinct (sorted_children c w ?r)"
    using children_list(1) [OF wf b(3)] by (simp_all add: sorted_children_def)
  have "antichain (path_of c) (sorted_children c w ?r)"
    using antichain_set [OF sc(1) [symmetric] children_list(1) [OF wf b(3)] sc(2) ps(1)] .
  from dfs_priority_list_spec [OF wf this, of w "reqs_at q" "[]"] obtain q1 where
    q1: "dfs_priority_list c w (reqs_at q) (sorted_children c w ?r) [] = Some q1"
    "mset q1 = (\<Sum>m\<in>live c - {?r}. mset (reqs_at q m))"
    using ps(2,3) sc(1) pending_set [OF sc(1), of "live c" "path_of c"] by auto
  have "mset (q1 @ reqs_at q ?r) = (\<Sum>m\<in>live c. mset (reqs_at q m))"
    using q1(2) b(2,3) by (simp add: sum.remove [of "live c" ?r])
  then show thesis
    using that [of "q1 @ reqs_at q ?r"] w q1(1) reqs_at_sum [OF b(2) q]
    by (simp add: sort_by_dfs_weight_def get_dfs_priority_def)
qed

lemma matched_live: "matched t r r' \<Longrightarrow> \<exists>n\<in>live t. last_node r' = Some n"
  unfolding matched_def by blast

lemma matched_rid: "list_all2 (matched t) q q' \<Longrightarrow> map rid q' = map rid q"
proof (induction rule: list_all2_induct)
  case (Cons r rs r' rs')
  then obtain n where eq: "r' = (snd (adjust_max_prefix_ids r))\<lparr>prefix_indices := prefix_indices r', last_node := Some n\<rparr>"
    unfolding matched_def by blast
  have "rid r' = rid (snd (adjust_max_prefix_ids r))" by (subst eq) simp
  then show ?case using Cons by (simp add: adjust_max_prefix_ids_def Let_def)
qed simp

section \<open>Properties\<close>

text \<open>
  \<open>calc_priority\<close> is total. A queue whose prefixes it has computed carries the matches; otherwise
  the requests and the tree are as before.
\<close>

lemma calc_priority_spec:
  assumes "radix_inv tree refs" and "\<not> cache_disable tree" and "\<not> cache_disable wq" and "page_size wq = 1"
    and "mset (shuffle q) = mset q"
  shows "\<exists>b q' tree' wq'. calc_priority shuffle pol q tree wq = Some (b, q', tree', wq') \<and>
    mset (map rid q') = mset (map rid q) \<and> radix_inv tree' refs \<and> same_cache tree tree' \<and>
    (if b = Some True then \<forall>r'\<in>set q'. \<exists>r\<in>set q. matched tree' r r' else mset q' = mset q \<and> tree' = tree)"
proof -
  obtain new depri t' w' where m: "compute_prefix_matches q tree wq = Some (new, depri, t', w')"
    "radix_inv t' refs" "same_cache tree t'" "list_all2 (matched t') q new"
    by (rule compute_prefix_matches_spec [OF assms(1-4)])
  have last: "\<forall>r\<in>set new. \<exists>n\<in>live t'. last_node r = Some n"
    using m(4) matched_live by (metis in_set_conv_nth list_all2_conv_all_nth)
  have mt: "\<forall>r'\<in>set new. \<exists>r\<in>set q. matched t' r r'"
    using m(4) by (metis in_set_conv_nth list_all2_conv_all_nth)
  obtain q2 where q2: "sort_by_dfs_weight t' new = Some q2" "mset q2 = mset new"
    by (rule sort_by_dfs_weight_spec [OF m(2) last])
  have rid: "mset (map rid new) = mset (map rid q)" using matched_rid [OF m(4)] by simp
  have refl: "same_cache tree tree" by (simp add: same_cache_def same_env_def)
  have rid2: "mset (map rid q2) = mset (map rid q)" "set q2 = set new" using q2(2) rid mset_eq_setD by (simp, blast)
  have lpm: "mset (map rid (sort_by_longest_prefix new depri)) = mset (map rid q)" "set (sort_by_longest_prefix new depri) = set new"
    using rid by (simp_all add: sort_by_longest_prefix_def)
  have lof: "mset (sort_by_longest_output q) = mset q" "mset (map rid (sort_by_longest_output q)) = mset (map rid q)"
    by (simp_all add: sort_by_longest_output_def)
  have rnd: "mset (map rid (shuffle q)) = mset (map rid q)" using assms(5) by simp
  have cond: "pol = Aware LPM \<or> pol = Aware DFS_WEIGHT \<or> pol = Agnostic FCFS \<or> pol = Agnostic LOF \<or> pol = Agnostic RANDOM"
    by (metis cache_agnostic_policy.exhaust cache_aware_policy.exhaust policy.exhaust)
  then show ?thesis
    using m(1-3) q2(1) rid2 lpm lof rnd assms(1,5) refl mt
    by (elim disjE) (auto simp: calc_priority_def determine_active_policy_def)
qed





text \<open>The depth-first weight of a tree node is the number of waiting requests at or below it.\<close>

lemma dfs_weight_counts:
  assumes "radix_inv c refs" and "n \<in> live c"
  shows "\<exists>w. calc_weight c (root_node c) (\<lambda>m. length (reqs_at q m)) = Some w \<and>
    w n = (\<Sum>m\<in>{m \<in> live c. prefix (path_of c n) (path_of c m)}. length (reqs_at q m))"
proof -
  have wf: "cwf c (live c) (path_of c)" using assms(1) by (simp add: radix_inv_def)
  note b = wf_basic [OF wf]
  let ?r = "root_node c" and ?ch = "map snd (n_children (nodes c (root_node c)))" and ?w = "\<lambda>m. length (reqs_at q m)"
  have ps: "antichain (path_of c) ?ch" "set ?ch \<subseteq> live c" "pending (live c) (path_of c) ?ch = live c - {?r}"
    using pending_step [OF wf, of "[]" ?r] pending_root [OF wf] by simp_all
  obtain w where w: "calc_weight c ?r ?w = Some w" "w ?r = ?w ?r + (\<Sum>m\<in>live c - {?r}. ?w m)"
    "\<forall>m\<in>live c - {?r}. w m = (\<Sum>x\<in>subtree (live c) (path_of c) m. ?w x)"
    using calc_weight_list_spec [OF wf ps(1,2), of ?r ?w] ps(3) by (auto simp: calc_weight_def)
  have st: "subtree (live c) (path_of c) m = {x \<in> live c. prefix (path_of c m) (path_of c x)}" for m
    by (simp add: subtree_def pending_def)
  have "w ?r = (\<Sum>m\<in>live c. ?w m)" using w(2) b(2,3) by (simp add: sum.remove [of "live c" ?r])
  moreover have "{m \<in> live c. prefix (path_of c ?r) (path_of c m)} = live c" using b(7) by simp
  ultimately show ?thesis using w(1,3) assms(2) st by (cases "n = ?r") simp_all
qed

end
