(* ===== verification/Batch_Alloc.thy ===== *)
theory Batch_Alloc
  imports Radix_Props
begin

text \<open>
  Memory for a batch: the allocation methods of \<open>ScheduleBatch\<close> in \<open>managers/schedule_batch.py\<close>,
  which evict from the tree cache when the pool runs low, \<open>get_last_loc\<close> in its two
  implementations, and the kernel that writes the new slots into the request table with the
  loop it replaces. \<open>retract_decode_steps\<close> and other constants of \<open>global_config.py\<close> are inlined.
\<close>

section \<open>Allocation with eviction\<close>

fun kv_allocate :: "kv_alloc \<Rightarrow> nat \<Rightarrow> (slot list option \<times> kv_alloc) result" where
  "kv_allocate (TokenAlloc a) n = Inr (case tka_alloc a n of (r, a') \<Rightarrow> (r, TokenAlloc a'))"
| "kv_allocate (PagedAlloc a) n =
     (case pka_alloc a n of Inl e \<Rightarrow> Inl e | Inr (r, a') \<Rightarrow> Inr (r, PagedAlloc a'))"

fun kv_available :: "kv_alloc \<Rightarrow> nat" where
  "kv_available (TokenAlloc a) = tka_available_size a"
| "kv_available (PagedAlloc a) = pka_available_size a"

fun kv_page_size :: "kv_alloc \<Rightarrow> nat" where
  "kv_page_size (TokenAlloc a) = tka_page_size a"
| "kv_page_size (PagedAlloc a) = pka_page_size a"

fun kv_backup :: "kv_alloc \<Rightarrow> int list" where
  "kv_backup (TokenAlloc a) = tka_backup_state a"
| "kv_backup (PagedAlloc a) = pka_backup_state a"

definition alloc_req_slots :: "req_to_token_pool \<Rightarrow> nat \<Rightarrow> (nat list \<times> req_to_token_pool) result" where
  "alloc_req_slots pool num_reqs =
     (case rtp_alloc pool num_reqs of (None, _) \<Rightarrow> Inl RuntimeError | (Some idx, pool') \<Rightarrow> Inr (idx, pool'))"

text \<open>An eviction that does not return normally is an error of the call.\<close>

definition evict_below :: "radix_cache \<Rightarrow> int \<Rightarrow> radix_cache result" where
  "evict_below c n =
     (if int (kv_available (kv_pool c)) < n then
        (case radix_evict c n of None \<Rightarrow> Inl RuntimeError | Some c' \<Rightarrow> Inr c')
      else Inr c)"

definition alloc_token_slots ::
  "radix_cache \<Rightarrow> nat \<Rightarrow> bool \<Rightarrow> (slot list \<times> int list option \<times> radix_cache) result" where
  "alloc_token_slots c num_tokens backup =
     bind_result (evict_below c (int num_tokens)) (\<lambda>c1.
       let state = (if backup then Some (kv_backup (kv_pool c1)) else None) in
       bind_result (kv_allocate (kv_pool c1) num_tokens) (\<lambda>(out, a).
         case out of None \<Rightarrow> Inl RuntimeError | Some loc \<Rightarrow> Inr (loc, state, c1\<lparr>kv_pool := a\<rparr>)))"

definition alloc_paged_token_slots_extend ::
  "radix_cache \<Rightarrow> int list \<Rightarrow> int list \<Rightarrow> int list \<Rightarrow> int list \<Rightarrow> bool \<Rightarrow>
   (slot list \<times> int list option \<times> radix_cache) result" where
  "alloc_paged_token_slots_extend c prefix_lens seq_lens last_loc buf backup =
     bind_result (evict_below c (int (length buf) + int (length seq_lens) * int (kv_page_size (kv_pool c)))) (\<lambda>c1.
       let state = (if backup then Some (kv_backup (kv_pool c1)) else None) in
       case kv_pool c1 of
         TokenAlloc a \<Rightarrow> Inl AttributeError
       | PagedAlloc a \<Rightarrow>
           bind_result (pka_alloc_extend a prefix_lens seq_lens last_loc buf) (\<lambda>(out, a').
             case out of None \<Rightarrow> Inl RuntimeError | Some loc \<Rightarrow> Inr (loc, state, c1\<lparr>kv_pool := PagedAlloc a'\<rparr>)))"

definition alloc_paged_token_slots_decode ::
  "radix_cache \<Rightarrow> int list \<Rightarrow> int list \<Rightarrow> int list \<Rightarrow> bool \<Rightarrow> (slot list \<times> int list option \<times> radix_cache) result" where
  "alloc_paged_token_slots_decode c seq_lens last_loc buf backup =
     bind_result (evict_below c (int (length seq_lens) * int (kv_page_size (kv_pool c)))) (\<lambda>c1.
       let state = (if backup then Some (kv_backup (kv_pool c1)) else None) in
       case kv_pool c1 of
         TokenAlloc a \<Rightarrow> Inl AttributeError
       | PagedAlloc a \<Rightarrow>
           bind_result (pka_alloc_decode a seq_lens last_loc buf) (\<lambda>(out, a').
             case out of None \<Rightarrow> Inl RuntimeError | Some loc \<Rightarrow> Inr (loc, state, c1\<lparr>kv_pool := PagedAlloc a'\<rparr>)))"

section \<open>The last slot of every prefix\<close>

definition table_get :: "slot list list \<Rightarrow> nat \<Rightarrow> nat \<Rightarrow> slot" where
  "table_get tab i j = tab ! i ! j"

definition get_last_loc_torch :: "slot list list \<Rightarrow> nat list \<Rightarrow> nat list \<Rightarrow> slot list" where
  "get_last_loc_torch tab idx pre =
     map2 (\<lambda>i p. if p > 0 then table_get tab i (p - 1) else - 1) idx pre"

text \<open>
  The kernel addresses the table as one array: row \<open>i\<close> starts at \<open>i * stride\<close>. Program \<open>pid\<close>
  handles the positions \<open>pid * block .. pid * block + block - 1\<close> below \<open>num_tokens\<close>.
\<close>

definition get_last_loc_kernel ::
  "slot list \<Rightarrow> nat list \<Rightarrow> nat list \<Rightarrow> nat \<Rightarrow> nat \<Rightarrow> nat \<Rightarrow> nat \<Rightarrow> (int \<times> int) list" where
  "get_last_loc_kernel flat idx pre num_tokens stride block pid =
     map (\<lambda>k. (int k,
                 if pre ! k > 0 then flat ! (idx ! k * stride + (pre ! k - 1)) else - 1))
       (filter (\<lambda>k. k < num_tokens) [pid * block..<pid * block + block])"

definition get_last_loc_triton :: "slot list list \<Rightarrow> nat \<Rightarrow> nat list \<Rightarrow> nat list \<Rightarrow> int list \<Rightarrow> slot list" where
  "get_last_loc_triton tab stride idx pre buf =
     (let num_tokens = length pre; block = 256
      in launch ((num_tokens + block - 1) div block)
           (get_last_loc_kernel (concat tab) idx pre num_tokens stride block) buf)"

section \<open>Writing the new slots\<close>

text \<open>
  The loop without Triton, over the pool index, the prefix length, the sequence length and the
  extend length of every request; \<open>out\<close> is what is left of \<open>out_cache_loc\<close> from \<open>pt\<close> on.
\<close>

fun write_loop :: "req_to_token_pool \<Rightarrow> (nat \<times> nat \<times> nat \<times> nat) list \<Rightarrow> slot list \<Rightarrow> req_to_token_pool result" where
  "write_loop pool [] out = Inr pool"
| "write_loop pool ((i, p, s, e) # rest) out =
     bind_result (rtp_write pool (RowSlice i p s) (take e out)) (\<lambda>pool'. write_loop pool' rest (drop e out))"

text \<open>
  Program \<open>pid\<close> of \<open>write_req_to_token_pool_triton\<close>: its stores into the table as one array. The
  blocks of 512 of the inner loop enumerate the offsets below \<open>seq_len - pre_len\<close>.
\<close>

definition write_kernel ::
  "nat list \<Rightarrow> nat list \<Rightarrow> nat list \<Rightarrow> nat list \<Rightarrow> slot list \<Rightarrow> nat \<Rightarrow> nat \<Rightarrow> (int \<times> int) list" where
  "write_kernel idx pre seq ext out stride pid =
     (let cumsum_start = sum_list (take pid ext); len = seq ! pid - pre ! pid; block = 512
      in concat (map (\<lambda>b. map (\<lambda>k. (int (idx ! pid * stride + k + pre ! pid), out ! (cumsum_start + k)))
                            (filter (\<lambda>k. k < len) [b * block..<b * block + block]))
                [0..<(len + block - 1) div block]))"

section \<open>Memory for the next decoding step\<close>

definition new_page_count_next_decode :: "kv_alloc \<Rightarrow> req list \<Rightarrow> nat" where
  "new_page_count_next_decode a reqs =
     (if kv_page_size a = 1 then length reqs
      else length (filter (\<lambda>r. (int (seqlen r) - 1) mod int (kv_page_size a) = 0) reqs))"

definition check_decode_mem :: "radix_cache \<Rightarrow> req list \<Rightarrow> nat \<Rightarrow> (bool \<times> radix_cache) option" where
  "check_decode_mem c reqs buf_multiplier =
     (let tokens_required = new_page_count_next_decode (kv_pool c) reqs * buf_multiplier * kv_page_size (kv_pool c)
      in if kv_available (kv_pool c) \<ge> tokens_required then Some (True, c)
         else
           Option.bind (radix_evict c (int tokens_required))
             (\<lambda>c'. Some (kv_available (kv_pool c') \<ge> tokens_required, c')))"

section \<open>Eviction and allocation together\<close>

text \<open>A pool that hands out single slots and takes frees at once.\<close>

fun plain_pool :: "kv_alloc \<Rightarrow> bool" where
  "plain_pool (TokenAlloc a) = (tka_is_not_in_free_group a \<and> tka_page_size a = 1)"
| "plain_pool (PagedAlloc a) = False"

fun pool_slots :: "kv_alloc \<Rightarrow> slot list" where
  "pool_slots (TokenAlloc a) = tka_free_slots a"
| "pool_slots (PagedAlloc a) = concat (map (page_slots (int (pka_page_size a))) (free_pages a))"

lemma plain_poolE:
  assumes "plain_pool a"
  obtains t where "a = TokenAlloc t" "tka_is_not_in_free_group t" "tka_page_size t = 1"
  using assms by (cases a) auto

lemma plain_available: "plain_pool a \<Longrightarrow> kv_available a = length (pool_slots a)"
  by (cases a) (auto simp: tka_available_size_def)

lemma plain_frees:
  "plain_pool a \<Longrightarrow> kv_frees a vs = Inr a' \<Longrightarrow> plain_pool a' \<and> pool_slots a' = pool_slots a @ concat vs"
proof (induction vs arbitrary: a)
  case (Cons v vs)
  obtain t where "a = TokenAlloc t" "tka_is_not_in_free_group t" "tka_page_size t = 1"
    by (rule plain_poolE [OF Cons.prems(1)])
  then show ?case using Cons.IH [of "TokenAlloc (tka_free t v)"] Cons.prems(2) by (auto simp: tka_free_def split: if_splits)
qed auto

lemma plain_alloc:
  assumes "plain_pool a"
  shows "n \<le> kv_available a \<Longrightarrow> \<exists>a'. kv_allocate a n = Inr (Some (take n (pool_slots a)), a') \<and>
      plain_pool a' \<and> pool_slots a' = drop n (pool_slots a)"
    and "kv_available a < n \<Longrightarrow> kv_allocate a n = Inr (None, a)"
  by (insert assms, cases a; simp add: tka_alloc_def tka_available_size_def)+

lemma evictable_nonneg: "radix_inv c refs \<Longrightarrow> 0 \<le> evictable_size c"
  by (simp add: radix_inv_def evictable_size_def lock_sum_def sum_nonneg)

text \<open>What eviction keeps: every slot, every locked prefix and the rest of the state.\<close>

definition evicted_to :: "node_id multiset \<Rightarrow> radix_cache \<Rightarrow> radix_cache \<Rightarrow> bool" where
  "evicted_to refs c c' \<longleftrightarrow>
     radix_inv c' refs \<and> plain_pool (kv_pool c') \<and>
     mset (pool_slots (kv_pool c')) + cached_slots c' = mset (pool_slots (kv_pool c)) + cached_slots c \<and>
     kv_available (kv_pool c) \<le> kv_available (kv_pool c') \<and>
     (\<forall>m\<in>#refs. m \<noteq> root_node c \<longrightarrow> m \<in> live c' \<and> path_of c' m = path_of c m) \<and>
     req_pool c' = req_pool c \<and> page_size c' = page_size c \<and> cache_disable c' = cache_disable c"

text \<open>
  Eviction for \<open>n\<close> slots: it returns, loses no slot, keeps every locked prefix, and afterwards
  \<open>n\<close> slots are available exactly when they were available or evictable before.
\<close>

lemma evict_enough:
  assumes inv: "radix_inv c refs" "\<not> cache_disable c" and plain: "plain_pool (kv_pool c)"
  shows "\<exists>c'. radix_evict c (int n) = Some c' \<and> evicted_to refs c c' \<and>
    (n \<le> kv_available (kv_pool c') \<longleftrightarrow> int n \<le> int (kv_available (kv_pool c)) + evictable_size c)"
proof -
  have "no_debug (kv_pool c)" using plain by (cases "kv_pool c") auto
  then obtain c' vs where e: "radix_evict c (int n) = Some c'" "kv_frees (kv_pool c) vs = Inr (kv_pool c')"
    "cached_slots c = cached_slots c' + mset (concat vs)"
    "int (length (concat vs)) = evictable_size c - evictable_size c'"
    "int n \<le> int (length (concat vs)) \<or> evictable_size c' = 0"
    "\<forall>m\<in>#refs. m \<noteq> root_node c \<longrightarrow> m \<in> live c' \<and> path_of c' m = path_of c m" "radix_inv c' refs"
    "page_size c' = page_size c" "cache_disable c' = cache_disable c" "req_pool c' = req_pool c"
    using evict_outcome [OF inv, of "int n"] by metis
  note p = plain_frees [OF plain e(2)]
  have av: "int (kv_available (kv_pool c')) = int (kv_available (kv_pool c)) + (evictable_size c - evictable_size c')"
    using p plain plain_available e(4) by simp
  have "n \<le> kv_available (kv_pool c') \<longleftrightarrow> int n \<le> int (kv_available (kv_pool c)) + evictable_size c"
    using av e(4,5) evictable_nonneg [OF e(7)] by linarith
  moreover have "kv_available (kv_pool c) \<le> kv_available (kv_pool c')" using av e(4) by linarith
  ultimately show ?thesis using e p by (intro exI [of _ c']) (simp add: evicted_to_def)
qed

lemma evict_below_enough:
  assumes inv: "radix_inv c refs" "\<not> cache_disable c" and plain: "plain_pool (kv_pool c)"
  shows "\<exists>c'. evict_below c (int n) = Inr c' \<and> evicted_to refs c c' \<and>
    (n \<le> kv_available (kv_pool c') \<longleftrightarrow> int n \<le> int (kv_available (kv_pool c)) + evictable_size c)"
proof (cases "kv_available (kv_pool c) < n")
  case True
  then show ?thesis using evict_enough [OF assms, of n] by (auto simp: evict_below_def)
next
  case False
  then show ?thesis
    using inv plain evictable_nonneg [OF inv(1)] locked_ref [OF inv(1)] by (auto simp: evict_below_def evicted_to_def)
qed

lemma radix_inv_pool: "radix_inv (c\<lparr>kv_pool := a\<rparr>) refs = radix_inv c refs"
  "cached_slots (c\<lparr>kv_pool := a\<rparr>) = cached_slots c" "live (c\<lparr>kv_pool := a\<rparr>) = live c"
  "path_of (c\<lparr>kv_pool := a\<rparr>) = path_of c"
  by (simp_all add: radix_inv_def cached_slots_def live_def path_of_def fun_eq_iff)

section \<open>Taking slots\<close>

text \<open>\<open>n\<close> slots have been taken from the pool, after an eviction if it was necessary.\<close>

definition took_slots :: "node_id multiset \<Rightarrow> radix_cache \<Rightarrow> slot list \<Rightarrow> radix_cache \<Rightarrow> bool" where
  "took_slots refs c loc c' \<longleftrightarrow>
     radix_inv c' refs \<and> plain_pool (kv_pool c') \<and>
     mset loc + mset (pool_slots (kv_pool c')) + cached_slots c' = mset (pool_slots (kv_pool c)) + cached_slots c \<and>
     (\<forall>m\<in>#refs. m \<noteq> root_node c \<longrightarrow> m \<in> live c' \<and> path_of c' m = path_of c m) \<and>
     req_pool c' = req_pool c \<and> page_size c' = page_size c \<and> cache_disable c' = cache_disable c"

lemma alloc_token_slots_spec:
  assumes "radix_inv c refs" and "\<not> cache_disable c" and "plain_pool (kv_pool c)"
  shows "if int n \<le> int (kv_available (kv_pool c)) + evictable_size c
    then \<exists>loc c'. alloc_token_slots c n False = Inr (loc, None, c') \<and> length loc = n \<and> took_slots refs c loc c'
    else alloc_token_slots c n False = Inl RuntimeError"
proof -
  obtain c1 where e: "evict_below c (int n) = Inr c1" "evicted_to refs c c1"
    "n \<le> kv_available (kv_pool c1) \<longleftrightarrow> int n \<le> int (kv_available (kv_pool c)) + evictable_size c"
    using evict_below_enough [OF assms, of n] by blast
  have pl: "plain_pool (kv_pool c1)" using e(2) by (simp add: evicted_to_def)
  show ?thesis
  proof (cases "n \<le> kv_available (kv_pool c1)")
    case True
    then obtain a where a: "kv_allocate (kv_pool c1) n = Inr (Some (take n (pool_slots (kv_pool c1))), a)"
      "plain_pool a" "pool_slots a = drop n (pool_slots (kv_pool c1))"
      using plain_alloc(1) [OF pl] by blast
    have "mset (take n (pool_slots (kv_pool c1))) + mset (pool_slots a) = mset (pool_slots (kv_pool c1))"
      using a(3) mset_take_drop by metis
    then show ?thesis
      using True e a plain_available [OF pl]
      by (simp add: alloc_token_slots_def bind_result_def evicted_to_def took_slots_def radix_inv_pool)
  next
    case False
    then show ?thesis using e plain_alloc(2) [OF pl, of n] by (simp add: alloc_token_slots_def bind_result_def)
  qed
qed

section \<open>One array for the request table\<close>

lemma length_concat_rows:
  "\<forall>row\<in>set tab. length row = w \<Longrightarrow> length (concat tab) = length tab * w"
  by (induction tab) auto

lemma row_end_le:
  assumes "\<forall>row\<in>set tab. length row = w" "i < length tab" "a \<le> w"
  shows "i * w + a \<le> length (concat tab)"
proof -
  have "Suc i * w \<le> length tab * w" using assms(2) by (intro mult_le_mono1) simp
  then show ?thesis using length_concat_rows [OF assms(1)] assms(3) by simp
qed

lemma concat_rows_split:
  assumes "\<forall>row\<in>set tab. length row = w" "i < length tab" "a \<le> w"
  shows "take (i * w + a) (concat tab) = concat (take i tab) @ take a (tab ! i)"
    and "drop (i * w + a) (concat tab) = drop a (tab ! i) @ concat (drop (Suc i) tab)"
proof -
  have c: "concat tab = concat (take i tab) @ tab ! i @ concat (drop (Suc i) tab)"
    using id_take_nth_drop [OF assms(2)] by (metis concat.simps(2) concat_append)
  have "\<forall>row\<in>set (take i tab). length row = w" using assms(1) by (meson in_set_takeD)
  then have l: "length (concat (take i tab)) = i * w"
    using assms(2) length_concat_rows [of "take i tab" w] by simp
  have r: "length (tab ! i) = w" using assms by simp
  show "take (i * w + a) (concat tab) = concat (take i tab) @ take a (tab ! i)"
    unfolding c using l r assms(3) by simp
  show "drop (i * w + a) (concat tab) = drop a (tab ! i) @ concat (drop (Suc i) tab)"
    unfolding c using l r assms(3) by simp
qed

lemma concat_rows_nth:
  assumes "\<forall>row\<in>set tab. length row = w" "i < length tab" "a < w"
  shows "concat tab ! (i * w + a) = tab ! i ! a"
proof -
  have "i * w + a < length (concat tab)"
    using row_end_le [OF assms(1,2), of "Suc a"] assms(3) by simp
  then have "concat tab ! (i * w + a) = hd (drop (i * w + a) (concat tab))" by (rule hd_drop_conv_nth [symmetric])
  also have "\<dots> = hd (drop a (tab ! i) @ concat (drop (Suc i) tab))"
    using concat_rows_split(2) [OF assms(1,2), of a] assms(3) by simp
  also have "\<dots> = tab ! i ! a" using assms by (simp add: hd_append hd_drop_conv_nth)
  finally show ?thesis .
qed

text \<open>Storing a segment of a row in the array is updating that row.\<close>

lemma store_row_segment:
  assumes "\<forall>row\<in>set tab. length row = w" "i < length tab" "p + length vs \<le> w"
  shows "store_all (seg_writes (i * w + p) vs) (concat tab) =
    concat (tab[i := take p (tab ! i) @ vs @ drop (p + length vs) (tab ! i)])"
proof -
  have sp: "take (i * w + p) (concat tab) = concat (take i tab) @ take p (tab ! i)"
    "drop (i * w + (p + length vs)) (concat tab) = drop (p + length vs) (tab ! i) @ concat (drop (Suc i) tab)"
    using concat_rows_split [OF assms(1,2)] assms(3) by simp_all
  moreover have "i * w + (p + length vs) \<le> length (concat tab)" by (rule row_end_le [OF assms])
  ultimately show ?thesis
    using store_seg_writes [of "i * w + p" vs "concat tab"] sp upd_conv_take_nth_drop [OF assms(2)]
    by (simp add: add.assoc)
qed

section \<open>The kernels against their references\<close>

lemma filter_below_upt: "filter (\<lambda>k. k < n) [a..<b] = [a..<min n b]" for n :: nat
  by (induction b) (auto simp: min_def le_Suc_eq dest: le_antisym)

lemma upt_split: "a \<le> b \<Longrightarrow> b \<le> c \<Longrightarrow> [a..<b] @ [b..<c] = [a..<c]"
  using upt_add_eq_append [of a b "c - b"] by simp

lemma blocks_below:
  "concat (map (\<lambda>b. filter (\<lambda>k. k < n) [b * d..<b * d + d]) [0..<m]) = [0..<min n (m * d)]" for m :: nat
proof (induction m)
  case (Suc m)
  show ?case
    using Suc upt_split [of 0 "m * d" "min n (m * d + d)"]
    by (cases "n \<le> m * d") (auto simp: filter_below_upt min_def add.commute)
qed simp

lemma enough_blocks: "0 < d \<Longrightarrow> n \<le> (n + d - 1) div d * (d::nat)"
  using div_mult_mod_eq [of "n + d - 1" d] mod_less_divisor [of d "n + d - 1"] by linarith

lemma map_writes_seg: "map (\<lambda>k. (int (a + k), f k)) [0..<n] = seg_writes a (map f [0..<n])"
  by (rule nth_equalityI) (auto simp: seg_writes_def)

lemma blocks_seg_writes:
  assumes "0 < d"
  shows "concat (map (\<lambda>b. map (\<lambda>k. (int (a + k), f k)) (filter (\<lambda>k. k < n) [b * d..<b * d + d]))
           [0..<(n + d - 1) div d]) = seg_writes a (map f [0..<n])"
proof -
  have "concat (map (\<lambda>b. map (\<lambda>k. (int (a + k), f k)) (filter (\<lambda>k. k < n) [b * d..<b * d + d])) [0..<(n + d - 1) div d]) =
     map (\<lambda>k. (int (a + k), f k)) (concat (map (\<lambda>b. filter (\<lambda>k. k < n) [b * d..<b * d + d]) [0..<(n + d - 1) div d]))"
    by (simp add: map_concat comp_def)
  also have "\<dots> = seg_writes a (map f [0..<n])"
    using enough_blocks [OF assms, of n] by (simp only: blocks_below map_writes_seg min_absorb1)
  finally show ?thesis .
qed

lemma last_loc_launch:
  assumes "length buf = length pre"
  shows "get_last_loc_triton tab stride idx pre buf =
    map (\<lambda>k. if pre ! k > 0 then concat tab ! (idx ! k * stride + (pre ! k - 1)) else - 1) [0..<length pre]"
    (is "_ = map ?f _")
proof -
  have "get_last_loc_triton tab stride idx pre buf = store_all (seg_writes 0 (map ?f [0..<length pre])) buf"
    using blocks_seg_writes [of 256 0 ?f "length pre"]
    by (simp add: get_last_loc_triton_def Let_def launch_def get_last_loc_kernel_def [abs_def])
  also have "\<dots> = map ?f [0..<length pre]" using assms by (simp add: store_seg_writes)
  finally show ?thesis .
qed

lemma write_kernel_seg:
  assumes "sum_list (take pid ext) + (seq ! pid - pre ! pid) \<le> length out"
  shows "write_kernel idx pre seq ext out stride pid =
    seg_writes (idx ! pid * stride + pre ! pid) (take (seq ! pid - pre ! pid) (drop (sum_list (take pid ext)) out))"
proof -
  let ?n = "seq ! pid - pre ! pid" and ?c = "sum_list (take pid ext)"
  have "take ?n (drop ?c out) = map (\<lambda>k. out ! (?c + k)) [0..<?n]"
    using assms by (intro nth_equalityI) auto
  then show ?thesis
    using blocks_seg_writes [of 512 "idx ! pid * stride + pre ! pid" "\<lambda>k. out ! (?c + k)" ?n]
    by (simp add: write_kernel_def Let_def ac_simps)
qed

lemma write_row_slice:
  assumes "i < length (req_to_token pool)" "p \<le> s" "s \<le> length (req_to_token pool ! i)" "length vs = s - p"
  shows "rtp_write pool (RowSlice i p s) vs = Inr (pool\<lparr>req_to_token :=
    (req_to_token pool)[i := take p (req_to_token pool ! i) @ vs @ drop s (req_to_token pool ! i)]\<rparr>)"
  using assms by (simp add: broadcast_def Let_def min_absorb1 max_absorb2)

lemma write_loop_append:
  "write_loop pool (xs @ ys) out =
     bind_result (write_loop pool xs out) (\<lambda>pool'. write_loop pool' ys (drop (sum_list (map (\<lambda>(_, _, _, e). e) xs)) out))"
  by (induction xs arbitrary: pool out) (auto simp: bind_result_def add.commute split: sum.splits)

lemma write_launch:
  assumes rows: "\<forall>row\<in>set (req_to_token pool). length row = w"
    and len: "length pre = length idx" "length seq = length idx" "length ext = length idx"
    and idx: "\<forall>k<length idx. idx ! k < length (req_to_token pool) \<and> pre ! k \<le> seq ! k \<and> seq ! k \<le> w \<and> ext ! k = seq ! k - pre ! k"
    and out: "sum_list ext \<le> length out" and n: "n \<le> length idx"
  shows "\<exists>pool'. write_loop pool (take n (zip idx (zip pre (zip seq ext)))) out = Inr pool' \<and>
    (\<forall>row\<in>set (req_to_token pool'). length row = w) \<and> length (req_to_token pool') = length (req_to_token pool) \<and>
    concat (req_to_token pool') = launch n (write_kernel idx pre seq ext out w) (concat (req_to_token pool))"
  using n
proof (induction n)
  case 0
  then show ?case using rows by (simp add: launch_def store_all_def)
next
  case (Suc n)
  let ?z = "zip idx (zip pre (zip seq ext))" and ?cum = "sum_list (take n ext)"
  obtain q where q: "write_loop pool (take n ?z) out = Inr q" "\<forall>row\<in>set (req_to_token q). length row = w"
    "length (req_to_token q) = length (req_to_token pool)"
    "concat (req_to_token q) = launch n (write_kernel idx pre seq ext out w) (concat (req_to_token pool))"
    using Suc by auto
  have z: "take (Suc n) ?z = take n ?z @ [(idx ! n, pre ! n, seq ! n, ext ! n)]"
    using Suc.prems len by (simp add: take_Suc_conv_app_nth)
  have "map (\<lambda>(_, _, _, e). e) ?z = ext" using len by (intro nth_equalityI) auto
  then have cum: "sum_list (map (\<lambda>(_, _, _, e). e) (take n ?z)) = ?cum" by (metis take_map)
  have i: "idx ! n < length (req_to_token q)" "pre ! n \<le> seq ! n" "seq ! n \<le> w" "ext ! n = seq ! n - pre ! n"
    using idx Suc.prems q(3) by auto
  have "?cum + ext ! n \<le> sum_list ext"
    using Suc.prems len(3) id_take_nth_drop [of n ext] by (metis Suc_le_eq add.assoc le_add1 sum_list.Cons sum_list.append)
  then have c: "?cum + (seq ! n - pre ! n) \<le> length out" using out i(4) by linarith
  let ?vs = "take (ext ! n) (drop ?cum out)" and ?row = "req_to_token q ! (idx ! n)"
  have l: "length ?vs = seq ! n - pre ! n" using c i(4) by simp
  have rl: "length ?row = w" using q(2) i(1) by simp
  let ?q = "q\<lparr>req_to_token := (req_to_token q)[idx ! n := take (pre ! n) ?row @ ?vs @ drop (seq ! n) ?row]\<rparr>"
  have "write_loop pool (take (Suc n) ?z) out = Inr ?q"
    using write_row_slice [OF i(1,2) _ l] i(3) rl q(1) by (simp add: z write_loop_append cum bind_result_def)
  moreover have "concat (req_to_token ?q) = launch (Suc n) (write_kernel idx pre seq ext out w) (concat (req_to_token pool))"
    using store_row_segment [OF q(2) i(1), of "pre ! n" ?vs] write_kernel_seg [OF c] i l q(4)
    by (simp add: launch_def store_all_def)
  moreover have "\<forall>row\<in>set (req_to_token ?q). length row = w"
  proof
    fix row assume "row \<in> set (req_to_token ?q)"
    then have "row = take (pre ! n) ?row @ ?vs @ drop (seq ! n) ?row \<or> row \<in> set (req_to_token q)"
      using set_update_subset_insert by fastforce
    then show "length row = w" using q(2) l rl i by auto
  qed
  moreover have "length (req_to_token ?q) = length (req_to_token pool)" using q(3) by simp
  ultimately show ?case by blast
qed

section \<open>Properties\<close>

text \<open>
  C21: \<open>alloc_token_slots\<close> succeeds exactly when the tokens fit into the available and the
  evictable slots together, and raises \<open>RuntimeError\<close> otherwise. When it succeeds it returns
  that many slots, no slot is lost or duplicated between the pool, the cache and the result, and
  every locked prefix is still cached.
\<close>

theorem alloc_token_slots_total:
  assumes "radix_inv c refs" and "\<not> cache_disable c" and "plain_pool (kv_pool c)"
  shows "if int n \<le> int (kv_available (kv_pool c)) + evictable_size c
    then \<exists>loc c'. alloc_token_slots c n False = Inr (loc, None, c') \<and> length loc = n \<and> radix_inv c' refs \<and>
      mset loc + mset (pool_slots (kv_pool c')) + cached_slots c' = mset (pool_slots (kv_pool c)) + cached_slots c \<and>
      (\<forall>m\<in>#refs. m \<noteq> root_node c \<longrightarrow> m \<in> live c' \<and> path_of c' m = path_of c m)
    else alloc_token_slots c n False = Inl RuntimeError"
  using alloc_token_slots_spec [OF assms, of n] by (auto simp: took_slots_def)

lemma demo_pool: "plain_pool (kv_pool demo_cache)" "kv_available (kv_pool demo_cache) = 10"
  using demo_pools by (simp_all add: demo_empty_def init_fields tka_init_def tka_clear_def tka_available_size_def)

theorem alloc_token_slots_total_witness:
  "\<exists>loc c'. alloc_token_slots demo_cache 8 False = Inr (loc, None, c') \<and> length loc = 8"
proof -
  have "0 \<le> evictable_size demo_cache" by (rule evictable_nonneg [OF demo_inv(1)])
  then show ?thesis using alloc_token_slots_total [OF demo_inv(1,2) demo_pool(1), of 8] demo_pool(2) by auto
qed

text \<open>
  The Triton implementation of \<open>get_last_loc\<close> returns what the torch implementation
  returns, for every batch size.
\<close>

lemma get_last_loc_equiv:
  assumes "\<forall>row\<in>set tab. length row = stride" and "length idx = length pre" and "length buf = length pre"
    and "\<forall>k<length pre. idx ! k < length tab \<and> pre ! k \<le> stride"
  shows "get_last_loc_triton tab stride idx pre buf = get_last_loc_torch tab idx pre"
proof (rule nth_equalityI)
  show "length (get_last_loc_triton tab stride idx pre buf) = length (get_last_loc_torch tab idx pre)"
    using assms(2,3) by (simp add: last_loc_launch get_last_loc_torch_def)
  fix k assume "k < length (get_last_loc_triton tab stride idx pre buf)"
  then have k: "k < length pre" using assms(3) by (simp add: last_loc_launch)
  then show "get_last_loc_triton tab stride idx pre buf ! k = get_last_loc_torch tab idx pre ! k"
    using assms concat_rows_nth [OF assms(1), of "idx ! k" "pre ! k - 1"]
    by (auto simp: last_loc_launch get_last_loc_torch_def table_get_def)
qed

text \<open>
  C22: The kernel that writes the new slots leaves the request table as the loop of
  \<open>prepare_for_extend\<close> does, whatever the lengths are relative to the block size of the kernel.
\<close>

theorem write_kernel_equiv:
  assumes "\<forall>row\<in>set (req_to_token pool). length row = w"
    and "length pre = length idx" "length seq = length idx" "length ext = length idx"
    and "\<forall>k<length idx. idx ! k < length (req_to_token pool) \<and> pre ! k \<le> seq ! k \<and> seq ! k \<le> w \<and> ext ! k = seq ! k - pre ! k"
    and "sum_list ext \<le> length out"
  shows "\<exists>pool'. write_loop pool (zip idx (zip pre (zip seq ext))) out = Inr pool' \<and>
    concat (req_to_token pool') =
      launch (length idx) (write_kernel idx pre seq ext out w) (concat (req_to_token pool))"
  using write_launch [OF assms order_refl] assms(2-4) by auto

theorem write_kernel_equiv_witness:
  "\<exists>pool'. write_loop (rtp_init 2 3) [(1, 1, 3, 2)] [8, 9] = Inr pool' \<and>
    concat (req_to_token pool') = launch 1 (write_kernel [1] [1] [3] [2] [8, 9] 3) [0, 0, 0, 0, 0, 0]"
  using write_kernel_equiv [of "rtp_init 2 3" 3 "[1]" "[1]" "[3]" "[2]" "[8, 9]"]
  by (simp add: rtp_init_def numeral_3_eq_3 numeral_2_eq_2)

lemma check_decode_mem_spec:
  assumes inv: "radix_inv c refs" "\<not> cache_disable c" "plain_pool (kv_pool c)"
  shows "\<exists>c'. check_decode_mem c reqs m =
      Some (int (length reqs * m) \<le> int (kv_available (kv_pool c)) + evictable_size c, c') \<and>
    evicted_to refs c c' \<and> (length reqs * m \<le> kv_available (kv_pool c) \<longrightarrow> c' = c) \<and>
    (int (length reqs * m) \<le> int (kv_available (kv_pool c)) + evictable_size c \<longrightarrow> length reqs * m \<le> kv_available (kv_pool c'))"
proof -
  have p: "kv_page_size (kv_pool c) = 1" using inv(3) by (cases "kv_pool c") auto
  show ?thesis
  proof (cases "length reqs * m \<le> kv_available (kv_pool c)")
    case True
    then show ?thesis
      using evictable_nonneg [OF inv(1)] inv locked_ref [OF inv(1)]
      by (simp add: check_decode_mem_def new_page_count_next_decode_def p evicted_to_def del: of_nat_mult)
  next
    case False
    then show ?thesis
      using evict_enough [OF inv, of "length reqs * m"]
      by (auto simp: check_decode_mem_def new_page_count_next_decode_def p simp del: of_nat_mult)
  qed
qed

end
