(* ===== verification/Prefill_Adder.thy ===== *)
theory Prefill_Adder
  imports Schedule_Policy Batch_Alloc
begin

text \<open>
  \<open>PrefillAdder\<close> of \<open>managers/schedule_policy.py\<close>: which waiting requests join the next prefill
  batch. The Python floats (\<open>new_token_ratio\<close> and what is computed with it) are rationals. The
  tree cache is a radix cache (disabled for the chunk cache), the allocator is its \<open>kv_pool\<close>.
  Requests are values: the adder returns the requests it has updated.
\<close>

section \<open>State\<close>

datatype add_req_result = CONTINUE | NO_TOKEN | OTHER

record prefill_adder =
  pa_running :: "req list option"
  pa_ratio :: rat
  rem_input_tokens :: int
  rem_chunk_tokens :: "int option"
  rem_total_token_offset :: rat
  cur_rem_token_offset :: int
  req_states :: "(rat \<times> int) list option"
  can_run_list :: "req list"
  new_chunked_req :: "req option"
  log_hit_tokens :: int
  log_input_tokens :: int

definition CLIP_MAX_NEW_TOKENS_ESTIMATION :: int where
  "CLIP_MAX_NEW_TOKENS_ESTIMATION = 4096"

definition prefill_adder_init :: "req list option \<Rightarrow> rat \<Rightarrow> int \<Rightarrow> int option \<Rightarrow> int \<Rightarrow> prefill_adder" where
  "prefill_adder_init running ratio rem_input rem_chunk mixed =
     \<lparr>pa_running = running, pa_ratio = ratio, rem_input_tokens = rem_input - mixed,
      rem_chunk_tokens = map_option (\<lambda>t. t - mixed) rem_chunk,
      rem_total_token_offset = of_int mixed +
        (case running of
           None \<Rightarrow> 0
         | Some rs \<Rightarrow> sum_list (map (\<lambda>r. of_int (min (new_tokens_of r - int (length (output_ids r)))
                                                   CLIP_MAX_NEW_TOKENS_ESTIMATION) * ratio) rs)),
      cur_rem_token_offset = mixed, req_states = None, can_run_list = [], new_chunked_req = None,
      log_hit_tokens = 0, log_input_tokens = 0\<rparr>"

section \<open>Budget\<close>

definition rem_total_tokens :: "radix_cache \<Rightarrow> prefill_adder \<Rightarrow> rat" where
  "rem_total_tokens c a =
     of_int (int (kv_available (kv_pool c)) + evictable_size c) - rem_total_token_offset a"

definition cur_rem_tokens :: "radix_cache \<Rightarrow> prefill_adder \<Rightarrow> int" where
  "cur_rem_tokens c a = int (kv_available (kv_pool c)) + evictable_size c - cur_rem_token_offset a"

definition budget_state :: "radix_cache \<Rightarrow> prefill_adder \<Rightarrow> add_req_result" where
  "budget_state c a =
     (if rem_total_tokens c a \<le> 0 \<or> cur_rem_tokens c a \<le> 0 then NO_TOKEN
      else if rem_input_tokens a \<le> 0 \<or> (case rem_chunk_tokens a of Some t \<Rightarrow> t \<le> 0 | None \<Rightarrow> False) then OTHER
      else CONTINUE)"

definition prefill_one_req :: "prefill_adder \<Rightarrow> int \<Rightarrow> int \<Rightarrow> int \<Rightarrow> prefill_adder" where
  "prefill_one_req a prefix_len ext max_new =
     a\<lparr>rem_total_token_offset := rem_total_token_offset a + of_int (ext + max_new),
       cur_rem_token_offset := cur_rem_token_offset a + ext,
       rem_input_tokens := rem_input_tokens a - ext,
       rem_chunk_tokens := map_option (\<lambda>t. t - ext) (rem_chunk_tokens a),
       log_hit_tokens := log_hit_tokens a + prefix_len,
       log_input_tokens := log_input_tokens a + ext\<rparr>"

definition clipped_new_tokens :: "req \<Rightarrow> int" where
  "clipped_new_tokens r = min (new_tokens_of r) CLIP_MAX_NEW_TOKENS_ESTIMATION"

section \<open>A request that is being chunked\<close>

definition add_chunked_req :: "prefill_adder \<Rightarrow> req \<Rightarrow> (req option \<times> prefill_adder) result" where
  "add_chunked_req a r =
     (case rem_chunk_tokens a of
        None \<Rightarrow> Inl TypeError
      | Some t \<Rightarrow>
          (case fill_ids r of
             None \<Rightarrow> Inl TypeError
           | Some ids \<Rightarrow>
               (let truncated = extend_input_len r > t;
                    ext = min (extend_input_len r) t;
                    r' = r\<lparr>extend_input_len := ext,
                           fill_ids := Some (py_to ids (int (length (prefix_indices r)) + ext))\<rparr>;
                    a1 = a\<lparr>can_run_list := can_run_list a @ [r']\<rparr>;
                    a2 = prefill_one_req a1 0 ext (if \<not> truncated then clipped_new_tokens r else 0)
                in Inr (if truncated then Some r' else None, a2))))"

section \<open>A request that ignores end-of-sequence, without a tree cache\<close>

definition state_of :: "prefill_adder \<Rightarrow> req \<Rightarrow> rat \<times> int" where
  "state_of a r =
     (of_int (new_tokens_of r) * (if ignore_eos (r_params r) then 1 else pa_ratio a) - of_nat (length (output_ids r)),
      int (length (origin_input_ids r)) + int (length (output_ids r)))"

text \<open>
  The loop variable keeps its last value when the loop ends without \<open>break\<close>, and is 0 when the
  list is empty.
\<close>

fun insert_index :: "(rat \<times> int) list \<Rightarrow> rat \<Rightarrow> nat" where
  "insert_index [] l = 0"
| "insert_index [s] l = 0"
| "insert_index (s # s' # ss) l = (if l \<le> fst s then 0 else Suc (insert_index (s' # ss) l))"

definition insert_at :: "nat \<Rightarrow> 'a \<Rightarrow> 'a list \<Rightarrow> 'a list" where
  "insert_at i x xs = take i xs @ x # drop i xs"

definition add_req_state :: "prefill_adder \<Rightarrow> (rat \<times> int) list \<Rightarrow> req \<Rightarrow> bool \<Rightarrow> (rat \<times> int) list" where
  "add_req_state a states r insert_sort =
     (case state_of a r of (l, occ) \<Rightarrow>
        if l > 0 then
          (if \<not> insert_sort then states @ [(l, occ)]
           else insert_at (insert_index states l) (l, occ) states)
        else states)"

fun fits_memory :: "rat \<Rightarrow> int \<Rightarrow> (rat \<times> int) list \<Rightarrow> bool" where
  "fits_memory rem freed [] = True"
| "fits_memory rem freed ((l, occ) # rest) =
     (let decode_steps = (case rest of [] \<Rightarrow> l | (l2, occ2) # rest2 \<Rightarrow> l2);
          bs = length rest + 1
      in if rem + of_int freed - decode_steps * of_nat bs \<le> 0 then False
         else fits_memory rem (freed + occ) rest)"

definition next_req_states :: "prefill_adder \<Rightarrow> req \<Rightarrow> (rat \<times> int) list" where
  "next_req_states a r =
     (case req_states a of
        None \<Rightarrow>
          sort_key fst
            (fold (\<lambda>x st. add_req_state a st x False)
               ((case pa_running a of None \<Rightarrow> [] | Some rs \<Rightarrow> rs) @ can_run_list a)
               (add_req_state a [] r False))
      | Some st \<Rightarrow> add_req_state a st r True)"

definition add_one_req_ignore_eos ::
  "radix_cache \<Rightarrow> prefill_adder \<Rightarrow> req \<Rightarrow> (add_req_result \<times> prefill_adder) result" where
  "add_one_req_ignore_eos c a r =
     (let states = next_req_states a r; a1 = a\<lparr>req_states := Some states\<rparr> in
      if \<not> fits_memory (of_int (cur_rem_tokens c a - int (length (origin_input_ids r)))) 0 states
      then Inr (NO_TOKEN, a1)
      else
        (case rem_chunk_tokens a of
           Some t \<Rightarrow>
             if extend_input_len r \<le> t then
               (let a2 = prefill_one_req (a1\<lparr>can_run_list := can_run_list a @ [r]\<rparr>) 0
                           (extend_input_len r) (clipped_new_tokens r)
                in Inr (budget_state c a2, a2))
             else if t = 0 then Inr (OTHER, a1)
             else
               (case fill_ids r of
                  None \<Rightarrow> Inl TypeError
                | Some ids \<Rightarrow>
                    (let r' = r\<lparr>extend_input_len := t, fill_ids := Some (py_to ids t)\<rparr>;
                         a2 = prefill_one_req (a1\<lparr>can_run_list := can_run_list a @ [r'],
                                new_chunked_req := Some r'\<rparr>) 0 t 0
                     in Inr (budget_state c a2, a2)))
         | None \<Rightarrow>
             (let a2 = prefill_one_req (a1\<lparr>can_run_list := can_run_list a @ [r]\<rparr>) 0
                         (extend_input_len r) (clipped_new_tokens r)
              in Inr (budget_state c a2, a2))))"

section \<open>A request with a tree cache\<close>

definition page_ceil :: "radix_cache \<Rightarrow> int \<Rightarrow> int" where
  "page_ceil c x = - ((- x) div int (page_size c)) * int (page_size c)"

text \<open>
  The body of the \<open>with\<close> block, on the cache in which the node is locked: the result, whether
  the request was added, and the adder. The second lock for an added request is taken here.
\<close>

definition add_locked ::
  "radix_cache \<Rightarrow> prefill_adder \<Rightarrow> req \<Rightarrow> node_id \<Rightarrow> (add_req_result option \<times> prefill_adder \<times> radix_cache) option" where
  "add_locked c a r node =
     (let total_tokens = extend_input_len r + clipped_new_tokens r;
          input_tokens = page_ceil c (extend_input_len r);
          prefix_len = int (length (prefix_indices r))
      in if of_int total_tokens > rem_total_tokens c a then Some (Some NO_TOKEN, a, c)
         else if (case rem_chunk_tokens a of None \<Rightarrow> True | Some t \<Rightarrow> input_tokens \<le> t) then
           do {
             (d, c1) \<leftarrow> inc_lock_ref c node;
             Some (None, prefill_one_req (a\<lparr>can_run_list := can_run_list a @ [r]\<rparr>)
                           prefix_len input_tokens (clipped_new_tokens r), c1)
           }
         else
           (let trunc_len = the (rem_chunk_tokens a) - int (page_size c) + 1 in
            if trunc_len \<le> 0 then Some (Some OTHER, a, c)
            else
              do {
                ids \<leftarrow> fill_ids r;
                (d, c1) \<leftarrow> inc_lock_ref c node;
                let r' = r\<lparr>extend_input_len := trunc_len, fill_ids := Some (py_to ids (prefix_len + trunc_len))\<rparr>;
                Some (None, prefill_one_req (a\<lparr>can_run_list := can_run_list a @ [r'],
                              new_chunked_req := Some r'\<rparr>) prefix_len trunc_len 0, c1)
              }))"

text \<open>\<open>max_new_tokens\<close> enters a comparison at once, so a request without it raises.\<close>

definition add_one_req ::
  "radix_cache \<Rightarrow> prefill_adder \<Rightarrow> req \<Rightarrow> (add_req_result \<times> prefill_adder \<times> radix_cache) option" where
  "add_one_req c a r =
     (if max_new_tokens (r_params r) = None then None
      else if ignore_eos (r_params r) \<and> cache_disable c then
        (case add_one_req_ignore_eos c a r of Inl e \<Rightarrow> None | Inr (res, a') \<Rightarrow> Some (res, a', c))
      else
        (let total_tokens = extend_input_len r + clipped_new_tokens r;
             input_tokens = page_ceil c (extend_input_len r)
         in if of_int total_tokens \<ge> rem_total_tokens c a then Some (NO_TOKEN, a, c)
            else if input_tokens > rem_input_tokens a \<and> can_run_list a \<noteq> [] then Some (OTHER, a, c)
            else
              do {
                node \<leftarrow> last_node r;
                (d, c1) \<leftarrow> inc_lock_ref c node;
                (res, a2, c2) \<leftarrow> add_locked c1 a r node;
                (d2, c3) \<leftarrow> dec_lock_ref c2 node;
                Some (case res of Some x \<Rightarrow> x | None \<Rightarrow> budget_state c3 a2, a2, c3)
              }))"

section \<open>Rounding to pages\<close>

lemma page_ceil_bounds:
  assumes "0 < page_size c"
  shows "x \<le> page_ceil c x" "page_ceil c x < x + int (page_size c)"
proof -
  let ?p = "int (page_size c)"
  have p: "0 < ?p" using assms by simp
  have "- x = (- x) div ?p * ?p + (- x) mod ?p" by simp
  moreover have "0 \<le> (- x) mod ?p" "(- x) mod ?p < ?p" using p by simp_all
  ultimately show "x \<le> page_ceil c x" "page_ceil c x < x + int (page_size c)"
    unfolding page_ceil_def by linarith+
qed

lemma prefill_one_fields [simp]:
  "can_run_list (prefill_one_req a x y z) = can_run_list a"
  "rem_total_token_offset (prefill_one_req a x y z) = rem_total_token_offset a + of_int (y + z)"
  "rem_chunk_tokens (prefill_one_req a x y z) = map_option (\<lambda>t. t - y) (rem_chunk_tokens a)"
  "rem_input_tokens (prefill_one_req a x y z) = rem_input_tokens a - y"
  by (simp_all add: prefill_one_req_def)

section \<open>Admission\<close>

text \<open>What one call may do: nothing, or add one request and take one lock on its node.\<close>

definition unchanged :: "radix_cache \<Rightarrow> prefill_adder \<Rightarrow> node_id multiset \<Rightarrow> radix_cache \<Rightarrow> prefill_adder \<Rightarrow> bool" where
  "unchanged c a refs c' a' \<longleftrightarrow>
     a' = a \<and> radix_inv c' refs \<and> same_env c c' \<and> evictable_size c' = evictable_size c \<and> live c' = live c"

text \<open>
  \<open>runs_as r a r' a'\<close>: the request runs as it is, or a chunk of it runs and it becomes the new
  chunked request.
\<close>

definition chunk_of :: "req \<Rightarrow> int \<Rightarrow> req" where
  "chunk_of r k =
     r\<lparr>extend_input_len := k, fill_ids := Some (py_to (the (fill_ids r)) (int (length (prefix_indices r)) + k))\<rparr>"

definition runs_as :: "req \<Rightarrow> prefill_adder \<Rightarrow> req \<Rightarrow> prefill_adder \<Rightarrow> bool" where
  "runs_as r a r' a' \<longleftrightarrow>
     r' = r \<and> new_chunked_req a' = new_chunked_req a \<or>
     (\<exists>k. 0 < k \<and> k \<le> extend_input_len r \<and> r' = chunk_of r k \<and> new_chunked_req a' = Some r' \<and>
        (\<exists>t>0. rem_chunk_tokens a = Some t))"

definition admitted ::
  "radix_cache \<Rightarrow> prefill_adder \<Rightarrow> node_id multiset \<Rightarrow> req \<Rightarrow> node_id \<Rightarrow> radix_cache \<Rightarrow> prefill_adder \<Rightarrow> bool" where
  "admitted c a refs r n c' a' \<longleftrightarrow>
     (\<exists>r' used. can_run_list a' = can_run_list a @ [r'] \<and> runs_as r a r' a' \<and>
        radix_inv c' (add_mset n refs) \<and> same_env c c' \<and> live c' = live c \<and>
        rem_total_token_offset a + of_int used \<le> rem_total_token_offset a' \<and>
        - of_nat (page_size c) < rem_total_tokens c' a' \<and>
        rem_chunk_tokens a' = map_option (\<lambda>t. t - used) (rem_chunk_tokens a) \<and>
        (\<forall>t. rem_chunk_tokens a = Some t \<longrightarrow> used \<le> t) \<and> extend_input_len r' \<le> used \<and>
        used < extend_input_len r' + int (page_size c))"

lemma add_locked_spec:
  assumes inv: "radix_inv c rs" and on: "\<not> cache_disable c" and n: "n \<in> live c" and f: "fill_ids r = Some ids"
    and mx: "0 \<le> new_tokens_of r"
  shows "(\<exists>res. add_locked c a r n = Some (Some res, a, c)) \<or>
    (\<exists>a' d c1 r' used. add_locked c a r n = Some (None, a', c1) \<and> inc_lock_ref c n = Some (d, c1) \<and>
       can_run_list a' = can_run_list a @ [r'] \<and> runs_as r a r' a' \<and>
       rem_total_token_offset a + of_int used \<le> rem_total_token_offset a' \<and>
       - of_nat (page_size c) < rem_total_tokens c a' \<and>
       rem_chunk_tokens a' = map_option (\<lambda>t. t - used) (rem_chunk_tokens a) \<and>
       (\<forall>t. rem_chunk_tokens a = Some t \<longrightarrow> used \<le> t) \<and> extend_input_len r' \<le> used \<and>
       used < extend_input_len r' + int (page_size c))"
proof -
  have p: "0 < page_size c" using inv wf_basic(1) by (auto simp: radix_inv_def)
  note pc = page_ceil_bounds [OF p, of "extend_input_len r"]
  obtain d c1 where i: "inc_lock_ref c n = Some (d, c1)" by (rule inc_lock_ref_spec [OF inv on n])
  have cl: "0 \<le> clipped_new_tokens r" using mx by (simp add: clipped_new_tokens_def CLIP_MAX_NEW_TOKENS_ESTIMATION_def)
  show ?thesis
  proof (cases "of_int (extend_input_len r + clipped_new_tokens r) > rem_total_tokens c a")
    case True
    then show ?thesis by (simp add: add_locked_def Let_def)
  next
    case room: False
    show ?thesis
    proof (cases "case rem_chunk_tokens a of None \<Rightarrow> True | Some t \<Rightarrow> page_ceil c (extend_input_len r) \<le> t")
      case True
      let ?a = "prefill_one_req (a\<lparr>can_run_list := can_run_list a @ [r]\<rparr>) (int (length (prefix_indices r)))
          (page_ceil c (extend_input_len r)) (clipped_new_tokens r)"
      have "rem_total_tokens c ?a = rem_total_tokens c a - of_int (page_ceil c (extend_input_len r) + clipped_new_tokens r)"
        by (simp add: rem_total_tokens_def)
      moreover have "(of_int (page_ceil c (extend_input_len r)) :: rat) < of_int (extend_input_len r + int (page_size c))"
        using pc(2) by (simp only: of_int_less_iff)
      ultimately have "- of_nat (page_size c) < rem_total_tokens c ?a" using room by simp
      moreover have "add_locked c a r n = Some (None, ?a, c1)" using room True i by (simp add: add_locked_def Let_def)
      ultimately show ?thesis
        using i pc True cl
        by (intro disjI2 exI [of _ ?a] exI [of _ d] exI [of _ c1] exI [of _ r] exI [of _ "page_ceil c (extend_input_len r)"])
          (auto simp: runs_as_def prefill_one_req_def split: option.splits)
    next
      case False
      then obtain t where t: "rem_chunk_tokens a = Some t" "t < page_ceil c (extend_input_len r)" by (auto split: option.splits)
      let ?tr = "t - int (page_size c) + 1"
      show ?thesis
      proof (cases "?tr \<le> 0")
        case True
        then show ?thesis using room False t by (simp add: add_locked_def Let_def)
      next
        case pos: False
        let ?r = "r\<lparr>extend_input_len := ?tr, fill_ids := Some (py_to ids (int (length (prefix_indices r)) + ?tr))\<rparr>"
        let ?a = "prefill_one_req (a\<lparr>can_run_list := can_run_list a @ [?r], new_chunked_req := Some ?r\<rparr>)
            (int (length (prefix_indices r))) ?tr 0"
        have le: "?tr \<le> extend_input_len r" using t pc(2) by linarith
        have kp: "runs_as r a ?r ?a"
          unfolding runs_as_def using pos le f t p by (intro disjI2 exI [of _ ?tr]) (auto simp: chunk_of_def prefill_one_req_def)
        have "(of_int ?tr :: rat) \<le> of_int (extend_input_len r + clipped_new_tokens r)"
          using cl le by (simp only: of_int_le_iff)
        moreover have "rem_total_tokens c ?a = rem_total_tokens c a - of_int ?tr" by (simp add: rem_total_tokens_def)
        moreover have "(0::rat) < of_nat (page_size c)" using p by simp
        ultimately have "- of_nat (page_size c) < rem_total_tokens c ?a" using room by linarith
        moreover have "add_locked c a r n = Some (None, ?a, c1)"
          using room False pos t i f by (simp add: add_locked_def Let_def)
        ultimately show ?thesis
          using i t p kp
          by (intro disjI2 exI [of _ ?a] exI [of _ d] exI [of _ c1] exI [of _ ?r] exI [of _ ?tr]) auto
      qed
    qed
  qed
qed

lemma add_one_req_spec:
  assumes "radix_inv c refs" and "\<not> cache_disable c" and "last_node r = Some n" and "n \<in> live c"
    and "fill_ids r = Some ids" and "0 \<le> new_tokens_of r" and "max_new_tokens (r_params r) \<noteq> None"
  shows "\<exists>res a' c'. add_one_req c a r = Some (res, a', c') \<and>
    (unchanged c a refs c' a' \<or> admitted c a refs r n c' a')"
proof (cases "of_int (extend_input_len r + clipped_new_tokens r) \<ge> rem_total_tokens c a \<or>
    page_ceil c (extend_input_len r) > rem_input_tokens a \<and> can_run_list a \<noteq> []")
  case True
  then have "\<exists>res. add_one_req c a r = Some (res, a, c)" using assms(2,7) by (auto simp add: add_one_req_def Let_def)
  then obtain res where "add_one_req c a r = Some (res, a, c)" ..
  then show ?thesis using assms(1) by (auto simp: unchanged_def same_env_def)
next
  case False
  obtain d c1 where i: "inc_lock_ref c n = Some (d, c1)" "radix_inv c1 (add_mset n refs)" "same_env c c1"
    "live c1 = live c" "path_of c1 = path_of c" "\<forall>m. nval (nodes c1 m) = nval (nodes c m)"
    by (rule inc_lock_ref_spec [OF assms(1,2,4)])
  have c1: "\<not> cache_disable c1" "n \<in> live c1" "page_size c1 = page_size c" "kv_pool c1 = kv_pool c"
    using i(3,4) assms(2,4) by (auto simp: same_env_def)
  have step: "add_one_req c a r = Option.bind (add_locked c1 a r n) (\<lambda>(res, a2, c2).
      Option.bind (dec_lock_ref c2 n) (\<lambda>(d2, c3). Some (case res of Some x \<Rightarrow> x | None \<Rightarrow> budget_state c3 a2, a2, c3)))"
    using False assms(2,3,7) i(1) by (auto simp: add_one_req_def Let_def)
  have nin: "n \<in># add_mset n rs" for rs by simp
  consider res where "add_locked c1 a r n = Some (Some res, a, c1)" |
    a' d2 c2 r' used where "add_locked c1 a r n = Some (None, a', c2)" "inc_lock_ref c1 n = Some (d2, c2)"
       "can_run_list a' = can_run_list a @ [r']" "runs_as r a r' a'"
       "rem_total_token_offset a + of_int used \<le> rem_total_token_offset a'" "- of_nat (page_size c1) < rem_total_tokens c1 a'"
       "rem_chunk_tokens a' = map_option (\<lambda>t. t - used) (rem_chunk_tokens a)"
       "\<forall>t. rem_chunk_tokens a = Some t \<longrightarrow> used \<le> t" "extend_input_len r' \<le> used"
       "used < extend_input_len r' + int (page_size c1)"
    using add_locked_spec [OF i(2) c1(1,2) assms(5,6), of a] by blast
  then show ?thesis
  proof cases
    case 1
    obtain e c3 where u: "dec_lock_ref c1 n = Some (e, c3)" "radix_inv c3 (add_mset n refs - {#n#})" "same_env c1 c3"
      "live c3 = live c1" "path_of c3 = path_of c1" "\<forall>m. nval (nodes c3 m) = nval (nodes c1 m)"
      by (rule dec_lock_ref_spec [OF i(2) c1(1) nin])
    have "evictable_sz c3 = evictable_sz c"
      using sizes_determined(1) [OF assms(1), of c3] u i by (simp add: same_env_def)
    then have "unchanged c a refs c3 a"
      using u(2-4) i(3,4) by (simp add: unchanged_def evictable_size_def same_env_def)
    then show ?thesis using step 1 u(1) by auto
  next
    case 2
    obtain d3 c2' where l: "inc_lock_ref c1 n = Some (d3, c2')" "radix_inv c2' (add_mset n (add_mset n refs))" "same_env c1 c2'"
      "live c2' = live c1" "path_of c2' = path_of c1" "\<forall>m. nval (nodes c2' m) = nval (nodes c1 m)"
      by (rule inc_lock_ref_spec [OF i(2) c1(1,2)])
    have l2: "c2' = c2" using l(1) 2(2) by simp
    have on2: "\<not> cache_disable c2" using l(3) l2 c1(1) by (simp add: same_env_def)
    obtain e c3 where u: "dec_lock_ref c2 n = Some (e, c3)" "radix_inv c3 (add_mset n (add_mset n refs) - {#n#})"
      "same_env c2 c3" "live c3 = live c2" "path_of c3 = path_of c2" "\<forall>m. nval (nodes c3 m) = nval (nodes c2 m)"
      by (rule dec_lock_ref_spec [OF l(2) [unfolded l2] on2 nin])
    have "evictable_sz c3 = evictable_sz c1"
      using sizes_determined(1) [OF i(2), of c3] u l l2 by (simp add: same_env_def)
    then have "rem_total_tokens c3 a' = rem_total_tokens c1 a'"
      using u(3) l(3) l2 by (simp add: rem_total_tokens_def evictable_size_def same_env_def)
    then have "admitted c a refs r n c3 a'"
      using 2(3-10) u(2-4) l(3,4) i(3,4) l2 c1(3,4) unfolding admitted_def
      by (intro exI [of _ r'] exI [of _ used]) (simp add: same_env_def)
    then show ?thesis using step 2(1) u(1) by auto
  qed
qed

section \<open>Properties\<close>

text \<open>
  C18: \<open>add_one_req\<close> either leaves the adder and the cache as they were, or adds the request and
  leaves exactly one new lock on its tree node. An added request never over-commits the KV pool:
  the free and evictable slots cover everything reserved so far, up to the padding of the last
  page; and it stays within the chunk budget.
\<close>

theorem add_one_req_admission:
  assumes "radix_inv c refs" and "\<not> cache_disable c" and "last_node r = Some n" and "n \<in> live c"
    and "fill_ids r = Some ids" and "0 \<le> new_tokens_of r" and "max_new_tokens (r_params r) \<noteq> None"
  shows "\<exists>res a' c'. add_one_req c a r = Some (res, a', c') \<and>
    (unchanged c a refs c' a' \<or> admitted c a refs r n c' a')"
  by (rule add_one_req_spec [OF assms])

theorem add_one_req_admission_witness:
  "\<exists>res a' c'. add_one_req demo_cache (prefill_adder_init None 1 100 (Some 50) 0)
      (demo_req\<lparr>fill_ids := Some [7, 8, 5, 6], extend_input_len := 4\<rparr>) = Some (res, a', c') \<and>
    (unchanged demo_cache (prefill_adder_init None 1 100 (Some 50) 0) {#} c' a' \<or>
     admitted demo_cache (prefill_adder_init None 1 100 (Some 50) 0) {#}
       (demo_req\<lparr>fill_ids := Some [7, 8, 5, 6], extend_input_len := 4\<rparr>) (root_node demo_cache) c' a')"
  by (rule add_one_req_admission [OF demo_inv(1,2) _ demo_root])
    (simp_all add: demo_req_def req_init_def new_tokens_of_def default_params_def)

text \<open>
  A request that is being prefilled in chunks takes no more than the chunk budget; it is
  returned for another round exactly if something of it is left, and the tokens kept for this
  round are its prefix and the admitted part.
\<close>

lemma add_chunked_req_budget:
  assumes "rem_chunk_tokens a = Some t" and "0 \<le> t" and "fill_ids r = Some ids"
    and "extend_input_len r = int (length ids) - int (length (prefix_indices r))" and "0 \<le> extend_input_len r"
  shows "\<exists>rest a' r'. add_chunked_req a r = Inr (rest, a') \<and> can_run_list a' = can_run_list a @ [r'] \<and>
    rem_chunk_tokens a' = Some (t - extend_input_len r') \<and> extend_input_len r' \<le> t \<and>
    fill_ids r' = Some (take (length (prefix_indices r) + nat (extend_input_len r')) ids) \<and>
    (rest = None \<longleftrightarrow> fill_ids r' = Some ids) \<and> (rest \<noteq> None \<longrightarrow> rest = Some r')"
proof -
  let ?ext = "min (extend_input_len r) t" and ?pl = "length (prefix_indices r)"
  let ?r = "r\<lparr>extend_input_len := ?ext, fill_ids := Some (py_to ids (int ?pl + ?ext))\<rparr>"
  have take: "py_to ids (int ?pl + ?ext) = take (?pl + nat ?ext) ids"
    using assms(2,5) by (simp add: py_to_nonneg nat_add_distrib)
  have whole: "take (?pl + nat ?ext) ids = ids \<longleftrightarrow> \<not> extend_input_len r > t"
  proof -
    have "take (?pl + nat ?ext) ids = ids \<longleftrightarrow> length ids \<le> ?pl + nat ?ext" by simp
    then show ?thesis using assms(2,4,5) by (auto simp: min_def)
  qed
  show ?thesis
    using assms(1,3) take whole
    by (intro exI [of _ "if extend_input_len r > t then Some ?r else None"]
        exI [of _ "prefill_one_req (a\<lparr>can_run_list := can_run_list a @ [?r]\<rparr>) 0 ?ext
          (if \<not> extend_input_len r > t then clipped_new_tokens r else 0)"] exI [of _ ?r])
      (auto simp: add_chunked_req_def Let_def)
qed

text \<open>
  The insertion into the sorted list of request states does not keep it sorted: an entry
  larger than all others is put before the last entry instead of after it.
\<close>

lemma insert_sort_misplaces_maximum:
  assumes "state_of a r = (l, occ)" and "0 < l" and "states \<noteq> []" and "\<forall>s\<in>set states. fst s < l"
  shows "add_req_state a states r True = butlast states @ [(l, occ), last states] \<and>
    \<not> sorted (map fst (add_req_state a states r True))"
proof -
  have idx: "insert_index states l = length states - 1"
    using assms(3,4) by (induction states l rule: insert_index.induct) (auto simp: not_le)
  have "drop (length states - 1) states = [last states]"
    using assms(3) by (metis append_butlast_last_id append_eq_conv_conj length_butlast)
  then have e: "add_req_state a states r True = butlast states @ [(l, occ), last states]"
    using assms(1,2) by (simp add: add_req_state_def insert_at_def idx butlast_conv_take)
  have "fst (last states) < l" using assms(3,4) by simp
  then show ?thesis unfolding e by (simp add: sorted_append)
qed

end
