(* ===== verification/Penalty.thy ===== *)
theory Penalty
  imports Req
begin

text \<open>
  \<open>sampling/penaltylib\<close>: the batched penalizers and their orchestrator. A tensor with one row per
  request is a list of rows; a logit is a rational or \<open>None\<close> for minus infinity (rounding of the
  device is not modelled). The tensors of a penalizer exist while \<open>_is_prepared\<close> is set, so a
  penalizer is an option: stale tensors of a penalizer that was torn down are never read.
  The interface locale states what the orchestrator relies on, and tracks through every batch
  operation which request a row belongs to.
\<close>

type_synonym logit = "rat option"

definition logit_sub :: "logit \<Rightarrow> rat \<Rightarrow> logit" where
  "logit_sub l x = map_option (\<lambda>y. y - x) l"

definition logit_add :: "logit \<Rightarrow> logit \<Rightarrow> logit" where
  "logit_add l m = (case (l, m) of (Some x, Some y) \<Rightarrow> Some (x + y) | _ \<Rightarrow> None)"

text \<open>\<open>tensor[keep_indices]\<close> for the indices of a batch.\<close>

definition take_rows :: "nat list \<Rightarrow> 'a list \<Rightarrow> 'a list" where
  "take_rows ks xs = map ((!) xs) ks"

lemma length_take_rows [simp]: "length (take_rows ks xs) = length ks"
  by (simp add: take_rows_def)

lemma take_rows_zip:
  assumes "\<forall>k\<in>set ks. k < length xs \<and> k < length ys"
  shows "take_rows ks (zip xs ys) = zip (take_rows ks xs) (take_rows ks ys)"
  using assms by (induction ks) (simp_all add: take_rows_def)

lemma take_rows_map: "\<forall>k\<in>set ks. k < length xs \<Longrightarrow> take_rows ks (map f xs) = map f (take_rows ks xs)"
  by (simp add: take_rows_def)

section \<open>The wrapper class\<close>

text \<open>
  \<open>_BatchedPenalizer\<close>, over the methods of a subclass. \<open>merge\<close> also prepares the other
  penalizer, whose batch is given up afterwards.
\<close>

definition pen_prepare :: "(req list \<Rightarrow> 'p result) \<Rightarrow> req list \<Rightarrow> 'p option \<Rightarrow> 'p option result" where
  "pen_prepare prep reqs p =
     (case p of Some x \<Rightarrow> Inr p | None \<Rightarrow> bind_result (prep reqs) (\<lambda>x. Inr (Some x)))"

definition prepare_if_required ::
  "(req \<Rightarrow> bool) \<Rightarrow> (req list \<Rightarrow> 'p result) \<Rightarrow> req list \<Rightarrow> 'p option \<Rightarrow> (bool \<times> 'p option) result" where
  "prepare_if_required required prep reqs p =
     (if list_ex required reqs then bind_result (pen_prepare prep reqs p) (\<lambda>p'. Inr (True, p'))
      else Inr (False, p))"

definition pen_teardown :: "'p option \<Rightarrow> 'p option" where
  "pen_teardown p = None"

definition pen_cumulate :: "(token list \<Rightarrow> 'p \<Rightarrow> 'p result) \<Rightarrow> token list \<Rightarrow> 'p option \<Rightarrow> 'p option result" where
  "pen_cumulate cum ids p =
     (case p of None \<Rightarrow> Inr None | Some x \<Rightarrow> bind_result (cum ids x) (\<lambda>y. Inr (Some y)))"

definition pen_apply :: "('p \<Rightarrow> logit list list \<Rightarrow> logit list list) \<Rightarrow> 'p option \<Rightarrow> logit list list \<Rightarrow> logit list list" where
  "pen_apply app p logits = (case p of None \<Rightarrow> logits | Some x \<Rightarrow> app x logits)"

definition pen_filter :: "(nat list \<Rightarrow> 'p \<Rightarrow> 'p) \<Rightarrow> nat list \<Rightarrow> 'p option \<Rightarrow> 'p option" where
  "pen_filter filt ks p = map_option (filt ks) p"

definition pen_merge ::
  "('p \<Rightarrow> 'p \<Rightarrow> 'p) \<Rightarrow> (req list \<Rightarrow> 'p result) \<Rightarrow> req list \<Rightarrow> 'p option \<Rightarrow>
   (req list \<Rightarrow> 'p result) \<Rightarrow> req list \<Rightarrow> 'p option \<Rightarrow> 'p option result" where
  "pen_merge mrg prep reqs p prep' reqs' q =
     (if p = None \<and> q = None then Inr None
      else
        bind_result (pen_prepare prep reqs p) (\<lambda>p'.
        bind_result (pen_prepare prep' reqs' q) (\<lambda>q'.
          Inr (case (p', q') of (Some x, Some y) \<Rightarrow> Some (mrg x y) | _ \<Rightarrow> None))))"

section \<open>The penalizers\<close>

text \<open>\<open>scatter_add_\<close> and \<open>scatter_\<close> along the vocabulary: an index out of range raises.\<close>

definition scatter :: "('a \<Rightarrow> 'b \<Rightarrow> 'a) \<Rightarrow> token list \<Rightarrow> 'b list \<Rightarrow> 'a list list \<Rightarrow> 'a list list result" where
  "scatter f ids src rows =
     (if length ids = length rows \<and> list_all2 (\<lambda>t row. 0 \<le> t \<and> t < int (length row)) ids rows
      then Inr (map (\<lambda>(t, s, row). row[nat t := f (row ! nat t) s]) (zip ids (zip src rows)))
      else Inl RuntimeError)"

record freq_penalizer =
  frequency_penalties :: "rat list"
  cumulated_frequency_penalties :: "rat list list"

definition freq_required :: "req \<Rightarrow> bool" where
  "freq_required r \<longleftrightarrow> frequency_penalty (r_params r) \<noteq> 0"

definition freq_prepare :: "nat \<Rightarrow> req list \<Rightarrow> freq_penalizer result" where
  "freq_prepare vocab reqs =
     Inr \<lparr>frequency_penalties = map (\<lambda>r. frequency_penalty (r_params r)) reqs,
          cumulated_frequency_penalties = replicate (length reqs) (replicate vocab 0)\<rparr>"

definition freq_cumulate :: "token list \<Rightarrow> freq_penalizer \<Rightarrow> freq_penalizer result" where
  "freq_cumulate ids p =
     bind_result (scatter (+) ids (frequency_penalties p) (cumulated_frequency_penalties p))
       (\<lambda>c. Inr (p\<lparr>cumulated_frequency_penalties := c\<rparr>))"

definition freq_apply :: "freq_penalizer \<Rightarrow> logit list list \<Rightarrow> logit list list" where
  "freq_apply p logits = map2 (map2 logit_sub) logits (cumulated_frequency_penalties p)"

definition freq_filter :: "nat list \<Rightarrow> freq_penalizer \<Rightarrow> freq_penalizer" where
  "freq_filter ks p =
     \<lparr>frequency_penalties = take_rows ks (frequency_penalties p),
      cumulated_frequency_penalties = take_rows ks (cumulated_frequency_penalties p)\<rparr>"

definition freq_merge :: "freq_penalizer \<Rightarrow> freq_penalizer \<Rightarrow> freq_penalizer" where
  "freq_merge p q =
     \<lparr>frequency_penalties = frequency_penalties p @ frequency_penalties q,
      cumulated_frequency_penalties = cumulated_frequency_penalties p @ cumulated_frequency_penalties q\<rparr>"

record pres_penalizer =
  presence_penalties :: "rat list"
  cumulated_presence_penalties :: "rat list list"

definition pres_required :: "req \<Rightarrow> bool" where
  "pres_required r \<longleftrightarrow> presence_penalty (r_params r) \<noteq> 0"

definition pres_prepare :: "nat \<Rightarrow> req list \<Rightarrow> pres_penalizer result" where
  "pres_prepare vocab reqs =
     Inr \<lparr>presence_penalties = map (\<lambda>r. presence_penalty (r_params r)) reqs,
          cumulated_presence_penalties = replicate (length reqs) (replicate vocab 0)\<rparr>"

definition pres_cumulate :: "token list \<Rightarrow> pres_penalizer \<Rightarrow> pres_penalizer result" where
  "pres_cumulate ids p =
     bind_result (scatter (\<lambda>_ s. s) ids (presence_penalties p) (cumulated_presence_penalties p))
       (\<lambda>c. Inr (p\<lparr>cumulated_presence_penalties := c\<rparr>))"

definition pres_apply :: "pres_penalizer \<Rightarrow> logit list list \<Rightarrow> logit list list" where
  "pres_apply p logits = map2 (map2 logit_sub) logits (cumulated_presence_penalties p)"

definition pres_filter :: "nat list \<Rightarrow> pres_penalizer \<Rightarrow> pres_penalizer" where
  "pres_filter ks p =
     \<lparr>presence_penalties = take_rows ks (presence_penalties p),
      cumulated_presence_penalties = take_rows ks (cumulated_presence_penalties p)\<rparr>"

definition pres_merge :: "pres_penalizer \<Rightarrow> pres_penalizer \<Rightarrow> pres_penalizer" where
  "pres_merge p q =
     \<lparr>presence_penalties = presence_penalties p @ presence_penalties q,
      cumulated_presence_penalties = cumulated_presence_penalties p @ cumulated_presence_penalties q\<rparr>"

record min_penalizer =
  mp_min_new_tokens :: "int list"
  stop_token_penalties :: "logit list list"
  len_output_tokens :: "int list"

definition min_required :: "req \<Rightarrow> bool" where
  "min_required r \<longleftrightarrow> min_new_tokens (r_params r) > 0"

text \<open>
  The stop tokens of a request as a list; a request without tokenizer or end-of-sequence token
  cannot be prepared.
\<close>

definition stop_ids_of :: "req \<Rightarrow> token list result" where
  "stop_ids_of r =
     (case r_tokenizer r of
        None \<Rightarrow> Inl AttributeError
      | Some tk \<Rightarrow>
          (case eos_token_id tk of
             None \<Rightarrow> Inl RuntimeError
           | Some e \<Rightarrow>
               Inr (sorted_list_of_set
                 ((case stop_token_ids (r_params r) of None \<Rightarrow> {} | Some S \<Rightarrow> S) \<union>
                  (case additional_stop_token_ids tk of None \<Rightarrow> {} | Some xs \<Rightarrow> set xs) \<union> {e}))))"

fun all_stop_ids :: "req list \<Rightarrow> token list list result" where
  "all_stop_ids [] = Inr []"
| "all_stop_ids (r # rs) =
     bind_result (stop_ids_of r) (\<lambda>ids. bind_result (all_stop_ids rs) (\<lambda>rest. Inr (ids # rest)))"

definition pad_sequence :: "'a \<Rightarrow> 'a list list \<Rightarrow> 'a list list" where
  "pad_sequence pad xss =
     map (\<lambda>xs. xs @ replicate (fold max (map length xss) 0 - length xs) pad) xss"

text \<open>One row of \<open>zeros(vocab_size + 1).scatter_add_(padded, -inf)[: vocab_size]\<close>.\<close>

definition stop_row :: "nat \<Rightarrow> token list \<Rightarrow> logit list" where
  "stop_row vocab ids =
     take vocab (fold (\<lambda>t row. row[nat t := logit_add (row ! nat t) None]) ids (replicate (vocab + 1) (Some 0)))"

definition min_prepare :: "nat \<Rightarrow> req list \<Rightarrow> min_penalizer result" where
  "min_prepare vocab reqs =
     bind_result (all_stop_ids reqs) (\<lambda>ids.
       if list_all (list_all (\<lambda>t. 0 \<le> t \<and> t \<le> int vocab)) ids then
         Inr \<lparr>mp_min_new_tokens = map (\<lambda>r. min_new_tokens (r_params r)) reqs,
              stop_token_penalties = map (stop_row vocab) (pad_sequence (int vocab) ids),
              len_output_tokens = replicate (length reqs) 0\<rparr>
       else Inl RuntimeError)"

definition min_cumulate :: "token list \<Rightarrow> min_penalizer \<Rightarrow> min_penalizer result" where
  "min_cumulate ids p = Inr (p\<lparr>len_output_tokens := map (\<lambda>n. n + 1) (len_output_tokens p)\<rparr>)"

definition min_apply :: "min_penalizer \<Rightarrow> logit list list \<Rightarrow> logit list list" where
  "min_apply p logits =
     map (\<lambda>(l, n, m, pen). if n < m then map2 logit_add l pen else l)
       (zip logits (zip (len_output_tokens p) (zip (mp_min_new_tokens p) (stop_token_penalties p))))"

definition min_filter :: "nat list \<Rightarrow> min_penalizer \<Rightarrow> min_penalizer" where
  "min_filter ks p =
     \<lparr>mp_min_new_tokens = take_rows ks (mp_min_new_tokens p),
      stop_token_penalties = take_rows ks (stop_token_penalties p),
      len_output_tokens = take_rows ks (len_output_tokens p)\<rparr>"

definition min_merge :: "min_penalizer \<Rightarrow> min_penalizer \<Rightarrow> min_penalizer" where
  "min_merge p q =
     \<lparr>mp_min_new_tokens = mp_min_new_tokens p @ mp_min_new_tokens q,
      stop_token_penalties = stop_token_penalties p @ stop_token_penalties q,
      len_output_tokens = len_output_tokens p @ len_output_tokens q\<rparr>"

section \<open>The orchestrator\<close>

text \<open>
  Its dictionary holds the three penalizers. \<open>reqs\<close> arguments are \<open>self.batch.reqs\<close> at the time
  of the call: \<open>ScheduleBatch.filter_batch\<close> has replaced it before it filters the orchestrator,
  \<open>merge_batch\<close> extends it only after the merge.
\<close>

record orchestrator =
  vocab_size :: nat
  freq_pen :: "freq_penalizer option"
  min_pen :: "min_penalizer option"
  pres_pen :: "pres_penalizer option"
  is_required :: bool

definition orchestrator_init :: "nat \<Rightarrow> req list \<Rightarrow> orchestrator result" where
  "orchestrator_init vocab reqs =
     bind_result (prepare_if_required freq_required (freq_prepare vocab) reqs None) (\<lambda>(b1, f).
     bind_result (prepare_if_required min_required (min_prepare vocab) reqs None) (\<lambda>(b2, m).
     bind_result (prepare_if_required pres_required (pres_prepare vocab) reqs None) (\<lambda>(b3, q).
       Inr \<lparr>vocab_size = vocab, freq_pen = f, min_pen = m, pres_pen = q, is_required = (b1 \<or> b2 \<or> b3)\<rparr>)))"

definition orch_cumulate :: "orchestrator \<Rightarrow> token list \<Rightarrow> orchestrator result" where
  "orch_cumulate s ids =
     bind_result (pen_cumulate freq_cumulate ids (freq_pen s)) (\<lambda>f.
     bind_result (pen_cumulate min_cumulate ids (min_pen s)) (\<lambda>m.
     bind_result (pen_cumulate pres_cumulate ids (pres_pen s)) (\<lambda>q.
       Inr (s\<lparr>freq_pen := f, min_pen := m, pres_pen := q\<rparr>))))"

definition orch_apply :: "orchestrator \<Rightarrow> logit list list \<Rightarrow> logit list list" where
  "orch_apply s logits =
     pen_apply pres_apply (pres_pen s) (pen_apply min_apply (min_pen s) (pen_apply freq_apply (freq_pen s) logits))"

definition orch_filter :: "orchestrator \<Rightarrow> req list \<Rightarrow> nat list \<Rightarrow> orchestrator" where
  "orch_filter s reqs ks =
     (if \<not> is_required s then s
      else if ks = [] then
        s\<lparr>is_required := False, freq_pen := pen_teardown (freq_pen s),
          min_pen := pen_teardown (min_pen s), pres_pen := pen_teardown (pres_pen s)\<rparr>
      else
        (let b1 = list_ex freq_required reqs; b2 = list_ex min_required reqs; b3 = list_ex pres_required reqs
         in s\<lparr>is_required := (b1 \<or> b2 \<or> b3),
              freq_pen := (if b1 then pen_filter freq_filter ks else pen_teardown) (freq_pen s),
              min_pen := (if b2 then pen_filter min_filter ks else pen_teardown) (min_pen s),
              pres_pen := (if b3 then pen_filter pres_filter ks else pen_teardown) (pres_pen s)\<rparr>))"

definition orch_merge :: "orchestrator \<Rightarrow> req list \<Rightarrow> orchestrator \<Rightarrow> req list \<Rightarrow> orchestrator result" where
  "orch_merge s reqs their reqs' =
     (if \<not> is_required s \<and> \<not> is_required their then Inr s
      else
        (let v = vocab_size s; v' = vocab_size their in
         bind_result (pen_merge freq_merge (freq_prepare v) reqs (freq_pen s) (freq_prepare v') reqs' (freq_pen their)) (\<lambda>f.
         bind_result (pen_merge min_merge (min_prepare v) reqs (min_pen s) (min_prepare v') reqs' (min_pen their)) (\<lambda>m.
         bind_result (pen_merge pres_merge (pres_prepare v) reqs (pres_pen s) (pres_prepare v') reqs' (pres_pen their)) (\<lambda>q.
           Inr (s\<lparr>is_required := True, freq_pen := f, min_pen := m, pres_pen := q\<rparr>))))))"

section \<open>The interface of a batched penalizer\<close>

text \<open>
  \<open>rows p\<close> is the state of penalizer \<open>p\<close> per request. A row that is neutral never changes the
  logits: the rows of requests that do not ask for the penalty are neutral.
\<close>

locale batched_penalizer =
  fixes required :: "req \<Rightarrow> bool"
    and prep :: "nat \<Rightarrow> req list \<Rightarrow> 'p result"
    and cum :: "token list \<Rightarrow> 'p \<Rightarrow> 'p result"
    and app :: "'p \<Rightarrow> logit list list \<Rightarrow> logit list list"
    and filt :: "nat list \<Rightarrow> 'p \<Rightarrow> 'p"
    and mrg :: "'p \<Rightarrow> 'p \<Rightarrow> 'p"
    and rows :: "'p \<Rightarrow> 'r list"
    and row0 :: "nat \<Rightarrow> req \<Rightarrow> 'r"
    and step :: "token \<Rightarrow> 'r \<Rightarrow> 'r"
    and act :: "'r \<Rightarrow> logit list \<Rightarrow> logit list"
    and good :: "'p \<Rightarrow> bool"
    and neutral :: "nat \<Rightarrow> 'r \<Rightarrow> bool"
  assumes prep_rows: "prep v reqs = Inr p \<Longrightarrow> good p \<and> rows p = map (row0 v) reqs"
    and cum_rows: "good p \<Longrightarrow> length ids = length (rows p) \<Longrightarrow> cum ids p = Inr p' \<Longrightarrow>
      good p' \<and> rows p' = map2 step ids (rows p)"
    and app_rows: "good p \<Longrightarrow> length logits = length (rows p) \<Longrightarrow> app p logits = map2 act (rows p) logits"
    and filt_rows: "good p \<Longrightarrow> \<forall>k\<in>set ks. k < length (rows p) \<Longrightarrow>
      good (filt ks p) \<and> rows (filt ks p) = take_rows ks (rows p)"
    and mrg_rows: "good p \<Longrightarrow> good q \<Longrightarrow> good (mrg p q) \<and> rows (mrg p q) = rows p @ rows q"
    and neutral_row0: "\<not> required r \<Longrightarrow> neutral v (row0 v r)"
    and neutral_step: "neutral v x \<Longrightarrow> neutral v (step t x)"
    and neutral_act: "neutral v x \<Longrightarrow> length l = v \<Longrightarrow> act x l = l"
begin

text \<open>
  \<open>h\<close> lists the requests of the batch with the tokens fed for each since it joined a prepared
  batch; a penalizer follows it when every row is the one of its request.
\<close>

definition row_of :: "nat \<Rightarrow> req \<times> token list \<Rightarrow> 'r \<Rightarrow> bool" where
  "row_of v e x = (case e of (r, ts) \<Rightarrow> if required r then x = fold step ts (row0 v r) else neutral v x)"

definition follows :: "nat \<Rightarrow> (req \<times> token list) list \<Rightarrow> 'p option \<Rightarrow> bool" where
  "follows v h p =
     (case p of
        None \<Rightarrow> \<forall>e\<in>set h. \<not> required (fst e)
      | Some x \<Rightarrow> good x \<and> list_all2 (row_of v) h (rows x))"

lemma follows_prepare:
  assumes "pen_prepare (prep v) (map fst h) p = Inr p'" and "follows v h p"
  shows "follows v h p' \<and> p' \<noteq> None"
proof (cases p)
  case None
  then obtain x where x: "prep v (map fst h) = Inr x" "p' = Some x"
    using assms(1) by (auto simp: pen_prepare_def bind_result_def split: sum.splits)
  have "list_all2 (row_of v) h (map (row0 v) (map fst h))"
    using assms(2) None neutral_row0 by (auto simp: follows_def list_all2_map2 row_of_def intro!: list.rel_refl_strong)
  then show ?thesis using prep_rows [OF x(1)] x(2) by (simp add: follows_def)
next
  case (Some x)
  then show ?thesis using assms by (auto simp: pen_prepare_def)
qed

lemma follows_init:
  assumes "prepare_if_required required (prep v) reqs None = Inr (b, p)"
  shows "follows v (map (\<lambda>r. (r, [])) reqs) p \<and> (b \<longleftrightarrow> p \<noteq> None)"
proof (cases "list_ex required reqs")
  case True
  then obtain x where x: "prep v reqs = Inr x" "p = Some x" "b"
    using assms by (auto simp: prepare_if_required_def pen_prepare_def bind_result_def split: sum.splits)
  have "list_all2 (row_of v) (map (\<lambda>r. (r, [])) reqs) (map (row0 v) reqs)"
    using neutral_row0 by (auto simp: list_all2_map1 list_all2_map2 row_of_def intro!: list.rel_refl_strong)
  then show ?thesis using prep_rows [OF x(1)] x by (simp add: follows_def)
next
  case False
  then show ?thesis using assms by (auto simp: prepare_if_required_def follows_def list_ex_iff)
qed

lemma follows_cumulate:
  assumes "follows v h p" and "length ids = length h" and "pen_cumulate cum ids p = Inr p'"
  shows "follows v (map2 (\<lambda>(r, ts) t. (r, ts @ [t])) h ids) p' \<and> (p' = None \<longleftrightarrow> p = None)"
proof (cases p)
  case None
  then show ?thesis using assms by (auto simp: pen_cumulate_def follows_def dest!: set_zip_leftD)
next
  case (Some x)
  then obtain y where y: "cum ids x = Inr y" "p' = Some y"
    using assms(3) by (auto simp: pen_cumulate_def bind_result_def split: sum.splits)
  have x: "good x" "list_all2 (row_of v) h (rows x)" using assms(1) Some by (simp_all add: follows_def)
  have len: "length ids = length (rows x)" using x(2) assms(2) list_all2_lengthD by fastforce
  note r = cum_rows [OF x(1) len y(1)]
  have "list_all2 (row_of v) (map2 (\<lambda>(r, ts) t. (r, ts @ [t])) h ids) (map2 step ids (rows x))"
    using x(2) len assms(2) neutral_step
    by (auto simp: list_all2_conv_all_nth row_of_def split: prod.splits if_splits)
  then show ?thesis using r y Some by (simp add: follows_def)
qed

lemma follows_filter:
  assumes "follows v h p" and "\<forall>k\<in>set ks. k < length h"
  shows "follows v (take_rows ks h) (pen_filter filt ks p) \<and> (pen_filter filt ks p = None \<longleftrightarrow> p = None)"
proof (cases p)
  case None
  then show ?thesis using assms by (auto simp: pen_filter_def follows_def take_rows_def)
next
  case (Some x)
  have x: "good x" "list_all2 (row_of v) h (rows x)" using assms(1) Some by (simp_all add: follows_def)
  have "\<forall>k\<in>set ks. k < length (rows x)" using assms(2) list_all2_lengthD [OF x(2)] by simp
  note f = filt_rows [OF x(1) this]
  have "list_all2 (row_of v) (take_rows ks h) (take_rows ks (rows x))"
    using x(2) assms(2) by (auto simp: take_rows_def list_all2_conv_all_nth)
  then show ?thesis using f Some by (simp add: follows_def pen_filter_def)
qed

lemma follows_teardown:
  "\<forall>e\<in>set h. \<not> required (fst e) \<Longrightarrow> follows v h (pen_teardown p)"
  by (simp add: follows_def pen_teardown_def)

lemma follows_merge:
  assumes m: "pen_merge mrg (prep v) (map fst h) p (prep v) (map fst h') q = Inr p'"
    and f: "follows v h p" "follows v h' q"
  shows "follows v (h @ h') p'"
proof (cases "p = None \<and> q = None")
  case True
  then show ?thesis using assms by (auto simp: pen_merge_def follows_def)
next
  case False
  obtain x y where xy: "pen_prepare (prep v) (map fst h) p = Inr x" "pen_prepare (prep v) (map fst h') q = Inr y"
    "p' = (case (x, y) of (Some a, Some b) \<Rightarrow> Some (mrg a b) | _ \<Rightarrow> None)"
    using m False by (auto simp: pen_merge_def bind_result_def split: sum.splits)
  have "follows v h x \<and> x \<noteq> None" "follows v h' y \<and> y \<noteq> None"
    by (rule follows_prepare [OF xy(1) f(1)], rule follows_prepare [OF xy(2) f(2)])
  then obtain a b where "x = Some a" "y = Some b" "good a" "good b" "list_all2 (row_of v) h (rows a)"
    "list_all2 (row_of v) h' (rows b)" by (auto simp: follows_def)
  then show ?thesis using mrg_rows [of a b] xy(3) by (simp add: follows_def list_all2_appendI)
qed

lemma follows_apply:
  assumes "follows v h p" and "length logits = length h" and "\<forall>l\<in>set logits. length l = v"
  shows "pen_apply app p logits =
    map2 (\<lambda>(r, ts) l. if required r then act (fold step ts (row0 v r)) l else l) h logits"
proof (cases p)
  case None
  then have n: "\<not> required (fst (h ! i))" if "i < length h" for i using assms(1) that by (simp add: follows_def)
  show ?thesis
    using None assms(2) by (intro nth_equalityI) (simp_all add: pen_apply_def case_prod_beta n)
next
  case (Some x)
  have x: "good x" "list_all2 (row_of v) h (rows x)" using assms(1) Some by (simp_all add: follows_def)
  have len: "length logits = length (rows x)" using assms(2) list_all2_lengthD [OF x(2)] by simp
  have "act (rows x ! i) (logits ! i) =
      (case h ! i of (r, ts) \<Rightarrow> if required r then act (fold step ts (row0 v r)) (logits ! i) else logits ! i)"
    if i: "i < length h" for i
  proof -
    have "row_of v (h ! i) (rows x ! i)" using x(2) i by (simp add: list_all2_nthD)
    moreover have "length (logits ! i) = v" using assms(2,3) i by simp
    ultimately show ?thesis using neutral_act by (auto simp: row_of_def split: prod.splits if_splits)
  qed
  then have "map2 act (rows x) logits =
      map2 (\<lambda>(r, ts) l. if required r then act (fold step ts (row0 v r)) l else l) h logits"
    using len assms(2) by (intro nth_equalityI) (auto simp: case_prod_beta)
  then show ?thesis using app_rows [OF x(1) len] Some by (simp add: pen_apply_def)
qed

end

section \<open>The three penalizers provide it\<close>

lemma scatter_rows:
  assumes "scatter f ids src rows = Inr rows'" and "length src = length rows"
  shows "length ids = length rows \<and> rows' = map2 (\<lambda>t (s, row). row[nat t := f (row ! nat t) s]) ids (zip src rows)"
  using assms by (auto simp: scatter_def split: if_splits)

lemma logit_sub_0 [simp]: "logit_sub l 0 = l"
  by (cases l) (simp_all add: logit_sub_def)

definition sub_row :: "rat \<times> rat list \<Rightarrow> logit list \<Rightarrow> logit list" where
  "sub_row x l = map2 logit_sub l (snd x)"

definition scatter_step :: "(rat \<Rightarrow> rat \<Rightarrow> rat) \<Rightarrow> token \<Rightarrow> rat \<times> rat list \<Rightarrow> rat \<times> rat list" where
  "scatter_step f t x = (case x of (s, row) \<Rightarrow> (s, row[nat t := f (row ! nat t) s]))"

definition zero_row :: "nat \<Rightarrow> rat \<times> rat list \<Rightarrow> bool" where
  "zero_row v x \<longleftrightarrow> x = (0, replicate v 0)"

lemma zero_row_update: "f 0 0 = 0 \<Longrightarrow> zero_row v x \<Longrightarrow> zero_row v (scatter_step f t x)"
proof -
  have "(replicate v (0::rat))[k := 0] = replicate v 0" for k
    by (induction v arbitrary: k) (auto split: nat.split)
  moreover have "(replicate v (0::rat))[k := f (replicate v 0 ! k) 0] = replicate v 0" if "f 0 0 = 0" for k
    using that calculation by (cases "k < v") (auto simp: list_update_beyond)
  ultimately show "f 0 0 = 0 \<Longrightarrow> zero_row v x \<Longrightarrow> zero_row v (scatter_step f t x)"
    by (auto simp: zero_row_def scatter_step_def)
qed

lemma scatter_zip:
  assumes "scatter f ids src rows = Inr rows'" and "length src = length rows"
  shows "length rows' = length rows \<and> zip src rows' = map2 (scatter_step f) ids (zip src rows)"
  using scatter_rows [OF assms] assms(2) by (auto intro!: nth_equalityI simp: scatter_step_def)

lemma sub_rows:
  "length logits = length rows \<Longrightarrow> length src = length rows \<Longrightarrow>
   map2 (map2 logit_sub) logits rows = map2 sub_row (zip src rows) logits"
  by (auto intro!: nth_equalityI simp: sub_row_def)

interpretation fqp: batched_penalizer freq_required freq_prepare freq_cumulate freq_apply freq_filter freq_merge
  "\<lambda>p. zip (frequency_penalties p) (cumulated_frequency_penalties p)"
  "\<lambda>v r. (frequency_penalty (r_params r), replicate v 0)" "scatter_step (+)" sub_row
  "\<lambda>p. length (frequency_penalties p) = length (cumulated_frequency_penalties p)" zero_row
proof unfold_locales
  fix p ids p'
  assume l: "length (frequency_penalties p) = length (cumulated_frequency_penalties p)"
    and c: "freq_cumulate ids p = Inr p'"
  then obtain c' where "scatter (+) ids (frequency_penalties p) (cumulated_frequency_penalties p) = Inr c'"
    "p' = p\<lparr>cumulated_frequency_penalties := c'\<rparr>"
    by (auto simp: freq_cumulate_def bind_result_def split: sum.splits)
  then show "length (frequency_penalties p') = length (cumulated_frequency_penalties p') \<and>
      zip (frequency_penalties p') (cumulated_frequency_penalties p') =
      map2 (scatter_step (+)) ids (zip (frequency_penalties p) (cumulated_frequency_penalties p))"
    using scatter_zip l by fastforce
qed (auto simp: freq_prepare_def freq_apply_def freq_filter_def freq_merge_def freq_required_def zip_append
    take_rows_zip zero_row_def sub_rows zip_replicate2 comp_def zero_row_update [unfolded zero_row_def]
    sub_row_def bind_result_def)

interpretation prp: batched_penalizer pres_required pres_prepare pres_cumulate pres_apply pres_filter pres_merge
  "\<lambda>p. zip (presence_penalties p) (cumulated_presence_penalties p)"
  "\<lambda>v r. (presence_penalty (r_params r), replicate v 0)" "scatter_step (\<lambda>_ s. s)" sub_row
  "\<lambda>p. length (presence_penalties p) = length (cumulated_presence_penalties p)" zero_row
proof unfold_locales
  fix p ids p'
  assume l: "length (presence_penalties p) = length (cumulated_presence_penalties p)"
    and c: "pres_cumulate ids p = Inr p'"
  then obtain c' where "scatter (\<lambda>_ s. s) ids (presence_penalties p) (cumulated_presence_penalties p) = Inr c'"
    "p' = p\<lparr>cumulated_presence_penalties := c'\<rparr>"
    by (auto simp: pres_cumulate_def bind_result_def split: sum.splits)
  then show "length (presence_penalties p') = length (cumulated_presence_penalties p') \<and>
      zip (presence_penalties p') (cumulated_presence_penalties p') =
      map2 (scatter_step (\<lambda>_ s. s)) ids (zip (presence_penalties p) (cumulated_presence_penalties p))"
    using scatter_zip l by fastforce
qed (auto simp: pres_prepare_def pres_apply_def pres_filter_def pres_merge_def pres_required_def zip_append
    take_rows_zip zero_row_def sub_rows zip_replicate2 comp_def zero_row_update [unfolded zero_row_def]
    sub_row_def bind_result_def)

text \<open>The row of the minimum-length penalizer: minimum, number of tokens so far, penalties.\<close>

definition min_rows :: "min_penalizer \<Rightarrow> (int \<times> int \<times> logit list) list" where
  "min_rows p = zip (mp_min_new_tokens p) (zip (len_output_tokens p) (stop_token_penalties p))"

definition min_row0 :: "nat \<Rightarrow> req \<Rightarrow> int \<times> int \<times> logit list" where
  "min_row0 v r =
     (min_new_tokens (r_params r), 0,
      map (\<lambda>k. if (case stop_ids_of r of Inl e \<Rightarrow> False | Inr ids \<Rightarrow> int k \<in> set ids) then None else Some 0) [0..<v])"

definition min_step :: "token \<Rightarrow> int \<times> int \<times> logit list \<Rightarrow> int \<times> int \<times> logit list" where
  "min_step t x = (case x of (m, n, pen) \<Rightarrow> (m, n + 1, pen))"

definition min_act :: "int \<times> int \<times> logit list \<Rightarrow> logit list \<Rightarrow> logit list" where
  "min_act x l = (case x of (m, n, pen) \<Rightarrow> if n < m then map2 logit_add l pen else l)"

definition min_good :: "min_penalizer \<Rightarrow> bool" where
  "min_good p \<longleftrightarrow>
     length (mp_min_new_tokens p) = length (len_output_tokens p) \<and>
     length (stop_token_penalties p) = length (len_output_tokens p)"

definition min_idle :: "nat \<Rightarrow> int \<times> int \<times> logit list \<Rightarrow> bool" where
  "min_idle v x \<longleftrightarrow> fst x \<le> 0 \<and> 0 \<le> fst (snd x)"

lemma scatter_inf:
  assumes "\<forall>t\<in>set ids. 0 \<le> t \<and> t \<le> int v" and "length row = v + 1" and "k < v + 1"
  shows "fold (\<lambda>t row. row[nat t := logit_add (row ! nat t) None]) ids row ! k =
    (if int k \<in> set ids then None else row ! k) \<and>
    length (fold (\<lambda>t row. row[nat t := logit_add (row ! nat t) None]) ids row) = v + 1"
  using assms
proof (induction ids arbitrary: row)
  case (Cons t ids)
  have inf: "logit_add x None = None" for x by (cases x) (simp_all add: logit_add_def)
  show ?case
    using Cons.IH [of "row[nat t := None]"] Cons.prems by (auto simp: inf nth_list_update)
qed simp

lemma stop_row_padded:
  assumes "\<forall>t\<in>set ids. 0 \<le> t \<and> t \<le> int v"
  shows "stop_row v (ids @ replicate n (int v)) = map (\<lambda>k. if int k \<in> set ids then None else Some 0) [0..<v]"
proof -
  have a: "\<forall>t\<in>set (ids @ replicate n (int v)). 0 \<le> t \<and> t \<le> int v" using assms by auto
  let ?row = "fold (\<lambda>t row. row[nat t := logit_add (row ! nat t) None]) (ids @ replicate n (int v)) (replicate (v + 1) (Some 0))"
  have len: "length ?row = v + 1" using scatter_inf [OF a, of "replicate (v + 1) (Some 0)" 0] by simp
  have "?row ! k = (if int k \<in> set ids then None else Some 0)" if "k < v" for k
    using scatter_inf [OF a, of "replicate (v + 1) (Some 0)" k] that by (simp del: replicate_Suc fold_append)
  then show ?thesis
    unfolding stop_row_def using len by (intro nth_equalityI) (simp_all del: fold_append)
qed

lemma all_stop_ids_rows:
  assumes "all_stop_ids reqs = Inr ids"
  shows "length ids = length reqs \<and> (\<forall>i<length reqs. stop_ids_of (reqs ! i) = Inr (ids ! i))"
  using assms
proof (induction reqs arbitrary: ids)
  case (Cons r reqs)
  then show ?case by (auto simp: bind_result_def nth_Cons split: sum.splits nat.splits)
qed simp

lemma min_prepare_rows:
  assumes "min_prepare v reqs = Inr p"
  shows "min_good p \<and> min_rows p = map (min_row0 v) reqs"
proof -
  obtain ids where ids: "all_stop_ids reqs = Inr ids" "\<forall>xs\<in>set ids. \<forall>t\<in>set xs. 0 \<le> t \<and> t \<le> int v"
    "p = \<lparr>mp_min_new_tokens = map (\<lambda>r. min_new_tokens (r_params r)) reqs,
          stop_token_penalties = map (stop_row v) (pad_sequence (int v) ids),
          len_output_tokens = replicate (length reqs) 0\<rparr>"
    using assms by (auto simp: min_prepare_def bind_result_def list_all_iff split: sum.splits if_splits)
  note r = all_stop_ids_rows [OF ids(1)]
  have "min_rows p ! i = min_row0 v (reqs ! i)" if "i < length reqs" for i
  proof -
    have "\<forall>t\<in>set (ids ! i). 0 \<le> t \<and> t \<le> int v" using r that ids(2) by (metis nth_mem)
    then show ?thesis
      using r that ids(3) stop_row_padded [of "ids ! i" v] by (simp add: min_rows_def min_row0_def pad_sequence_def)
  qed
  then show ?thesis
    using r ids(3) by (auto simp: min_good_def min_rows_def pad_sequence_def intro!: nth_equalityI)
qed

interpretation mnp: batched_penalizer min_required min_prepare min_cumulate min_apply min_filter min_merge
  min_rows min_row0 min_step min_act min_good min_idle
proof unfold_locales
  fix v reqs p
  assume "min_prepare v reqs = Inr p"
  then show "min_good p \<and> min_rows p = map (min_row0 v) reqs" by (rule min_prepare_rows)
next
  fix p and logits :: "logit list list"
  assume "min_good p" "length logits = length (min_rows p)"
  then show "min_apply p logits = map2 min_act (min_rows p) logits"
    by (auto simp: min_apply_def min_rows_def min_good_def min_act_def intro!: nth_equalityI)
next
  fix p ks
  assume "min_good p" "\<forall>k\<in>set ks. k < length (min_rows p)"
  then show "min_good (min_filter ks p) \<and> min_rows (min_filter ks p) = take_rows ks (min_rows p)"
    by (auto simp: min_good_def min_rows_def min_filter_def take_rows_def intro!: nth_equalityI)
next
  fix p ids p'
  assume "min_good p" "length ids = length (min_rows p)" "min_cumulate ids p = Inr p'"
  then show "min_good p' \<and> min_rows p' = map2 min_step ids (min_rows p)"
    by (auto simp: min_good_def min_rows_def min_cumulate_def min_step_def intro!: nth_equalityI)
qed (auto simp: min_good_def min_rows_def min_merge_def min_required_def min_idle_def
    min_row0_def min_step_def min_act_def)

section \<open>The orchestrator follows its batch\<close>

definition orch_follows :: "nat \<Rightarrow> (req \<times> token list) list \<Rightarrow> orchestrator \<Rightarrow> bool" where
  "orch_follows v h s \<longleftrightarrow>
     vocab_size s = v \<and> fqp.follows v h (freq_pen s) \<and> mnp.follows v h (min_pen s) \<and> prp.follows v h (pres_pen s) \<and>
     (\<not> is_required s \<longrightarrow> freq_pen s = None \<and> min_pen s = None \<and> pres_pen s = None)"

declare orch_follows_def [inv_defs]

lemma follows_None:
  "fqp.follows v h None \<longleftrightarrow> (\<forall>e\<in>set h. \<not> freq_required (fst e))"
  "mnp.follows v h None \<longleftrightarrow> (\<forall>e\<in>set h. \<not> min_required (fst e))"
  "prp.follows v h None \<longleftrightarrow> (\<forall>e\<in>set h. \<not> pres_required (fst e))"
  by (simp_all add: fqp.follows_def mnp.follows_def prp.follows_def)

lemma orch_follows_init:
  assumes "orchestrator_init v reqs = Inr s"
  shows "orch_follows v (map (\<lambda>r. (r, [])) reqs) s"
proof -
  obtain b1 f b2 m b3 q where o: "prepare_if_required freq_required (freq_prepare v) reqs None = Inr (b1, f)"
    "prepare_if_required min_required (min_prepare v) reqs None = Inr (b2, m)"
    "prepare_if_required pres_required (pres_prepare v) reqs None = Inr (b3, q)"
    "s = \<lparr>vocab_size = v, freq_pen = f, min_pen = m, pres_pen = q, is_required = (b1 \<or> b2 \<or> b3)\<rparr>"
    using assms by (auto simp: orchestrator_init_def bind_result_def split: sum.splits prod.splits)
  show ?thesis
    using fqp.follows_init [OF o(1)] mnp.follows_init [OF o(2)] prp.follows_init [OF o(3)] o(4)
    by (auto simp: orch_follows_def)
qed

lemma orch_follows_cumulate:
  assumes "orch_follows v h s" and "length ids = length h" and "orch_cumulate s ids = Inr s'"
  shows "orch_follows v (map2 (\<lambda>(r, ts) t. (r, ts @ [t])) h ids) s'"
proof -
  obtain f m q where o: "pen_cumulate freq_cumulate ids (freq_pen s) = Inr f"
    "pen_cumulate min_cumulate ids (min_pen s) = Inr m" "pen_cumulate pres_cumulate ids (pres_pen s) = Inr q"
    "s' = s\<lparr>freq_pen := f, min_pen := m, pres_pen := q\<rparr>"
    using assms(3) by (auto simp: orch_cumulate_def bind_result_def split: sum.splits)
  have s: "fqp.follows v h (freq_pen s)" "mnp.follows v h (min_pen s)" "prp.follows v h (pres_pen s)"
    using assms(1) by (simp_all add: orch_follows_def)
  show ?thesis
    using fqp.follows_cumulate [OF s(1) assms(2) o(1)] mnp.follows_cumulate [OF s(2) assms(2) o(2)]
      prp.follows_cumulate [OF s(3) assms(2) o(3)] o(4) assms(1)
    by (simp add: orch_follows_def)
qed

lemma orch_follows_filter:
  assumes "orch_follows v h s" and ks: "\<forall>k\<in>set ks. k < length h"
  shows "orch_follows v (take_rows ks h) (orch_filter s (map fst (take_rows ks h)) ks)"
proof -
  have s: "fqp.follows v h (freq_pen s)" "mnp.follows v h (min_pen s)" "prp.follows v h (pres_pen s)"
    using assms(1) by (simp_all add: orch_follows_def)
  note f = fqp.follows_filter [OF s(1) ks] mnp.follows_filter [OF s(2) ks] prp.follows_filter [OF s(3) ks]
  show ?thesis
  proof (cases "is_required s")
    case False
    then show ?thesis using assms(1) f by (simp add: orch_follows_def orch_filter_def pen_filter_def)
  next
    case True
    then show ?thesis
      using assms(1) f
      by (auto simp: orch_follows_def orch_filter_def follows_None pen_teardown_def Let_def list_ex_iff take_rows_def)
  qed
qed

lemma orch_follows_merge:
  assumes "orch_follows v h s" and "orch_follows v h' t"
    and "orch_merge s (map fst h) t (map fst h') = Inr s'"
  shows "orch_follows v (h @ h') s'"
proof (cases "is_required s \<or> is_required t")
  case False
  then have s: "s' = s" using assms(3) by (simp add: orch_merge_def)
  have n: "freq_pen s = None" "min_pen s = None" "pres_pen s = None" "freq_pen t = None" "min_pen t = None" "pres_pen t = None"
    using False assms(1,2) by (simp_all add: orch_follows_def)
  show ?thesis using False assms(1,2) s by (simp add: orch_follows_def n follows_None ball_Un)
next
  case True
  have v: "vocab_size s = v" "vocab_size t = v" using assms(1,2) by (simp_all add: orch_follows_def)
  obtain f m q where o: "pen_merge freq_merge (freq_prepare v) (map fst h) (freq_pen s) (freq_prepare v) (map fst h') (freq_pen t) = Inr f"
    "pen_merge min_merge (min_prepare v) (map fst h) (min_pen s) (min_prepare v) (map fst h') (min_pen t) = Inr m"
    "pen_merge pres_merge (pres_prepare v) (map fst h) (pres_pen s) (pres_prepare v) (map fst h') (pres_pen t) = Inr q"
    "s' = s\<lparr>is_required := True, freq_pen := f, min_pen := m, pres_pen := q\<rparr>"
    using assms(3) True by (auto simp: orch_merge_def v bind_result_def split: sum.splits)
  have s: "fqp.follows v h (freq_pen s)" "mnp.follows v h (min_pen s)" "prp.follows v h (pres_pen s)"
    "fqp.follows v h' (freq_pen t)" "mnp.follows v h' (min_pen t)" "prp.follows v h' (pres_pen t)"
    using assms(1,2) by (simp_all add: orch_follows_def)
  show ?thesis
    using fqp.follows_merge [OF o(1) s(1,4)] mnp.follows_merge [OF o(2) s(2,5)] prp.follows_merge [OF o(3) s(3,6)] o(4) v
    by (simp add: orch_follows_def)
qed

section \<open>What the logits become\<close>

definition token_penalty :: "req \<Rightarrow> token list \<Rightarrow> nat \<Rightarrow> rat" where
  "token_penalty r ts k =
     frequency_penalty (r_params r) * of_nat (count_list ts (int k)) +
     (if int k \<in> set ts then presence_penalty (r_params r) else 0)"

definition forbidden :: "req \<Rightarrow> token list \<Rightarrow> nat \<Rightarrow> bool" where
  "forbidden r ts k \<longleftrightarrow>
     int (length ts) < min_new_tokens (r_params r) \<and>
     (case stop_ids_of r of Inl e \<Rightarrow> False | Inr ids \<Rightarrow> int k \<in> set ids)"

definition penalized :: "req \<times> token list \<Rightarrow> logit list \<Rightarrow> logit list" where
  "penalized e l =
     (case e of (r, ts) \<Rightarrow>
        map (\<lambda>k. if forbidden r ts k then None else logit_sub (l ! k) (token_penalty r ts k)) [0..<length l])"

lemma freq_fold:
  assumes "\<forall>t\<in>set ts. 0 \<le> t"
  shows "fold (scatter_step (+)) ts (x, row) =
    (x, map (\<lambda>k. row ! k + x * of_nat (count_list ts (int k))) [0..<length row])"
  using assms
proof (induction ts arbitrary: row)
  case Nil
  then show ?case by (simp add: map_nth)
next
  case (Cons t ts)
  then show ?case
    by (auto simp: scatter_step_def nth_list_update algebra_simps)
qed

lemma pres_fold:
  assumes "\<forall>t\<in>set ts. 0 \<le> t"
  shows "fold (scatter_step (\<lambda>_ s. s)) ts (x, row) =
    (x, map (\<lambda>k. if int k \<in> set ts then x else row ! k) [0..<length row])"
  using assms
proof (induction ts arbitrary: row)
  case Nil
  then show ?case by (simp add: map_nth)
next
  case (Cons t ts)
  then show ?case by (auto simp: scatter_step_def nth_list_update)
qed

lemma min_fold: "fold min_step ts (m, n, pen) = (m, n + int (length ts), pen)"
  by (induction ts arbitrary: n) (simp_all add: min_step_def)

lemma freq_effect:
  assumes "\<forall>t\<in>set ts. 0 \<le> t" and "length l = v"
  shows "(if freq_required r then sub_row (fold (scatter_step (+)) ts (frequency_penalty (r_params r), replicate v 0)) l else l) =
    map (\<lambda>k. logit_sub (l ! k) (frequency_penalty (r_params r) * of_nat (count_list ts (int k)))) [0..<v]"
  using assms by (auto simp: freq_fold sub_row_def freq_required_def intro!: nth_equalityI)

lemma pres_effect:
  assumes "\<forall>t\<in>set ts. 0 \<le> t" and "length l = v"
  shows "(if pres_required r then sub_row (fold (scatter_step (\<lambda>_ s. s)) ts (presence_penalty (r_params r), replicate v 0)) l else l) =
    map (\<lambda>k. logit_sub (l ! k) (if int k \<in> set ts then presence_penalty (r_params r) else 0)) [0..<v]"
  using assms by (auto simp: pres_fold sub_row_def pres_required_def intro!: nth_equalityI)

lemma min_effect:
  assumes "length l = v"
  shows "(if min_required r then min_act (fold min_step ts (min_row0 v r)) l else l) =
    map (\<lambda>k. if forbidden r ts k then None else l ! k) [0..<v]"
  using assms by (auto simp: min_act_def min_row0_def min_fold forbidden_def min_required_def logit_add_def
      intro!: nth_equalityI split: option.splits)

lemma logit_sub_sub: "logit_sub (logit_sub a b) c = logit_sub a (b + c)" "logit_sub None c = None"
  by (cases a) (simp_all add: logit_sub_def)

lemma map2_row_lengths:
  assumes "\<And>e l. e \<in> set h \<Longrightarrow> length l = v \<Longrightarrow> length (f e l) = v" and "\<forall>l\<in>set ls. length l = v"
  shows "\<forall>l\<in>set (map2 f h ls). length l = v"
  using assms by (auto dest: set_zip_leftD set_zip_rightD)

lemma orch_follows_apply:
  assumes "orch_follows v h s" and len: "length logits = length h" "\<forall>l\<in>set logits. length l = v"
    and ts: "\<forall>(r, ts)\<in>set h. \<forall>t\<in>set ts. 0 \<le> t"
  shows "orch_apply s logits = map2 penalized h logits"
proof -
  have s: "fqp.follows v h (freq_pen s)" "mnp.follows v h (min_pen s)" "prp.follows v h (pres_pen s)"
    using assms(1) by (simp_all add: orch_follows_def)
  let ?e1 = "\<lambda>(r, ts) l. if freq_required r then sub_row (fold (scatter_step (+)) ts (frequency_penalty (r_params r), replicate v 0)) l else l"
  let ?e2 = "\<lambda>(r, ts) l. if min_required r then min_act (fold min_step ts (min_row0 v r)) l else l"
  let ?e3 = "\<lambda>(r, ts) l. if pres_required r then sub_row (fold (scatter_step (\<lambda>_ s. s)) ts (presence_penalty (r_params r), replicate v 0)) l else l"
  have e1: "length (?e1 e l) = v" if "e \<in> set h" "length l = v" for e l
    using ts that freq_effect [of "snd e" l v "fst e"] by (cases e) fastforce
  have e2: "length (?e2 e l) = v" if "length l = v" for e l
    using that min_effect [of l v "fst e" "snd e"] by (cases e) fastforce
  let ?l1 = "map2 ?e1 h logits" and ?l2 = "map2 ?e2 h (map2 ?e1 h logits)"
  have l1: "length ?l1 = length h" "\<forall>l\<in>set ?l1. length l = v"
    using len by simp (rule map2_row_lengths [OF e1 len(2)])
  have l2: "length ?l2 = length h" "\<forall>l\<in>set ?l2. length l = v"
    using len by simp (rule map2_row_lengths [OF e2 l1(2)])
  have "orch_apply s logits = map2 ?e3 h ?l2"
    using fqp.follows_apply [OF s(1) len] mnp.follows_apply [OF s(2) l1] prp.follows_apply [OF s(3) l2]
    by (simp add: orch_apply_def)
  also have "\<dots> = map2 penalized h logits"
  proof (rule nth_equalityI)
    fix i assume "i < length (map2 ?e3 h ?l2)"
    then have i: "i < length h" by simp
    obtain r ts where h: "h ! i = (r, ts)" by (metis prod.exhaust)
    have t: "\<forall>t\<in>set ts. 0 \<le> t" and l: "length (logits ! i) = v" using ts len i h nth_mem by fastforce+
    show "map2 ?e3 h ?l2 ! i = map2 penalized h logits ! i"
      using i h l len
      by (simp add: freq_effect [OF t] min_effect pres_effect [OF t] penalized_def token_penalty_def logit_sub_sub)
  qed (use len in simp)
  finally show ?thesis .
qed

section \<open>Properties\<close>

text \<open>
  The batches an orchestrator can serve: built for the requests of a batch, fed with one output
  token per request, filtered to some of its requests, merged with another one. \<open>h\<close> lists the
  requests of the batch, each with the tokens it was fed.
\<close>

inductive pen_run :: "nat \<Rightarrow> orchestrator \<Rightarrow> (req \<times> token list) list \<Rightarrow> bool" for v :: nat where
  run_init: "orchestrator_init v reqs = Inr s \<Longrightarrow> pen_run v s (map (\<lambda>r. (r, [])) reqs)"
| run_cumulate: "pen_run v s h \<Longrightarrow> length ids = length h \<Longrightarrow> \<forall>t\<in>set ids. 0 \<le> t \<Longrightarrow> orch_cumulate s ids = Inr s' \<Longrightarrow>
     pen_run v s' (map2 (\<lambda>(r, ts) t. (r, ts @ [t])) h ids)"
| run_filter: "pen_run v s h \<Longrightarrow> \<forall>k\<in>set ks. k < length h \<Longrightarrow>
     pen_run v (orch_filter s (map fst (take_rows ks h)) ks) (take_rows ks h)"
| run_merge: "pen_run v s h \<Longrightarrow> pen_run v t h' \<Longrightarrow> orch_merge s (map fst h) t (map fst h') = Inr s' \<Longrightarrow>
     pen_run v s' (h @ h')"

lemma fed_nonneg:
  assumes "\<forall>(r, ts)\<in>set h. \<forall>t\<in>set ts. 0 \<le> t" and "\<forall>t\<in>set ids. (0::int) \<le> t"
  shows "\<forall>(r, ts)\<in>set (map2 (\<lambda>(r, ts) t. (r, ts @ [t])) h ids). \<forall>t\<in>set ts. 0 \<le> t"
  using assms by (fastforce dest: set_zip_leftD set_zip_rightD)

lemma take_rows_set: "\<forall>k\<in>set ks. k < length xs \<Longrightarrow> set (take_rows ks xs) \<subseteq> set xs"
  by (auto simp: take_rows_def)

lemma pen_run_follows:
  "pen_run v s h \<Longrightarrow> orch_follows v h s \<and> (\<forall>(r, ts)\<in>set h. \<forall>t\<in>set ts. 0 \<le> t)"
proof (induction rule: pen_run.induct)
  case (run_init reqs s)
  then show ?case using orch_follows_init by auto
next
  case (run_cumulate s h ids s')
  then show ?case using orch_follows_cumulate fed_nonneg by blast
next
  case (run_filter s h ks)
  then show ?case using orch_follows_filter take_rows_set [of ks h] by blast
next
  case (run_merge s h t h' s')
  then show ?case using orch_follows_merge by auto
qed

text \<open>
  C25: Whatever batches a request goes through by filtering and merging, the penalizers change
  its logits by its own parameters and its own output tokens only: every occurrence of a token
  costs the frequency penalty, a token that occurred costs the presence penalty once, and stop
  tokens are impossible until the minimum number of tokens was produced.
\<close>

theorem penalties_follow_requests:
  assumes "pen_run v s h" and "length logits = length h" and "\<forall>l\<in>set logits. length l = v"
  shows "orch_apply s logits = map2 penalized h logits"
  using orch_follows_apply assms pen_run_follows [OF assms(1)] by blast

definition pen_req :: "rat \<Rightarrow> req" where
  "pen_req x = req_init ''r'' [1] (default_params\<lparr>frequency_penalty := x\<rparr>) False 0 None False None None None None"

theorem penalties_follow_requests_witness:
  "\<exists>s. pen_run 2 s [(pen_req 1, [1]), (pen_req 0, [0])] \<and>
     orch_apply s [[Some 0, Some 0], [Some 0, Some 0]] =
       map2 penalized [(pen_req 1, [1]), (pen_req 0, [0])] [[Some 0, Some 0], [Some 0, Some 0]]"
proof -
  define s0 where "s0 = \<lparr>vocab_size = 2,
    freq_pen = Some \<lparr>frequency_penalties = [1, 0], cumulated_frequency_penalties = [[0, 0], [0, 0]]\<rparr>,
    min_pen = None, pres_pen = None, is_required = True\<rparr>"
  have i: "orchestrator_init 2 [pen_req 1, pen_req 0] = Inr s0"
    by (simp add: orchestrator_init_def prepare_if_required_def pen_prepare_def freq_prepare_def bind_result_def
        freq_required_def min_required_def pres_required_def pen_req_def req_init_def default_params_def s0_def
        numeral_2_eq_2)
  have c: "\<exists>s. orch_cumulate s0 [1, 0] = Inr s"
    by (simp add: orch_cumulate_def pen_cumulate_def freq_cumulate_def scatter_def bind_result_def s0_def)
  then obtain s where s: "orch_cumulate s0 [1, 0] = Inr s" by blast
  have "pen_run 2 s [(pen_req 1, [1]), (pen_req 0, [0])]"
    using run_cumulate [OF run_init [OF i] _ _ s] by simp
  then show ?thesis using penalties_follow_requests [of 2 s "[(pen_req 1, [1]), (pen_req 0, [0])]" "[[Some 0, Some 0], [Some 0, Some 0]]"]
    by (intro exI [of _ s]) simp
qed



end
