(* ===== verification/Sampling_Batch.thy ===== *)
theory Sampling_Batch
  imports Penalty
begin

text \<open>
  \<open>SamplingBatchInfo\<close> of \<open>sampling/sampling_batch_info.py\<close>: the sampling parameters of a batch as
  one list per parameter, the penalizers, and the custom logit processors with the mask of the
  requests that use them. The grammar masks are filled by third-party grammar objects and are
  left out. A custom logit processor is its serialised string; \<open>hsh\<close> is Python's \<open>hash\<close>. The
  requests' own processor strings and custom parameters are given as lists.
\<close>

section \<open>State\<close>

type_synonym processors = "(int \<times> string \<times> bool list) list"

record 'c sampling_info =
  temperatures :: "rat list"
  top_ps :: "rat list"
  top_ks :: "int list"
  min_ps :: "rat list"
  is_all_greedy :: bool
  need_min_p_sampling :: bool
  si_vocab_size :: nat
  penalizer_orchestrator :: "orchestrator option"
  linear_penalty :: "logit list list option"
  has_custom_logit_processor :: bool
  si_custom_params :: "'c option list option"
  custom_logit_processor :: "processors option"

definition info_len :: "'c sampling_info \<Rightarrow> nat" where
  "info_len i = length (temperatures i)"

section \<open>Construction\<close>

text \<open>The dictionary from a processor string to the indices of the requests that use it.\<close>

fun processor_dict :: "string option list \<Rightarrow> nat \<Rightarrow> (string \<times> nat list) list \<Rightarrow> (string \<times> nat list) list" where
  "processor_dict [] i d = d"
| "processor_dict (None # ps) i d = processor_dict ps (Suc i) d"
| "processor_dict (Some s # ps) i d =
     processor_dict ps (Suc i)
       (AList.update s ((case map_of d s of None \<Rightarrow> [] | Some is \<Rightarrow> is) @ [i]) d)"

definition merged_processors :: "(string \<Rightarrow> int) \<Rightarrow> string option list \<Rightarrow> processors" where
  "merged_processors hsh procs =
     fold (\<lambda>(s, is) d. AList.update (hsh s) (s, map (\<lambda>k. k \<in> set is) [0..<length procs]) d)
       (processor_dict procs 0 []) []"

text \<open>\<open>any(...)\<close> over the processor strings: an empty string counts as absent there.\<close>

definition uses_processor :: "string option \<Rightarrow> bool" where
  "uses_processor p = (case p of None \<Rightarrow> False | Some s \<Rightarrow> s \<noteq> [])"

definition from_schedule_batch ::
  "(string \<Rightarrow> int) \<Rightarrow> nat \<Rightarrow> bool \<Rightarrow> req list \<Rightarrow> string option list \<Rightarrow> 'c option list \<Rightarrow> 'c sampling_info result" where
  "from_schedule_batch hsh vocab enable reqs procs params =
     (let custom = enable \<and> list_ex uses_processor procs in
      bind_result (orchestrator_init vocab reqs) (\<lambda>p.
        Inr \<lparr>temperatures = map (\<lambda>r. temperature (r_params r)) reqs,
             top_ps = map (\<lambda>r. top_p (r_params r)) reqs,
             top_ks = map (\<lambda>r. top_k (r_params r)) reqs,
             min_ps = map (\<lambda>r. min_p (r_params r)) reqs,
             is_all_greedy = list_all (\<lambda>r. top_k (r_params r) \<le> 1) reqs,
             need_min_p_sampling = list_ex (\<lambda>r. min_p (r_params r) > 0) reqs,
             si_vocab_size = vocab, penalizer_orchestrator = Some p, linear_penalty = None,
             has_custom_logit_processor = custom,
             si_custom_params = (if custom then Some params else None),
             custom_logit_processor = (if custom then Some (merged_processors hsh procs) else None)\<rparr>))"

section \<open>Penalties and logits\<close>

definition update_penalties :: "'c sampling_info \<Rightarrow> 'c sampling_info result" where
  "update_penalties i =
     (case penalizer_orchestrator i of
        None \<Rightarrow> Inl AttributeError
      | Some p \<Rightarrow>
          if is_required p then
            Inr (i\<lparr>linear_penalty :=
                    Some (orch_apply p (replicate (info_len i) (replicate (si_vocab_size i) (Some 0))))\<rparr>)
          else Inr (i\<lparr>linear_penalty := None\<rparr>))"

definition apply_logits_bias :: "'c sampling_info \<Rightarrow> logit list list \<Rightarrow> logit list list" where
  "apply_logits_bias i logits =
     (let l1 = (case linear_penalty i of None \<Rightarrow> logits | Some pen \<Rightarrow> map2 (map2 logit_add) logits pen)
      in case penalizer_orchestrator i of
           None \<Rightarrow> l1
         | Some p \<Rightarrow> if is_required p then orch_apply p l1 else l1)"

section \<open>Filter\<close>

definition filter_custom :: "nat list \<Rightarrow> 'c sampling_info \<Rightarrow> 'c sampling_info result" where
  "filter_custom ks i =
     (case (custom_logit_processor i, si_custom_params i) of
        (Some d, Some params) \<Rightarrow>
          (let d' = filter (\<lambda>(k, p, mask). True \<in> set mask) (map (\<lambda>(k, p, mask). (k, p, take_rows ks mask)) d)
           in Inr (if d' = [] then
                     i\<lparr>custom_logit_processor := None, si_custom_params := None, has_custom_logit_processor := False\<rparr>
                   else i\<lparr>custom_logit_processor := Some d', si_custom_params := Some (take_rows ks params)\<rparr>))
      | _ \<Rightarrow> Inl AttributeError)"

text \<open>\<open>reqs\<close> are the requests of the batch, which is filtered already.\<close>

definition info_filter :: "req list \<Rightarrow> nat list \<Rightarrow> 'c sampling_info \<Rightarrow> 'c sampling_info result" where
  "info_filter reqs ks i =
     (case penalizer_orchestrator i of
        None \<Rightarrow> Inl AttributeError
      | Some p \<Rightarrow>
          (let i1 = i\<lparr>penalizer_orchestrator := Some (orch_filter p reqs ks)\<rparr> in
           bind_result (if has_custom_logit_processor i1 then filter_custom ks i1 else Inr i1) (\<lambda>i2.
             Inr (i2\<lparr>temperatures := take_rows ks (temperatures i2), top_ps := take_rows ks (top_ps i2),
                    top_ks := take_rows ks (top_ks i2), min_ps := take_rows ks (min_ps i2)\<rparr>))))"

section \<open>Merge\<close>

definition merge_custom_logit_processor ::
  "processors option \<Rightarrow> processors option \<Rightarrow> nat \<Rightarrow> nat \<Rightarrow> processors option result" where
  "merge_custom_logit_processor lhs rhs bs1 bs2 =
     (if lhs = None \<and> rhs = None then Inr None
      else
        (let l = (case lhs of None \<Rightarrow> [] | Some d \<Rightarrow> d); r = (case rhs of None \<Rightarrow> [] | Some d \<Rightarrow> d);
             ks = map fst l @ filter (\<lambda>k. map_of l k = None) (map fst r);
             merged = map (\<lambda>k.
               (k, (case map_of l k of Some (p, m) \<Rightarrow> p | None \<Rightarrow> fst (the (map_of r k))),
                   (case map_of l k of Some (p, m) \<Rightarrow> m | None \<Rightarrow> replicate bs1 False) @
                   (case map_of r k of Some (p, m) \<Rightarrow> m | None \<Rightarrow> replicate bs2 False))) ks
         in if list_all (\<lambda>(k, p, m). length m = bs1 + bs2) merged then Inr (Some merged) else Inl AssertionError))"

definition params_or_none :: "'c option list option \<Rightarrow> nat \<Rightarrow> 'c option list" where
  "params_or_none ps n = (case ps of None \<Rightarrow> replicate n None | Some [] \<Rightarrow> replicate n None | Some xs \<Rightarrow> xs)"

definition info_merge ::
  "req list \<Rightarrow> 'c sampling_info \<Rightarrow> req list \<Rightarrow> 'c sampling_info \<Rightarrow> 'c sampling_info result" where
  "info_merge reqs i reqs' j =
     (case (penalizer_orchestrator i, penalizer_orchestrator j) of
        (Some p, Some q) \<Rightarrow>
          bind_result (orch_merge p reqs q reqs') (\<lambda>pq.
          bind_result
            (if has_custom_logit_processor i \<or> has_custom_logit_processor j then
               bind_result (merge_custom_logit_processor (custom_logit_processor i) (custom_logit_processor j)
                              (info_len i) (info_len j)) (\<lambda>d.
                 Inr (i\<lparr>penalizer_orchestrator := Some pq, custom_logit_processor := d,
                        si_custom_params := Some (params_or_none (si_custom_params i) (info_len i) @
                                                  params_or_none (si_custom_params j) (info_len j)),
                        has_custom_logit_processor := True\<rparr>))
             else Inr (i\<lparr>penalizer_orchestrator := Some pq\<rparr>)) (\<lambda>i1.
            Inr (i1\<lparr>temperatures := temperatures i1 @ temperatures j, top_ps := top_ps i1 @ top_ps j,
                    top_ks := top_ks i1 @ top_ks j, min_ps := min_ps i1 @ min_ps j,
                    is_all_greedy := (is_all_greedy i1 \<and> is_all_greedy j),
                    need_min_p_sampling := (need_min_p_sampling i1 \<or> need_min_p_sampling j)\<rparr>)))
      | _ \<Rightarrow> Inl AttributeError)"

section \<open>Processors and the requests that use them\<close>

text \<open>
  A dictionary of processors is right for the processor strings \<open>procs\<close> of a batch when each
  processor's mask selects exactly the requests that name it. \<open>S\<close> are the strings in use, on
  which the hash has no collision.
\<close>

definition dict_ok :: "(string \<Rightarrow> int) \<Rightarrow> string set \<Rightarrow> string option list \<Rightarrow> processors \<Rightarrow> bool" where
  "dict_ok hsh S procs d \<longleftrightarrow>
     distinct (map fst d) \<and> (\<forall>(k, s, m)\<in>set d. k = hsh s \<and> s \<in> S \<and> length m = length procs) \<and>
     (\<forall>s i. s \<noteq> [] \<longrightarrow> i < length procs \<longrightarrow>
        ((\<exists>m. (hsh s, s, m) \<in> set d \<and> m ! i) \<longleftrightarrow> procs ! i = Some s))"

fun users_of :: "string \<Rightarrow> string option list \<Rightarrow> nat \<Rightarrow> nat list" where
  "users_of s [] i = []"
| "users_of s (p # ps) i = (if p = Some s then i # users_of s ps (Suc i) else users_of s ps (Suc i))"

lemma set_users_of: "set (users_of s ps i) = {j. i \<le> j \<and> j < i + length ps \<and> ps ! (j - i) = Some s}"
proof (induction ps arbitrary: i)
  case (Cons p ps)
  have "j \<in> set (users_of s (p # ps) i) \<longleftrightarrow> i \<le> j \<and> j < i + length (p # ps) \<and> (p # ps) ! (j - i) = Some s" for j
    by (cases "j = i") (auto simp: Cons nth_Cons' Suc_diff_Suc le_Suc_eq diff_Suc split: nat.splits)
  then show ?case by blast
qed auto

lemma processor_dict_spec:
  assumes "distinct (map fst d)"
  shows "distinct (map fst (processor_dict ps i d))"
    and "map_of (processor_dict ps i d) s =
      (case map_of d s of
         None \<Rightarrow> if users_of s ps i = [] then None else Some (users_of s ps i)
       | Some is \<Rightarrow> Some (is @ users_of s ps i))"
proof -
  have "distinct (map fst (processor_dict ps i d)) \<and> map_of (processor_dict ps i d) s =
      (case map_of d s of
         None \<Rightarrow> if users_of s ps i = [] then None else Some (users_of s ps i)
       | Some is \<Rightarrow> Some (is @ users_of s ps i))"
    using assms
  proof (induction ps i d rule: processor_dict.induct)
    case (3 x ps i d)
    then show ?case by (auto simp: distinct_update update_conv' split: option.splits)
  qed (auto split: option.splits)
  then show "distinct (map fst (processor_dict ps i d))"
    and "map_of (processor_dict ps i d) s =
      (case map_of d s of
         None \<Rightarrow> if users_of s ps i = [] then None else Some (users_of s ps i)
       | Some is \<Rightarrow> Some (is @ users_of s ps i))" by auto
qed

lemma update_fresh: "k \<notin> fst ` set d \<Longrightarrow> AList.update k v d = d @ [(k, v)]"
  by (induction d) auto

lemma fold_update_fresh:
  assumes "distinct (map fst al)" and "inj_on hsh (fst ` set al)" and "\<forall>(s, x)\<in>set al. hsh s \<notin> fst ` set d"
  shows "fold (\<lambda>(s, x) d. AList.update (hsh s) (s, g x) d) al d = d @ map (\<lambda>(s, x). (hsh s, s, g x)) al"
  using assms
proof (induction al arbitrary: d)
  case (Cons e al)
  obtain s x where e: "e = (s, x)" by force
  have "hsh s' \<noteq> hsh s \<and> hsh s' \<notin> fst ` set d" if "(s', x') \<in> set al" for s' x'
  proof -
    have "s' \<noteq> s" using that Cons.prems(1) e by (auto simp: rev_image_eqI)
    moreover have "s \<in> fst ` set (e # al)" "s' \<in> fst ` set (e # al)" using that e by (auto intro: rev_image_eqI)
    ultimately have "hsh s' \<noteq> hsh s" using Cons.prems(2) by (meson inj_onD)
    then show ?thesis using that Cons.prems(3) by auto
  qed
  then have "\<forall>(s', x')\<in>set al. hsh s' \<notin> fst ` set (d @ [(hsh s, s, g x)])" by auto
  moreover have "inj_on hsh (fst ` set al)" using Cons.prems(2) by (rule inj_on_subset) auto
  moreover have "hsh s \<notin> fst ` set d" using Cons.prems(3) e by simp
  ultimately show ?case using Cons.IH [of "d @ [(hsh s, s, g x)]"] Cons.prems(1) e update_fresh [of "hsh s" d] by simp
qed simp

lemma merged_processors_ok:
  assumes inj: "inj_on hsh S" and S: "\<forall>s. Some s \<in> set procs \<longrightarrow> s \<in> S"
  shows "dict_ok hsh S procs (merged_processors hsh procs)"
proof -
  let ?al = "processor_dict procs 0 []" and ?g = "\<lambda>is. map (\<lambda>k. k \<in> set is) [0..<length procs]"
  have d: "distinct (map fst ?al)" using processor_dict_spec(1) by simp
  have al: "(s, is) \<in> set ?al \<longleftrightarrow> users_of s procs 0 = is \<and> is \<noteq> []" for s "is"
    using processor_dict_spec(2) [of "[]" procs 0 s] map_of_Some_iff [OF d, of s "is"] by (auto split: if_splits)
  have sub: "s \<in> S" if "(s, is) \<in> set ?al" for s "is"
  proof -
    have "hd is \<in> set (users_of s procs 0)" using that al by simp
    then have "hd is < length procs" "procs ! hd is = Some s" by (simp_all add: set_users_of)
    then show ?thesis using S by (metis nth_mem)
  qed
  have "inj_on hsh (fst ` set ?al)" by (rule inj_on_subset [OF inj]) (use sub in force)
  then have m: "merged_processors hsh procs = map (\<lambda>(s, is). (hsh s, s, ?g is)) ?al"
    using fold_update_fresh [OF d, of hsh "[]" ?g] by (simp add: merged_processors_def)
  have keys: "map fst (merged_processors hsh procs) = map hsh (map fst ?al)" by (auto simp: m)
  have "(\<exists>mk. (hsh s, s, mk) \<in> set (merged_processors hsh procs) \<and> mk ! i) \<longleftrightarrow> procs ! i = Some s"
    if "i < length procs" for s i
  proof -
    have "(hsh s, s, mk) \<in> set (merged_processors hsh procs) \<longleftrightarrow> (\<exists>is. (s, is) \<in> set ?al \<and> mk = ?g is)" for mk
      by (force simp: m)
    moreover have "?g is ! i \<longleftrightarrow> i \<in> set is" for "is" using that by simp
    ultimately have "(\<exists>mk. (hsh s, s, mk) \<in> set (merged_processors hsh procs) \<and> mk ! i) \<longleftrightarrow> i \<in> set (users_of s procs 0)"
      unfolding al by (metis empty_iff list.set(1))
    then show ?thesis using that by (simp add: set_users_of)
  qed
  moreover have "distinct (map fst (merged_processors hsh procs))"
    unfolding keys using d \<open>inj_on hsh (fst ` set ?al)\<close> by (simp add: distinct_map comp_inj_on)
  ultimately show ?thesis using sub by (auto simp: dict_ok_def m)
qed

lemma dict_ok_filter:
  assumes ok: "dict_ok hsh S procs d" and ks: "\<forall>k\<in>set ks. k < length procs"
  shows "dict_ok hsh S (take_rows ks procs)
    (filter (\<lambda>(k, p, m). True \<in> set m) (map (\<lambda>(k, p, m). (k, p, take_rows ks m)) d))" (is "dict_ok _ _ _ ?d")
proof -
  have mem: "(k, s, m) \<in> set ?d \<longleftrightarrow> (\<exists>m0. (k, s, m0) \<in> set d \<and> m = take_rows ks m0 \<and> True \<in> set m)" for k s m
    by force
  have "distinct (map fst ?d)"
  proof -
    have "map fst (map (\<lambda>(k, p, m). (k, p, take_rows ks m)) d) = map fst d" by auto
    then show ?thesis using ok by (metis (no_types, lifting) dict_ok_def distinct_map_filter)
  qed
  moreover have "(\<exists>m. (hsh s, s, m) \<in> set ?d \<and> m ! i) \<longleftrightarrow> take_rows ks procs ! i = Some s"
    if s: "s \<noteq> []" and i: "i < length ks" for s i
  proof -
    have k: "ks ! i < length procs" using ks i by simp
    have r: "take_rows ks m ! i = m ! (ks ! i)" for m :: "bool list" using i by (simp add: take_rows_def)
    have t: "True \<in> set (take_rows ks m)" if "m ! (ks ! i)" for m
      using that r [of m] i by (metis length_take_rows nth_mem)
    have "(\<exists>m. (hsh s, s, m) \<in> set ?d \<and> m ! i) \<longleftrightarrow> (\<exists>m. (hsh s, s, m) \<in> set d \<and> m ! (ks ! i))"
      unfolding mem using r t by metis
    then show ?thesis using ok s k i by (simp add: dict_ok_def take_rows_def)
  qed
  moreover have "\<forall>(k, s, m)\<in>set ?d. k = hsh s \<and> s \<in> S \<and> length m = length (take_rows ks procs)"
    using ok by (auto simp: dict_ok_def)
  ultimately show ?thesis unfolding dict_ok_def length_take_rows by blast
qed

text \<open>No processor is in use.\<close>

lemma dict_ok_Nil: "dict_ok hsh S procs [] \<longleftrightarrow> \<not> list_ex uses_processor procs"
proof -
  have "(\<forall>s i. s \<noteq> [] \<longrightarrow> i < length procs \<longrightarrow> procs ! i \<noteq> Some s) \<longleftrightarrow> \<not> list_ex uses_processor procs"
    by (auto simp: list_ex_length uses_processor_def split: option.splits)
  then show ?thesis by (simp add: dict_ok_def)
qed

lemma dict_mask:
  assumes ok: "dict_ok hsh S procs d" and inj: "inj_on hsh S" and s: "s \<in> S" "s \<noteq> []" and i: "i < length procs"
  shows "(case map_of d (hsh s) of Some (p, m) \<Rightarrow> m | None \<Rightarrow> replicate (length procs) False) ! i \<longleftrightarrow> procs ! i = Some s"
    and "map_of d (hsh s) = Some (p, m) \<Longrightarrow> p = s"
    and "map_of d (hsh s) = Some (p, m) \<Longrightarrow> length m = length procs"
proof -
  have m: "map_of d (hsh s) = Some e \<longleftrightarrow> (hsh s, e) \<in> set d" for e
    using ok by (simp add: dict_ok_def map_of_Some_iff)
  have p: "p = s" if "(hsh s, p, m) \<in> set d" for p m
    using that ok s(1) inj by (auto simp: dict_ok_def dest: inj_onD)
  show "map_of d (hsh s) = Some (p, m) \<Longrightarrow> p = s" "map_of d (hsh s) = Some (p, m) \<Longrightarrow> length m = length procs"
    using m p ok by (auto simp: dict_ok_def)
  have "(\<exists>m. (hsh s, s, m) \<in> set d \<and> m ! i) \<longleftrightarrow> procs ! i = Some s" using ok s(2) i by (simp add: dict_ok_def)
  moreover have "(case map_of d (hsh s) of Some (p, m) \<Rightarrow> m | None \<Rightarrow> replicate (length procs) False) ! i \<longleftrightarrow>
      (\<exists>m. (hsh s, s, m) \<in> set d \<and> m ! i)"
  proof (cases "map_of d (hsh s)")
    case None
    then show ?thesis using m i by auto
  next
    case (Some e)
    obtain q mk where e: "e = (q, mk)" by force
    have "(hsh s, q', mk') \<in> set d \<longleftrightarrow> q' = q \<and> mk' = mk" for q' mk' using m [of "(q', mk')"] Some e by auto
    moreover have "q = s" using m [of e] Some e p by simp
    ultimately show ?thesis using Some e by simp
  qed
  ultimately show "(case map_of d (hsh s) of Some (p, m) \<Rightarrow> m | None \<Rightarrow> replicate (length procs) False) ! i \<longleftrightarrow> procs ! i = Some s"
    by simp
qed

lemma dict_ok_merge:
  assumes l: "dict_ok hsh S procs l" and r: "dict_ok hsh S procs' r" and inj: "inj_on hsh S"
    and S: "\<forall>s. Some s \<in> set procs \<union> set procs' \<longrightarrow> s \<in> S" and some: "lhs \<noteq> None \<or> rhs \<noteq> None"
    and lr: "l = (case lhs of None \<Rightarrow> [] | Some d \<Rightarrow> d)" "r = (case rhs of None \<Rightarrow> [] | Some d \<Rightarrow> d)"
  shows "\<exists>d. merge_custom_logit_processor lhs rhs (length procs) (length procs') = Inr (Some d) \<and>
    dict_ok hsh S (procs @ procs') d"
proof -
  let ?ml = "\<lambda>k. case map_of l k of Some (p, m) \<Rightarrow> m | None \<Rightarrow> replicate (length procs) False"
  let ?mr = "\<lambda>k. case map_of r k of Some (p, m) \<Rightarrow> m | None \<Rightarrow> replicate (length procs') False"
  let ?p = "\<lambda>k. case map_of l k of Some (p, m) \<Rightarrow> p | None \<Rightarrow> fst (the (map_of r k))"
  define ks where "ks = map fst l @ filter (\<lambda>k. map_of l k = None) (map fst r)"
  define d where "d = map (\<lambda>k. (k, ?p k, ?ml k @ ?mr k)) ks"
  have dl: "distinct (map fst l)" and dr: "distinct (map fst r)" using l r by (auto simp: dict_ok_def)
  have kd: "distinct ks" using dl dr by (auto simp: ks_def map_of_eq_None_iff)
  have key: "\<exists>s\<in>S. k = hsh s \<and> ?p k = s \<and> length (?ml k) = length procs \<and> length (?mr k) = length procs'"
    if "k \<in> set ks" for k
  proof -
    have "\<exists>s\<in>S. k = hsh s" using that l r by (fastforce simp: ks_def dict_ok_def)
    then obtain s where s: "s \<in> S" "k = hsh s" by blast
    have e: "q = s \<and> length mk = n"
      if "map_of x k = Some (q, mk)" "dict_ok hsh S ps x" "n = length ps" for x q mk ps n
      using that s inj by (auto simp: dict_ok_def dest!: map_of_SomeD dest: inj_onD)
    have "map_of l k \<noteq> None \<or> map_of r k \<noteq> None" using that by (auto simp: ks_def map_of_eq_None_iff)
    then have "?p k = s" "length (?ml k) = length procs" "length (?mr k) = length procs'"
      using e [OF _ l refl] e [OF _ r refl] by (auto split: option.splits)
    then show ?thesis using s by blast
  qed
  have mem: "(hsh s, s, m) \<in> set d \<longleftrightarrow> hsh s \<in> set ks \<and> m = ?ml (hsh s) @ ?mr (hsh s)" if "s \<in> S" for s m
    using key that inj by (auto simp: d_def dest: inj_onD)
  have "(\<exists>m. (hsh s, s, m) \<in> set d \<and> m ! i) \<longleftrightarrow> (procs @ procs') ! i = Some s"
    if s: "s \<noteq> []" and i: "i < length procs + length procs'" for s i
  proof (cases "s \<in> S")
    case False
    then have "(procs @ procs') ! i \<noteq> Some s" using S i by (metis Un_iff length_append nth_mem set_append)
    moreover have "(hsh s, s, m) \<notin> set d" for m
    proof
      assume "(hsh s, s, m) \<in> set d"
      then have "hsh s \<in> set ks" "?p (hsh s) = s" by (auto simp: d_def)
      then show False using key [of "hsh s"] False by auto
    qed
    ultimately show ?thesis by blast
  next
    case True
    show ?thesis
    proof (cases "i < length procs")
      case True
      note d = dict_mask(1) [OF l inj \<open>s \<in> S\<close> s True]
      have "hsh s \<in> set ks" if "?ml (hsh s) ! i" using that True
        by (cases "map_of l (hsh s)") (auto simp: ks_def dest!: map_of_SomeD intro: rev_image_eqI)
      moreover have "(?ml (hsh s) @ ?mr (hsh s)) ! i = ?ml (hsh s) ! i" if "hsh s \<in> set ks"
        using key [OF that] True by (auto simp: nth_append)
      ultimately show ?thesis using d True mem [OF \<open>s \<in> S\<close>] by (auto simp: nth_append)
    next
      case False
      let ?j = "i - length procs"
      have j: "?j < length procs'" using False i by simp
      note d = dict_mask(1) [OF r inj \<open>s \<in> S\<close> s j]
      have "hsh s \<in> set ks" if "?mr (hsh s) ! ?j" using that j
        by (cases "map_of r (hsh s)"; cases "map_of l (hsh s)")
          (auto simp: ks_def dest!: map_of_SomeD intro: rev_image_eqI)
      moreover have "(?ml (hsh s) @ ?mr (hsh s)) ! i = ?mr (hsh s) ! ?j" if "hsh s \<in> set ks"
        using key [OF that] False by (auto simp: nth_append)
      ultimately show ?thesis using d False mem [OF \<open>s \<in> S\<close>] by (auto simp: nth_append)
    qed
  qed
  moreover have "map fst d = ks" by (simp add: d_def comp_def)
  moreover have "\<forall>(k, s, m)\<in>set d. k = hsh s \<and> s \<in> S \<and> length m = length procs + length procs'"
    using key by (fastforce simp: d_def)
  moreover have "list_all (\<lambda>(k, p, m). length m = length procs + length procs') d"
    using key by (fastforce simp: d_def list_all_iff)
  moreover have "merge_custom_logit_processor lhs rhs (length procs) (length procs') =
      (if list_all (\<lambda>(k, p, m). length m = length procs + length procs') d then Inr (Some d) else Inl AssertionError)"
    unfolding merge_custom_logit_processor_def using some
    by (simp only: Let_def lr [symmetric] d_def [symmetric] ks_def [symmetric]) auto
  ultimately show ?thesis using kd unfolding dict_ok_def length_append by auto
qed

section \<open>The batch a sampling info describes\<close>

text \<open>
  \<open>info_ok\<close> relates a sampling info to the requests of its batch, the tokens fed to the
  penalizers for each, their processor strings and their number of custom parameters. The two
  flags may be too cautious after a filter, never too optimistic.
\<close>

definition info_ok ::
  "(string \<Rightarrow> int) \<Rightarrow> string set \<Rightarrow> nat \<Rightarrow> (req \<times> token list) list \<Rightarrow> string option list \<Rightarrow> 'c sampling_info \<Rightarrow> bool" where
  "info_ok hsh S v h procs i \<longleftrightarrow>
     temperatures i = map (\<lambda>(r, ts). temperature (r_params r)) h \<and>
     top_ps i = map (\<lambda>(r, ts). top_p (r_params r)) h \<and>
     top_ks i = map (\<lambda>(r, ts). top_k (r_params r)) h \<and>
     min_ps i = map (\<lambda>(r, ts). min_p (r_params r)) h \<and>
     (is_all_greedy i \<longrightarrow> (\<forall>(r, ts)\<in>set h. top_k (r_params r) \<le> 1)) \<and>
     (\<not> need_min_p_sampling i \<longrightarrow> (\<forall>(r, ts)\<in>set h. min_p (r_params r) \<le> 0)) \<and>
     si_vocab_size i = v \<and> (\<exists>p. penalizer_orchestrator i = Some p \<and> orch_follows v h p) \<and>
     length procs = length h \<and>
     (has_custom_logit_processor i \<longleftrightarrow> custom_logit_processor i \<noteq> None) \<and>
     (has_custom_logit_processor i \<longleftrightarrow> si_custom_params i \<noteq> None) \<and>
     (\<forall>ps. si_custom_params i = Some ps \<longrightarrow> length ps = length h) \<and>
     dict_ok hsh S procs (case custom_logit_processor i of None \<Rightarrow> [] | Some d \<Rightarrow> d)"

declare info_ok_def [inv_defs]

lemma info_ok_len: "info_ok hsh S v h procs i \<Longrightarrow> info_len i = length h"
  by (simp add: info_ok_def info_len_def)

definition effective :: "bool \<Rightarrow> string option list \<Rightarrow> string option list" where
  "effective enable procs = (if enable then procs else map (\<lambda>_. None) procs)"

lemma from_schedule_batch_ok:
  assumes "from_schedule_batch hsh v enable reqs procs params = Inr i" and "inj_on hsh S"
    and "\<forall>s. Some s \<in> set procs \<longrightarrow> s \<in> S" and "length procs = length reqs" and "length params = length reqs"
  shows "info_ok hsh S v (map (\<lambda>r. (r, [])) reqs) (effective enable procs) i"
proof -
  obtain p where p: "orchestrator_init v reqs = Inr p"
    using assms(1) by (auto simp: from_schedule_batch_def bind_result_def Let_def split: sum.splits)
  let ?custom = "enable \<and> list_ex uses_processor procs"
  have none: "\<not> list_ex uses_processor (effective enable procs)" if "\<not> ?custom"
    using that by (auto simp: effective_def uses_processor_def list_ex_iff)
  have "dict_ok hsh S (effective enable procs) (if ?custom then merged_processors hsh procs else [])"
    using merged_processors_ok [OF assms(2,3)] none by (auto simp: effective_def dict_ok_Nil split: if_splits)
  then show ?thesis
    using assms(1,4,5) orch_follows_init [OF p]
    by (auto simp: from_schedule_batch_def p bind_result_def Let_def info_ok_def effective_def comp_def list_all_iff
        list_ex_iff not_less split: if_splits)
qed

lemma info_filter_ok:
  assumes ok: "info_ok hsh S v h procs i" and ks: "\<forall>k\<in>set ks. k < length h"
  shows "\<exists>i'. info_filter (map fst (take_rows ks h)) ks i = Inr i' \<and>
    info_ok hsh S v (take_rows ks h) (take_rows ks procs) i'"
proof -
  obtain p where p: "penalizer_orchestrator i = Some p" "orch_follows v h p" using ok by (auto simp: info_ok_def)
  let ?p = "orch_filter p (map fst (take_rows ks h)) ks"
  let ?i1 = "i\<lparr>penalizer_orchestrator := Some ?p\<rparr>"
  note fp = orch_follows_filter [OF p(2) ks]
  have len: "length procs = length h" using ok by (simp add: info_ok_def)
  define d where "d = (case custom_logit_processor i of None \<Rightarrow> [] | Some d \<Rightarrow> d)"
  have dk: "dict_ok hsh S procs d" using ok by (simp add: info_ok_def d_def)
  let ?d = "filter (\<lambda>(k, p, m). True \<in> set m) (map (\<lambda>(k, p, m). (k, p, take_rows ks m)) d)"
  have df: "dict_ok hsh S (take_rows ks procs) ?d" by (rule dict_ok_filter [OF dk]) (use ks len in simp)
  obtain i2 where i2: "(if has_custom_logit_processor ?i1 then filter_custom ks ?i1 else Inr ?i1) = Inr i2"
    "i2 = ?i1\<lparr>custom_logit_processor := custom_logit_processor i2, si_custom_params := si_custom_params i2,
              has_custom_logit_processor := has_custom_logit_processor i2\<rparr>"
    "has_custom_logit_processor i2 \<longleftrightarrow> custom_logit_processor i2 \<noteq> None"
    "has_custom_logit_processor i2 \<longleftrightarrow> si_custom_params i2 \<noteq> None"
    "\<forall>ps. si_custom_params i2 = Some ps \<longrightarrow> length ps = length ks"
    "dict_ok hsh S (take_rows ks procs) (case custom_logit_processor i2 of None \<Rightarrow> [] | Some d \<Rightarrow> d)"
  proof (cases "has_custom_logit_processor i")
    case False
    then have "d = []" "custom_logit_processor i = None" "si_custom_params i = None" using ok by (auto simp: info_ok_def d_def)
    then show ?thesis using False df by (intro that [of ?i1]) auto
  next
    case True
    then obtain ps where ps: "custom_logit_processor i = Some d" "si_custom_params i = Some ps"
      using ok by (auto simp: info_ok_def d_def)
    show ?thesis
    proof (cases "?d = []")
      case True
      then show ?thesis
        using df ps \<open>has_custom_logit_processor i\<close>
        by (intro that [of "?i1\<lparr>custom_logit_processor := None, si_custom_params := None, has_custom_logit_processor := False\<rparr>"])
          (simp_all add: filter_custom_def)
    next
      case False
      then show ?thesis
        using df ps \<open>has_custom_logit_processor i\<close>
        by (intro that [of "?i1\<lparr>custom_logit_processor := Some ?d, si_custom_params := Some (take_rows ks ps)\<rparr>"])
          (simp_all add: filter_custom_def)
    qed
  qed
  let ?i = "i2\<lparr>temperatures := take_rows ks (temperatures i2), top_ps := take_rows ks (top_ps i2),
              top_ks := take_rows ks (top_ks i2), min_ps := take_rows ks (min_ps i2)\<rparr>"
  have "info_filter (map fst (take_rows ks h)) ks i = Inr ?i"
    using i2(1) by (simp add: info_filter_def p(1) Let_def bind_result_def)
  moreover have f: "temperatures i2 = temperatures i" "top_ps i2 = top_ps i" "top_ks i2 = top_ks i" "min_ps i2 = min_ps i"
    "is_all_greedy i2 = is_all_greedy i" "need_min_p_sampling i2 = need_min_p_sampling i"
    "si_vocab_size i2 = si_vocab_size i" "penalizer_orchestrator i2 = Some ?p"
    by (subst i2(2), simp)+
  have "info_ok hsh S v (take_rows ks h) (take_rows ks procs) ?i"
    using ok fp i2(3-6) f take_rows_set [OF ks] ks by (auto simp: info_ok_def take_rows_map)
  ultimately show ?thesis by blast
qed

lemma params_or_none_length:
  "(\<forall>ps. x = Some ps \<longrightarrow> length ps = n) \<Longrightarrow> length (params_or_none x n) = n"
  by (auto simp: params_or_none_def split: option.splits list.splits)

lemma info_merge_ok:
  assumes ok: "info_ok hsh S v h procs i" "info_ok hsh S v h' procs' j" and inj: "inj_on hsh S"
    and S: "\<forall>s. Some s \<in> set procs \<union> set procs' \<longrightarrow> s \<in> S" and m: "info_merge (map fst h) i (map fst h') j = Inr i'"
  shows "info_ok hsh S v (h @ h') (procs @ procs') i'"
proof -
  obtain p q where p: "penalizer_orchestrator i = Some p" "orch_follows v h p"
    and q: "penalizer_orchestrator j = Some q" "orch_follows v h' q" using ok by (auto simp: info_ok_def)
  obtain pq where pq: "orch_merge p (map fst h) q (map fst h') = Inr pq"
    using m by (auto simp: info_merge_def p q bind_result_def split: sum.splits)
  note fo = orch_follows_merge [OF p(2) q(2) pq]
  define l where "l = (case custom_logit_processor i of None \<Rightarrow> [] | Some d \<Rightarrow> d)"
  define r where "r = (case custom_logit_processor j of None \<Rightarrow> [] | Some d \<Rightarrow> d)"
  have d: "dict_ok hsh S procs l" "dict_ok hsh S procs' r" using ok by (simp_all add: info_ok_def l_def r_def)
  have len: "length procs = length h" "length procs' = length h'" "info_len i = length h" "info_len j = length h'"
    using ok by (simp_all add: info_ok_def info_len_def)
  show ?thesis
  proof (cases "has_custom_logit_processor i \<or> has_custom_logit_processor j")
    case False
    then have n: "l = []" "r = []" "custom_logit_processor i = None" "si_custom_params i = None" using ok by (auto simp: info_ok_def l_def r_def)
    then have "dict_ok hsh S (procs @ procs') []" using d by (simp add: dict_ok_Nil)
    moreover have "i' = i\<lparr>penalizer_orchestrator := Some pq, temperatures := temperatures i @ temperatures j,
        top_ps := top_ps i @ top_ps j, top_ks := top_ks i @ top_ks j, min_ps := min_ps i @ min_ps j,
        is_all_greedy := (is_all_greedy i \<and> is_all_greedy j),
        need_min_p_sampling := (need_min_p_sampling i \<or> need_min_p_sampling j)\<rparr>"
      using m False by (simp add: info_merge_def p q pq bind_result_def)
    ultimately show ?thesis using ok fo False n unfolding info_ok_def by (simp add: ball_Un)
  next
    case True
    then have "custom_logit_processor i \<noteq> None \<or> custom_logit_processor j \<noteq> None" using ok by (simp add: info_ok_def)
    then obtain e where e: "merge_custom_logit_processor (custom_logit_processor i) (custom_logit_processor j)
        (info_len i) (info_len j) = Inr (Some e)" "dict_ok hsh S (procs @ procs') e"
      using dict_ok_merge [OF d inj S _ l_def r_def] len by auto
    have "length (params_or_none (si_custom_params i) (info_len i)) = length h"
      "length (params_or_none (si_custom_params j) (info_len j)) = length h'"
      using ok len params_or_none_length by (auto simp: info_ok_def)
    moreover have "i' = i\<lparr>penalizer_orchestrator := Some pq, custom_logit_processor := Some e,
        si_custom_params := Some (params_or_none (si_custom_params i) (info_len i) @ params_or_none (si_custom_params j) (info_len j)),
        has_custom_logit_processor := True, temperatures := temperatures i @ temperatures j,
        top_ps := top_ps i @ top_ps j, top_ks := top_ks i @ top_ks j, min_ps := min_ps i @ min_ps j,
        is_all_greedy := (is_all_greedy i \<and> is_all_greedy j),
        need_min_p_sampling := (need_min_p_sampling i \<or> need_min_p_sampling j)\<rparr>"
      using m True e(1) by (simp add: info_merge_def p q pq bind_result_def)
    ultimately show ?thesis using ok fo e(2) unfolding info_ok_def by (simp add: ball_Un)
  qed
qed

section \<open>Properties\<close>

text \<open>The sampling infos of the batches the scheduler builds, filters, merges and decodes.\<close>

inductive info_run ::
  "(string \<Rightarrow> int) \<Rightarrow> string set \<Rightarrow> nat \<Rightarrow> (req \<times> token list) list \<Rightarrow> string option list \<Rightarrow> 'c sampling_info \<Rightarrow> bool"
  for hsh S v where
  info_new: "from_schedule_batch hsh v enable reqs procs params = Inr i \<Longrightarrow> \<forall>s. Some s \<in> set procs \<longrightarrow> s \<in> S \<Longrightarrow>
     length procs = length reqs \<Longrightarrow> length params = length reqs \<Longrightarrow>
     info_run hsh S v (map (\<lambda>r. (r, [])) reqs) (effective enable procs) i"
| info_fed: "info_run hsh S v h procs i \<Longrightarrow> penalizer_orchestrator i = Some p \<Longrightarrow> length ids = length h \<Longrightarrow>
     \<forall>t\<in>set ids. 0 \<le> t \<Longrightarrow> orch_cumulate p ids = Inr p' \<Longrightarrow>
     info_run hsh S v (map2 (\<lambda>(r, ts) t. (r, ts @ [t])) h ids) procs (i\<lparr>penalizer_orchestrator := Some p'\<rparr>)"
| info_filtered: "info_run hsh S v h procs i \<Longrightarrow> \<forall>k\<in>set ks. k < length h \<Longrightarrow>
     info_filter (map fst (take_rows ks h)) ks i = Inr i' \<Longrightarrow> info_run hsh S v (take_rows ks h) (take_rows ks procs) i'"
| info_merged: "info_run hsh S v h procs i \<Longrightarrow> info_run hsh S v h' procs' j \<Longrightarrow>
     info_merge (map fst h) i (map fst h') j = Inr i' \<Longrightarrow> info_run hsh S v (h @ h') (procs @ procs') i'"

lemma fed_requests:
  "length ids = length h \<Longrightarrow> map fst (map2 (\<lambda>(r, ts) t. (r, ts @ [t])) h ids) = map fst h"
  by (auto intro!: nth_equalityI simp: case_prod_beta)

lemma map_fst_case: "map (\<lambda>(r, ts). f r) h = map f (map fst h)"
  "(\<forall>(r, ts)\<in>set h. P r) \<longleftrightarrow> (\<forall>r\<in>set (map fst h). P r)"
  by (auto simp: case_prod_beta)

lemma info_fed_ok:
  assumes "info_ok hsh S v h procs i" and "penalizer_orchestrator i = Some p" and len: "length ids = length h"
    and "orch_cumulate p ids = Inr p'"
  shows "info_ok hsh S v (map2 (\<lambda>(r, ts) t. (r, ts @ [t])) h ids) procs (i\<lparr>penalizer_orchestrator := Some p'\<rparr>)"
proof -
  have "orch_follows v h p" using assms(1,2) by (simp add: info_ok_def)
  note f = orch_follows_cumulate [OF this len assms(4)]
  show ?thesis
    using assms(1) f len unfolding info_ok_def map_fst_case fed_requests [OF len] by auto
qed

lemma info_run_ok:
  assumes "info_run hsh S v h procs i" and inj: "inj_on hsh S"
  shows "info_ok hsh S v h procs i \<and> (\<forall>s. Some s \<in> set procs \<longrightarrow> s \<in> S) \<and> (\<forall>(r, ts)\<in>set h. \<forall>t\<in>set ts. 0 \<le> t)"
  using assms(1)
proof (induction rule: info_run.induct)
  case (info_new enable reqs procs params i)
  then show ?case using from_schedule_batch_ok [OF info_new(1) inj info_new(2-4)] by (auto simp: effective_def)
next
  case (info_fed h procs i p ids p')
  then show ?case using info_fed_ok fed_nonneg by blast
next
  case (info_filtered h procs i ks i')
  then have len: "length procs = length h" by (simp add: info_ok_def)
  have "info_ok hsh S v (take_rows ks h) (take_rows ks procs) i'"
    using info_filter_ok [of hsh S v h procs i ks] info_filtered by auto
  then show ?case
    using info_filtered take_rows_set [of ks h] take_rows_set [of ks procs] len by fastforce
next
  case (info_merged h procs i h' procs' j i')
  then show ?case using info_merge_ok [OF _ _ inj, of v h procs i h' procs' j i'] by auto
qed


definition greedy_req :: req where
  "greedy_req = req_init ''r'' [1] (default_params\<lparr>top_k := 1\<rparr>) False 0 None False None None None None"

lemma greedy_info:
  "\<exists>i. info_run (\<lambda>s. int (length s)) {''p''} 2 [(greedy_req, [])] [Some ''p''] (i :: unit sampling_info)"
proof -
  have "\<exists>i. from_schedule_batch (\<lambda>s. int (length s)) 2 True [greedy_req] [Some ''p''] [None] = Inr (i :: unit sampling_info)"
    by (simp add: from_schedule_batch_def orchestrator_init_def prepare_if_required_def bind_result_def Let_def
        freq_required_def min_required_def pres_required_def greedy_req_def req_init_def default_params_def)
  then obtain i where "from_schedule_batch (\<lambda>s. int (length s)) 2 True [greedy_req] [Some ''p''] [None] = Inr (i :: unit sampling_info)"
    by blast
  then show ?thesis using info_new [of _ 2 True "[greedy_req]" "[Some ''p'']" "[None]" i "{''p''}"] by (auto simp: effective_def)
qed




end
