(* ===== verification/Schedule_Batch.thy ===== *)
theory Schedule_Batch
  imports Batch_Alloc Sampling_Batch "HOL-Library.Product_Lexorder"
begin

text \<open>
  \<open>ScheduleBatch\<close> of \<open>managers/schedule_batch.py\<close>: building an extend batch, mixing it with the
  running decode batch, the next decode step, retraction, filtering and merging. The two memory
  pools and the tree cache are one radix cache value that the operations return updated. A
  tensor attribute that may be absent is an option. Multimodal inputs, input embeddings and the
  encoder tensors are left out, and the batch does not use speculative decoding.
\<close>

section \<open>State\<close>

datatype forward_mode = EXTEND | DECODE | MIXED | IDLE

record schedule_batch =
  sb_reqs :: "req list"
  forward_mode :: "forward_mode option"
  enable_overlap :: bool
  batch_is_full :: bool
  sb_chunked_req :: "req option"
  sampling_info :: "string sampling_info option"
  input_ids :: "token list option"
  req_pool_indices :: "nat list"
  seq_lens :: "nat list"
  out_cache_loc :: "slot list option"
  sb_output_ids :: "token list option"
  seq_lens_sum :: int
  sb_return_logprob :: bool
  top_logprobs_nums :: "int list option"
  token_ids_logprobs :: "token list option list option"
  prefix_lens :: "int list"
  extend_lens :: "int list"
  extend_num_tokens :: int
  decoding_reqs :: "req list option"
  extend_logprob_start_lens :: "int list"
  extend_input_logprob_token_ids :: "token list option"
  has_stream :: bool
  has_grammar :: bool
  enable_custom_logit_processor :: bool
  return_hidden_states :: bool

definition init_new :: "req list \<Rightarrow> bool \<Rightarrow> bool \<Rightarrow> req option \<Rightarrow> schedule_batch" where
  "init_new reqs overlap custom chunked =
     \<lparr>sb_reqs = reqs, forward_mode = None, enable_overlap = overlap, batch_is_full = False,
      sb_chunked_req = chunked, sampling_info = None,
      input_ids = None, req_pool_indices = [], seq_lens = [], out_cache_loc = None, sb_output_ids = None,
      seq_lens_sum = 0, sb_return_logprob = list_ex return_logprob reqs, top_logprobs_nums = None,
      token_ids_logprobs = None, prefix_lens = [], extend_lens = [], extend_num_tokens = 0, decoding_reqs = None,
      extend_logprob_start_lens = [], extend_input_logprob_token_ids = None,
      has_stream = list_ex stream reqs, has_grammar = list_ex (\<lambda>r. grammar r \<noteq> None) reqs,
      enable_custom_logit_processor = custom, return_hidden_states = list_ex r_return_hidden_states reqs\<rparr>"

definition batch_size :: "schedule_batch \<Rightarrow> nat" where
  "batch_size b = length (sb_reqs b)"

definition batch_is_empty :: "schedule_batch \<Rightarrow> bool" where
  "batch_is_empty b \<longleftrightarrow> length (sb_reqs b) = 0"

section \<open>Extend\<close>

definition extend_logprob_start :: "req \<Rightarrow> int \<Rightarrow> int" where
  "extend_logprob_start r pre_len =
     (if logprob_start_len r \<ge> pre_len
      then min (min (logprob_start_len r - pre_len) (extend_input_len r)) (int (seqlen r) - 1)
      else 0)"

text \<open>The input tokens whose log probabilities request \<open>r\<close> needs, padded with 0.\<close>

definition logprob_token_ids :: "req \<Rightarrow> token list \<Rightarrow> token list" where
  "logprob_token_ids r ids =
     (let pre = int (length (prefix_indices r));
          start = (if pre < logprob_start_len r then logprob_start_len r else pre);
          toks = seg (origin_input_ids r) (nat (start + 1)) (length ids + 1)
      in toks @ replicate (nat (extend_input_len r - extend_logprob_start_len r - int (length toks))) 0)"

definition extend_update :: "req \<Rightarrow> nat \<Rightarrow> int \<Rightarrow> int \<Rightarrow> req" where
  "extend_update r idx seq_len pre_len =
     r\<lparr>req_pool_idx := Some idx, cached_tokens := cached_tokens r + (pre_len - already_computed r),
       already_computed := seq_len, is_retracted := False,
       extend_logprob_start_len := extend_logprob_start r pre_len\<rparr>"

text \<open>One round of the loop over the requests: the updated request and pool.\<close>

definition extend_req :: "req \<Rightarrow> nat \<Rightarrow> req_to_token_pool \<Rightarrow> (req \<times> token list \<times> req_to_token_pool) result" where
  "extend_req r idx pool =
     (case fill_ids r of
        None \<Rightarrow> Inl TypeError
      | Some ids \<Rightarrow>
          (let seq_len = int (length ids); pre_len = int (length (prefix_indices r)) in
           if seq_len - pre_len \<noteq> extend_input_len r then Inl AssertionError
           else
             bind_result (if pre_len > 0 then rtp_write pool (RowSlice idx 0 (nat pre_len)) (prefix_indices r) else Inr pool)
               (\<lambda>pool'.
                 let r' = extend_update r idx seq_len pre_len
                 in Inr (r', logprob_token_ids r' ids, pool'))))"

fun extend_reqs :: "req list \<Rightarrow> nat list \<Rightarrow> req_to_token_pool \<Rightarrow> (req list \<times> token list \<times> req_to_token_pool) result" where
  "extend_reqs [] idx pool = Inr ([], [], pool)"
| "extend_reqs (r # rs) [] pool = Inl IndexError"
| "extend_reqs (r # rs) (i # idx) pool =
     bind_result (extend_req r i pool) (\<lambda>(r', toks, pool').
     bind_result (extend_reqs rs idx pool') (\<lambda>(rs', toks', pool'').
       Inr (r' # rs', toks @ toks', pool'')))"

fun all_fill_ids :: "req list \<Rightarrow> token list list result" where
  "all_fill_ids [] = Inr []"
| "all_fill_ids (r # rs) =
     (case fill_ids r of
        None \<Rightarrow> Inl TypeError
      | Some ids \<Rightarrow> bind_result (all_fill_ids rs) (\<lambda>rest. Inr (ids # rest)))"

text \<open>
  \<open>hsh\<close> and \<open>vocab\<close> are for the sampling info. The buffer for the slots is uninitialised memory
  in the code; every cell of it is written.
\<close>

definition prepare_for_extend ::
  "(string \<Rightarrow> int) \<Rightarrow> nat \<Rightarrow> radix_cache \<Rightarrow> schedule_batch \<Rightarrow> (schedule_batch \<times> radix_cache) result" where
  "prepare_for_extend hsh vocab c b =
     (let reqs = sb_reqs b in
      bind_result (alloc_req_slots (req_pool c) (length reqs)) (\<lambda>(idx, pool1).
      bind_result (all_fill_ids reqs) (\<lambda>fills.
      let ids = map2 (\<lambda>r f. drop (length (prefix_indices r)) f) reqs fills;
          num = length (concat ids);
          seqs = map length fills;
          pres = map (\<lambda>r. length (prefix_indices r)) reqs
      in
      bind_result (extend_reqs reqs idx pool1) (\<lambda>(reqs1, lp_ids, pool2).
      let c2 = c\<lparr>req_pool := pool2\<rparr> in
      bind_result
        (if kv_page_size (kv_pool c2) = 1 then alloc_token_slots c2 num False
         else alloc_paged_token_slots_extend c2 (map int pres) (map int seqs)
                (get_last_loc_torch (req_to_token pool2) idx pres) (replicate num 0) False) (\<lambda>(loc, st, c3).
      bind_result (write_loop (req_pool c3) (zip idx (zip pres (zip seqs (map (\<lambda>r. nat (extend_input_len r)) reqs)))) loc)
        (\<lambda>pool4.
      bind_result (from_schedule_batch hsh vocab (enable_custom_logit_processor b) reqs1
                     (map r_processor reqs1) (map r_custom_params reqs1)) (\<lambda>info.
        Inr (b\<lparr>sb_reqs := reqs1, forward_mode := Some EXTEND, input_ids := Some (concat ids), req_pool_indices := idx,
               seq_lens := seqs, out_cache_loc := Some loc, seq_lens_sum := int (sum_list seqs),
               top_logprobs_nums := (if sb_return_logprob b then Some (map top_logprobs_num reqs1) else top_logprobs_nums b),
               token_ids_logprobs := (if sb_return_logprob b then Some (map token_ids_logprob reqs1) else token_ids_logprobs b),
               extend_logprob_start_lens := map extend_logprob_start_len reqs1, extend_num_tokens := int num,
               prefix_lens := map int pres, extend_lens := map extend_input_len reqs,
               extend_input_logprob_token_ids := (if sb_return_logprob b then Some lp_ids else None),
               sampling_info := Some info\<rparr>, c3\<lparr>req_pool := pool4\<rparr>))))))))"

section \<open>Merge and mix\<close>

definition cat_tensors :: "'a list option \<Rightarrow> 'a list option \<Rightarrow> 'a list option result" where
  "cat_tensors x y = (case (x, y) of (Some a, Some b) \<Rightarrow> Inr (Some (a @ b)) | _ \<Rightarrow> Inl TypeError)"

definition merge_logprobs ::
  "schedule_batch \<Rightarrow> schedule_batch \<Rightarrow> (int list option \<times> token list option list option) result" where
  "merge_logprobs b other =
     (if sb_return_logprob b \<and> sb_return_logprob other then
     bind_result (cat_tensors (top_logprobs_nums b) (top_logprobs_nums other)) (\<lambda>n.
     bind_result (cat_tensors (token_ids_logprobs b) (token_ids_logprobs other)) (\<lambda>t. Inr (n, t)))
     else if sb_return_logprob b then
     bind_result (cat_tensors (top_logprobs_nums b) (Some (replicate (length (sb_reqs other)) 0))) (\<lambda>n.
     bind_result (cat_tensors (token_ids_logprobs b) (Some (replicate (length (sb_reqs other)) None))) (\<lambda>t. Inr (n, t)))
     else if sb_return_logprob other then
     bind_result (cat_tensors (Some (replicate (length (sb_reqs b)) 0)) (top_logprobs_nums other)) (\<lambda>n.
     bind_result (cat_tensors (Some (replicate (length (sb_reqs b)) None)) (token_ids_logprobs other)) (\<lambda>t. Inr (n, t)))
     else Inr (top_logprobs_nums b, token_ids_logprobs b))"

definition merge_batch :: "schedule_batch \<Rightarrow> schedule_batch \<Rightarrow> schedule_batch result" where
  "merge_batch b other =
     (case (sampling_info b, sampling_info other) of
        (Some i, Some j) \<Rightarrow>
          bind_result (info_merge (sb_reqs b) i (sb_reqs other) j) (\<lambda>ij.
          bind_result (case sb_output_ids b of None \<Rightarrow> Inr None | Some _ \<Rightarrow> cat_tensors (sb_output_ids b) (sb_output_ids other))
            (\<lambda>outs.
          bind_result (merge_logprobs b other) (\<lambda>(n, t).
            Inr (b\<lparr>sampling_info := Some ij, req_pool_indices := req_pool_indices b @ req_pool_indices other,
                   seq_lens := seq_lens b @ seq_lens other, out_cache_loc := None,
                   seq_lens_sum := seq_lens_sum b + seq_lens_sum other, sb_output_ids := outs,
                   top_logprobs_nums := n, token_ids_logprobs := t, sb_reqs := sb_reqs b @ sb_reqs other,
                   sb_return_logprob := (sb_return_logprob b \<or> sb_return_logprob other),
                   has_stream := (has_stream b \<or> has_stream other), has_grammar := (has_grammar b \<or> has_grammar other),
                   return_hidden_states := (return_hidden_states b \<or> return_hidden_states other)\<rparr>))))
      | _ \<Rightarrow> Inl AttributeError)"

definition mix_with_running :: "schedule_batch \<Rightarrow> schedule_batch \<Rightarrow> schedule_batch result" where
  "mix_with_running b running =
     (let rs = map (\<lambda>r. r\<lparr>fill_ids := Some (origin_input_ids r @ output_ids r), extend_input_len := 1\<rparr>) (sb_reqs running);
          running1 = running\<lparr>sb_reqs := rs\<rparr>
      in bind_result (cat_tensors (input_ids b) (input_ids running)) (\<lambda>ids.
         bind_result (cat_tensors (out_cache_loc b) (out_cache_loc running)) (\<lambda>loc.
         bind_result (merge_batch (b\<lparr>forward_mode := Some MIXED\<rparr>) running1) (\<lambda>b1.
           let delta = (if enable_overlap b1 then 0 else - 1)
           in Inr (b1\<lparr>input_ids := ids, out_cache_loc := loc,
                      prefix_lens := prefix_lens b1 @
                        map (\<lambda>r. int (length (origin_input_ids r)) + int (length (output_ids r)) + delta) rs,
                      extend_lens := extend_lens b1 @ replicate (length rs) 1,
                      extend_num_tokens := extend_num_tokens b1 + int (length rs),
                      extend_logprob_start_lens := extend_logprob_start_lens b1 @ replicate (length rs) 0\<rparr>)))))"

section \<open>Filter\<close>

text \<open>
  The indices kept when none are given: unfinished requests outside the list. Requests are
  compared by identity, here by their id.
\<close>

definition default_keep :: "schedule_batch \<Rightarrow> req list \<Rightarrow> nat list" where
  "default_keep b excl =
     filter (\<lambda>i. \<not> finished (sb_reqs b ! i) \<and> rid (sb_reqs b ! i) \<notin> rid ` set excl) [0..<length (sb_reqs b)]"

definition filter_batch :: "schedule_batch \<Rightarrow> nat list \<Rightarrow> schedule_batch result" where
  "filter_batch b keep =
     (if length keep = 0 then Inr (b\<lparr>sb_reqs := []\<rparr>)
      else if length keep = length (sb_reqs b) then Inr b
      else if \<not> list_all (\<lambda>k. k < length (sb_reqs b)) keep then Inl IndexError
      else
        (case (sb_output_ids b, sampling_info b) of
           (Some outs, Some i) \<Rightarrow>
             (let reqs = take_rows keep (sb_reqs b); lp = list_ex return_logprob reqs;
                  seqs = take_rows keep (seq_lens b) in
              bind_result
                (if lp then
                   (case (top_logprobs_nums b, token_ids_logprobs b) of
                      (Some n, Some t) \<Rightarrow> Inr (Some (take_rows keep n), Some (take_rows keep t))
                    | _ \<Rightarrow> Inl TypeError)
                 else Inr (None, None)) (\<lambda>(n, t).
              bind_result (info_filter reqs keep i) (\<lambda>i'.
                Inr (b\<lparr>sb_reqs := reqs, req_pool_indices := take_rows keep (req_pool_indices b), seq_lens := seqs,
                       out_cache_loc := None, seq_lens_sum := int (sum_list seqs),
                       sb_output_ids := Some (take_rows keep outs), sb_return_logprob := lp,
                       top_logprobs_nums := n, token_ids_logprobs := t, has_stream := list_ex stream reqs,
                       has_grammar := list_ex (\<lambda>r. grammar r \<noteq> None) reqs, sampling_info := Some i'\<rparr>))))
         | _ \<Rightarrow> Inl TypeError))"

section \<open>Decode\<close>

definition prepare_for_idle :: "(string \<Rightarrow> int) \<Rightarrow> nat \<Rightarrow> schedule_batch \<Rightarrow> schedule_batch result" where
  "prepare_for_idle hsh vocab b =
     bind_result (from_schedule_batch hsh vocab (enable_custom_logit_processor b) (sb_reqs b)
                    (map r_processor (sb_reqs b)) (map r_custom_params (sb_reqs b))) (\<lambda>i.
       Inr (b\<lparr>forward_mode := Some IDLE, input_ids := Some [], seq_lens := [], out_cache_loc := Some [],
              req_pool_indices := [], seq_lens_sum := 0, extend_num_tokens := 0, sampling_info := Some i\<rparr>))"

fun last_tokens :: "req list \<Rightarrow> token list result" where
  "last_tokens [] = Inr []"
| "last_tokens (r # rs) =
     bind_result (py_get (if output_ids r \<noteq> [] then output_ids r else origin_input_ids r) (- 1)) (\<lambda>t.
     bind_result (last_tokens rs) (\<lambda>ts. Inr (t # ts)))"

definition feed_penalizers :: "schedule_batch \<Rightarrow> schedule_batch result" where
  "feed_penalizers b =
     (case sampling_info b of
        None \<Rightarrow> Inl AttributeError
      | Some i \<Rightarrow>
          (case penalizer_orchestrator i of
             None \<Rightarrow> Inl AttributeError
           | Some p \<Rightarrow>
               if is_required p then
                 bind_result (if enable_overlap b then last_tokens (sb_reqs b)
                              else (case sb_output_ids b of None \<Rightarrow> Inl AttributeError | Some ts \<Rightarrow> Inr ts)) (\<lambda>ts.
                 bind_result (orch_cumulate p ts) (\<lambda>p'.
                   Inr (b\<lparr>sampling_info := Some (i\<lparr>penalizer_orchestrator := Some p'\<rparr>)\<rparr>)))
               else Inr b))"

text \<open>\<open>req_to_token[req_pool_indices, seq_lens - 2]\<close> for the increased lengths.\<close>

definition decode_last_loc :: "slot list list \<Rightarrow> nat list \<Rightarrow> nat list \<Rightarrow> slot list" where
  "decode_last_loc tab idx lens = map2 (\<lambda>i n. if n = 0 then last (tab ! i) else tab ! i ! (n - 1)) idx lens"

definition prepare_for_decode :: "radix_cache \<Rightarrow> schedule_batch \<Rightarrow> (schedule_batch \<times> radix_cache) result" where
  "prepare_for_decode c b =
     bind_result (feed_penalizers (b\<lparr>forward_mode := Some DECODE\<rparr>)) (\<lambda>b1.
       let bs = length (sb_reqs b1); locs = seq_lens b1;
           b2 = b1\<lparr>input_ids := sb_output_ids b1, sb_output_ids := None, seq_lens := map Suc locs,
                   seq_lens_sum := seq_lens_sum b1 + int bs\<rparr>
       in bind_result
            (if kv_page_size (kv_pool c) = 1 then alloc_token_slots c bs False
             else alloc_paged_token_slots_decode c (map int (seq_lens b2))
                    (decode_last_loc (req_to_token (req_pool c)) (req_pool_indices b2) locs) (replicate (length locs) 0) False)
            (\<lambda>(loc, st, c1).
          bind_result (rtp_write (req_pool c1) (Cells (zip (req_pool_indices b2) locs)) loc) (\<lambda>pool.
            Inr (b2\<lparr>out_cache_loc := Some loc\<rparr>, c1\<lparr>req_pool := pool\<rparr>))))"

section \<open>Retraction\<close>

definition retract_decode_steps :: nat where
  "retract_decode_steps = 20"

text \<open>
  The memory the remaining requests need: \<open>spec\<close> holds the top-k, the number of steps and the
  number of draft tokens of speculative decoding.
\<close>

definition get_required_tokens :: "(nat \<times> nat \<times> nat) option \<Rightarrow> nat \<Rightarrow> nat" where
  "get_required_tokens spec num_reqs =
     num_reqs * retract_decode_steps +
     (case spec of None \<Rightarrow> 0 | Some (topk, steps, draft) \<Rightarrow> num_reqs * topk * steps + num_reqs * draft)"

text \<open>
  The order of retraction: the sorted list is popped from its end, so the first element here is
  the one with the fewest output tokens, and among those the longest input.
\<close>

definition retract_order :: "bool \<Rightarrow> req list \<Rightarrow> nat list" where
  "retract_order speculative reqs =
     rev (if speculative then [0..<length reqs]
          else sort_key (\<lambda>i. (- int (length (output_ids (reqs ! i))), int (length (origin_input_ids (reqs ! i)))))
                 [0..<length reqs])"

definition the_result :: "'a option \<Rightarrow> 'a result" where
  "the_result x = (case x of None \<Rightarrow> Inl RuntimeError | Some y \<Rightarrow> Inr y)"

text \<open>Releasing one request; \<open>left\<close> requests remain. \<open>chunk\<close> says that the cache is a \<open>ChunkCache\<close>.\<close>

definition retract_one :: "bool \<Rightarrow> nat \<Rightarrow> radix_cache \<Rightarrow> req \<Rightarrow> nat \<Rightarrow> nat \<Rightarrow> radix_cache result" where
  "retract_one chunk page c r seq_len left =
     (case req_pool_idx r of
        None \<Rightarrow> Inl TypeError
      | Some i \<Rightarrow>
          if \<not> i < length (req_to_token (req_pool c)) then Inl IndexError
          else
            (let row = req_to_token (req_pool c) ! i;
                 pos = (if chunk then 0 else page_floor page (length (prefix_indices r)))
             in bind_result (kv_free (kv_pool c) (seg row pos seq_len)) (\<lambda>a.
                let c1 = release_row (c\<lparr>kv_pool := a\<rparr>) i in
                if chunk then Inr c1
                else
                  (case last_node r of
                     None \<Rightarrow> Inl AttributeError
                   | Some node \<Rightarrow>
                       bind_result (the_result (dec_lock_ref c1 node)) (\<lambda>(d, c2).
                         the_result (radix_evict c2
                           (max 0 (int (left * retract_decode_steps) - int (kv_available (kv_pool c2))))))))))"

fun retract_loop ::
  "bool \<Rightarrow> nat \<Rightarrow> (nat \<times> nat \<times> nat) option \<Rightarrow> req list \<Rightarrow> nat list \<Rightarrow> bool \<Rightarrow> radix_cache \<Rightarrow> nat list \<Rightarrow>
   (nat list \<times> nat list \<times> radix_cache) result" where
  "retract_loop chunk page spec reqs lens first c [] =
     (if kv_available (kv_pool c) < get_required_tokens spec 0 \<or> first then Inl IndexError else Inr ([], [], c))"
| "retract_loop chunk page spec reqs lens first c [i] =
     (if kv_available (kv_pool c) < get_required_tokens spec 1 \<or> first then
        (if kv_available (kv_pool c) > 0 then Inr ([], [i], c) else Inl AssertionError)
      else Inr ([], [i], c))"
| "retract_loop chunk page spec reqs lens first c (i # j # rest) =
     (if kv_available (kv_pool c) < get_required_tokens spec (length (i # j # rest)) \<or> first then
        bind_result (retract_one chunk page c (reqs ! i) (lens ! i) (length (j # rest))) (\<lambda>c'.
        bind_result (retract_loop chunk page spec reqs lens False c' (j # rest)) (\<lambda>(gone, kept, c'').
          Inr (i # gone, kept, c'')))
      else Inr ([], i # j # rest, c))"

definition retract_decode ::
  "bool \<Rightarrow> nat \<Rightarrow> (nat \<times> nat \<times> nat) option \<Rightarrow> radix_cache \<Rightarrow> schedule_batch \<Rightarrow>
   (req list \<times> rat \<times> schedule_batch \<times> radix_cache) result" where
  "retract_decode chunk page spec c b =
     bind_result (retract_loop chunk page spec (sb_reqs b) (seq_lens b) True c (retract_order (spec \<noteq> None) (sb_reqs b)))
       (\<lambda>(gone, kept, c').
     bind_result (filter_batch b (rev kept)) (\<lambda>b'.
       let decoded = sum_list (map (\<lambda>r. length (output_ids r)) (sb_reqs b'));
           total = sum_list (map (\<lambda>r. the (max_new_tokens (r_params r))) (sb_reqs b'))
       in if \<not> list_all (\<lambda>r. max_new_tokens (r_params r) \<noteq> None) (sb_reqs b') then Inl TypeError
          else if total = 0 then Inl ZeroDivisionError
          else Inr (map (\<lambda>i. reset_for_retract (sb_reqs b ! i)) gone,
                    min 1 (of_nat (decoded + retract_decode_steps * length (sb_reqs b')) / of_int total), b', c')))"

end
