(* ===== verification/Batch_Rows.thy ===== *)
theory Batch_Rows
  imports Schedule_Batch
begin

text \<open>
  What the batch operations do to the rows of the request table: after \<open>prepare_for_extend\<close> the
  row of a request holds its cached prefix followed by its new slots, and \<open>prepare_for_decode\<close>
  adds one slot to it. Slots are neither lost nor handed out twice.
\<close>

section \<open>Consecutive pieces of a list\<close>

fun chunks :: "nat list \<Rightarrow> 'a list \<Rightarrow> 'a list list" where
  "chunks [] out = []"
| "chunks (e # es) out = take e out # chunks es (drop e out)"

lemma length_chunks [simp]: "length (chunks es out) = length es"
  by (induction es arbitrary: out) auto

lemma concat_chunks: "sum_list es = length out \<Longrightarrow> concat (chunks es out) = out"
proof (induction es arbitrary: out)
  case (Cons e es)
  then have "concat (chunks es (drop e out)) = drop e out" by simp
  then show ?case by simp
qed simp

lemma length_chunk: "k < length es \<Longrightarrow> sum_list es \<le> length out \<Longrightarrow> length (chunks es out ! k) = es ! k"
  by (induction es arbitrary: out k) (auto simp: nth_Cons split: nat.splits)

section \<open>Writing the rows\<close>

lemma write_loop_rows:
  assumes "distinct (map fst zs)"
    and "\<forall>(i, p, s, e)\<in>set zs. i < length (req_to_token pool) \<and> p \<le> s \<and> s \<le> length (req_to_token pool ! i) \<and> e = s - p"
    and "sum_list (map (\<lambda>(i, p, s, e). e) zs) \<le> length out"
  shows "\<exists>tab. write_loop pool zs out = Inr (pool\<lparr>req_to_token := tab\<rparr>) \<and> map length tab = map length (req_to_token pool) \<and>
    (\<forall>k<length zs. case zs ! k of (i, p, s, e) \<Rightarrow>
       tab ! i = take p (req_to_token pool ! i) @ chunks (map (\<lambda>(i, p, s, e). e) zs) out ! k @ drop s (req_to_token pool ! i)) \<and>
    (\<forall>i. i \<notin> fst ` set zs \<longrightarrow> tab ! i = req_to_token pool ! i)"
  using assms
proof (induction zs arbitrary: pool out)
  case Nil
  then show ?case by (intro exI [of _ "req_to_token pool"]) simp
next
  case (Cons z zs)
  obtain i p s e where z: "z = (i, p, s, e)" by (metis prod_cases4)
  let ?tab = "req_to_token pool"
  let ?row = "take p (?tab ! i) @ take e out @ drop s (?tab ! i)"
  let ?pool = "pool\<lparr>req_to_token := ?tab[i := ?row]\<rparr>"
  have i: "i < length ?tab" "p \<le> s" "s \<le> length (?tab ! i)" "e = s - p" and e: "length (take e out) = s - p"
    using Cons.prems z by auto
  have w: "rtp_write pool (RowSlice i p s) (take e out) = Inr ?pool"
    using write_row_slice [OF i(1-3) e] .
  have nin: "i \<notin> fst ` set zs" using Cons.prems(1) z by simp
  then have same: "?tab[i := ?row] ! j = ?tab ! j" if "(j, p', s', e') \<in> set zs" for j p' s' e'
    using that by (metis fst_conv image_eqI nth_list_update_neq)
  have pr: "\<forall>(j, p', s', e')\<in>set zs. j < length (req_to_token ?pool) \<and> p' \<le> s' \<and> s' \<le> length (req_to_token ?pool ! j) \<and> e' = s' - p'"
    using Cons.prems(2) same by fastforce
  have d: "distinct (map fst zs)" and sm: "sum_list (map (\<lambda>(i, p, s, e). e) zs) \<le> length (drop e out)"
    using Cons.prems(1,3) z by auto
  obtain tab where t: "write_loop ?pool zs (drop e out) = Inr (?pool\<lparr>req_to_token := tab\<rparr>)"
    "map length tab = map length (req_to_token ?pool)"
    "\<forall>k<length zs. case zs ! k of (j, p', s', e') \<Rightarrow>
       tab ! j = take p' (req_to_token ?pool ! j) @ chunks (map (\<lambda>(i, p, s, e). e) zs) (drop e out) ! k @ drop s' (req_to_token ?pool ! j)"
    "\<forall>j. j \<notin> fst ` set zs \<longrightarrow> tab ! j = req_to_token ?pool ! j"
    using Cons.IH [OF d pr sm] by auto
  have len: "map length tab = map length ?tab"
    using t(2) e i by (simp add: map_update list_update_same_conv)
  have rows: "case (z # zs) ! k of (j, p', s', e') \<Rightarrow>
      tab ! j = take p' (?tab ! j) @ chunks (map (\<lambda>(i, p, s, e). e) (z # zs)) out ! k @ drop s' (?tab ! j)"
    if k: "k < length (z # zs)" for k
  proof (cases k)
    case 0
    then show ?thesis using t(4) nin z i(1) by simp
  next
    case (Suc m)
    then have m: "m < length zs" using k by simp
    obtain j p' s' e' where zm: "zs ! m = (j, p', s', e')" by (metis prod_cases4)
    then have "?tab[i := ?row] ! j = ?tab ! j" using same m by (metis nth_mem)
    then show ?thesis using t(3) m zm Suc z by auto
  qed
  have "write_loop pool (z # zs) out = Inr (pool\<lparr>req_to_token := tab\<rparr>)"
    using w t(1) z by (simp add: bind_result_def)
  moreover have "tab ! j = ?tab ! j" if "j \<notin> fst ` set (z # zs)" for j
    using that t(4) z by simp
  ultimately show ?case using len rows by blast
qed

section \<open>Copying the prefixes\<close>

text \<open>A request that is ready to be extended, in rows of length \<open>w\<close>.\<close>

definition extend_ready :: "nat \<Rightarrow> req \<Rightarrow> bool" where
  "extend_ready w r \<longleftrightarrow>
     (\<exists>ids. fill_ids r = Some ids \<and> length (prefix_indices r) \<le> length ids \<and> length ids \<le> w \<and>
        extend_input_len r = int (length ids) - int (length (prefix_indices r)))"

definition fill_of :: "req \<Rightarrow> token list" where
  "fill_of r = (case fill_ids r of None \<Rightarrow> [] | Some ids \<Rightarrow> ids)"

definition extended :: "req \<Rightarrow> nat \<Rightarrow> req" where
  "extended r i = extend_update r i (int (length (fill_of r))) (int (length (prefix_indices r)))"

lemma extend_readyD:
  assumes "extend_ready w r"
  shows "fill_ids r = Some (fill_of r)" "length (prefix_indices r) \<le> length (fill_of r)" "length (fill_of r) \<le> w"
    "extend_input_len r = int (length (fill_of r)) - int (length (prefix_indices r))"
  using assms by (auto simp: extend_ready_def fill_of_def)

lemma all_fill_ids_ready: "\<forall>r\<in>set rs. extend_ready w r \<Longrightarrow> all_fill_ids rs = Inr (map fill_of rs)"
  by (induction rs) (auto simp: extend_readyD(1) bind_result_def)

lemma extend_req_row:
  assumes r: "extend_ready w r" and i: "i < length (req_to_token pool)" "length (req_to_token pool ! i) = w"
  shows "extend_req r i pool = Inr (extended r i, logprob_token_ids (extended r i) (fill_of r),
    pool\<lparr>req_to_token := (req_to_token pool)[i :=
      prefix_indices r @ drop (length (prefix_indices r)) (req_to_token pool ! i)]\<rparr>)"
proof -
  note f = extend_readyD [OF r]
  have "rtp_write pool (RowSlice i 0 (length (prefix_indices r))) (prefix_indices r) =
      Inr (pool\<lparr>req_to_token := (req_to_token pool)[i :=
        prefix_indices r @ drop (length (prefix_indices r)) (req_to_token pool ! i)]\<rparr>)"
    using write_row_slice [OF i(1), of 0 "length (prefix_indices r)" "prefix_indices r"] f i by simp
  moreover have "pool = pool\<lparr>req_to_token := (req_to_token pool)[i := req_to_token pool ! i]\<rparr>" by simp
  ultimately show ?thesis using f by (auto simp: extend_req_def Let_def bind_result_def extended_def)
qed

lemma extend_reqs_rows:
  assumes "\<forall>r\<in>set rs. extend_ready w r" and "length idx = length rs" and "distinct idx"
    and "\<forall>i\<in>set idx. i < length (req_to_token pool) \<and> length (req_to_token pool ! i) = w"
  shows "\<exists>tab. extend_reqs rs idx pool = Inr (map2 extended rs idx,
      concat (map2 (\<lambda>r i. logprob_token_ids (extended r i) (fill_of r)) rs idx), pool\<lparr>req_to_token := tab\<rparr>) \<and>
    map length tab = map length (req_to_token pool) \<and>
    (\<forall>k<length rs. tab ! (idx ! k) =
       prefix_indices (rs ! k) @ drop (length (prefix_indices (rs ! k))) (req_to_token pool ! (idx ! k))) \<and>
    (\<forall>i. i \<notin> set idx \<longrightarrow> tab ! i = req_to_token pool ! i)"
  using assms
proof (induction rs arbitrary: idx pool)
  case Nil
  then show ?case by (intro exI [of _ "req_to_token pool"]) simp
next
  case (Cons r rs)
  obtain i idx' where idx: "idx = i # idx'" using Cons.prems(2) by (cases idx) auto
  let ?tab = "req_to_token pool"
  let ?row = "prefix_indices r @ drop (length (prefix_indices r)) (?tab ! i)"
  let ?pool = "pool\<lparr>req_to_token := ?tab[i := ?row]\<rparr>"
  have r: "extend_ready w r" and i: "i < length ?tab" "length (?tab ! i) = w" "i \<notin> set idx'" using Cons.prems idx by auto
  have e: "extend_req r i pool = Inr (extended r i, logprob_token_ids (extended r i) (fill_of r), ?pool)"
    by (rule extend_req_row [OF r i(1,2)])
  have len: "map length (req_to_token ?pool) = map length ?tab"
    using i extend_readyD [OF r] by (simp add: map_update list_update_same_conv)
  have pr: "\<forall>r\<in>set rs. extend_ready w r" "length idx' = length rs" "distinct idx'"
    "\<forall>j\<in>set idx'. j < length (req_to_token ?pool) \<and> length (req_to_token ?pool ! j) = w"
    using Cons.prems idx i(3) by (auto simp: nth_list_update)
  obtain tab where t: "extend_reqs rs idx' ?pool = Inr (map2 extended rs idx',
      concat (map2 (\<lambda>r i. logprob_token_ids (extended r i) (fill_of r)) rs idx'), ?pool\<lparr>req_to_token := tab\<rparr>)"
    "map length tab = map length (req_to_token ?pool)"
    "\<forall>k<length rs. tab ! (idx' ! k) =
       prefix_indices (rs ! k) @ drop (length (prefix_indices (rs ! k))) (req_to_token ?pool ! (idx' ! k))"
    "\<forall>j. j \<notin> set idx' \<longrightarrow> tab ! j = req_to_token ?pool ! j"
    using Cons.IH [OF pr] by auto
  have "tab ! (idx ! k) =
      prefix_indices ((r # rs) ! k) @ drop (length (prefix_indices ((r # rs) ! k))) (?tab ! (idx ! k))"
    if k: "k < length (r # rs)" for k
  proof (cases k)
    case 0
    then show ?thesis using t(4) i idx by simp
  next
    case (Suc m)
    then have m: "m < length rs" using k by simp
    have "idx' ! m \<noteq> i" using m i(3) pr(2) by (metis nth_mem)
    then show ?thesis using t(3) m Suc idx by simp
  qed
  moreover have "tab ! j = ?tab ! j" if "j \<notin> set idx" for j using that t(4) idx by simp
  moreover have "extend_reqs (r # rs) idx pool = Inr (map2 extended (r # rs) idx,
      concat (map2 (\<lambda>r i. logprob_token_ids (extended r i) (fill_of r)) (r # rs) idx), pool\<lparr>req_to_token := tab\<rparr>)"
    using e t(1) idx by (simp add: bind_result_def)
  ultimately show ?case using t(2) len by (intro exI [of _ tab]) auto
qed

section \<open>Sampling info of a batch\<close>

text \<open>The stop tokens of the requests can be looked up when some request needs a minimum length.\<close>

definition samplable :: "nat \<Rightarrow> req list \<Rightarrow> bool" where
  "samplable v rs \<longleftrightarrow>
     (list_ex min_required rs \<longrightarrow>
        (\<forall>r\<in>set rs. case stop_ids_of r of Inl e \<Rightarrow> False | Inr ids \<Rightarrow> \<forall>t\<in>set ids. 0 \<le> t \<and> t \<le> int v))"

lemma min_prepare_total:
  assumes "\<forall>r\<in>set rs. case stop_ids_of r of Inl e \<Rightarrow> False | Inr ids \<Rightarrow> \<forall>t\<in>set ids. 0 \<le> t \<and> t \<le> int v"
  shows "\<exists>p. min_prepare v rs = Inr p"
proof -
  have "\<exists>ids. all_stop_ids rs = Inr ids \<and> list_all (list_all (\<lambda>t. 0 \<le> t \<and> t \<le> int v)) ids"
    using assms by (induction rs) (auto simp: bind_result_def list_all_iff split: sum.splits)
  then show ?thesis by (auto simp: min_prepare_def bind_result_def)
qed

lemma samplable_info:
  assumes "samplable v rs"
  shows "\<exists>i. from_schedule_batch hsh v enable rs procs params = Inr i"
proof -
  have "\<exists>b p. prepare_if_required min_required (min_prepare v) rs None = Inr (b, p)"
    using assms min_prepare_total [of rs v]
    by (auto simp: prepare_if_required_def pen_prepare_def bind_result_def samplable_def) (rule exI [of _ True], simp)
  then have "\<exists>p. orchestrator_init v rs = Inr p"
    by (auto simp: orchestrator_init_def prepare_if_required_def [of freq_required] prepare_if_required_def [of pres_required]
        pen_prepare_def freq_prepare_def pres_prepare_def bind_result_def)
  then show ?thesis by (auto simp: from_schedule_batch_def Let_def bind_result_def)
qed

lemma samplable_cong:
  assumes "map r_params rs = map r_params rs'" and "map r_tokenizer rs = map r_tokenizer rs'"
  shows "samplable v rs = samplable v rs'"
proof -
  have len: "length rs = length rs'" using assms(1) map_eq_imp_length_eq by blast
  have "min_required (rs ! k) = min_required (rs' ! k) \<and> stop_ids_of (rs ! k) = stop_ids_of (rs' ! k)" if "k < length rs" for k
  proof -
    have p: "r_params (rs ! k) = r_params (rs' ! k)" "r_tokenizer (rs ! k) = r_tokenizer (rs' ! k)"
      using assms that len by (metis nth_map)+
    show ?thesis unfolding min_required_def stop_ids_of_def p by simp
  qed
  then show ?thesis using len by (auto simp: samplable_def list_ex_length all_set_conv_all_nth)
qed

lemma extended_fields [simp]:
  "r_params (extended r i) = r_params r" "r_tokenizer (extended r i) = r_tokenizer r"
  "req_pool_idx (extended r i) = Some i" "prefix_indices (extended r i) = prefix_indices r"
  by (simp_all add: extended_def extend_update_def)

lemma samplable_extended:
  "length idx = length rs \<Longrightarrow> samplable v (map2 extended rs idx) = samplable v rs"
  by (rule samplable_cong) (auto intro!: nth_equalityI)

section \<open>Extend\<close>

lemma radix_inv_req_pool: "radix_inv (c\<lparr>req_pool := p\<rparr>) refs = radix_inv c refs"
  "cached_slots (c\<lparr>req_pool := p\<rparr>) = cached_slots c" "live (c\<lparr>req_pool := p\<rparr>) = live c"
  "path_of (c\<lparr>req_pool := p\<rparr>) = path_of c" "evictable_size (c\<lparr>req_pool := p\<rparr>) = evictable_size c"
  by (simp_all add: radix_inv_def cached_slots_def live_def path_of_def fun_eq_iff evictable_size_def)

definition extend_total :: "req list \<Rightarrow> nat" where
  "extend_total rs = sum_list (map (\<lambda>r. length (fill_of r) - length (prefix_indices r)) rs)"

lemma shape_rows:
  assumes "map length a = map length b" and "\<forall>row\<in>set b. length row = w"
  shows "length a = length b" "\<forall>row\<in>set a. length row = w"
  using assms by (metis length_map, metis (no_types, lifting) in_set_conv_nth length_map nth_map)

lemma extend_slices:
  "\<forall>r\<in>set rs. extend_ready w r \<Longrightarrow>
   length (concat (map2 (\<lambda>r f. drop (length (prefix_indices r)) f) rs (map fill_of rs))) = extend_total rs"
  by (induction rs) (auto simp: extend_total_def)

lemma extend_zip:
  assumes len: "length idx = length rs" and d: "distinct idx" and r: "\<forall>r\<in>set rs. extend_ready w r"
    and i: "\<forall>i\<in>set idx. i < length tab \<and> length (tab ! i) = w"
  defines "zs \<equiv> zip idx (zip (map (\<lambda>r. length (prefix_indices r)) rs)
      (zip (map length (map fill_of rs)) (map (\<lambda>r. nat (extend_input_len r)) rs)))"
  shows "distinct (map fst zs)" "length zs = length rs" "fst ` set zs = set idx"
    "\<forall>(i, p, s, e)\<in>set zs. i < length tab \<and> p \<le> s \<and> s \<le> length (tab ! i) \<and> e = s - p"
    "map (\<lambda>(i, p, s, e). e) zs = map (\<lambda>r. length (fill_of r) - length (prefix_indices r)) rs"
    "\<forall>k<length rs. zs ! k = (idx ! k, length (prefix_indices (rs ! k)), length (fill_of (rs ! k)),
       length (fill_of (rs ! k)) - length (prefix_indices (rs ! k)))"
proof -
  have e: "nat (extend_input_len x) = length (fill_of x) - length (prefix_indices x)" if "x \<in> set rs" for x
    using extend_readyD(2,4) [of w x] r that by simp
  show nth: "\<forall>k<length rs. zs ! k = (idx ! k, length (prefix_indices (rs ! k)), length (fill_of (rs ! k)),
       length (fill_of (rs ! k)) - length (prefix_indices (rs ! k)))"
    using len e by (simp add: zs_def)
  show l: "length zs = length rs" using len by (simp add: zs_def)
  have "map fst zs = idx" using len by (simp add: zs_def)
  then show "distinct (map fst zs)" "fst ` set zs = set idx" using d by (auto simp flip: list.set_map)
  show "map (\<lambda>(i, p, s, e). e) zs = map (\<lambda>r. length (fill_of r) - length (prefix_indices r)) rs"
    using nth l by (intro nth_equalityI) auto
  have "case zs ! k of (i, p, s, e) \<Rightarrow> i < length tab \<and> p \<le> s \<and> s \<le> length (tab ! i) \<and> e = s - p"
    if k: "k < length rs" for k
  proof -
    have "extend_ready w (rs ! k)" "idx ! k \<in> set idx" using r k len by auto
    then show ?thesis using nth k i extend_readyD(2,3) [of w "rs ! k"] by auto
  qed
  then show "\<forall>(i, p, s, e)\<in>set zs. i < length tab \<and> p \<le> s \<and> s \<le> length (tab ! i) \<and> e = s - p"
    using l by (metis (no_types, lifting) in_set_conv_nth)
qed

text \<open>
  The memory of a batch: enough free rows for its requests, and enough free or evictable slots
  for the tokens that are not cached.
\<close>

definition extend_fits :: "radix_cache \<Rightarrow> req list \<Rightarrow> bool" where
  "extend_fits c rs \<longleftrightarrow>
     length rs \<le> rtp_available_size (req_pool c) \<and>
     int (extend_total rs) \<le> int (kv_available (kv_pool c)) + evictable_size c"

lemma prepare_for_extend_spec:
  assumes inv: "radix_inv c refs" "\<not> cache_disable c" "plain_pool (kv_pool c)" "rtp_inv (req_pool c)"
    and rs: "sb_reqs b = rs" "\<forall>r\<in>set rs. extend_ready (max_context_len (req_pool c)) r" "samplable v rs"
    and fits: "extend_fits c rs"
  shows "\<exists>b' c' loc. prepare_for_extend hsh v c b = Inr (b', c') \<and> out_cache_loc b' = Some loc \<and>
    sb_reqs b' = map2 extended rs (req_pool_indices b') \<and> seq_lens b' = map (\<lambda>r. length (fill_of r)) rs \<and>
    length (req_pool_indices b') = length rs \<and> distinct (req_pool_indices b') \<and>
    set (req_pool_indices b') \<subseteq> set (rtp_free_slots (req_pool c)) \<and>
    length loc = extend_total rs \<and>
    (\<forall>k<length rs. rtp_row (req_pool c') (req_pool_indices b' ! k) (seq_lens b' ! k) =
       prefix_indices (rs ! k) @ chunks (map (\<lambda>r. length (fill_of r) - length (prefix_indices r)) rs) loc ! k) \<and>
    (\<forall>i. i \<notin> set (req_pool_indices b') \<longrightarrow> req_to_token (req_pool c') ! i = req_to_token (req_pool c) ! i) \<and>
    radix_inv c' refs \<and> plain_pool (kv_pool c') \<and> rtp_inv (req_pool c') \<and>
    mset loc + mset (pool_slots (kv_pool c')) + cached_slots c' = mset (pool_slots (kv_pool c)) + cached_slots c"
proof -
  let ?n = "length rs" and ?w = "max_context_len (req_pool c)" and ?tab = "req_to_token (req_pool c)"
  let ?es = "map (\<lambda>r. length (fill_of r) - length (prefix_indices r)) rs"
  let ?loop = "\<lambda>idx. zip idx (zip (map (\<lambda>r. length (prefix_indices r)) rs)
      (zip (map length (map fill_of rs)) (map (\<lambda>r. nat (extend_input_len r)) rs)))"
  obtain idx pool1 where a: "rtp_alloc (req_pool c) ?n = (Some idx, pool1)" "idx = take ?n (rtp_free_slots (req_pool c))"
    "pool1 = (req_pool c)\<lparr>rtp_free_slots := drop ?n (rtp_free_slots (req_pool c))\<rparr>"
    using fits by (auto simp: rtp_alloc_def extend_fits_def rtp_available_size_def)
  note rows = rtp_alloc_rows [OF inv(4) a(1)]
  have idx: "length idx = ?n" "distinct idx" "set idx \<subseteq> set (rtp_free_slots (req_pool c))" using rows by auto
  have tab1: "req_to_token pool1 = ?tab" using a(3) by simp
  have rng: "\<forall>i\<in>set idx. i < length ?tab \<and> length (?tab ! i) = ?w"
    using idx(3) inv(4) by (auto simp: rtp_inv_def subset_iff)
  obtain tab2 where e: "extend_reqs rs idx pool1 = Inr (map2 extended rs idx,
      concat (map2 (\<lambda>r i. logprob_token_ids (extended r i) (fill_of r)) rs idx), pool1\<lparr>req_to_token := tab2\<rparr>)"
    "map length tab2 = map length ?tab"
    "\<forall>k<?n. tab2 ! (idx ! k) = prefix_indices (rs ! k) @ drop (length (prefix_indices (rs ! k))) (?tab ! (idx ! k))"
    "\<forall>i. i \<notin> set idx \<longrightarrow> tab2 ! i = ?tab ! i"
    using extend_reqs_rows [OF rs(2) idx(1,2), of pool1] rng tab1 by auto
  let ?pool2 = "pool1\<lparr>req_to_token := tab2\<rparr>" and ?c2 = "c\<lparr>req_pool := pool1\<lparr>req_to_token := tab2\<rparr>\<rparr>"
  have num: "length (concat (map2 (\<lambda>r f. drop (length (prefix_indices r)) f) rs (map fill_of rs))) = extend_total rs"
    by (rule extend_slices [OF rs(2)])
  obtain loc c3 where al: "alloc_token_slots ?c2 (extend_total rs) False = Inr (loc, None, c3)"
    "length loc = extend_total rs" "took_slots refs ?c2 loc c3"
    using alloc_token_slots_spec [of ?c2 refs "extend_total rs"] inv fits
    by (auto simp: radix_inv_req_pool extend_fits_def)
  have p3: "req_pool c3 = ?pool2" using al(3) by (simp add: took_slots_def)
  have lens2: "length tab2 = length ?tab" "length (tab2 ! i) = length (?tab ! i)" if "i < length ?tab" for i
    using e(2) that by (metis length_map, metis length_map nth_map)
  have l2: "length tab2 = length ?tab" using e(2) map_eq_imp_length_eq by blast
  have rng2: "\<forall>i\<in>set idx. i < length (req_to_token ?pool2) \<and> length (req_to_token ?pool2 ! i) = ?w"
    using rng lens2 l2 by auto
  note z = extend_zip [OF idx(1,2) rs(2) rng2]
  have sum: "sum_list (map (\<lambda>(i, p, s, e). e) (?loop idx)) \<le> length loc" unfolding z(5) using al(2) by (simp add: extend_total_def)
  obtain tab4 where w: "write_loop ?pool2 (?loop idx) loc = Inr (?pool2\<lparr>req_to_token := tab4\<rparr>)"
    "map length tab4 = map length tab2"
    "\<forall>k<?n. tab4 ! (idx ! k) = take (length (prefix_indices (rs ! k))) (tab2 ! (idx ! k)) @ chunks ?es loc ! k @
       drop (length (fill_of (rs ! k))) (tab2 ! (idx ! k))"
    "\<forall>i. i \<notin> set idx \<longrightarrow> tab4 ! i = tab2 ! i"
    using write_loop_rows [OF z(1,4) sum] unfolding z(2,3,5) using z(6) by fastforce
  obtain info where info: "from_schedule_batch hsh v (enable_custom_logit_processor b) (map2 extended rs idx)
      (map r_processor (map2 extended rs idx)) (map r_custom_params (map2 extended rs idx)) = Inr info"
    using samplable_info samplable_extended [OF idx(1)] rs(3) by blast
  let ?pool4 = "?pool2\<lparr>req_to_token := tab4\<rparr>"
  have page: "kv_page_size (kv_pool ?c2) = 1" using inv(3) by (cases "kv_pool c") auto
  obtain b' where b': "prepare_for_extend hsh v c b = Inr (b', c3\<lparr>req_pool := ?pool4\<rparr>)" "out_cache_loc b' = Some loc"
    "sb_reqs b' = map2 extended rs idx" "seq_lens b' = map length (map fill_of rs)" "req_pool_indices b' = idx"
  proof (rule that)
    show "prepare_for_extend hsh v c b = Inr (b\<lparr>sb_reqs := map2 extended rs idx, forward_mode := Some EXTEND,
        input_ids := Some (concat (map2 (\<lambda>r f. drop (length (prefix_indices r)) f) rs (map fill_of rs))), req_pool_indices := idx,
        seq_lens := map length (map fill_of rs), out_cache_loc := Some loc, seq_lens_sum := int (sum_list (map length (map fill_of rs))),
        top_logprobs_nums := (if sb_return_logprob b then Some (map top_logprobs_num (map2 extended rs idx)) else top_logprobs_nums b),
        token_ids_logprobs := (if sb_return_logprob b then Some (map token_ids_logprob (map2 extended rs idx)) else token_ids_logprobs b),
        extend_logprob_start_lens := map extend_logprob_start_len (map2 extended rs idx), extend_num_tokens := int (extend_total rs),
        prefix_lens := map int (map (\<lambda>r. length (prefix_indices r)) rs), extend_lens := map extend_input_len rs,
        extend_input_logprob_token_ids := (if sb_return_logprob b
          then Some (concat (map2 (\<lambda>r i. logprob_token_ids (extended r i) (fill_of r)) rs idx)) else None),
        sampling_info := Some info\<rparr>, c3\<lparr>req_pool := ?pool4\<rparr>)"
      unfolding prepare_for_extend_def Let_def alloc_req_slots_def rs(1) bind_result_def a(1) all_fill_ids_ready [OF rs(2)]
        old.prod.case option.case sum.case e(1) num page al(1) p3 w(1) info if_True refl
      by (simp add: p3 w(1) info del: map_map)
  qed simp_all
  have "rtp_row ?pool4 (idx ! k) (length (fill_of (rs ! k))) = prefix_indices (rs ! k) @ chunks ?es loc ! k" if k: "k < ?n" for k
  proof -
    have r: "extend_ready ?w (rs ! k)" using rs(2) k by simp
    have "length (chunks ?es loc ! k) = length (fill_of (rs ! k)) - length (prefix_indices (rs ! k))"
      using length_chunk [of k ?es loc] k al(2) by (simp add: extend_total_def)
    then show ?thesis using w(3) e(3) k extend_readyD(2) [OF r] by (simp add: rtp_row_def)
  qed
  moreover have "rtp_inv ?pool4"
  proof -
    have "map length tab4 = map length ?tab" using w(2) e(2) by simp
    then have "length tab4 = length ?tab" "\<forall>row\<in>set tab4. length row = ?w"
      using shape_rows [of tab4 ?tab ?w] inv(4) by (simp_all add: rtp_inv_def)
    moreover have "distinct (drop ?n (rtp_free_slots (req_pool c)))" "set (drop ?n (rtp_free_slots (req_pool c))) \<subseteq> {..<rtp_size (req_pool c)}"
      using inv(4) by (auto simp: rtp_inv_def dest: in_set_dropD)
    ultimately show ?thesis using inv(4) a(3) by (simp add: rtp_inv_def)
  qed
  moreover have "radix_inv (c3\<lparr>req_pool := ?pool4\<rparr>) refs" "plain_pool (kv_pool c3)"
    "mset loc + mset (pool_slots (kv_pool c3)) + cached_slots c3 = mset (pool_slots (kv_pool c)) + cached_slots c"
    using al(3) by (simp_all add: took_slots_def radix_inv_req_pool)
  moreover have "tab4 ! i = ?tab ! i" if "i \<notin> set idx" for i using that w(4) e(4) by simp
  ultimately show ?thesis
    using b' idx al(2) by (intro exI [of _ b'] exI [of _ "c3\<lparr>req_pool := ?pool4\<rparr>"] exI [of _ loc]) (simp add: radix_inv_req_pool)
qed

section \<open>Decode\<close>

lemma set_cells_rows:
  assumes "distinct (map (\<lambda>((i, j), v). i) cs)" and "\<forall>((i, j), v)\<in>set cs. i < length tab"
  shows "map length (fold set_cell cs tab) = map length tab \<and>
    (\<forall>((i, j), v)\<in>set cs. fold set_cell cs tab ! i = (tab ! i)[j := v]) \<and>
    (\<forall>i. i \<notin> (\<lambda>((i, j), v). i) ` set cs \<longrightarrow> fold set_cell cs tab ! i = tab ! i)"
  using assms
proof (induction cs arbitrary: tab)
  case (Cons c cs)
  obtain i j v where c: "c = ((i, j), v)" by (metis prod.exhaust)
  let ?tab = "tab[i := (tab ! i)[j := v]]"
  have i: "i < length tab" "i \<notin> (\<lambda>((i, j), v). i) ` set cs" using Cons.prems c by auto
  have len: "map length ?tab = map length tab" using i(1) by (simp add: map_update list_update_same_conv)
  have IH: "map length (fold set_cell cs ?tab) = map length ?tab"
    "\<forall>((i, j), v)\<in>set cs. fold set_cell cs ?tab ! i = (?tab ! i)[j := v]"
    "\<forall>i. i \<notin> (\<lambda>((i, j), v). i) ` set cs \<longrightarrow> fold set_cell cs ?tab ! i = ?tab ! i"
    using Cons.IH [of ?tab] Cons.prems by (auto simp: c)
  have ne: "i' \<noteq> i" if "((i', j'), v') \<in> set cs" for i' j' v'
    using that i(2) by (metis (no_types, lifting) case_prod_conv image_eqI)
  have fold: "fold set_cell (c # cs) tab = fold set_cell cs ?tab" by (simp add: c set_cell_def)
  have "fold set_cell cs ?tab ! i' = (tab ! i')[j' := v']" if "((i', j'), v') \<in> set (c # cs)" for i' j' v'
  proof (cases "((i', j'), v') = c")
    case True
    then show ?thesis using IH(3) i c by auto
  next
    case False
    then have "((i', j'), v') \<in> set cs" using that by simp
    then show ?thesis using IH(2) ne by fastforce
  qed
  moreover have "fold set_cell cs ?tab ! i' = tab ! i'" if "i' \<notin> (\<lambda>((i, j), v). i) ` set (c # cs)" for i'
    using that IH(3) c by auto
  ultimately show ?case unfolding fold using IH(1) len by auto
qed simp

text \<open>A batch that can decode: one distinct row with room for a token per request.\<close>

definition decode_ready :: "req_to_token_pool \<Rightarrow> schedule_batch \<Rightarrow> bool" where
  "decode_ready pool b \<longleftrightarrow>
     length (req_pool_indices b) = length (sb_reqs b) \<and> length (seq_lens b) = length (sb_reqs b) \<and>
     distinct (req_pool_indices b) \<and>
     (\<forall>k<length (sb_reqs b). req_pool_indices b ! k < length (req_to_token pool) \<and>
        seq_lens b ! k < max_context_len pool)"

lemma feed_penalizers_fields:
  assumes "feed_penalizers b = Inr b'"
  shows "sb_reqs b' = sb_reqs b" "req_pool_indices b' = req_pool_indices b" "seq_lens b' = seq_lens b"
    "sb_output_ids b' = sb_output_ids b" "seq_lens_sum b' = seq_lens_sum b"
  using assms by (auto simp: feed_penalizers_def bind_result_def split: option.splits if_splits sum.splits)

lemma take_append_nth: "n < length xs \<Longrightarrow> take (Suc n) (xs[n := v]) = take n xs @ [v]"
  by (simp add: take_Suc_conv_app_nth)

lemma prepare_for_decode_spec:
  assumes inv: "radix_inv c refs" "\<not> cache_disable c" "plain_pool (kv_pool c)" "rtp_inv (req_pool c)"
    and b: "decode_ready (req_pool c) b" "feed_penalizers (b\<lparr>forward_mode := Some DECODE\<rparr>) = Inr b1"
    and fits: "int (length (sb_reqs b)) \<le> int (kv_available (kv_pool c)) + evictable_size c"
  shows "\<exists>b' c' loc. prepare_for_decode c b = Inr (b', c') \<and> out_cache_loc b' = Some loc \<and>
    sb_reqs b' = sb_reqs b \<and> req_pool_indices b' = req_pool_indices b \<and> length loc = length (sb_reqs b) \<and>
    seq_lens b' = map Suc (seq_lens b) \<and> input_ids b' = sb_output_ids b \<and>
    (\<forall>k<length (sb_reqs b). rtp_row (req_pool c') (req_pool_indices b ! k) (seq_lens b' ! k) =
       rtp_row (req_pool c) (req_pool_indices b ! k) (seq_lens b ! k) @ [loc ! k]) \<and>
    (\<forall>i. i \<notin> set (req_pool_indices b) \<longrightarrow> req_to_token (req_pool c') ! i = req_to_token (req_pool c) ! i) \<and>
    radix_inv c' refs \<and> rtp_inv (req_pool c') \<and>
    mset loc + mset (pool_slots (kv_pool c')) + cached_slots c' = mset (pool_slots (kv_pool c)) + cached_slots c"
proof -
  let ?n = "length (sb_reqs b)" and ?idx = "req_pool_indices b" and ?ls = "seq_lens b" and ?tab = "req_to_token (req_pool c)"
  note f = feed_penalizers_fields [OF b(2)]
  have len: "length ?idx = ?n" "length ?ls = ?n" "distinct ?idx" using b(1) by (auto simp: decode_ready_def)
  have rng: "?idx ! k < length ?tab" "?ls ! k < length (?tab ! (?idx ! k))" if "k < ?n" for k
    using b(1) inv(4) that by (auto simp: decode_ready_def rtp_inv_def)
  obtain loc c1 where al: "alloc_token_slots c ?n False = Inr (loc, None, c1)" "length loc = ?n" "took_slots refs c loc c1"
    using alloc_token_slots_spec [OF inv(1-3), of ?n] fits by auto
  have p: "req_pool c1 = req_pool c" using al(3) by (simp add: took_slots_def)
  let ?cs = "zip (zip ?idx ?ls) loc"
  let ?pool = "(req_pool c)\<lparr>req_to_token := fold set_cell ?cs ?tab\<rparr>"
  have keys: "map (\<lambda>((i, j), v). i) ?cs = ?idx" using len al(2) by (auto intro!: nth_equalityI)
  have cs: "\<forall>((i, j), v)\<in>set ?cs. i < length ?tab" using rng len al(2) by (auto simp: set_zip)
  have "distinct (map (\<lambda>((i, j), v). i) ?cs)" unfolding keys by (rule len(3))
  note rows = set_cells_rows [OF this cs]
  have "\<forall>(r, j)\<in>set (zip ?idx ?ls). r < length ?tab \<and> j < length (?tab ! r)"
    using rng len by (auto simp: set_zip)
  then have w: "rtp_write (req_pool c1) (Cells (zip ?idx ?ls)) loc = Inr ?pool"
    using len al(2) by (auto simp: p broadcast_def)
  have page: "kv_page_size (kv_pool c) = 1" using inv(3) by (cases "kv_pool c") auto
  have e: "\<exists>b'. prepare_for_decode c b = Inr (b', c1\<lparr>req_pool := ?pool\<rparr>) \<and> out_cache_loc b' = Some loc \<and>
      sb_reqs b' = sb_reqs b \<and> req_pool_indices b' = ?idx \<and> seq_lens b' = map Suc ?ls \<and> input_ids b' = sb_output_ids b"
    using f by (simp add: prepare_for_decode_def bind_result_def b(2) Let_def page al(1) w del: rtp_write.simps)
  have row: "fold set_cell ?cs ?tab ! (?idx ! k) = (?tab ! (?idx ! k))[?ls ! k := loc ! k]" if "k < ?n" for k
  proof -
    have "k < length ?cs" "?cs ! k = ((?idx ! k, ?ls ! k), loc ! k)" using that len al(2) by simp_all
    then have "((?idx ! k, ?ls ! k), loc ! k) \<in> set ?cs" by (metis nth_mem)
    then show ?thesis using rows by fastforce
  qed
  have "rtp_row ?pool (?idx ! k) (Suc (?ls ! k)) = rtp_row (req_pool c) (?idx ! k) (?ls ! k) @ [loc ! k]" if "k < ?n" for k
    using row [OF that] rng(2) [OF that] by (simp add: rtp_row_def take_append_nth)
  moreover have "rtp_inv ?pool"
    using shape_rows [of "fold set_cell ?cs ?tab" ?tab "max_context_len (req_pool c)"] rows inv(4) by (simp add: rtp_inv_def)
  moreover have "fold set_cell ?cs ?tab ! i = ?tab ! i" if "i \<notin> set ?idx" for i
    using rows that keys by (metis (no_types, lifting) list.set_map)
  moreover have "radix_inv (c1\<lparr>req_pool := ?pool\<rparr>) refs" "cached_slots (c1\<lparr>req_pool := ?pool\<rparr>) = cached_slots c1"
    "mset loc + mset (pool_slots (kv_pool c1)) + cached_slots c1 = mset (pool_slots (kv_pool c)) + cached_slots c"
    using al(3) by (simp_all add: took_slots_def radix_inv_req_pool)
  ultimately show ?thesis using e al(2) len by auto
qed

section \<open>Log-probability tokens\<close>

lemma logprob_tokens_length:
  assumes "extend_ready w r" and "length (fill_of r) \<le> seqlen r" and "fill_of r \<noteq> []" and "0 \<le> logprob_start_len r"
  shows "int (length (logprob_token_ids (extended r i) (fill_of r))) =
    extend_input_len r - extend_logprob_start r (int (length (prefix_indices r)))"
proof -
  note f = extend_readyD [OF assms(1)]
  let ?L = "int (length (fill_of r))" and ?p = "int (length (prefix_indices r))" and ?s = "logprob_start_len r"
  let ?start = "if ?p < ?s then ?s else ?p"
  let ?t = "seg (origin_input_ids r) (nat (?start + 1)) (length (fill_of r) + 1)"
  have L: "1 \<le> ?L" using assms(3) by (cases "fill_of r") auto
  have s: "?L \<le> int (seqlen r)" using assms(2) by simp
  have e: "extend_input_len r = ?L - ?p" "?p \<le> ?L" using f by simp_all
  have t: "int (length ?t) \<le> max 0 (?L - ?start)" by (auto simp: nat_add_distrib)
  have "int (length ?t) \<le> extend_input_len r - extend_logprob_start r ?p"
    using t e s L unfolding extend_logprob_start_def by (auto simp: min_def split: if_splits)
  then show ?thesis by (cases "?p < ?s") (simp_all add: logprob_token_ids_def Let_def extended_def extend_update_def)
qed

section \<open>Properties\<close>

text \<open>
  C28: \<open>prepare_for_extend\<close> succeeds when rows and slots suffice. Every request gets a row of its
  own; the row then holds the cached prefix of the request followed by new slots, one per token
  that is not cached. Rows of other requests are untouched, and every slot that was free or cached
  is free, cached or handed out afterwards, exactly once.
\<close>

theorem prepare_for_extend_rows:
  assumes "radix_inv c refs" and "\<not> cache_disable c" and "plain_pool (kv_pool c)" and "rtp_inv (req_pool c)"
    and "\<forall>r\<in>set (sb_reqs b). extend_ready (max_context_len (req_pool c)) r" and "samplable v (sb_reqs b)"
    and "extend_fits c (sb_reqs b)"
  shows "\<exists>b' c' loc. prepare_for_extend hsh v c b = Inr (b', c') \<and> out_cache_loc b' = Some loc \<and>
    distinct (req_pool_indices b') \<and> set (req_pool_indices b') \<subseteq> set (rtp_free_slots (req_pool c)) \<and>
    length loc = extend_total (sb_reqs b) \<and>
    (\<forall>k<length (sb_reqs b). rtp_row (req_pool c') (req_pool_indices b' ! k) (seq_lens b' ! k) =
       prefix_indices (sb_reqs b ! k) @
       chunks (map (\<lambda>r. length (fill_of r) - length (prefix_indices r)) (sb_reqs b)) loc ! k) \<and>
    (\<forall>i. i \<notin> set (req_pool_indices b') \<longrightarrow> req_to_token (req_pool c') ! i = req_to_token (req_pool c) ! i) \<and>
    radix_inv c' refs \<and> rtp_inv (req_pool c') \<and>
    mset loc + mset (pool_slots (kv_pool c')) + cached_slots c' = mset (pool_slots (kv_pool c)) + cached_slots c"
  using prepare_for_extend_spec [OF assms(1-4) refl assms(5-7), of hsh] by blast

definition demo_batch :: schedule_batch where
  "demo_batch = init_new [demo_req\<lparr>fill_ids := Some [7, 8, 9, 4], prefix_indices := [1, 2, 3], extend_input_len := 1\<rparr>] False False None"

lemma demo_batch_ready:
  "rtp_inv (req_pool demo_cache)" "\<forall>r\<in>set (sb_reqs demo_batch). extend_ready (max_context_len (req_pool demo_cache)) r"
  "samplable 10 (sb_reqs demo_batch)" "extend_fits demo_cache (sb_reqs demo_batch)"
proof -
  show "rtp_inv (req_pool demo_cache)" by (simp add: demo_pools rtp_inv_init)
  show "\<forall>r\<in>set (sb_reqs demo_batch). extend_ready (max_context_len (req_pool demo_cache)) r"
    by (simp add: demo_batch_def init_new_def extend_ready_def demo_pools rtp_init_def)
  show "samplable 10 (sb_reqs demo_batch)"
    by (simp add: demo_batch_def init_new_def samplable_def min_required_def demo_req_def req_init_def default_params_def)
  show "extend_fits demo_cache (sb_reqs demo_batch)"
    using evictable_nonneg [OF demo_inv(1)]
    by (simp add: demo_batch_def init_new_def extend_fits_def extend_total_def fill_of_def demo_pools rtp_init_def
        rtp_available_size_def tka_init_def tka_clear_def tka_available_size_def)
qed

theorem prepare_for_extend_rows_witness:
  "\<exists>b' c' x. prepare_for_extend (\<lambda>s. 0) 10 demo_cache demo_batch = Inr (b', c') \<and> out_cache_loc b' = Some [x] \<and>
     rtp_row (req_pool c') (req_pool_indices b' ! 0) (seq_lens b' ! 0) = [1, 2, 3, x]"
proof -
  obtain b' c' loc where w: "prepare_for_extend (\<lambda>s. 0) 10 demo_cache demo_batch = Inr (b', c')" "out_cache_loc b' = Some loc"
    "length loc = extend_total (sb_reqs demo_batch)"
    "\<forall>k<length (sb_reqs demo_batch). rtp_row (req_pool c') (req_pool_indices b' ! k) (seq_lens b' ! k) =
       prefix_indices (sb_reqs demo_batch ! k) @
       chunks (map (\<lambda>r. length (fill_of r) - length (prefix_indices r)) (sb_reqs demo_batch)) loc ! k"
    using prepare_for_extend_rows [OF demo_inv(1,2) demo_pool(1) demo_batch_ready, of "\<lambda>s. 0"] by blast
  have "length loc = 1" using w(3) by (simp add: extend_total_def demo_batch_def init_new_def fill_of_def)
  then obtain x where "loc = [x]" by (cases loc) auto
  then show ?thesis using w by (simp add: demo_batch_def init_new_def fill_of_def)
qed

definition demo_decode :: schedule_batch where
  "demo_decode =
     (init_new [demo_req] False False None)\<lparr>req_pool_indices := [1], seq_lens := [3], sb_output_ids := Some [5],
       sampling_info := Some \<lparr>temperatures = [1], top_ps = [1], top_ks = [1], min_ps = [0], is_all_greedy = True,
         need_min_p_sampling = False, si_vocab_size = 10,
         penalizer_orchestrator = Some \<lparr>vocab_size = 10, freq_pen = None, min_pen = None, pres_pen = None, is_required = False\<rparr>,
         linear_penalty = None, has_custom_logit_processor = False, si_custom_params = None, custom_logit_processor = None\<rparr>\<rparr>"

end
