(* ===== verification/Batch_Ops.thy ===== *)
theory Batch_Ops
  imports Batch_Rows
begin

text \<open>
  Batches keep their parallel lists aligned: row \<open>k\<close> of every per-request attribute of a batch
  belongs to request \<open>k\<close>, through extending, decoding, filtering and merging. Retraction releases
  requests until the remaining ones have memory for the next steps.
\<close>

section \<open>Alignment\<close>

definition info_rows :: "req list \<Rightarrow> 'c sampling_info \<Rightarrow> bool" where
  "info_rows rs i \<longleftrightarrow>
     temperatures i = map (\<lambda>r. temperature (r_params r)) rs \<and> top_ps i = map (\<lambda>r. top_p (r_params r)) rs \<and>
     top_ks i = map (\<lambda>r. top_k (r_params r)) rs \<and> min_ps i = map (\<lambda>r. min_p (r_params r)) rs \<and>
     penalizer_orchestrator i \<noteq> None \<and>
     (has_custom_logit_processor i \<longrightarrow> custom_logit_processor i \<noteq> None \<and> si_custom_params i \<noteq> None)"

definition batch_ok :: "schedule_batch \<Rightarrow> bool" where
  "batch_ok b \<longleftrightarrow>
     length (req_pool_indices b) = length (sb_reqs b) \<and> length (seq_lens b) = length (sb_reqs b) \<and>
     (\<forall>outs. sb_output_ids b = Some outs \<longrightarrow> length outs = length (sb_reqs b)) \<and>
     seq_lens_sum b = int (sum_list (seq_lens b)) \<and>
     map req_pool_idx (sb_reqs b) = map Some (req_pool_indices b) \<and>
     sb_return_logprob b = list_ex return_logprob (sb_reqs b) \<and>
     (sb_return_logprob b \<longrightarrow>
        (\<exists>ns ts. top_logprobs_nums b = Some ns \<and> token_ids_logprobs b = Some ts \<and>
           length ns = length (sb_reqs b) \<and> length ts = length (sb_reqs b))) \<and>
     has_stream b = list_ex stream (sb_reqs b) \<and> has_grammar b = list_ex (\<lambda>r. grammar r \<noteq> None) (sb_reqs b) \<and>
     (\<exists>i. sampling_info b = Some i \<and> info_rows (sb_reqs b) i)"

declare batch_ok_def [inv_defs]

lemma filter_custom_total:
  assumes "custom_logit_processor i = Some d" and "si_custom_params i = Some ps"
  shows "\<exists>i'. filter_custom ks i = Inr i' \<and> temperatures i' = temperatures i \<and> top_ps i' = top_ps i \<and>
    top_ks i' = top_ks i \<and> min_ps i' = min_ps i \<and> penalizer_orchestrator i' = penalizer_orchestrator i \<and>
    (has_custom_logit_processor i' \<longrightarrow> custom_logit_processor i' \<noteq> None \<and> si_custom_params i' \<noteq> None)"
  using assms by (simp add: filter_custom_def Let_def)

lemma info_filter_rows:
  assumes ok: "info_rows rs i" and ks: "\<forall>k\<in>set ks. k < length rs"
  shows "\<exists>i'. info_filter rs' ks i = Inr i' \<and> info_rows (take_rows ks rs) i'"
proof -
  obtain p where p: "penalizer_orchestrator i = Some p" using ok by (auto simp: info_rows_def)
  let ?i1 = "i\<lparr>penalizer_orchestrator := Some (orch_filter p rs' ks)\<rparr>"
  obtain i2 where i2: "(if has_custom_logit_processor ?i1 then filter_custom ks ?i1 else Inr ?i1) = Inr i2"
    "temperatures i2 = temperatures i" "top_ps i2 = top_ps i" "top_ks i2 = top_ks i" "min_ps i2 = min_ps i"
    "penalizer_orchestrator i2 \<noteq> None"
    "has_custom_logit_processor i2 \<longrightarrow> custom_logit_processor i2 \<noteq> None \<and> si_custom_params i2 \<noteq> None"
  proof (cases "has_custom_logit_processor i")
    case False
    then show ?thesis by (intro that [of ?i1]) simp_all
  next
    case True
    then obtain d ps where "custom_logit_processor ?i1 = Some d" "si_custom_params ?i1 = Some ps"
      using ok by (auto simp: info_rows_def)
    from filter_custom_total [OF this, of ks] show ?thesis using True that by auto
  qed
  then show ?thesis
    using ok ks p by (intro exI [of _ "i2\<lparr>temperatures := take_rows ks (temperatures i2), top_ps := take_rows ks (top_ps i2),
        top_ks := take_rows ks (top_ks i2), min_ps := take_rows ks (min_ps i2)\<rparr>"])
      (simp add: info_filter_def Let_def bind_result_def info_rows_def take_rows_map)
qed

lemma info_merge_rows:
  assumes "info_rows rs i" and "info_rows rs' j" and "info_merge x i y j = Inr k"
  shows "info_rows (rs @ rs') k"
proof -
  obtain p q where pq: "penalizer_orchestrator i = Some p" "penalizer_orchestrator j = Some q"
    using assms(1,2) by (auto simp: info_rows_def)
  obtain r where r: "orch_merge p x q y = Inr r"
    using assms(3) by (auto simp: info_merge_def pq bind_result_def split: sum.splits)
  show ?thesis
  proof (cases "has_custom_logit_processor i \<or> has_custom_logit_processor j")
    case False
    then show ?thesis using assms by (auto simp: info_merge_def pq r bind_result_def info_rows_def)
  next
    case True
    have s: "custom_logit_processor i \<noteq> None \<or> custom_logit_processor j \<noteq> None"
      using True assms(1,2) by (auto simp: info_rows_def)
    obtain d where d: "merge_custom_logit_processor (custom_logit_processor i) (custom_logit_processor j) (info_len i) (info_len j) = Inr d"
      using assms(3) True by (auto simp: info_merge_def pq r bind_result_def split: sum.splits)
    have "d \<noteq> None" using d s by (auto simp: merge_custom_logit_processor_def Let_def split: if_splits)
    then show ?thesis using assms True by (auto simp: info_merge_def pq r d bind_result_def info_rows_def)
  qed
qed

lemma info_new_rows:
  "from_schedule_batch hsh v enable rs procs params = Inr i \<Longrightarrow> info_rows rs i"
  by (auto simp: from_schedule_batch_def Let_def bind_result_def info_rows_def split: sum.splits)

section \<open>The operations keep it\<close>

lemma filter_batch_ok:
  assumes ok: "batch_ok b" and ks: "\<forall>k\<in>set keep. k < length (sb_reqs b)" "keep \<noteq> []" "length keep < length (sb_reqs b)"
    and outs: "sb_output_ids b = Some outs"
  shows "\<exists>b'. filter_batch b keep = Inr b' \<and> sb_reqs b' = take_rows keep (sb_reqs b) \<and>
    seq_lens b' = take_rows keep (seq_lens b) \<and> sb_output_ids b' = Some (take_rows keep outs) \<and> batch_ok b'"
proof -
  obtain i where i: "sampling_info b = Some i" "info_rows (sb_reqs b) i" using ok by (auto simp: batch_ok_def)
  obtain i' where i': "info_filter (take_rows keep (sb_reqs b)) keep i = Inr i'" "info_rows (take_rows keep (sb_reqs b)) i'"
    using info_filter_rows [OF i(2) ks(1)] by blast
  let ?lp = "list_ex return_logprob (take_rows keep (sb_reqs b))"
  have "sb_return_logprob b = list_ex return_logprob (sb_reqs b)" using ok by (simp add: batch_ok_def)
  then have lp: "sb_return_logprob b" if ?lp using that take_rows_set [OF ks(1)] by (auto simp: list_ex_iff)
  obtain n t where nt: "(if ?lp then (case (top_logprobs_nums b, token_ids_logprobs b) of
        (Some n, Some t) \<Rightarrow> Inr (Some (take_rows keep n), Some (take_rows keep t)) | _ \<Rightarrow> Inl TypeError)
      else Inr (None, None)) = (Inr (n, t) :: (int list option \<times> token list option list option) result)"
    "?lp \<longrightarrow> (\<exists>ns ts. n = Some ns \<and> t = Some ts \<and> length ns = length keep \<and> length ts = length keep)"
  proof (cases ?lp)
    case True
    then obtain ns ts where "top_logprobs_nums b = Some ns" "token_ids_logprobs b = Some ts"
      using lp ok by (auto simp: batch_ok_def)
    then show ?thesis using True by (intro that [of "Some (take_rows keep ns)" "Some (take_rows keep ts)"]) simp_all
  next
    case False
    then show ?thesis by (intro that [of None None]) simp_all
  qed
  have idx: "map req_pool_idx (take_rows keep (sb_reqs b)) = map Some (take_rows keep (req_pool_indices b))"
    using ok ks(1) by (simp add: batch_ok_def flip: take_rows_map)
  show ?thesis
    using ks outs i i' nt idx
    by (simp add: filter_batch_def Let_def list_all_iff bind_result_def batch_ok_def)
qed

lemma cat_tensors_Inr: "cat_tensors x y = Inr z \<longleftrightarrow> (\<exists>a b. x = Some a \<and> y = Some b \<and> z = Some (a @ b))"
  by (auto simp: cat_tensors_def split: option.splits)

lemma merge_logprobs_length:
  assumes "merge_logprobs b d = Inr (n, t)" and "batch_ok b" "batch_ok d" and "sb_return_logprob b \<or> sb_return_logprob d"
  shows "\<exists>ns ts. n = Some ns \<and> t = Some ts \<and>
    length ns = length (sb_reqs b) + length (sb_reqs d) \<and> length ts = length (sb_reqs b) + length (sb_reqs d)"
proof -
  have l: "\<exists>ns ts. top_logprobs_nums x = Some ns \<and> token_ids_logprobs x = Some ts \<and>
      length ns = length (sb_reqs x) \<and> length ts = length (sb_reqs x)" if "batch_ok x" "sb_return_logprob x" for x
    using that by (simp add: batch_ok_def)
  show ?thesis
    using assms(1,4) l [OF assms(2)] l [OF assms(3)]
    by (cases "sb_return_logprob b"; cases "sb_return_logprob d")
      (auto simp: merge_logprobs_def bind_result_def cat_tensors_def)
qed

lemma merge_batch_ok:
  assumes ok: "batch_ok b" "batch_ok d" and m: "merge_batch b d = Inr b'"
  shows "batch_ok b' \<and> sb_reqs b' = sb_reqs b @ sb_reqs d \<and> seq_lens b' = seq_lens b @ seq_lens d"
proof -
  obtain i j where i: "sampling_info b = Some i" "info_rows (sb_reqs b) i" and j: "sampling_info d = Some j" "info_rows (sb_reqs d) j"
    using ok by (auto simp: batch_ok_def)
  obtain k where k: "info_merge (sb_reqs b) i (sb_reqs d) j = Inr k"
    using m by (auto simp: merge_batch_def i j bind_result_def split: sum.splits)
  note ik = info_merge_rows [OF i(2) j(2) k]
  obtain outs n t where o: "(case sb_output_ids b of None \<Rightarrow> Inr None | Some _ \<Rightarrow> cat_tensors (sb_output_ids b) (sb_output_ids d)) = Inr outs"
    and b': "b' = b\<lparr>sampling_info := Some k, req_pool_indices := req_pool_indices b @ req_pool_indices d,
      seq_lens := seq_lens b @ seq_lens d, out_cache_loc := None, seq_lens_sum := seq_lens_sum b + seq_lens_sum d,
      sb_output_ids := outs, top_logprobs_nums := n, token_ids_logprobs := t, sb_reqs := sb_reqs b @ sb_reqs d,
      sb_return_logprob := (sb_return_logprob b \<or> sb_return_logprob d), has_stream := (has_stream b \<or> has_stream d),
      has_grammar := (has_grammar b \<or> has_grammar d), return_hidden_states := (return_hidden_states b \<or> return_hidden_states d)\<rparr>"
    and nt: "sb_return_logprob b \<or> sb_return_logprob d \<longrightarrow> (\<exists>ns ts. n = Some ns \<and> t = Some ts \<and>
      length ns = length (sb_reqs b) + length (sb_reqs d) \<and> length ts = length (sb_reqs b) + length (sb_reqs d))"
  proof -
    obtain outs where o: "(case sb_output_ids b of None \<Rightarrow> Inr None | Some _ \<Rightarrow> cat_tensors (sb_output_ids b) (sb_output_ids d)) = Inr outs"
      using m by (auto simp: merge_batch_def i j k bind_result_def split: sum.splits)
    obtain n t where nt: "merge_logprobs b d = Inr (n, t)"
      using m by (auto simp: merge_batch_def i j k o bind_result_def split: sum.splits)
    show thesis
      by (rule that [OF o, of t n])
        (use m merge_logprobs_length [OF nt ok] in \<open>auto simp: merge_batch_def i j k o nt bind_result_def\<close>)
  qed
  have "\<forall>xs. outs = Some xs \<longrightarrow> length xs = length (sb_reqs b) + length (sb_reqs d)"
    using o ok by (auto simp: batch_ok_def cat_tensors_Inr split: option.splits)
  then show ?thesis using ok ik nt unfolding b' batch_ok_def by (simp add: list_ex_iff bex_Un)
qed

lemma extend_batch_ok:
  assumes inv: "radix_inv c refs" "\<not> cache_disable c" "plain_pool (kv_pool c)" "rtp_inv (req_pool c)"
    and rs: "\<forall>r\<in>set rs. extend_ready (max_context_len (req_pool c)) r" "samplable v rs" and fits: "extend_fits c rs"
    and e: "prepare_for_extend hsh v c (init_new rs ov cu ck) = Inr (b', c')"
  shows "batch_ok b' \<and> map r_params (sb_reqs b') = map r_params rs"
proof -
  let ?b = "init_new rs ov cu ck"
  have b: "sb_reqs ?b = rs" by (simp add: init_new_def)
  obtain loc where s: "out_cache_loc b' = Some loc" "sb_reqs b' = map2 extended rs (req_pool_indices b')"
    "seq_lens b' = map (\<lambda>r. length (fill_of r)) rs" "length (req_pool_indices b') = length rs"
    using prepare_for_extend_spec [OF inv b rs fits, of hsh] e by auto
  obtain i where f: "sb_return_logprob b' = list_ex return_logprob rs" "has_stream b' = list_ex stream rs"
    "has_grammar b' = list_ex (\<lambda>r. grammar r \<noteq> None) rs" "sb_output_ids b' = None" "seq_lens_sum b' = int (sum_list (seq_lens b'))"
    "sampling_info b' = Some i" "info_rows (sb_reqs b') i"
    "sb_return_logprob b' \<longrightarrow> top_logprobs_nums b' = Some (map top_logprobs_num (sb_reqs b')) \<and>
       token_ids_logprobs b' = Some (map token_ids_logprob (sb_reqs b'))"
    using e
    by (auto simp: prepare_for_extend_def init_new_def Let_def bind_result_def info_new_rows split: sum.splits)
  have m: "map f (sb_reqs b') = map f rs" if "\<And>r i. f (extended r i) = f r" for f :: "req \<Rightarrow> 'x"
    using s(2,4) that by (auto intro!: nth_equalityI)
  have ex: "list_ex P (sb_reqs b') = list_ex P rs" if "\<And>r i. P (extended r i) = P r" for P
    using s(2,4) that by (auto simp: list_ex_length)
  have "map req_pool_idx (sb_reqs b') = map Some (req_pool_indices b')"
    using s(2,4) by (auto intro!: nth_equalityI)
  moreover have "list_ex return_logprob (sb_reqs b') = list_ex return_logprob rs" "list_ex stream (sb_reqs b') = list_ex stream rs"
    "list_ex (\<lambda>r. grammar r \<noteq> None) (sb_reqs b') = list_ex (\<lambda>r. grammar r \<noteq> None) rs"
    by (rule ex; simp add: extended_def extend_update_def)+
  moreover have "map r_params (sb_reqs b') = map r_params rs" by (rule m) simp
  ultimately show ?thesis using s f by (simp add: batch_ok_def)
qed

lemma decode_batch_ok:
  assumes ok: "batch_ok b" and e: "prepare_for_decode c b = Inr (b', c')"
  shows "batch_ok b' \<and> sb_reqs b' = sb_reqs b"
proof -
  let ?b = "b\<lparr>forward_mode := Some DECODE\<rparr>"
  obtain b1 where b1: "feed_penalizers ?b = Inr b1"
    using e by (auto simp: prepare_for_decode_def bind_result_def split: sum.splits)
  note f = feed_penalizers_fields [OF b1]
  have g: "sb_return_logprob b1 = sb_return_logprob b" "top_logprobs_nums b1 = top_logprobs_nums b"
    "token_ids_logprobs b1 = token_ids_logprobs b" "has_stream b1 = has_stream b" "has_grammar b1 = has_grammar b"
    using b1 by (auto simp: feed_penalizers_def bind_result_def split: option.splits if_splits sum.splits)
  have i: "\<exists>i. sampling_info b1 = Some i \<and> info_rows (sb_reqs b) i"
    using b1 ok
    by (auto simp: feed_penalizers_def bind_result_def batch_ok_def info_rows_def split: option.splits if_splits sum.splits)
  obtain loc where b': "b' = b1\<lparr>input_ids := sb_output_ids b1, sb_output_ids := None, seq_lens := map Suc (seq_lens b1),
      seq_lens_sum := seq_lens_sum b1 + int (length (sb_reqs b1)), out_cache_loc := Some loc\<rparr>"
    using e by (auto simp: prepare_for_decode_def b1 Let_def bind_result_def split: sum.splits)
  have "sum_list (map Suc xs) = sum_list xs + length xs" for xs :: "nat list" by (induction xs) auto
  then show ?thesis using ok f g i unfolding b' batch_ok_def by simp
qed

section \<open>Releasing one request\<close>

text \<open>The request holds a row and a lock, and slots of its own behind its cached prefix.\<close>

definition holds :: "radix_cache \<Rightarrow> req \<Rightarrow> nat \<Rightarrow> node_id \<Rightarrow> bool" where
  "holds c r i n \<longleftrightarrow> req_pool_idx r = Some i \<and> i < length (req_to_token (req_pool c)) \<and> last_node r = Some n"

definition own_slots :: "slot list list \<Rightarrow> req \<Rightarrow> nat \<Rightarrow> slot list" where
  "own_slots tab r len = seg (tab ! the (req_pool_idx r)) (length (prefix_indices r)) len"

definition released :: "node_id multiset \<Rightarrow> slot multiset \<Rightarrow> nat list \<Rightarrow> radix_cache \<Rightarrow> radix_cache \<Rightarrow> bool" where
  "released refs' own rows c c' \<longleftrightarrow>
     radix_inv c' refs' \<and> \<not> cache_disable c' \<and> plain_pool (kv_pool c') \<and>
     req_pool c' = (req_pool c)\<lparr>rtp_free_slots := rtp_free_slots (req_pool c) @ rows\<rparr> \<and> page_size c' = page_size c \<and>
     kv_available (kv_pool c) + size own \<le> kv_available (kv_pool c') \<and>
     mset (pool_slots (kv_pool c')) + cached_slots c' = mset (pool_slots (kv_pool c)) + cached_slots c + own"

lemma released_trans:
  "released refs1 own1 rows1 c c1 \<Longrightarrow> released refs2 own2 rows2 c1 c2 \<Longrightarrow> released refs2 (own1 + own2) (rows1 @ rows2) c c2"
  by (simp add: released_def ac_simps)

lemma plain_free: "plain_pool a \<Longrightarrow> \<exists>a'. kv_free a xs = Inr a' \<and> plain_pool a' \<and> pool_slots a' = pool_slots a @ xs"
  by (cases a) (auto simp: tka_free_def)

lemma retract_one_spec:
  assumes inv: "radix_inv c refs" "\<not> cache_disable c" "plain_pool (kv_pool c)" and h: "holds c r i n" "n \<in># refs"
  shows "\<exists>c'. retract_one False 1 c r len left = Inr c' \<and>
    released (refs - {#n#}) (mset (own_slots (req_to_token (req_pool c)) r len)) [i] c c'"
proof -
  have r: "req_pool_idx r = Some i" "i < length (req_to_token (req_pool c))" "last_node r = Some n" using h(1) by (auto simp: holds_def)
  let ?own = "own_slots (req_to_token (req_pool c)) r len"
  have own: "?own = seg (req_to_token (req_pool c) ! i) (length (prefix_indices r)) len" by (simp add: own_slots_def r)
  obtain a where a: "kv_free (kv_pool c) ?own = Inr a" "plain_pool a" "pool_slots a = pool_slots (kv_pool c) @ ?own"
    using plain_free [OF inv(3)] by blast
  let ?c1 = "release_row (c\<lparr>kv_pool := a\<rparr>) i"
  have c1: "radix_inv ?c1 refs" "\<not> cache_disable ?c1" "cached_slots ?c1 = cached_slots c" "kv_pool ?c1 = a"
    "req_pool ?c1 = (req_pool c)\<lparr>rtp_free_slots := rtp_free_slots (req_pool c) @ [i]\<rparr>" "page_size ?c1 = page_size c"
    using inv by (simp_all add: release_row_def radix_inv_req_pool radix_inv_pool)
  obtain d c2 where d: "dec_lock_ref ?c1 n = Some (d, c2)" "radix_inv c2 (refs - {#n#})" "same_env ?c1 c2" "cached_slots c2 = cached_slots ?c1"
    by (rule dec_lock_ref_spec [OF c1(1,2) h(2)])
  have c2: "kv_pool c2 = a" "\<not> cache_disable c2" "req_pool c2 = req_pool ?c1" "page_size c2 = page_size ?c1" using d(3) c1 by (auto simp: same_env_def)
  let ?res = "max 0 (int (left * retract_decode_steps) - int (kv_available (kv_pool c2)))"
  have pl: "plain_pool (kv_pool c2)" using c2 a by simp
  have nat: "?res = int (nat ?res)" by simp
  obtain c3 where e: "radix_evict c2 ?res = Some c3" "evicted_to (refs - {#n#}) c2 c3"
    using evict_enough [OF d(2) c2(2) pl, of "nat ?res"] unfolding nat [symmetric] by blast
  have "retract_one False 1 c r len left = Inr c3"
    using r a(1) d(1) e(1) by (simp add: retract_one_def Let_def own bind_result_def the_result_def)
  moreover have "released (refs - {#n#}) (mset ?own) [i] c c3"
    using e(2) c2 c1 a(3) d(4) plain_available [OF inv(3)] plain_available [OF a(2)]
    by (auto simp: evicted_to_def released_def)
  ultimately show ?thesis by blast
qed

section \<open>The retraction loop\<close>

definition locks_of :: "req list \<Rightarrow> nat list \<Rightarrow> node_id multiset" where
  "locks_of rs is = mset (map (\<lambda>i. the (last_node (rs ! i))) is)"

definition slots_of :: "slot list list \<Rightarrow> req list \<Rightarrow> nat list \<Rightarrow> nat list \<Rightarrow> slot multiset" where
  "slots_of tab rs lens is = mset (concat (map (\<lambda>i. own_slots tab (rs ! i) (lens ! i)) is))"

definition rows_of :: "req list \<Rightarrow> nat list \<Rightarrow> nat list" where
  "rows_of rs is = map (\<lambda>i. the (req_pool_idx (rs ! i))) is"

text \<open>What the loop achieves: \<open>gone\<close> are retracted, \<open>kept\<close> stay.\<close>

definition retracts ::
  "radix_cache \<Rightarrow> node_id multiset \<Rightarrow> req list \<Rightarrow> nat list \<Rightarrow> nat list \<Rightarrow> nat list \<times> nat list \<times> radix_cache \<Rightarrow> bool" where
  "retracts c refs rs lens stack res =
     (case res of (gone, kept, c') \<Rightarrow>
        gone @ kept = stack \<and> kept \<noteq> [] \<and>
        released (refs - locks_of rs gone) (slots_of (req_to_token (req_pool c)) rs lens gone) (rows_of rs gone) c c' \<and>
        (length kept = 1 \<and> 0 < kv_available (kv_pool c') \<or> length kept * retract_decode_steps \<le> kv_available (kv_pool c')))"

lemma retract_loop_spec:
  assumes "radix_inv c refs" "\<not> cache_disable c" "plain_pool (kv_pool c)" and "stack \<noteq> []"
    and "2 \<le> length stack \<or> 0 < kv_available (kv_pool c)"
    and "\<forall>i\<in>set stack. (\<exists>k n. holds c (rs ! i) k n) \<and> own_slots (req_to_token (req_pool c)) (rs ! i) (lens ! i) \<noteq> []"
    and "locks_of rs stack \<subseteq># refs"
  shows "\<exists>res. retract_loop False 1 None rs lens first c stack = Inr res \<and> retracts c refs rs lens stack res \<and>
       (first \<and> 2 \<le> length stack \<longrightarrow> fst res \<noteq> [])"
  using assms
proof (induction stack arbitrary: first c refs rule: induct_list012)
  case (2 i)
  then have "retracts c refs rs lens [i] ([], [i], c)"
    by (auto simp: retracts_def released_def locks_of_def slots_of_def rows_of_def)
  then show ?case using 2 by (auto simp: get_required_tokens_def not_less)
next
  case (3 i j rest)
  let ?n = "length (i # j # rest)"
  show ?case
  proof (cases "kv_available (kv_pool c) < get_required_tokens None ?n \<or> first")
    case False
    then have "retract_loop False 1 None rs lens first c (i # j # rest) = Inr ([], i # j # rest, c)" by simp
    moreover have "retracts c refs rs lens (i # j # rest) ([], i # j # rest, c)"
      using 3 False by (simp add: retracts_def released_def locks_of_def slots_of_def rows_of_def get_required_tokens_def)
    ultimately show ?thesis using False by auto
  next
    case True
    obtain k n where h: "holds c (rs ! i) k n" using 3 by auto
    then have n: "the (last_node (rs ! i)) = n" and k: "the (req_pool_idx (rs ! i)) = k" by (simp_all add: holds_def)
    have nr: "n \<in># refs" "locks_of rs (j # rest) \<subseteq># refs - {#n#}"
      using 3(9) n by (auto simp: locks_of_def insert_subset_eq_iff)
    obtain c1 where c1: "retract_one False 1 c (rs ! i) (lens ! i) (length (j # rest)) = Inr c1"
      "released (refs - {#n#}) (mset (own_slots (req_to_token (req_pool c)) (rs ! i) (lens ! i))) [k] c c1"
      using retract_one_spec [OF 3(3-5) h nr(1)] by blast
    have inv1: "radix_inv c1 (refs - {#n#})" "\<not> cache_disable c1" "plain_pool (kv_pool c1)"
      "req_to_token (req_pool c1) = req_to_token (req_pool c)" using c1(2) by (auto simp: released_def)
    have "own_slots (req_to_token (req_pool c)) (rs ! i) (lens ! i) \<noteq> []" using 3 by simp
    then have av: "0 < kv_available (kv_pool c1)" using c1(2) by (auto simp: released_def neq_Nil_conv)
    have h1: "\<forall>x\<in>set (j # rest). (\<exists>k n. holds c1 (rs ! x) k n) \<and> own_slots (req_to_token (req_pool c1)) (rs ! x) (lens ! x) \<noteq> []"
      using 3 inv1(4) by (simp add: holds_def)
    obtain res where res: "retract_loop False 1 None rs lens False c1 (j # rest) = Inr res" "retracts c1 (refs - {#n#}) rs lens (j # rest) res"
      using 3(2) [OF inv1(1-3) list.distinct(2) _ h1 nr(2), of False] av by blast
    obtain gone kept c2 where g: "res = (gone, kept, c2)" by (metis prod_cases3)
    have "released (refs - locks_of rs (i # gone)) (slots_of (req_to_token (req_pool c)) rs lens (i # gone)) (rows_of rs (i # gone)) c c2"
      using released_trans [OF c1(2)] res(2) inv1(4) n k by (simp add: g retracts_def locks_of_def slots_of_def rows_of_def)
    then have "retracts c refs rs lens (i # j # rest) (i # gone, kept, c2)" using res(2) by (simp add: g retracts_def)
    moreover have "retract_loop False 1 None rs lens first c (i # j # rest) = Inr (i # gone, kept, c2)"
      using True c1(1) res(1) g by (simp add: bind_result_def)
    ultimately show ?thesis by auto
  qed
qed simp

section \<open>The retraction of a batch\<close>

lemma retract_order_facts:
  "mset (retract_order s rs) = mset [0..<length rs]" "set (retract_order s rs) = {..<length rs}"
  "length (retract_order s rs) = length rs"
proof -
  show m: "mset (retract_order s rs) = mset [0..<length rs]" by (simp add: retract_order_def)
  show "set (retract_order s rs) = {..<length rs}" using mset_eq_setD [OF m] by (simp add: lessThan_atLeast0)
  show "length (retract_order s rs) = length rs" using mset_eq_length [OF m] by simp
qed

lemma retract_order_shortest:
  assumes "gone @ kept = retract_order False rs" and "i \<in> set gone" and "j \<in> set kept"
  shows "length (output_ids (rs ! i)) \<le> length (output_ids (rs ! j))"
proof -
  let ?key = "\<lambda>i. (- int (length (output_ids (rs ! i))), int (length (origin_input_ids (rs ! i))))"
  have "rev kept @ rev gone = rev (retract_order False rs)" unfolding assms(1) [symmetric] by simp
  then have "rev kept @ rev gone = sort_key ?key [0..<length rs]" by (simp add: retract_order_def)
  then have "sorted (map ?key (rev kept @ rev gone))" by (metis sorted_sort_key)
  then have "?key j \<le> ?key i" using assms(2,3) by (auto simp: sorted_append simp del: map_map)
  then show ?thesis by auto
qed

text \<open>
  A decoding request that can be retracted: it holds a row, a lock and at least one slot behind
  its cached prefix, and has a token budget.
\<close>

definition retractable :: "radix_cache \<Rightarrow> req \<Rightarrow> nat \<Rightarrow> bool" where
  "retractable c r len \<longleftrightarrow>
     (\<exists>i n. holds c r i n \<and> length (prefix_indices r) < len \<and> len \<le> length (req_to_token (req_pool c) ! i)) \<and>
     (\<exists>m>0. max_new_tokens (r_params r) = Some m)"

lemma retractable_own: "retractable c r len \<Longrightarrow> own_slots (req_to_token (req_pool c)) r len \<noteq> []"
  by (auto simp: retractable_def holds_def own_slots_def seg_def)

lemma retractable_holds: "retractable c r len \<Longrightarrow> \<exists>i n. holds c r i n"
  by (auto simp: retractable_def)

lemma ball_nth: "\<forall>k<length xs. P (xs ! k) (ys ! k) \<Longrightarrow> \<forall>x\<in>set xs. \<exists>y. P x y"
  by (metis in_set_conv_nth)

lemma ratio_positive: "0 < x \<Longrightarrow> 0 < y \<Longrightarrow> 0 < min 1 (of_nat x / of_int y :: rat)"
  by simp

lemma total_budget:
  assumes "\<forall>r\<in>set rs. \<exists>m>0. max_new_tokens (r_params r) = Some (m :: int)" and "rs \<noteq> []"
  shows "0 < sum_list (map (\<lambda>r. the (max_new_tokens (r_params r))) rs)" 
  using assms by (induction rs) (force split: if_splits)+

lemma locks_of_order:
  "mset is = mset [0..<length rs] \<Longrightarrow> locks_of rs is = mset (map (\<lambda>r. the (last_node r)) rs)"
proof -
  assume "mset is = mset [0..<length rs]"
  then have "locks_of rs is = mset (map (\<lambda>i. the (last_node (rs ! i))) [0..<length rs])"
    by (simp add: locks_of_def)
  also have "map (\<lambda>i. the (last_node (rs ! i))) [0..<length rs] = map (\<lambda>r. the (last_node r)) rs"
    by (intro nth_equalityI) auto
  finally show ?thesis .
qed

lemma retract_decode_spec:
  assumes inv: "radix_inv c refs" "\<not> cache_disable c" "plain_pool (kv_pool c)"
    and b: "batch_ok b" "sb_output_ids b = Some outs" "2 \<le> length (sb_reqs b)"
    and r: "\<forall>k<length (sb_reqs b). retractable c (sb_reqs b ! k) (seq_lens b ! k)"
    and l: "mset (map (\<lambda>r. the (last_node r)) (sb_reqs b)) \<subseteq># refs"
  shows "\<exists>gone kept ratio b' c'.
    retract_decode False 1 None c b = Inr (map (\<lambda>i. reset_for_retract (sb_reqs b ! i)) gone, ratio, b', c') \<and>
    retracts c refs (sb_reqs b) (seq_lens b) (retract_order False (sb_reqs b)) (gone, kept, c') \<and> gone \<noteq> [] \<and>
    filter_batch b (rev kept) = Inr b' \<and> sb_reqs b' = take_rows (rev kept) (sb_reqs b) \<and>
    seq_lens b' = take_rows (rev kept) (seq_lens b) \<and> batch_ok b' \<and> 0 < ratio \<and> ratio \<le> 1"
proof -
  let ?rs = "sb_reqs b" and ?st = "retract_order False (sb_reqs b)"
  note o = retract_order_facts [of False ?rs]
  have stack: "?st \<noteq> []" "2 \<le> length ?st" using o(3) b(3) by (auto simp flip: length_greater_0_conv)
  have h: "\<forall>i\<in>set ?st. (\<exists>k n. holds c (?rs ! i) k n) \<and> own_slots (req_to_token (req_pool c)) (?rs ! i) (seq_lens b ! i) \<noteq> []"
    using r retractable_own retractable_holds unfolding o(2) by blast
  have lk: "locks_of ?rs ?st \<subseteq># refs" using l locks_of_order [OF o(1)] by simp
  obtain res where res: "retract_loop False 1 None ?rs (seq_lens b) True c ?st = Inr res"
    "retracts c refs ?rs (seq_lens b) ?st res" "fst res \<noteq> []"
    using retract_loop_spec [OF inv stack(1) _ h lk, of True] stack(2) by auto
  obtain gone kept c' where g: "res = (gone, kept, c')" by (metis prod_cases3)
  have st: "gone @ kept = ?st" "kept \<noteq> []" using res(2) by (auto simp: g retracts_def)
  have ks: "\<forall>k\<in>set (rev kept). k < length ?rs" using st(1) o(2) by (metis Un_iff lessThan_iff set_append set_rev)
  have "length gone + length kept = length ?rs" using st(1) o(3) by (metis length_append)
  moreover have "0 < length gone" using res(3) g by simp
  ultimately have len: "length (rev kept) < length ?rs" by (metis length_rev less_add_same_cancel2)
  obtain b' where b': "filter_batch b (rev kept) = Inr b'" "sb_reqs b' = take_rows (rev kept) ?rs" "batch_ok b'"
    "seq_lens b' = take_rows (rev kept) (seq_lens b)"
    using filter_batch_ok [OF b(1) ks _ len b(2)] st(2) by auto
  have bud: "\<forall>r\<in>set (sb_reqs b'). \<exists>m>0. max_new_tokens (r_params r) = Some m"
    using ball_nth [OF r] take_rows_set [OF ks] unfolding b'(2) retractable_def by blast
  let ?tot = "sum_list (map (\<lambda>r. the (max_new_tokens (r_params r))) (sb_reqs b'))"
  let ?dec = "sum_list (map (\<lambda>r. length (output_ids r)) (sb_reqs b')) + retract_decode_steps * length (sb_reqs b')"
  have ne: "sb_reqs b' \<noteq> []" using st(2) by (simp add: b'(2) take_rows_def)
  have tot: "0 < ?tot" using total_budget [OF bud ne] .
  have dec: "0 < ?dec" using ne by (simp add: retract_decode_steps_def)
  have "list_all (\<lambda>r. max_new_tokens (r_params r) \<noteq> None) (sb_reqs b')" using bud by (auto simp: list_all_iff)
  then have "retract_decode False 1 None c b =
      Inr (map (\<lambda>i. reset_for_retract (?rs ! i)) gone, min 1 (of_nat ?dec / of_int ?tot), b', c')"
    using tot by (simp add: retract_decode_def res(1) g b'(1) bind_result_def Let_def del: One_nat_def)
  moreover have "0 < min 1 (of_nat ?dec / of_int ?tot :: rat)" by (rule ratio_positive [OF dec tot])
  ultimately show ?thesis
    using res(2,3) b' unfolding g by (intro exI conjI) (assumption | rule min.cobounded1 | simp)+
qed

section \<open>The life of a batch\<close>

text \<open>The requests of a batch receive the tokens the model has sampled for them.\<close>

definition append_outputs :: "schedule_batch \<Rightarrow> token list \<Rightarrow> schedule_batch" where
  "append_outputs b outs =
     b\<lparr>sb_output_ids := Some outs, sb_reqs := map2 (\<lambda>r t. r\<lparr>output_ids := output_ids r @ [t]\<rparr>) (sb_reqs b) outs\<rparr>"

lemma append_outputs_ok:
  assumes ok: "batch_ok b" and l: "length outs = length (sb_reqs b)"
  shows "batch_ok (append_outputs b outs)"
proof -
  let ?rs = "map2 (\<lambda>r t. r\<lparr>output_ids := output_ids r @ [t]\<rparr>) (sb_reqs b) outs"
  have m: "map f ?rs = map f (sb_reqs b)" if "\<And>r xs. f (r\<lparr>output_ids := xs\<rparr>) = f r" for f :: "req \<Rightarrow> 'z"
    using l that by (intro nth_equalityI) auto
  have ex: "list_ex P ?rs = list_ex P (sb_reqs b)" if "\<And>r xs. P (r\<lparr>output_ids := xs\<rparr>) = P r" for P
    using l that by (auto simp: list_ex_length)
  have "map req_pool_idx ?rs = map req_pool_idx (sb_reqs b)" by (rule m) simp
  moreover have "info_rows ?rs i = info_rows (sb_reqs b) i" for i :: "string sampling_info"
    unfolding info_rows_def by (subst m, simp)+ simp
  ultimately show ?thesis using ok l ex unfolding batch_ok_def append_outputs_def by simp
qed

lemma mix_with_running_ok:
  assumes ok: "batch_ok b" "batch_ok d" and m: "mix_with_running b d = Inr b'"
  shows "batch_ok b'"
proof -
  let ?rs = "map (\<lambda>r. r\<lparr>fill_ids := Some (origin_input_ids r @ output_ids r), extend_input_len := 1\<rparr>) (sb_reqs d)"
  have d: "batch_ok (d\<lparr>sb_reqs := ?rs\<rparr>)" using ok(2) unfolding batch_ok_def info_rows_def by (simp add: list_ex_iff comp_def)
  have b: "batch_ok (b\<lparr>forward_mode := Some MIXED\<rparr>)" using ok(1) by (simp add: batch_ok_def)
  obtain b1 where b1: "merge_batch (b\<lparr>forward_mode := Some MIXED\<rparr>) (d\<lparr>sb_reqs := ?rs\<rparr>) = Inr b1"
    using m by (auto simp: mix_with_running_def Let_def bind_result_def split: sum.splits)
  have "batch_ok b1" using merge_batch_ok [OF b d b1] by simp
  then show ?thesis using m b1 by (auto simp: mix_with_running_def Let_def bind_result_def batch_ok_def split: sum.splits)
qed

text \<open>
  The batches the scheduler builds: extended batches, batches that received their outputs,
  decoding batches, merged and mixed batches, and batches whose finished requests were removed.
\<close>

inductive batch_run :: "(string \<Rightarrow> int) \<Rightarrow> nat \<Rightarrow> schedule_batch \<Rightarrow> bool" for hsh v where
  extend: "radix_inv c refs \<Longrightarrow> \<not> cache_disable c \<Longrightarrow> plain_pool (kv_pool c) \<Longrightarrow> rtp_inv (req_pool c) \<Longrightarrow>
    \<forall>r\<in>set rs. extend_ready (max_context_len (req_pool c)) r \<Longrightarrow> samplable v rs \<Longrightarrow> extend_fits c rs \<Longrightarrow>
    prepare_for_extend hsh v c (init_new rs ov cu ck) = Inr (b, c') \<Longrightarrow> batch_run hsh v b"
| outputs: "batch_run hsh v b \<Longrightarrow> length outs = length (sb_reqs b) \<Longrightarrow> batch_run hsh v (append_outputs b outs)"
| decode: "batch_run hsh v b \<Longrightarrow> prepare_for_decode c b = Inr (b', c') \<Longrightarrow> batch_run hsh v b'"
| filter: "batch_run hsh v b \<Longrightarrow> default_keep b excl \<noteq> [] \<Longrightarrow> filter_batch b (default_keep b excl) = Inr b' \<Longrightarrow>
    batch_run hsh v b'"
| merge: "batch_run hsh v b \<Longrightarrow> batch_run hsh v d \<Longrightarrow> merge_batch b d = Inr b' \<Longrightarrow> batch_run hsh v b'"
| mix: "batch_run hsh v b \<Longrightarrow> batch_run hsh v d \<Longrightarrow> mix_with_running b d = Inr b' \<Longrightarrow> batch_run hsh v b'"

lemma default_keep_ok:
  assumes ok: "batch_ok b" and k: "default_keep b excl \<noteq> []" and f: "filter_batch b (default_keep b excl) = Inr b'"
  shows "batch_ok b'"
proof -
  let ?ks = "default_keep b excl"
  have in_range: "\<forall>k\<in>set ?ks. k < length (sb_reqs b)" by (simp add: default_keep_def)
  have le: "length ?ks \<le> length (sb_reqs b)" using length_filter_le [of _ "[0..<length (sb_reqs b)]"] by (simp add: default_keep_def)
  show ?thesis
  proof (cases "length ?ks = length (sb_reqs b)")
    case True
    then have "filter_batch b ?ks = Inr b" using k by (auto simp: filter_batch_def)
    then show ?thesis using f ok by simp
  next
    case False
    then have lt: "length ?ks < length (sb_reqs b)" using le by simp
    obtain outs where "sb_output_ids b = Some outs"
      using f k False in_range by (auto simp: filter_batch_def list_all_iff split: option.splits)
    then show ?thesis using filter_batch_ok [OF ok in_range k lt] f by auto
  qed
qed

lemma batch_run_ok: "batch_run hsh v b \<Longrightarrow> batch_ok b"
proof (induction rule: batch_run.induct)
  case extend
  then show ?case using extend_batch_ok by blast
next
  case outputs
  then show ?case by (simp add: append_outputs_ok)
next
  case decode
  then show ?case using decode_batch_ok by blast
next
  case filter
  then show ?case using default_keep_ok by blast
next
  case merge
  then show ?case using merge_batch_ok by blast
next
  case mix
  then show ?case using mix_with_running_ok by blast
qed

section \<open>Properties\<close>



text \<open>
  C24: Retraction makes progress: given at least two decoding requests it always returns, with at
  least one request retracted and at least one kept; the retracted ones have the fewest output
  tokens; their own slots return to the pool and their locks are dropped; and either the kept ones
  have room for the next steps, or only one is left and it has a slot.
\<close>

theorem retract_decode_progress:
  assumes "radix_inv c refs" "\<not> cache_disable c" "plain_pool (kv_pool c)"
    and "batch_ok b" "sb_output_ids b = Some outs" "2 \<le> length (sb_reqs b)"
    and "\<forall>k<length (sb_reqs b). retractable c (sb_reqs b ! k) (seq_lens b ! k)"
    and "mset (map (\<lambda>r. the (last_node r)) (sb_reqs b)) \<subseteq># refs"
  shows "\<exists>gone keep ratio b' c'.
    retract_decode False 1 None c b = Inr (map (\<lambda>i. reset_for_retract (sb_reqs b ! i)) gone, ratio, b', c') \<and>
    gone \<noteq> [] \<and> keep \<noteq> [] \<and> mset (gone @ keep) = mset [0..<length (sb_reqs b)] \<and>
    sb_reqs b' = take_rows keep (sb_reqs b) \<and> batch_ok b' \<and> 0 < ratio \<and> ratio \<le> 1 \<and>
    (\<forall>i\<in>set gone. \<forall>j\<in>set keep. length (output_ids (sb_reqs b ! i)) \<le> length (output_ids (sb_reqs b ! j))) \<and>
    released (refs - locks_of (sb_reqs b) gone) (slots_of (req_to_token (req_pool c)) (sb_reqs b) (seq_lens b) gone)
      (rows_of (sb_reqs b) gone) c c' \<and>
    (length keep = 1 \<and> 0 < kv_available (kv_pool c') \<or> length keep * retract_decode_steps \<le> kv_available (kv_pool c'))"
proof -
  obtain gone kept ratio b' c' where r:
    "retract_decode False 1 None c b = Inr (map (\<lambda>i. reset_for_retract (sb_reqs b ! i)) gone, ratio, b', c')"
    "retracts c refs (sb_reqs b) (seq_lens b) (retract_order False (sb_reqs b)) (gone, kept, c')" "gone \<noteq> []"
    "sb_reqs b' = take_rows (rev kept) (sb_reqs b)" "batch_ok b'" "0 < ratio" "ratio \<le> 1"
    using retract_decode_spec [OF assms] by blast
  have st: "gone @ kept = retract_order False (sb_reqs b)" using r(2) by (simp add: retracts_def)
  have m: "mset (gone @ rev kept) = mset [0..<length (sb_reqs b)]"
    using retract_order_facts(1) [of False "sb_reqs b"] unfolding st [symmetric] by simp
  show ?thesis
    using r m retract_order_shortest [OF st]
    by (intro exI [of _ gone] exI [of _ "rev kept"] exI [of _ ratio] exI [of _ b'] exI [of _ c']) (simp add: retracts_def)
qed

text \<open>Two requests that share the empty prefix; the second has one output token more.\<close>

definition demo_pair :: schedule_batch where
  "demo_pair = demo_decode\<lparr>
     sb_reqs := [demo_req, demo_req\<lparr>req_pool_idx := Some 1, output_ids := [6, 4]\<rparr>], req_pool_indices := [0, 1],
     seq_lens := [4, 5], seq_lens_sum := 9, sb_output_ids := Some [6, 4],
     sampling_info := Some \<lparr>temperatures = [1, 1], top_ps = [1, 1], top_ks = [-1, -1], min_ps = [0, 0], is_all_greedy = True,
         need_min_p_sampling = False, si_vocab_size = 10,
         penalizer_orchestrator = Some \<lparr>vocab_size = 10, freq_pen = None, min_pen = None, pres_pen = None, is_required = False\<rparr>,
         linear_penalty = None, has_custom_logit_processor = False, si_custom_params = None, custom_logit_processor = None\<rparr>\<rparr>"

theorem retract_decode_progress_witness:
  "\<exists>c r ratio b' c'. retract_decode False 1 None c demo_pair = Inr ([r], ratio, b', c') \<and> rid r = ''r'' \<and> is_retracted r"
proof -
  let ?rt = "root_node demo_cache"
  obtain d c1 where c1: "inc_lock_ref demo_cache ?rt = Some (d, c1)" "radix_inv c1 {#?rt#}" "same_env demo_cache c1" "live c1 = live demo_cache"
    by (rule inc_lock_ref_spec [OF demo_inv(1,2) demo_root]) simp
  have r: "?rt \<in> live c1" "\<not> cache_disable c1" using c1 demo_root demo_inv by (simp_all add: same_env_def)
  obtain d' c2 where c2: "inc_lock_ref c1 ?rt = Some (d', c2)" "radix_inv c2 {#?rt, ?rt#}" "same_env c1 c2"
    by (rule inc_lock_ref_spec [OF c1(2) r(2,1)])
  have e: "\<not> cache_disable c2" "plain_pool (kv_pool c2)" "req_pool c2 = rtp_init 2 8"
    using c1 c2 demo_inv demo_pool demo_pools by (simp_all add: same_env_def)
  have p: "batch_ok demo_pair" "sb_output_ids demo_pair = Some [6, 4]" "length (sb_reqs demo_pair) = 2"
    by (simp_all add: demo_pair_def demo_decode_def init_new_def batch_ok_def info_rows_def demo_req_def req_init_def default_params_def)
  have a: "\<forall>k<length (sb_reqs demo_pair). retractable c2 (sb_reqs demo_pair ! k) (seq_lens demo_pair ! k)"
    using e(3) by (auto simp: demo_pair_def retractable_def holds_def demo_req_def req_init_def default_params_def
        rtp_init_def less_Suc_eq numeral_2_eq_2)
  have l: "mset (map (\<lambda>r. the (last_node r)) (sb_reqs demo_pair)) \<subseteq># {#?rt, ?rt#}" by (simp add: demo_pair_def demo_req_def)
  obtain gone keep ratio b' c' where w:
    "retract_decode False 1 None c2 demo_pair = Inr (map (\<lambda>i. reset_for_retract (sb_reqs demo_pair ! i)) gone, ratio, b', c')"
    "gone \<noteq> []" "keep \<noteq> []" "mset (gone @ keep) = mset [0..<length (sb_reqs demo_pair)]"
    using retract_decode_progress [OF c2(2) e(1,2) p(1,2) _ a l] p(3) by auto
  have "length gone + length keep = 2" using mset_eq_length [OF w(4)] p(3) by simp
  moreover have "0 < length gone" "0 < length keep" using w(2,3) by simp_all
  ultimately have "length gone = Suc 0" by linarith
  then obtain i where i: "gone = [i]" by (auto simp: length_Suc_conv)
  have "i < 2" using mset_eq_setD [OF w(4)] p(3) i by auto
  then have "rid (sb_reqs demo_pair ! i) = ''r''"
    by (auto simp: less_2_cases_iff demo_pair_def demo_req_def req_init_def)
  then show ?thesis using w(1) i by (intro exI) (auto simp: reset_for_retract_def)
qed

end
