(* ===== verification/Scheduler.thy ===== *)
theory Scheduler
  imports Prefill_Adder Batch_Ops
begin

text \<open>
  The scheduler of \<open>managers/scheduler.py\<close> and \<open>scheduler_output_processor_mixin.py\<close>: choosing the
  next batch, admitting waiting requests, updating the running batch, taking in the sampled
  tokens, aborting, flushing and the idle-time memory check. One server process is modelled, with
  a radix cache, without the hierarchical cache, disaggregation, data-parallel attention,
  speculative decoding and pipeline stages. The request objects that the code shares by reference
  between the queue, the batches and \<open>chunked_req\<close> are values here, identified by their id;
  \<open>sync_req\<close> copies the current value to the other holder where the code would see it through the
  reference.
\<close>

section \<open>State\<close>

record sched_cfg =
  max_micro_batch_size :: int
  pp_size :: nat
  is_mixed_chunk :: bool
  cfg_overlap :: bool
  cfg_custom_processor :: bool
  max_prefill_tokens :: int
  chunked_prefill_size :: "int option"
  lora_paths :: bool
  max_loras_per_batch :: nat
  decode_mem_cache_buf_multiplier :: nat
  test_retract :: bool
  new_token_ratio_decay :: rat
  min_new_token_ratio :: rat
  init_new_token_ratio :: rat
  cfg_vocab_size :: nat
  cfg_policy :: policy
  max_total_num_tokens :: int

record scheduler =
  tree_cache :: radix_cache
  waiting_queue_radix_tree :: radix_cache
  waiting_queue :: "req list"
  running_batch :: schedule_batch
  cur_batch :: "schedule_batch option"
  last_batch :: "schedule_batch option"
  chunked_req :: "req option"
  new_token_ratio :: rat
  num_generated_tokens :: nat
  forward_ct_decode :: nat

text \<open>
  The initial estimate of the share of \<open>max_new_tokens\<close> that a request uses, its lower bound and
  the step by which it decreases; the environment defaults of \<open>global_config\<close>.
\<close>

definition default_init_new_token_ratio :: rat where
  "default_init_new_token_ratio = 7 / 10"

definition default_min_new_token_ratio_factor :: rat where
  "default_min_new_token_ratio_factor = 14 / 100"

definition default_new_token_ratio_decay_steps :: rat where
  "default_new_token_ratio_decay_steps = 600"

definition new_token_ratios :: "rat \<Rightarrow> (rat \<times> rat \<times> rat) result" where
  "new_token_ratios schedule_conservativeness =
     (if \<not> 0 \<le> schedule_conservativeness then Inl AssertionError
      else
        (let ini = min (default_init_new_token_ratio * schedule_conservativeness) 1;
             mn = min (ini * default_min_new_token_ratio_factor) 1
         in Inr (ini, mn, (ini - mn) / default_new_token_ratio_decay_steps)))"

text \<open>\<open>ScheduleBatch(reqs=[], batch_is_full=full)\<close>, whose other attributes have their defaults.\<close>

definition empty_batch :: "bool \<Rightarrow> schedule_batch" where
  "empty_batch full =
     (init_new [] False False None)\<lparr>batch_is_full := full, sb_return_logprob := False, has_stream := False,
        has_grammar := False, return_hidden_states := False\<rparr>"

definition is_extend :: "schedule_batch \<Rightarrow> bool" where
  "is_extend b \<longleftrightarrow> forward_mode b = Some EXTEND \<or> forward_mode b = Some MIXED"

definition sync_req :: "req list \<Rightarrow> req option \<Rightarrow> req option" where
  "sync_req reqs ro =
     (case ro of
        None \<Rightarrow> None
      | Some r \<Rightarrow> (case find (\<lambda>x. rid x = rid r) reqs of None \<Rightarrow> Some r | Some x \<Rightarrow> Some x))"

section \<open>Queues\<close>

definition add_request_to_queue :: "scheduler \<Rightarrow> req \<Rightarrow> scheduler" where
  "add_request_to_queue s r = s\<lparr>waiting_queue := waiting_queue s @ [r]\<rparr>"

definition extend_requests_to_queue :: "scheduler \<Rightarrow> req list \<Rightarrow> scheduler" where
  "extend_requests_to_queue s rs = s\<lparr>waiting_queue := waiting_queue s @ rs\<rparr>"

section \<open>The running batch\<close>

definition update_running_batch ::
  "sched_cfg \<Rightarrow> scheduler \<Rightarrow> schedule_batch \<Rightarrow> (schedule_batch \<times> scheduler) result" where
  "update_running_batch cfg s b =
     bind_result (filter_batch b (default_keep b [])) (\<lambda>b1.
       if batch_is_empty b1 then Inr (b1\<lparr>batch_is_full := False\<rparr>, s)
       else
         bind_result (the_result (check_decode_mem (tree_cache s) (sb_reqs b1) (decode_mem_cache_buf_multiplier cfg))) (\<lambda>(ok, c1).
         bind_result
           (if \<not> ok \<or> test_retract cfg \<and> batch_size b1 > 10 then
              bind_result (retract_decode False (page_size c1) None c1 b1) (\<lambda>(retracted, ratio, b2, c2).
                Inr (b2, extend_requests_to_queue (s\<lparr>tree_cache := c2, new_token_ratio := ratio\<rparr>) retracted))
            else
              Inr (b1, s\<lparr>tree_cache := c1,
                         new_token_ratio := max (new_token_ratio s - new_token_ratio_decay cfg) (min_new_token_ratio cfg)\<rparr>))
           (\<lambda>(b2, s2).
         let b3 = (if batch_size b2 < batch_size b then b2\<lparr>batch_is_full := False\<rparr> else b2) in
         bind_result (prepare_for_decode (tree_cache s2) b3) (\<lambda>(b4, c4).
           Inr (b4, s2\<lparr>tree_cache := c4\<rparr>)))))"

section \<open>Admission of waiting requests\<close>

definition get_num_allocatable_reqs :: "sched_cfg \<Rightarrow> scheduler \<Rightarrow> nat \<Rightarrow> int" where
  "get_num_allocatable_reqs cfg s running_bs =
     (let res = max_micro_batch_size cfg - int running_bs
      in if pp_size cfg > 1 then min res (int (rtp_available_size (req_pool (tree_cache s)))) else res)"

text \<open>
  The loop over the waiting queue: whether the running batch is marked full, the queue with the
  requests as the loop leaves them, the cache and the adder.
\<close>

fun admit_loop ::
  "sched_cfg \<Rightarrow> bool \<Rightarrow> int \<Rightarrow> string option set \<Rightarrow> bool \<Rightarrow> req list \<Rightarrow> radix_cache \<Rightarrow> prefill_adder \<Rightarrow>
   (bool \<times> req list \<times> radix_cache \<times> prefill_adder) option" where
  "admit_loop cfg computed allocatable lora_set full [] c a = Some (full, [], c, a)"
| "admit_loop cfg computed allocatable lora_set full (r # rest) c a =
     (if lora_paths cfg \<and>
         card (lora_set \<union> lora_path ` set (can_run_list a) \<union> {lora_path r}) > max_loras_per_batch cfg
      then Some (True, r # rest, c, a)
      else if int (length (can_run_list a)) \<ge> allocatable then Some (True, r # rest, c, a)
      else
        do {
          (r1, c1) \<leftarrow> init_next_round_input (if computed then None else Some match_prefix) c r;
          (res, a1, c2) \<leftarrow> add_one_req c1 a r1;
          (case res of
             CONTINUE \<Rightarrow>
               do {
                 (f, q, c3, a2) \<leftarrow> admit_loop cfg computed allocatable lora_set full rest c2 a1;
                 Some (f, r1 # q, c3, a2)
               }
           | NO_TOKEN \<Rightarrow> Some (True, r1 # rest, c2, a1)
           | OTHER \<Rightarrow> Some (full, r1 # rest, c2, a1))
        })"

text \<open>The chunked request goes first.\<close>

definition admit_chunked :: "prefill_adder \<Rightarrow> radix_cache \<Rightarrow> req option \<Rightarrow> (req option \<times> prefill_adder) result" where
  "admit_chunked a c ro =
     (case ro of
        None \<Rightarrow> Inr (None, a)
      | Some r \<Rightarrow>
          bind_result (the_result (init_next_round_input None c r)) (\<lambda>(r1, c1). add_chunked_req a r1))"

text \<open>
  The new batch from the adder's list: the waiting queue without its requests, the request that
  continues in chunks with its counter increased, and the memory of the batch.
\<close>

definition mark_chunked :: "req list \<Rightarrow> req option \<Rightarrow> req list" where
  "mark_chunked reqs ro =
     (case ro of
        None \<Rightarrow> reqs
      | Some r \<Rightarrow> map (\<lambda>x. if rid x = rid r then x\<lparr>is_chunked := is_chunked x + 1\<rparr> else x) reqs)"

definition new_prefill_batch ::
  "(string \<Rightarrow> int) \<Rightarrow> sched_cfg \<Rightarrow> scheduler \<Rightarrow> prefill_adder \<Rightarrow> (schedule_batch \<times> scheduler) result" where
  "new_prefill_batch hsh cfg s a =
     (let queue = filter (\<lambda>x. rid x \<notin> rid ` set (can_run_list a)) (waiting_queue s) in
      if new_chunked_req a \<noteq> None \<and> chunked_req s \<noteq> None then Inl AssertionError
      else
        (let chunked = (if new_chunked_req a \<noteq> None then new_chunked_req a else chunked_req s);
             reqs = mark_chunked (can_run_list a) chunked;
             b = init_new reqs (cfg_overlap cfg) (cfg_custom_processor cfg) (sync_req reqs chunked)
         in bind_result (prepare_for_extend hsh (cfg_vocab_size cfg) (tree_cache s) b) (\<lambda>(b1, c1).
              let chunked' = sync_req (sb_reqs b1) chunked in
              Inr (b1\<lparr>sb_chunked_req := chunked'\<rparr>,
                   s\<lparr>tree_cache := c1, waiting_queue := queue, chunked_req := chunked'\<rparr>))))"

text \<open>Mixed-style chunked prefill.\<close>

definition mix_running :: "sched_cfg \<Rightarrow> schedule_batch \<Rightarrow> scheduler \<Rightarrow> (schedule_batch \<times> scheduler) result" where
  "mix_running cfg b s =
     (let rb = running_batch s in
      if is_mixed_chunk cfg \<and> \<not> batch_is_empty rb \<and> \<not> (sb_return_logprob b \<or> sb_return_logprob rb) then
        bind_result (filter_batch rb (default_keep rb [])) (\<lambda>rb1.
        bind_result
          (if \<not> batch_is_empty rb1 then
             bind_result (prepare_for_decode (tree_cache s) rb1) (\<lambda>(rb2, c2).
             bind_result (mix_with_running b rb2) (\<lambda>b2.
               Inr (b2\<lparr>decoding_reqs := Some (sb_reqs rb2)\<rparr>, c2)))
           else Inr (b, tree_cache s)) (\<lambda>(b3, c3).
          Inr (b3, s\<lparr>tree_cache := c3, running_batch := empty_batch (batch_is_full rb)\<rparr>)))
      else Inr (b\<lparr>decoding_reqs := None\<rparr>, s))"

definition get_new_batch_prefill ::
  "(string \<Rightarrow> int) \<Rightarrow> (req list \<Rightarrow> req list) \<Rightarrow> sched_cfg \<Rightarrow> scheduler \<Rightarrow> (schedule_batch option \<times> scheduler) result" where
  "get_new_batch_prefill hsh shuffle cfg s =
     (let rb = running_batch s; running_bs = length (sb_reqs rb) in
      if (batch_is_full rb \<or> waiting_queue s = []) \<and> chunked_req s = None then Inr (None, s)
      else if get_num_allocatable_reqs cfg s running_bs \<le> 0 \<and> chunked_req s = None then
        Inr (None, s\<lparr>running_batch := rb\<lparr>batch_is_full := True\<rparr>\<rparr>)
      else
        bind_result (the_result (calc_priority shuffle (cfg_policy cfg) (waiting_queue s) (tree_cache s)
                       (waiting_queue_radix_tree s))) (\<lambda>(computed, q1, c1, w1).
        let a0 = prefill_adder_init (Some (sb_reqs rb)) (new_token_ratio s) (max_prefill_tokens cfg)
                   (chunked_prefill_size cfg) (if is_mixed_chunk cfg then int running_bs else 0) in
        bind_result (admit_chunked a0 c1 (chunked_req s)) (\<lambda>(chunked, a1).
        bind_result (the_result (admit_loop cfg (computed = Some True) (get_num_allocatable_reqs cfg s running_bs)
                       (lora_path ` set (sb_reqs rb)) (batch_is_full rb) q1 c1 a1)) (\<lambda>(full, q2, c2, a2).
        let s1 = s\<lparr>tree_cache := c2, waiting_queue_radix_tree := w1, waiting_queue := q2, chunked_req := chunked,
                   running_batch := rb\<lparr>batch_is_full := full\<rparr>\<rparr> in
        if can_run_list a2 = [] then Inr (None, s1)
        else
          bind_result (new_prefill_batch hsh cfg s1 a2) (\<lambda>(b1, s2).
          bind_result (mix_running cfg b1 s2) (\<lambda>(b2, s3). Inr (Some b2, s3)))))))"

section \<open>The next batch\<close>

definition release_chunked :: "scheduler \<Rightarrow> scheduler result" where
  "release_chunked s =
     (case chunked_req s of
        None \<Rightarrow> Inr s
      | Some r \<Rightarrow>
          bind_result (the_result (cache_unfinished_req (tree_cache s) r)) (\<lambda>(r1, c1).
            (case req_pool_idx r1 of
               None \<Rightarrow> Inl TypeError
             | Some i \<Rightarrow> Inr (s\<lparr>tree_cache := release_row c1 i, chunked_req := Some r1\<rparr>))))"

definition merge_last_batch :: "scheduler \<Rightarrow> scheduler result" where
  "merge_last_batch s =
     (case last_batch s of
        None \<Rightarrow> Inr s
      | Some lb \<Rightarrow>
          if \<not> is_extend lb then Inr s
          else
            (let excl = (case chunked_req s of None \<Rightarrow> [] | Some r \<Rightarrow> [r]) @
                        (case sb_chunked_req lb of None \<Rightarrow> [] | Some r \<Rightarrow> [r])
             in bind_result (filter_batch lb (default_keep lb excl)) (\<lambda>lb1.
                  let rb = (if batch_size lb1 < batch_size lb then (running_batch s)\<lparr>batch_is_full := False\<rparr>
                            else running_batch s);
                      s1 = s\<lparr>last_batch := Some lb1, running_batch := rb\<rparr>
                  in if batch_is_empty lb1 then Inr s1
                     else if batch_is_empty rb then Inr (s1\<lparr>running_batch := lb1\<rparr>)
                     else bind_result (merge_batch rb lb1) (\<lambda>rb1. Inr (s1\<lparr>running_batch := rb1\<rparr>)))))"

definition get_next_batch_to_run ::
  "(string \<Rightarrow> int) \<Rightarrow> (req list \<Rightarrow> req list) \<Rightarrow> sched_cfg \<Rightarrow> scheduler \<Rightarrow> (schedule_batch option \<times> scheduler) result" where
  "get_next_batch_to_run hsh shuffle cfg s =
     bind_result (release_chunked s) (\<lambda>s1.
     bind_result (merge_last_batch s1) (\<lambda>s2.
     bind_result (get_new_batch_prefill hsh shuffle cfg s2) (\<lambda>(new, s3).
       (case new of
          Some b \<Rightarrow> Inr (Some b, s3)
        | None \<Rightarrow>
            if batch_is_empty (running_batch s3) then Inr (None, s3)
            else
              bind_result (update_running_batch cfg s3 (running_batch s3)) (\<lambda>(rb, s4).
                Inr (if batch_is_empty rb then None else Some rb, s4\<lparr>running_batch := rb\<rparr>))))))"

section \<open>Results of a batch\<close>

text \<open>
  \<open>term_after\<close> says whether the grammar of a request is terminated; the log probabilities, the
  hidden states and the grammar's own state are left out, and \<open>stream_output\<close> sends messages only.
\<close>

definition prefill_result ::
  "(nat \<Rightarrow> bool) \<Rightarrow> sched_cfg \<Rightarrow> schedule_batch \<Rightarrow> nat \<Rightarrow> req \<Rightarrow> token \<Rightarrow> radix_cache \<Rightarrow> (req \<times> radix_cache) result" where
  "prefill_result term_after cfg b i r tok c =
     (if is_retracted r then Inr (r, c)
      else if is_mixed_chunk cfg \<and> cfg_overlap cfg \<and> finished r then
        (case out_cache_loc b of
           None \<Rightarrow> Inl TypeError
         | Some loc \<Rightarrow>
             (let j = int (length loc) - int (length (sb_reqs b)) + int i
              in bind_result (the_result (pool_free c (seg loc (py_bound loc j) (py_bound loc (j + 1))))) (\<lambda>c1. Inr (r, c1))))
      else if is_chunked r \<le> 0 then
        bind_result (check_finished term_after (r\<lparr>output_ids := output_ids r @ [tok]\<rparr>)) (\<lambda>r1.
          if finished r1 then bind_result (the_result (cache_finished_req c r1)) (\<lambda>c1. Inr (r1, c1))
          else if (case decoding_reqs b of None \<Rightarrow> True | Some ds \<Rightarrow> rid r1 \<notin> rid ` set ds) then
            the_result (cache_unfinished_req c r1)
          else Inr (r1, c))
      else Inr (r\<lparr>is_chunked := is_chunked r - 1\<rparr>, c))"

definition embedding_result :: "(nat \<Rightarrow> bool) \<Rightarrow> req \<Rightarrow> radix_cache \<Rightarrow> (req \<times> radix_cache) result" where
  "embedding_result term_after r c =
     (if is_retracted r then Inr (r, c)
      else if is_chunked r \<le> 0 then
        bind_result (check_finished term_after (r\<lparr>output_ids := output_ids r @ [0]\<rparr>)) (\<lambda>r1.
          if finished r1 then bind_result (the_result (cache_finished_req c r1)) (\<lambda>c1. Inr (r1, c1))
          else the_result (cache_unfinished_req c r1))
      else Inr (r\<lparr>is_chunked := is_chunked r - 1\<rparr>, c))"

definition decode_result ::
  "(nat \<Rightarrow> bool) \<Rightarrow> sched_cfg \<Rightarrow> schedule_batch \<Rightarrow> nat \<Rightarrow> req \<Rightarrow> token \<Rightarrow> radix_cache \<Rightarrow> (req \<times> radix_cache) result" where
  "decode_result term_after cfg b i r tok c =
     (if is_retracted r then Inr (r, c)
      else if cfg_overlap cfg \<and> finished r then
        (case out_cache_loc b of
           None \<Rightarrow> Inl TypeError
         | Some loc \<Rightarrow>
             if page_size c = 1 \<or> (int (length (origin_input_ids r)) + int (length (output_ids r)) - 1) mod int (page_size c) = 0
             then bind_result (the_result (pool_free c (seg loc i (i + 1)))) (\<lambda>c1. Inr (r, c1))
             else Inr (r, c))
      else
        bind_result (check_finished term_after (r\<lparr>output_ids := output_ids r @ [tok]\<rparr>)) (\<lambda>r1.
          if finished r1 then bind_result (the_result (cache_finished_req c r1)) (\<lambda>c1. Inr (r1, c1))
          else Inr (r1, c)))"

text \<open>\<open>for i, (req, x) in enumerate(zip(reqs, xs))\<close>\<close>

fun for_reqs ::
  "(nat \<Rightarrow> req \<Rightarrow> 'x \<Rightarrow> radix_cache \<Rightarrow> (req \<times> radix_cache) result) \<Rightarrow> nat \<Rightarrow> req list \<Rightarrow> 'x list \<Rightarrow> radix_cache \<Rightarrow>
   (req list \<times> radix_cache) result" where
  "for_reqs f i (r # rs) (x # xs) c =
     bind_result (f i r x c) (\<lambda>(r1, c1).
     bind_result (for_reqs f (Suc i) rs xs c1) (\<lambda>(rs1, c2). Inr (r1 # rs1, c2)))"
| "for_reqs f i rs xs c = Inr (rs, c)"

definition process_batch_result_prefill ::
  "(nat \<Rightarrow> bool) \<Rightarrow> sched_cfg \<Rightarrow> scheduler \<Rightarrow> schedule_batch \<Rightarrow> token list \<Rightarrow> (schedule_batch \<times> scheduler) result" where
  "process_batch_result_prefill term_after cfg s b toks =
     bind_result (for_reqs (prefill_result term_after cfg b) 0 (sb_reqs b) toks (tree_cache s)) (\<lambda>(rs, c).
       Inr (b\<lparr>sb_reqs := rs\<rparr>, s\<lparr>tree_cache := c, chunked_req := sync_req rs (chunked_req s)\<rparr>))"

definition process_batch_result_embedding ::
  "(nat \<Rightarrow> bool) \<Rightarrow> scheduler \<Rightarrow> schedule_batch \<Rightarrow> (schedule_batch \<times> scheduler) result" where
  "process_batch_result_embedding term_after s b =
     bind_result (for_reqs (\<lambda>i r x c. embedding_result term_after r c) 0 (sb_reqs b)
                    (replicate (length (sb_reqs b)) ()) (tree_cache s)) (\<lambda>(rs, c).
       Inr (b\<lparr>sb_reqs := rs\<rparr>, s\<lparr>tree_cache := c, chunked_req := sync_req rs (chunked_req s)\<rparr>))"

fun kv_group_begin :: "kv_alloc \<Rightarrow> kv_alloc" where
  "kv_group_begin (TokenAlloc a) = TokenAlloc (tka_free_group_begin a)"
| "kv_group_begin (PagedAlloc a) = PagedAlloc (pka_free_group_begin a)"

fun kv_group_end :: "kv_alloc \<Rightarrow> kv_alloc result" where
  "kv_group_end (TokenAlloc a) = Inr (TokenAlloc (tka_free_group_end a))"
| "kv_group_end (PagedAlloc a) = (case pka_free_group_end a of Inl e \<Rightarrow> Inl e | Inr a' \<Rightarrow> Inr (PagedAlloc a'))"

definition process_batch_result_decode ::
  "(nat \<Rightarrow> bool) \<Rightarrow> sched_cfg \<Rightarrow> scheduler \<Rightarrow> schedule_batch \<Rightarrow> token list \<Rightarrow> (schedule_batch \<times> scheduler) result" where
  "process_batch_result_decode term_after cfg s b toks =
     (let c0 = tree_cache s; c1 = c0\<lparr>kv_pool := kv_group_begin (kv_pool c0)\<rparr> in
      bind_result (for_reqs (decode_result term_after cfg b) 0 (sb_reqs b) toks c1) (\<lambda>(rs, c2).
      bind_result (kv_group_end (kv_pool c2)) (\<lambda>a.
        Inr (b\<lparr>sb_reqs := rs\<rparr>,
             s\<lparr>tree_cache := c2\<lparr>kv_pool := a\<rparr>, num_generated_tokens := num_generated_tokens s + length (sb_reqs b),
               forward_ct_decode := Suc (forward_ct_decode s) mod 2 ^ 30\<rparr>))))"

definition process_batch_result ::
  "(nat \<Rightarrow> bool) \<Rightarrow> sched_cfg \<Rightarrow> scheduler \<Rightarrow> schedule_batch \<Rightarrow> token list \<Rightarrow> (schedule_batch \<times> scheduler) result" where
  "process_batch_result term_after cfg s b toks =
     (if forward_mode b = Some DECODE then process_batch_result_decode term_after cfg s b toks
      else if is_extend b then process_batch_result_prefill term_after cfg s b toks
      else Inr (b, s))"

section \<open>Other operations\<close>

text \<open>\<open>check_memory\<close> raises when the idle server has lost slots or rows.\<close>

definition check_memory :: "sched_cfg \<Rightarrow> scheduler \<Rightarrow> unit result" where
  "check_memory cfg s =
     (let c = tree_cache s; available_size = int (kv_available (kv_pool c)) + evictable_size c
      in if available_size \<noteq> max_total_num_tokens cfg then Inl ValueError
         else if length (rtp_free_slots (req_pool c)) \<noteq> rtp_size (req_pool c) then Inl ValueError
         else Inr ())"

fun kv_clear :: "kv_alloc \<Rightarrow> kv_alloc" where
  "kv_clear (TokenAlloc a) = TokenAlloc (tka_clear a)"
| "kv_clear (PagedAlloc a) = PagedAlloc (pka_clear a)"

definition flush_cache :: "scheduler \<Rightarrow> bool \<times> scheduler" where
  "flush_cache s =
     (if waiting_queue s = [] \<and> batch_is_empty (running_batch s) then
        (let c1 = radix_reset (tree_cache s)
         in (True, s\<lparr>cur_batch := None, last_batch := None,
               tree_cache := c1\<lparr>req_pool := rtp_clear (req_pool c1), kv_pool := kv_clear (kv_pool c1)\<rparr>,
               num_generated_tokens := 0, forward_ct_decode := 0\<rparr>))
      else (False, s))"

text \<open>
  Deleting the marked indices from the last to the first, with the ids of the messages sent. The
  requests of the running batch, and of the current one when it is another batch, are marked; when
  messages are handled the current batch is also the last one, and it holds the chunked request.
\<close>

fun pop_indices :: "nat list \<Rightarrow> 'a list \<Rightarrow> 'a list \<times> 'a list" where
  "pop_indices [] xs = ([], xs)"
| "pop_indices (i # is) xs =
     (case pop_indices is (take i xs @ drop (Suc i) xs) of (popped, rest) \<Rightarrow> (xs ! i # popped, rest))"

definition mark_abort :: "string \<Rightarrow> req \<Rightarrow> req" where
  "mark_abort p r = (if prefix p (rid r) \<and> \<not> finished r then r\<lparr>to_abort := True\<rparr> else r)"

definition mark_batch :: "string \<Rightarrow> schedule_batch \<Rightarrow> schedule_batch" where
  "mark_batch p b = b\<lparr>sb_reqs := map (mark_abort p) (sb_reqs b)\<rparr>"

definition abort_request :: "string \<Rightarrow> scheduler \<Rightarrow> string list \<times> scheduler" where
  "abort_request p s =
     (let to_del = filter (\<lambda>i. prefix p (rid (waiting_queue s ! i))) [0..<length (waiting_queue s)]
      in case pop_indices (rev to_del) (waiting_queue s) of (popped, rest) \<Rightarrow>
           (map rid popped,
            s\<lparr>waiting_queue := rest,
              running_batch := mark_batch p (running_batch s),
              cur_batch := map_option (mark_batch p) (cur_batch s), last_batch := map_option (mark_batch p) (last_batch s),
              chunked_req := map_option (mark_abort p) (chunked_req s)\<rparr>))"

section \<open>One round of the event loop\<close>

text \<open>
  \<open>model\<close> stands for the forward pass: the sampled tokens of a batch. The batch that was run is
  the running batch itself when it decodes.
\<close>

definition store_batch :: "schedule_batch \<Rightarrow> scheduler \<Rightarrow> scheduler" where
  "store_batch b s = (if forward_mode b = Some DECODE then s\<lparr>running_batch := b\<rparr> else s)"

definition event_loop_step ::
  "(string \<Rightarrow> int) \<Rightarrow> (req list \<Rightarrow> req list) \<Rightarrow> (schedule_batch \<Rightarrow> token list) \<Rightarrow> (nat \<Rightarrow> bool) \<Rightarrow> sched_cfg \<Rightarrow>
   req list \<Rightarrow> scheduler \<Rightarrow> scheduler result" where
  "event_loop_step hsh shuffle model term_after cfg recv s =
     bind_result (get_next_batch_to_run hsh shuffle cfg (fold (\<lambda>r s. add_request_to_queue s r) recv s)) (\<lambda>(bo, s1).
     let s2 = s1\<lparr>cur_batch := bo\<rparr> in
     (case bo of
        Some b \<Rightarrow>
          (let toks = model b; b1 = b\<lparr>sb_output_ids := Some toks\<rparr>
           in bind_result (process_batch_result term_after cfg (store_batch b1 s2) b1 toks) (\<lambda>(b2, s3).
                Inr ((store_batch b2 s3)\<lparr>cur_batch := Some b2, last_batch := Some b2\<rparr>)))
      | None \<Rightarrow>
          bind_result (check_memory cfg s2) (\<lambda>_.
            Inr (s2\<lparr>new_token_ratio := init_new_token_ratio cfg, last_batch := None\<rparr>))))"

end
