(* ===== verification/Scheduler_Decode.thy ===== *)
theory Scheduler_Decode
  imports Scheduler
begin

text \<open>
  The decode side of the scheduler: updating the running batch never runs out of memory. Either
  the memory check finds (or evicts) enough slots for the next steps, or retraction frees them;
  and no request is lost on the way.
\<close>

section \<open>Batches without penalties\<close>

definition no_penalties :: "schedule_batch \<Rightarrow> bool" where
  "no_penalties b \<longleftrightarrow>
     (\<exists>i p. sampling_info b = Some i \<and> penalizer_orchestrator i = Some p \<and> \<not> is_required p)"

lemma feed_no_penalties: "no_penalties b \<Longrightarrow> feed_penalizers b = Inr b"
  by (auto simp: no_penalties_def feed_penalizers_def)

lemma filter_custom_orch: "filter_custom ks i = Inr i' \<Longrightarrow> penalizer_orchestrator i' = penalizer_orchestrator i"
  by (auto simp: filter_custom_def Let_def split: option.splits if_splits)

lemma info_filter_orch:
  assumes "info_filter rs ks i = Inr i'" and "penalizer_orchestrator i = Some p"
  shows "penalizer_orchestrator i' = Some (orch_filter p rs ks)"
  using assms
  by (auto simp: info_filter_def Let_def bind_result_def dest!: filter_custom_orch split: sum.splits if_splits option.splits)

lemma filter_no_penalties:
  assumes "no_penalties b" and "filter_batch b ks = Inr b'"
  shows "no_penalties b'"
proof -
  obtain i p where i: "sampling_info b = Some i" "penalizer_orchestrator i = Some p" "\<not> is_required p"
    using assms(1) by (auto simp: no_penalties_def)
  have keep: "orch_filter p rs ks = p" for rs using i(3) by (simp add: orch_filter_def)
  show ?thesis
  proof (cases "ks = [] \<or> length ks = length (sb_reqs b)")
    case True
    then have "filter_batch b ks = Inr (if ks = [] then b\<lparr>sb_reqs := []\<rparr> else b)" by (auto simp: filter_batch_def)
    then have "b' = (if ks = [] then b\<lparr>sb_reqs := []\<rparr> else b)" using assms(2) by simp
    then show ?thesis using assms(1) by (simp add: no_penalties_def)
  next
    case False
    obtain i' where "info_filter (take_rows ks (sb_reqs b)) ks i = Inr i'" "sampling_info b' = Some i'"
      using assms(2) False i(1)
      by (auto simp: filter_batch_def Let_def bind_result_def split: if_splits option.splits sum.splits)
    then show ?thesis using info_filter_orch [OF _ i(2)] keep i(3) by (auto simp: no_penalties_def)
  qed
qed

section \<open>Running requests\<close>

text \<open>The requests at the positions \<open>ks\<close> of a batch hold memory and can take another token.\<close>

definition running_ok :: "radix_cache \<Rightarrow> schedule_batch \<Rightarrow> nat list \<Rightarrow> bool" where
  "running_ok c b ks \<longleftrightarrow>
     distinct (map (\<lambda>k. req_pool_indices b ! k) ks) \<and>
     (\<forall>k\<in>set ks. k < length (sb_reqs b) \<and> retractable c (sb_reqs b ! k) (seq_lens b ! k) \<and>
        seq_lens b ! k < max_context_len (req_pool c) \<and>
        req_pool_indices b ! k \<notin> set (rtp_free_slots (req_pool c)))"

lemma retractable_cong:
  "req_to_token (req_pool c') = req_to_token (req_pool c) \<Longrightarrow> retractable c' r n = retractable c r n"
  by (simp add: retractable_def holds_def)

lemma batch_ok_idx:
  assumes "batch_ok b" and "k < length (sb_reqs b)"
  shows "req_pool_idx (sb_reqs b ! k) = Some (req_pool_indices b ! k)"
proof -
  have "map req_pool_idx (sb_reqs b) = map Some (req_pool_indices b)" and "length (req_pool_indices b) = length (sb_reqs b)"
    using assms(1) by (simp_all add: batch_ok_def)
  then show ?thesis using assms(2) by (metis nth_map)
qed

lemma running_ok_sub:
  assumes "running_ok c b ks" and "distinct ls" and "set ls \<subseteq> set ks"
  shows "running_ok c b ls"
  using assms by (auto simp: running_ok_def distinct_map intro: inj_on_subset)

text \<open>Keeping the rows \<open>ks\<close> of the batch.\<close>

lemma running_ok_filter:
  assumes run: "running_ok c b ks" and ok: "batch_ok b" "batch_ok b'"
    and b': "sb_reqs b' = take_rows ks (sb_reqs b)" "seq_lens b' = take_rows ks (seq_lens b)"
  shows "running_ok c b' [0..<length ks]"
proof -
  have at: "req_pool_indices b' ! j = req_pool_indices b ! (ks ! j)" if "j < length ks" for j
  proof -
    have "ks ! j < length (sb_reqs b)" using run that by (simp add: running_ok_def)
    then have "req_pool_idx (sb_reqs b' ! j) = Some (req_pool_indices b ! (ks ! j))"
      using batch_ok_idx [OF ok(1)] that b'(1) by (simp add: take_rows_def)
    then show ?thesis using batch_ok_idx [OF ok(2), of j] that b'(1) by simp
  qed
  have "map (\<lambda>k. req_pool_indices b' ! k) [0..<length ks] = map (\<lambda>k. req_pool_indices b ! k) ks"
    using at by (intro nth_equalityI) auto
  then show ?thesis using run at b' by (auto simp: running_ok_def take_rows_def)
qed

lemma running_ok_row:
  assumes "running_ok c b ks" and "batch_ok b" and "k \<in> set ks"
  shows "req_pool_indices b ! k < length (req_to_token (req_pool c))"
proof -
  have "k < length (sb_reqs b)" "retractable c (sb_reqs b ! k) (seq_lens b ! k)" using assms(1,3) by (auto simp: running_ok_def)
  then show ?thesis using batch_ok_idx [OF assms(2)] by (auto simp: retractable_def holds_def)
qed

lemma running_ok_ready:
  assumes "running_ok c b [0..<length (sb_reqs b)]" and "batch_ok b"
  shows "decode_ready (req_pool c) b"
proof -
  have l: "length (req_pool_indices b) = length (sb_reqs b)" "length (seq_lens b) = length (sb_reqs b)"
    using assms(2) by (simp_all add: batch_ok_def)
  have "map (\<lambda>k. req_pool_indices b ! k) [0..<length (sb_reqs b)] = req_pool_indices b"
    using map_nth [of "req_pool_indices b"] l by simp
  moreover have "req_pool_indices b ! k < length (req_to_token (req_pool c))" if "k < length (sb_reqs b)" for k
    using running_ok_row [OF assms(1,2)] that by simp
  ultimately show ?thesis using assms(1) l by (auto simp: running_ok_def decode_ready_def)
qed

lemma running_ok_evicted:
  assumes "running_ok c b ks" and "req_pool c' = req_pool c"
  shows "running_ok c' b ks"
  using assms retractable_cong [of c' c] by (simp add: running_ok_def)

text \<open>After the requests \<open>gone\<close> gave their rows back, the others still hold theirs.\<close>

lemma running_ok_released:
  assumes run: "running_ok c b (gone @ ks)" and ok: "batch_ok b"
    and rel: "req_pool c' = (req_pool c)\<lparr>rtp_free_slots := rtp_free_slots (req_pool c) @ rows_of (sb_reqs b) gone\<rparr>"
  shows "running_ok c' b ks" and "rtp_inv (req_pool c) \<Longrightarrow> rtp_inv (req_pool c')"
proof -
  have rows: "rows_of (sb_reqs b) gone = map (\<lambda>k. req_pool_indices b ! k) gone"
    using run batch_ok_idx [OF ok] by (auto simp: rows_of_def running_ok_def)
  show "running_ok c' b ks"
    using run retractable_cong [of c' c] by (auto simp: running_ok_def rel rows)
  have "req_pool_indices b ! k < length (req_to_token (req_pool c))" if "k \<in> set gone" for k
    using running_ok_row [OF run ok] that by simp
  then show "rtp_inv (req_pool c')" if "rtp_inv (req_pool c)"
    using run that by (auto simp: rtp_inv_def rel rows running_ok_def)
qed

section \<open>Retraction in the running batch\<close>

text \<open>
  What retraction leaves behind: a batch that can decode its next step from the slots at hand, and
  the requests that go back to the queue.
\<close>

definition decodable :: "radix_cache \<Rightarrow> schedule_batch \<Rightarrow> bool" where
  "decodable c b \<longleftrightarrow>
     batch_ok b \<and> no_penalties b \<and> sb_reqs b \<noteq> [] \<and> running_ok c b [0..<length (sb_reqs b)] \<and>
     length (sb_reqs b) \<le> kv_available (kv_pool c)"

definition pools_ok :: "node_id multiset \<Rightarrow> radix_cache \<Rightarrow> bool" where
  "pools_ok refs c \<longleftrightarrow>
     radix_inv c refs \<and> \<not> cache_disable c \<and> plain_pool (kv_pool c) \<and> rtp_inv (req_pool c) \<and> page_size c = 1"

lemma retract_single:
  assumes "sb_reqs b = [r]" and "0 < kv_available (kv_pool c)" and "max_new_tokens (r_params r) = Some m" "0 < m"
  shows "\<exists>ratio. retract_decode False p None c b = Inr ([], ratio, b, c) \<and> 0 < ratio \<and> ratio \<le> 1"
proof -
  have st: "retract_order False [r] = [0]" by (simp add: retract_order_def)
  have f: "filter_batch b [0] = Inr b" by (simp add: filter_batch_def assms(1))
  let ?x = "length (output_ids r) + retract_decode_steps"
  have "retract_decode False p None c b = Inr ([], min 1 (of_nat ?x / of_int m), b, c)"
    using assms f by (simp add: retract_decode_def st bind_result_def Let_def)
  moreover have "0 < min 1 (of_nat ?x / of_int m :: rat)"
    by (rule ratio_positive) (simp_all add: assms(4) retract_decode_steps_def)
  ultimately show ?thesis by auto
qed

lemma retract_running:
  assumes pools: "pools_ok refs c" and b: "batch_ok b" "no_penalties b" "sb_output_ids b = Some outs"
    and run: "running_ok c b [0..<length (sb_reqs b)]" "sb_reqs b \<noteq> []"
    and room: "2 \<le> length (sb_reqs b) \<or> 0 < kv_available (kv_pool c)"
    and locks: "mset (map (\<lambda>r. the (last_node r)) (sb_reqs b)) \<subseteq># refs"
  shows "\<exists>gone ratio b' c' refs'. retract_decode False 1 None c b = Inr (gone, ratio, b', c') \<and>
    decodable c' b' \<and> pools_ok refs' c' \<and> refs' \<subseteq># refs \<and> 0 < ratio \<and> ratio \<le> 1 \<and>
    mset (map rid gone) + mset (map rid (sb_reqs b')) = mset (map rid (sb_reqs b))"
proof (cases "2 \<le> length (sb_reqs b)")
  case False
  then obtain r where r: "sb_reqs b = [r]" using run(2) by (cases "sb_reqs b") (auto simp: Suc_le_eq)
  obtain m where m: "max_new_tokens (r_params r) = Some m" "0 < m"
    using run(1) by (auto simp: r running_ok_def retractable_def)
  have av: "0 < kv_available (kv_pool c)" using room False by simp
  obtain ratio where "retract_decode False 1 None c b = Inr ([], ratio, b, c)" "0 < ratio" "ratio \<le> 1"
    using retract_single [OF r av m] by blast
  moreover have "decodable c b" using b run av by (simp add: decodable_def r Suc_le_eq)
  ultimately show ?thesis using pools by fastforce
next
  case True
  have inv: "radix_inv c refs" "\<not> cache_disable c" "plain_pool (kv_pool c)" "rtp_inv (req_pool c)" "page_size c = 1"
    using pools by (auto simp: pools_ok_def)
  have rt: "\<forall>k<length (sb_reqs b). retractable c (sb_reqs b ! k) (seq_lens b ! k)" using run(1) by (simp add: running_ok_def)
  obtain gone kept ratio b' c' where r:
    "retract_decode False 1 None c b = Inr (map (\<lambda>i. reset_for_retract (sb_reqs b ! i)) gone, ratio, b', c')"
    "retracts c refs (sb_reqs b) (seq_lens b) (retract_order False (sb_reqs b)) (gone, kept, c')" "gone \<noteq> []"
    "filter_batch b (rev kept) = Inr b'" "sb_reqs b' = take_rows (rev kept) (sb_reqs b)"
    "seq_lens b' = take_rows (rev kept) (seq_lens b)" "batch_ok b'" "0 < ratio" "ratio \<le> 1"
    using retract_decode_spec [OF inv(1-3) b(1,3) True rt locks] by blast
  have st: "gone @ kept = retract_order False (sb_reqs b)" "kept \<noteq> []"
    and rel: "released (refs - locks_of (sb_reqs b) gone) (slots_of (req_to_token (req_pool c)) (sb_reqs b) (seq_lens b) gone)
      (rows_of (sb_reqs b) gone) c c'"
    and fit: "length kept = 1 \<and> 0 < kv_available (kv_pool c') \<or> length kept * retract_decode_steps \<le> kv_available (kv_pool c')"
    using r(2) by (simp_all add: retracts_def)
  have m: "mset (gone @ rev kept) = mset [0..<length (sb_reqs b)]"
    using retract_order_facts(1) [of False "sb_reqs b"] unfolding st(1) [symmetric] by simp
  then have d: "distinct (gone @ rev kept)" "set (gone @ rev kept) = set [0..<length (sb_reqs b)]"
    using mset_eq_imp_distinct_iff [OF m] mset_eq_setD [OF m] by simp_all
  have pool: "req_pool c' = (req_pool c)\<lparr>rtp_free_slots := rtp_free_slots (req_pool c) @ rows_of (sb_reqs b) gone\<rparr>"
    using rel by (simp add: released_def)
  have run1: "running_ok c b (gone @ rev kept)" by (rule running_ok_sub [OF run(1) d(1)]) (simp only: d(2) subset_refl)
  note run2 = running_ok_released [OF run1 b(1) pool]
  have lb: "length (sb_reqs b') = length kept" by (simp add: r(5))
  have "running_ok c' b' [0..<length (sb_reqs b')]"
    using running_ok_filter [OF run2(1) b(1) r(7,5,6)] lb by simp
  moreover have "length (sb_reqs b') \<le> kv_available (kv_pool c')"
    using fit lb by (auto simp: retract_decode_steps_def)
  ultimately have "decodable c' b'"
    using r(7) filter_no_penalties [OF b(2) r(4)] st(2) lb by (auto simp: decodable_def simp flip: length_greater_0_conv)
  moreover have "pools_ok (refs - locks_of (sb_reqs b) gone) c'" using rel run2(2) inv by (simp add: pools_ok_def released_def)
  moreover have "mset (map rid (map (\<lambda>i. reset_for_retract (sb_reqs b ! i)) gone)) + mset (map rid (sb_reqs b')) = mset (map rid (sb_reqs b))"
  proof -
    have "mset (map rid (map (\<lambda>i. reset_for_retract (sb_reqs b ! i)) gone)) + mset (map rid (sb_reqs b')) =
        image_mset (\<lambda>i. rid (sb_reqs b ! i)) (mset (gone @ rev kept))"
      by (simp add: r(5) take_rows_def reset_for_retract_def comp_def)
    also have "\<dots> = mset (map (\<lambda>i. rid (sb_reqs b ! i)) [0..<length (sb_reqs b)])" unfolding m by (rule mset_map [symmetric])
    also have "map (\<lambda>i. rid (sb_reqs b ! i)) [0..<length (sb_reqs b)] = map rid (sb_reqs b)"
      by (intro nth_equalityI) auto
    finally show ?thesis .
  qed
  ultimately show ?thesis using r(1,8,9) by (meson diff_subset_eq_self)
qed

section \<open>The update of the running batch\<close>

lemma decode_step:
  assumes pools: "pools_ok refs c" and b: "decodable c b"
  shows "\<exists>b' c' loc. prepare_for_decode c b = Inr (b', c') \<and> sb_reqs b' = sb_reqs b \<and> seq_lens b' = map Suc (seq_lens b) \<and>
    out_cache_loc b' = Some loc \<and> length loc = length (sb_reqs b) \<and> batch_ok b' \<and> radix_inv c' refs \<and> rtp_inv (req_pool c')"
proof -
  have inv: "radix_inv c refs" "\<not> cache_disable c" "plain_pool (kv_pool c)" "rtp_inv (req_pool c)"
    using pools by (auto simp: pools_ok_def)
  have r: "decode_ready (req_pool c) b" using b running_ok_ready by (auto simp: decodable_def)
  have f: "feed_penalizers (b\<lparr>forward_mode := Some DECODE\<rparr>) = Inr (b\<lparr>forward_mode := Some DECODE\<rparr>)"
    by (rule feed_no_penalties) (use b in \<open>simp add: decodable_def no_penalties_def\<close>)
  have fits: "int (length (sb_reqs b)) \<le> int (kv_available (kv_pool c)) + evictable_size c"
    using b evictable_nonneg [OF inv(1)] by (simp add: decodable_def)
  have ok: "batch_ok b" using b by (simp add: decodable_def)
  show ?thesis
    using prepare_for_decode_spec [OF inv r f fits] decode_batch_ok [OF ok] by blast
qed

text \<open>The unfinished requests of a batch.\<close>

definition unfinished :: "schedule_batch \<Rightarrow> req list" where
  "unfinished b = filter (\<lambda>r. \<not> finished r) (sb_reqs b)"

lemma default_keep_facts:
  "take_rows (default_keep b []) (sb_reqs b) = unfinished b" "distinct (default_keep b [])"
  "\<forall>k\<in>set (default_keep b []). k < length (sb_reqs b)" "length (default_keep b []) = length (unfinished b)"
proof -
  let ?P = "\<lambda>i. \<not> finished (sb_reqs b ! i)"
  have k: "default_keep b [] = filter ?P [0..<length (sb_reqs b)]" by (simp add: default_keep_def)
  have "take_rows (default_keep b []) (sb_reqs b) = filter (\<lambda>r. \<not> finished r) (map (\<lambda>i. sb_reqs b ! i) [0..<length (sb_reqs b)])"
    by (simp add: k take_rows_def filter_map comp_def)
  then show t: "take_rows (default_keep b []) (sb_reqs b) = unfinished b" by (simp add: unfinished_def map_nth)
  show "distinct (default_keep b [])" "\<forall>k\<in>set (default_keep b []). k < length (sb_reqs b)" by (auto simp: k)
  show "length (default_keep b []) = length (unfinished b)" by (simp flip: t)
qed

lemma filter_unfinished:
  assumes ok: "batch_ok b" "no_penalties b" "sb_output_ids b = Some outs" and ne: "unfinished b \<noteq> []"
    and run: "running_ok c b (default_keep b [])"
  shows "\<exists>b' outs'. filter_batch b (default_keep b []) = Inr b' \<and> sb_reqs b' = unfinished b \<and> batch_ok b' \<and> no_penalties b' \<and>
    sb_output_ids b' = Some outs' \<and> running_ok c b' [0..<length (sb_reqs b')]"
proof (cases "length (default_keep b []) = length (sb_reqs b)")
  case True
  note k = default_keep_facts [of b]
  have all: "default_keep b [] = [0..<length (sb_reqs b)]"
    using True unfolding default_keep_def by (metis (no_types, lifting) diff_zero filter_True length_filter_less length_upt less_irrefl)
  have "filter_batch b (default_keep b []) = Inr b" using True ne k(4) by (auto simp: filter_batch_def)
  moreover have "unfinished b = sb_reqs b" using k(1) by (simp add: all take_rows_def map_nth)
  ultimately show ?thesis using ok run all by simp
next
  case False
  note k = default_keep_facts [of b]
  have ne': "default_keep b [] \<noteq> []" using ne k(4) by auto
  have lt: "length (default_keep b []) < length (sb_reqs b)"
    using False k(4) length_filter_le [of "\<lambda>r. \<not> finished r" "sb_reqs b"] unfolding unfinished_def by linarith
  obtain b' where b': "filter_batch b (default_keep b []) = Inr b'" "sb_reqs b' = take_rows (default_keep b []) (sb_reqs b)"
    "seq_lens b' = take_rows (default_keep b []) (seq_lens b)" "sb_output_ids b' = Some (take_rows (default_keep b []) outs)" "batch_ok b'"
    using filter_batch_ok [OF ok(1) k(3) ne' lt ok(3)] by blast
  moreover have "running_ok c b' [0..<length (sb_reqs b')]" using running_ok_filter [OF run ok(1) b'(5,2,3)] b'(2) by simp
  moreover have "no_penalties b'" by (rule filter_no_penalties [OF ok(2) b'(1)])
  ultimately show ?thesis using k(1) by simp
qed

text \<open>The scheduler's estimate of new tokens stays between its lower bound and 1.\<close>

definition ratio_ok :: "sched_cfg \<Rightarrow> rat \<Rightarrow> bool" where
  "ratio_ok cfg x \<longleftrightarrow> 0 < x \<and> x \<le> 1 \<and> 0 < min_new_token_ratio cfg \<and> min_new_token_ratio cfg \<le> 1 \<and> 0 \<le> new_token_ratio_decay cfg"

lemma update_running_batch_spec:
  assumes pools: "pools_ok refs (tree_cache s)" and b: "batch_ok b" "no_penalties b" "sb_output_ids b = Some outs"
    and run: "running_ok (tree_cache s) b (default_keep b [])" "unfinished b \<noteq> []"
    and room: "2 \<le> length (unfinished b) \<or> 0 < kv_available (kv_pool (tree_cache s))"
    and locks: "mset (map (\<lambda>r. the (last_node r)) (unfinished b)) \<subseteq># refs"
    and cfg: "0 < decode_mem_cache_buf_multiplier cfg" "ratio_ok cfg (new_token_ratio s)"
  shows "\<exists>b' s' refs'. update_running_batch cfg s b = Inr (b', s') \<and> sb_reqs b' \<noteq> [] \<and> batch_ok b' \<and>
    mset (map rid (sb_reqs b')) + mset (map rid (waiting_queue s')) =
      mset (map rid (unfinished b)) + mset (map rid (waiting_queue s)) \<and>
    radix_inv (tree_cache s') refs' \<and> refs' \<subseteq># refs \<and> ratio_ok cfg (new_token_ratio s')"
proof -
  let ?c = "tree_cache s"
  have inv: "radix_inv ?c refs" "\<not> cache_disable ?c" "plain_pool (kv_pool ?c)" "rtp_inv (req_pool ?c)" "page_size ?c = 1"
    using pools by (auto simp: pools_ok_def)
  obtain b1 outs1 where b1: "filter_batch b (default_keep b []) = Inr b1" "sb_reqs b1 = unfinished b" "batch_ok b1" "no_penalties b1"
    "sb_output_ids b1 = Some outs1" "running_ok ?c b1 [0..<length (sb_reqs b1)]"
    using filter_unfinished [OF b run(2,1)] by blast
  have ne: "\<not> batch_is_empty b1" "sb_reqs b1 \<noteq> []" using b1(2) run(2) by (simp_all add: batch_is_empty_def)
  let ?m = "decode_mem_cache_buf_multiplier cfg"
  obtain ok c1 where c1: "check_decode_mem ?c (sb_reqs b1) ?m = Some (ok, c1)" "evicted_to refs ?c c1"
    "ok \<longrightarrow> length (sb_reqs b1) * ?m \<le> kv_available (kv_pool c1)"
    using check_decode_mem_spec [OF inv(1-3), of "sb_reqs b1" ?m] by blast
  have p1: "pools_ok refs c1" "kv_available (kv_pool ?c) \<le> kv_available (kv_pool c1)" "page_size c1 = 1"
    and r1: "running_ok c1 b1 [0..<length (sb_reqs b1)]"
    using c1(2) inv running_ok_evicted [OF b1(6)] by (auto simp: evicted_to_def pools_ok_def)
  let ?choice = "if \<not> ok \<or> test_retract cfg \<and> batch_size b1 > 10 then
      bind_result (retract_decode False (page_size c1) None c1 b1) (\<lambda>(retracted, ratio, b2, c2).
        Inr (b2, extend_requests_to_queue (s\<lparr>tree_cache := c2, new_token_ratio := ratio\<rparr>) retracted))
    else Inr (b1, s\<lparr>tree_cache := c1,
        new_token_ratio := max (new_token_ratio s - new_token_ratio_decay cfg) (min_new_token_ratio cfg)\<rparr>)"
  obtain b2 s2 refs2 where c2: "?choice = Inr (b2, s2)" "decodable (tree_cache s2) b2" "pools_ok refs2 (tree_cache s2)" "refs2 \<subseteq># refs"
    "ratio_ok cfg (new_token_ratio s2)"
    "mset (map rid (sb_reqs b2)) + mset (map rid (waiting_queue s2)) = mset (map rid (sb_reqs b1)) + mset (map rid (waiting_queue s))"
  proof (cases "\<not> ok \<or> test_retract cfg \<and> batch_size b1 > 10")
    case True
    obtain gone ratio b2 c2 refs2 where "retract_decode False 1 None c1 b1 = Inr (gone, ratio, b2, c2)" "decodable c2 b2"
      "pools_ok refs2 c2" "refs2 \<subseteq># refs" "0 < ratio" "ratio \<le> 1"
      "mset (map rid gone) + mset (map rid (sb_reqs b2)) = mset (map rid (sb_reqs b1))"
      using retract_running [OF p1(1) b1(3-5) r1 ne(2)] room p1(2) locks b1(2) by auto
    then show thesis
      using True p1(3) cfg(2)
      by (intro that [of b2 "extend_requests_to_queue (s\<lparr>tree_cache := c2, new_token_ratio := ratio\<rparr>) gone" refs2])
        (simp_all add: bind_result_def extend_requests_to_queue_def ratio_ok_def ac_simps del: One_nat_def)
  next
    case False
    have "length (sb_reqs b1) \<le> length (sb_reqs b1) * ?m" using cfg(1) by simp
    also have "\<dots> \<le> kv_available (kv_pool c1)" using False c1(3) by simp
    finally have "decodable c1 b1" using b1(3,4) r1 ne(2) by (simp add: decodable_def)
    then show thesis
      using False p1(1) cfg(2)
      by (intro that [of b1 "s\<lparr>tree_cache := c1,
            new_token_ratio := max (new_token_ratio s - new_token_ratio_decay cfg) (min_new_token_ratio cfg)\<rparr>" refs])
        (auto simp: ratio_ok_def)
  qed
  let ?b3 = "if batch_size b2 < batch_size b then b2\<lparr>batch_is_full := False\<rparr> else b2"
  have b3: "decodable (tree_cache s2) ?b3" "sb_reqs ?b3 = sb_reqs b2"
    using c2(2) by (simp_all add: decodable_def batch_ok_def no_penalties_def running_ok_def)
  obtain b4 c4 where b4: "prepare_for_decode (tree_cache s2) ?b3 = Inr (b4, c4)" "sb_reqs b4 = sb_reqs b2" "batch_ok b4" "radix_inv c4 refs2"
    using decode_step [OF c2(3) b3(1)] b3(2) by auto
  have "update_running_batch cfg s b = Inr (b4, s2\<lparr>tree_cache := c4\<rparr>)"
    using b1(1) ne(1) c1(1) c2(1) b4(1) by (simp add: update_running_batch_def bind_result_def the_result_def Let_def)
  then show ?thesis
    using b4 c2(2,4-6) b1(2) by (intro exI [of _ b4] exI [of _ "s2\<lparr>tree_cache := c4\<rparr>"] exI [of _ refs2]) (simp add: decodable_def)
qed

section \<open>Properties\<close>


text \<open>A server whose two requests hold both rows.\<close>

definition demo_cfg :: sched_cfg where
  "demo_cfg =
     \<lparr>max_micro_batch_size = 2, pp_size = 1, is_mixed_chunk = False, cfg_overlap = False, cfg_custom_processor = False,
      max_prefill_tokens = 100, chunked_prefill_size = Some 50, lora_paths = False, max_loras_per_batch = 8,
      decode_mem_cache_buf_multiplier = 1, test_retract = False, new_token_ratio_decay = 1 / 1000,
      min_new_token_ratio = 1 / 10, init_new_token_ratio = 7 / 10, cfg_vocab_size = 10, cfg_policy = Agnostic FCFS,
      max_total_num_tokens = 10\<rparr>"

definition demo_scheduler :: "radix_cache \<Rightarrow> scheduler" where
  "demo_scheduler c =
     \<lparr>tree_cache = c, waiting_queue_radix_tree = demo_empty, waiting_queue = [], running_batch = demo_pair,
      cur_batch = None, last_batch = None, chunked_req = None, new_token_ratio = 1 / 2, num_generated_tokens = 0,
      forward_ct_decode = 0\<rparr>"

lemma demo_busy:
  "\<exists>c. pools_ok {#root_node demo_cache, root_node demo_cache#} c \<and> req_to_token (req_pool c) = replicate 2 (replicate 8 0) \<and>
     rtp_free_slots (req_pool c) = [] \<and> max_context_len (req_pool c) = 8"
proof -
  let ?rt = "root_node demo_cache"
  obtain d c1 where c1: "inc_lock_ref demo_cache ?rt = Some (d, c1)" "radix_inv c1 {#?rt#}" "same_env demo_cache c1" "live c1 = live demo_cache"
    by (rule inc_lock_ref_spec [OF demo_inv(1,2) demo_root]) simp
  have r: "?rt \<in> live c1" "\<not> cache_disable c1" using c1 demo_root demo_inv by (simp_all add: same_env_def)
  obtain d' c2 where c2: "inc_lock_ref c1 ?rt = Some (d', c2)" "radix_inv c2 {#?rt, ?rt#}" "same_env c1 c2"
    by (rule inc_lock_ref_spec [OF c1(2) r(2,1)])
  let ?c = "c2\<lparr>req_pool := (rtp_init 2 8)\<lparr>rtp_free_slots := []\<rparr>\<rparr>"
  have "pools_ok {#?rt, ?rt#} ?c"
    using c1 c2 demo_inv demo_pool by (simp add: pools_ok_def same_env_def radix_inv_req_pool rtp_inv_def rtp_init_def)
  then show ?thesis by (intro exI [of _ ?c]) (simp add: rtp_init_def)
qed


end
