(* ===== verification/Scheduler_Admit.thy ===== *)
theory Scheduler_Admit
  imports Scheduler_Decode
begin

text \<open>
  The prefill side of the scheduler: what the admission loop has accepted fits into memory. The
  budget of the adder, the locks on the matched prefixes and the allocation of the batch are three
  components; the lemmas here show that they agree, so that building the prefill batch never
  fails, and that every waiting request is afterwards in the batch or still waiting.
\<close>

section \<open>Waiting requests\<close>

definition waiting_ok :: "nat \<Rightarrow> req \<Rightarrow> bool" where
  "waiting_ok w r \<longleftrightarrow>
     origin_input_ids r @ output_ids r \<noteq> [] \<and> length (origin_input_ids r @ output_ids r) \<le> w \<and>
     0 \<le> new_tokens_of r \<and> max_new_tokens (r_params r) \<noteq> None"

text \<open>The same request as far as its identity and sampling are concerned.\<close>

definition like :: "req \<Rightarrow> req \<Rightarrow> bool" where
  "like r x \<longleftrightarrow> rid x = rid r \<and> r_params x = r_params r \<and> r_tokenizer x = r_tokenizer r"

text \<open>A request that carries its match in the cache.\<close>

definition noded :: "radix_cache \<Rightarrow> req \<Rightarrow> bool" where
  "noded c r \<longleftrightarrow>
     (\<exists>n\<in>live c. last_node r = Some n) \<and> length (prefix_indices r) < length (origin_input_ids r @ output_ids r)"

lemma max_prefix_bound:
  assumes "origin_input_ids r @ output_ids r \<noteq> []"
  shows "0 \<le> max_prefix_len r" "nat (max_prefix_len r) < length (origin_input_ids r @ output_ids r)"
  using assms by (auto simp: max_prefix_len_def Let_def split: option.splits simp flip: length_greater_0_conv)

lemma match_key_length:
  assumes "origin_input_ids r @ output_ids r \<noteq> []" and "longest_match c (fst (adjust_max_prefix_ids r)) V"
  shows "length V < length (origin_input_ids r @ output_ids r)"
  using assms(2) max_prefix_bound [OF assms(1)]
  by (auto simp: adjust_max_prefix_ids_def Let_def longest_match_def py_to_nonneg)

lemma matched_noded:
  assumes m: "matched t r r'" and ok: "waiting_ok w r"
  shows "noded t r'" "waiting_ok w r'" "like r r'"
proof -
  obtain n where n: "last_node r' = Some n" "n \<in> live t" "longest_match t (fst (adjust_max_prefix_ids r)) (prefix_indices r')"
    and eq: "r' = (snd (adjust_max_prefix_ids r))\<lparr>prefix_indices := prefix_indices r', last_node := Some n\<rparr>"
    using m unfolding matched_def by blast
  have f: "f r' = f r" if "\<And>r x y z. f (r\<lparr>fill_ids := x, prefix_indices := y, last_node := z\<rparr>) = f r" for f :: "req \<Rightarrow> 'z"
    by (subst eq) (simp add: adjust_max_prefix_ids_def Let_def that)
  have ids: "origin_input_ids r' = origin_input_ids r" "output_ids r' = output_ids r" "r_params r' = r_params r"
    "r_tokenizer r' = r_tokenizer r" "rid r' = rid r"
    by (rule f; simp)+
  show "like r r'" by (simp add: like_def ids)
  show "waiting_ok w r'" using ok by (simp add: waiting_ok_def ids new_tokens_of_def)
  show "noded t r'" using n match_key_length [OF _ n(3)] ok by (auto simp: noded_def ids waiting_ok_def)
qed

lemma noded_mono: "noded c r \<Longrightarrow> live c \<subseteq> live c' \<Longrightarrow> noded c' r"
  by (auto simp: noded_def)

section \<open>The next round of a request\<close>

lemma next_round_spec:
  assumes inv: "radix_inv c refs" "\<not> cache_disable c" and ok: "waiting_ok w r" and nd: "computed \<longrightarrow> noded c r"
  shows "\<exists>r1 c1 n. init_next_round_input (if computed then None else Some match_prefix) c r = Some (r1, c1) \<and>
    radix_inv c1 refs \<and> same_cache c c1 \<and> like r r1 \<and> extend_ready w r1 \<and> last_node r1 = Some n \<and> n \<in> live c1 \<and>
    new_tokens_of r1 = new_tokens_of r \<and> max_new_tokens (r_params r1) \<noteq> None"
proof (cases computed)
  case True
  then show ?thesis
    using inv(1) ok nd
    by (auto simp: init_next_round_input_def Let_def same_cache_def same_env_def like_def waiting_ok_def noded_def
        extend_ready_def new_tokens_of_def)
next
  case False
  let ?ids = "origin_input_ids r @ output_ids r"
  let ?r0 = "r\<lparr>fill_ids := Some ?ids\<rparr>"
  define ks where "ks = fst (adjust_max_prefix_ids ?r0)"
  have a: "adjust_max_prefix_ids ?r0 = (ks, ?r0)" by (simp add: ks_def adjust_max_prefix_ids_def Let_def)
  obtain V n c1 where m: "match_prefix c ks = Some (V, n, c1)" "radix_inv c1 refs" "same_cache c c1" "n \<in> live c1" "longest_match c ks V"
    by (rule match_prefix_spec [OF inv])
  have V: "length V < length ?ids" using match_key_length [of ?r0 c V] m(5) ok by (simp add: waiting_ok_def a)
  let ?r1 = "?r0\<lparr>prefix_indices := V, last_node := Some n, extend_input_len := int (length ?ids) - int (length V)\<rparr>"
  have "init_next_round_input (if computed then None else Some match_prefix) c r = Some (?r1, c1)"
    using False m(1) by (simp add: init_next_round_input_def Let_def a)
  moreover have "extend_ready w ?r1" using ok V by (simp add: extend_ready_def waiting_ok_def)
  ultimately show ?thesis using m(2-4) ok by (intro exI [of _ ?r1] exI [of _ c1] exI [of _ n]) (simp add: like_def new_tokens_of_def waiting_ok_def)
qed

section \<open>The adder's account\<close>

definition adder_ok :: "nat \<Rightarrow> radix_cache \<Rightarrow> prefill_adder \<Rightarrow> bool" where
  "adder_ok w c a \<longleftrightarrow>
     (\<forall>x\<in>set (can_run_list a). extend_ready w x) \<and>
     of_int (sum_list (map extend_input_len (can_run_list a))) \<le> rem_total_token_offset a \<and>
     (can_run_list a = [] \<or> - 1 < rem_total_tokens c a)"

lemma chunk_ready:
  assumes "extend_ready w r" and "0 < k" "k \<le> extend_input_len r"
  shows "extend_ready w (chunk_of r k)"
proof -
  obtain ids where i: "fill_ids r = Some ids" "length (prefix_indices r) \<le> length ids" "length ids \<le> w"
    "extend_input_len r = int (length ids) - int (length (prefix_indices r))"
    using assms(1) by (auto simp: extend_ready_def)
  have "py_to ids (int (length (prefix_indices r)) + k) = take (length (prefix_indices r) + nat k) ids"
    using assms(2) by (simp add: py_to_nonneg nat_add_distrib)
  then show ?thesis using assms i by (auto simp: extend_ready_def chunk_of_def min_def)
qed

lemma runs_as_ready:
  assumes "extend_ready w r" and "runs_as r a x a'"
  shows "extend_ready w x" "like r x" "last_node x = last_node r" "new_chunked_req a' = new_chunked_req a \<or> new_chunked_req a' = Some x"
  using assms chunk_ready [OF assms(1)] by (auto simp: runs_as_def like_def chunk_of_def)

lemma adder_ok_env:
  "adder_ok w c a \<Longrightarrow> kv_pool c' = kv_pool c \<Longrightarrow> evictable_size c' = evictable_size c \<Longrightarrow> adder_ok w c' a"
  by (simp add: adder_ok_def rem_total_tokens_def)

definition lock_of :: "req \<Rightarrow> node_id" where
  "lock_of r = the (last_node r)"

lemma admit_step:
  assumes inv: "radix_inv c refs" "\<not> cache_disable c" "page_size c = 1" and a: "adder_ok w c a"
    and r: "extend_ready w r" "last_node r = Some n" "n \<in> live c" "0 \<le> new_tokens_of r" "max_new_tokens (r_params r) \<noteq> None"
  shows "\<exists>res a' c' adm. add_one_req c a r = Some (res, a', c') \<and> can_run_list a' = can_run_list a @ adm \<and>
    (adm = [] \<or> (\<exists>x. adm = [x] \<and> like r x \<and> last_node x = Some n)) \<and> adder_ok w c' a' \<and>
    radix_inv c' (refs + mset (map lock_of adm)) \<and> same_env c c' \<and> live c' = live c \<and>
    (new_chunked_req a' = new_chunked_req a \<or> (\<exists>x. adm = [x] \<and> new_chunked_req a' = Some x))"
proof -
  obtain ids where ids: "fill_ids r = Some ids" using r(1) by (auto simp: extend_ready_def)
  obtain res a' c' where e: "add_one_req c a r = Some (res, a', c')" "unchanged c a refs c' a' \<or> admitted c a refs r n c' a'"
    using add_one_req_spec [OF inv(1,2) r(2,3) ids r(4,5), of a] by blast
  from e(2) show ?thesis
  proof
    assume u: "unchanged c a refs c' a'"
    then have "adder_ok w c' a" using adder_ok_env [OF a] by (simp add: unchanged_def same_env_def)
    then show ?thesis using e(1) u by (intro exI [of _ res] exI [of _ a'] exI [of _ c'] exI [of _ "[]"]) (simp add: unchanged_def)
  next
    assume "admitted c a refs r n c' a'"
    then obtain x used where x: "can_run_list a' = can_run_list a @ [x]" "runs_as r a x a'" "radix_inv c' (add_mset n refs)"
      "same_env c c'" "live c' = live c" "rem_total_token_offset a + of_int used \<le> rem_total_token_offset a'"
      "- of_nat (page_size c) < rem_total_tokens c' a'" "extend_input_len x \<le> used"
      by (auto simp: admitted_def)
    note s = runs_as_ready [OF r(1) x(2)]
    have "(of_int (extend_input_len x) :: rat) \<le> of_int used" using x(8) by simp
    then have "adder_ok w c' a'" using a s(1) x(1,6,7) inv(3) by (auto simp: adder_ok_def)
    then show ?thesis
      using e(1) x(1,3-5) s r(2) by (intro exI [of _ res] exI [of _ a'] exI [of _ c'] exI [of _ "[x]"]) (auto simp: lock_of_def)
  qed
qed

section \<open>The admission loop\<close>

definition admitted_from :: "req list \<Rightarrow> req list \<Rightarrow> bool" where
  "admitted_from q adm \<longleftrightarrow> subseq (map rid adm) (map rid q) \<and> (\<forall>x\<in>set adm. \<exists>r\<in>set q. like r x)"

lemma admitted_from_Nil: "admitted_from q []"
  by (simp add: admitted_from_def)

lemma admitted_from_Cons:
  assumes "admitted_from q adm" and "ys = [] \<or> (\<exists>x. ys = [x] \<and> like r x)"
  shows "admitted_from (r # q) (ys @ adm)"
  using assms by (auto simp: admitted_from_def like_def)

text \<open>The outcome of the loop from the state \<open>c\<close>, \<open>a\<close>.\<close>

definition loop_ok ::
  "nat \<Rightarrow> int \<Rightarrow> node_id multiset \<Rightarrow> req list \<Rightarrow> radix_cache \<Rightarrow> prefill_adder \<Rightarrow>
   bool \<times> req list \<times> radix_cache \<times> prefill_adder \<Rightarrow> bool" where
  "loop_ok w n refs q c a res =
     (case res of (f, q', c', a') \<Rightarrow>
        map rid q' = map rid q \<and> adder_ok w c' a' \<and> same_env c c' \<and>
        int (length (can_run_list a')) \<le> max n (int (length (can_run_list a))) \<and>
        (\<exists>adm. can_run_list a' = can_run_list a @ adm \<and> admitted_from q adm \<and>
           radix_inv c' (refs + mset (map lock_of adm)) \<and>
           (new_chunked_req a' = new_chunked_req a \<or> (\<exists>x\<in>set adm. new_chunked_req a' = Some x))))"

lemma loop_ok_stop:
  "radix_inv c refs \<Longrightarrow> adder_ok w c a \<Longrightarrow> loop_ok w n refs q c a (f, q, c, a)"
  by (auto simp: loop_ok_def same_env_def admitted_from_Nil intro: exI [of _ "[]"])

lemma loop_ok_step:
  assumes st: "same_env c c1" "same_env c1 c2" "can_run_list a1 = can_run_list a @ ys" "length ys \<le> 1"
      "ys = [] \<or> (\<exists>x. ys = [x] \<and> like r x)"
      "new_chunked_req a1 = new_chunked_req a \<or> (\<exists>x. ys = [x] \<and> new_chunked_req a1 = Some x)"
    and r1: "rid r1 = rid r" and lt: "int (length (can_run_list a)) < n"
    and ok: "loop_ok w n (refs + mset (map lock_of ys)) q c2 a1 (f, q', c', a')"
  shows "loop_ok w n refs (r # q) c a (f, r1 # q', c', a')"
proof -
  obtain adm where adm: "can_run_list a' = can_run_list a1 @ adm" "admitted_from q adm"
    "radix_inv c' (refs + mset (map lock_of ys) + mset (map lock_of adm))"
    "new_chunked_req a' = new_chunked_req a1 \<or> (\<exists>x\<in>set adm. new_chunked_req a' = Some x)"
    using ok by (auto simp: loop_ok_def)
  have env: "same_env c c'" using st(1,2) ok by (simp add: loop_ok_def same_env_def)
  have len: "int (length (can_run_list a')) \<le> max n (int (length (can_run_list a)))"
    using ok lt st(3,4) by (auto simp: loop_ok_def)
  show ?thesis
    unfolding loop_ok_def prod.case
    using ok r1 env len adm st(3,6) admitted_from_Cons [OF adm(2) st(5)]
    by (intro conjI exI [of _ "ys @ adm"]) (auto simp: loop_ok_def add.assoc)
qed

lemma admit_loop_spec:
  assumes "radix_inv c refs" "\<not> cache_disable c" "page_size c = 1" and "adder_ok w c a"
    and "\<forall>r\<in>set q. waiting_ok w r \<and> (computed \<longrightarrow> noded c r)"
  shows "\<exists>res. admit_loop cfg computed n ls full q c a = Some res \<and> loop_ok w n refs q c a res"
  using assms
proof (induction q arbitrary: c a refs)
  case Nil
  then show ?case using loop_ok_stop [OF Nil(1,4)] by auto
next
  case (Cons r q)
  note inv = Cons.prems(1-4)
  let ?stop = "lora_paths cfg \<and> card (ls \<union> lora_path ` set (can_run_list a) \<union> {lora_path r}) > max_loras_per_batch cfg \<or>
      int (length (can_run_list a)) \<ge> n"
  show ?case
  proof (cases ?stop)
    case True
    then have "admit_loop cfg computed n ls full (r # q) c a = Some (True, r # q, c, a)" by auto
    then show ?thesis using loop_ok_stop [OF inv(1,4)] by blast
  next
    case False
    have r: "waiting_ok w r" "computed \<longrightarrow> noded c r" using Cons.prems(5) by auto
    obtain r1 c1 m where r1: "init_next_round_input (if computed then None else Some match_prefix) c r = Some (r1, c1)"
      "radix_inv c1 refs" "same_cache c c1" "like r r1" "extend_ready w r1" "last_node r1 = Some m" "m \<in> live c1"
      "new_tokens_of r1 = new_tokens_of r" "max_new_tokens (r_params r1) \<noteq> None"
      using next_round_spec [OF inv(1,2) r] by blast
    have env1: "same_env c c1" "live c \<subseteq> live c1" "evictable_size c1 = evictable_size c"
      using r1(3) by (auto simp: same_cache_def evictable_size_def)
    have c1: "\<not> cache_disable c1" "page_size c1 = 1" "adder_ok w c1 a"
      using env1 inv(2-4) adder_ok_env [OF inv(4), of c1] by (auto simp: same_env_def)
    obtain res a1 c2 ys where a1: "add_one_req c1 a r1 = Some (res, a1, c2)" "can_run_list a1 = can_run_list a @ ys"
      "ys = [] \<or> (\<exists>x. ys = [x] \<and> like r1 x \<and> last_node x = Some m)" "adder_ok w c2 a1"
      "radix_inv c2 (refs + mset (map lock_of ys))" "same_env c1 c2" "live c2 = live c1"
      "new_chunked_req a1 = new_chunked_req a \<or> (\<exists>x. ys = [x] \<and> new_chunked_req a1 = Some x)"
      using admit_step [OF r1(2) c1 r1(5-7) _ r1(9)] r1(8) r(1) unfolding waiting_ok_def by metis
    have ys: "length ys \<le> 1" "ys = [] \<or> (\<exists>x. ys = [x] \<and> like r x)" using a1(3) r1(4) by (auto simp: like_def)
    have rid1: "rid r1 = rid r" and lt: "int (length (can_run_list a)) < n" using r1(4) False by (auto simp: like_def)
    have c2: "\<not> cache_disable c2" "page_size c2 = 1" using c1 a1(6) by (auto simp: same_env_def)
    note step = loop_ok_step [OF env1(1) a1(6,2) ys a1(8) rid1 lt]
    have nd: "\<forall>r\<in>set q. waiting_ok w r \<and> (computed \<longrightarrow> noded c2 r)"
      using Cons.prems(5) noded_mono env1(2) a1(7) by auto
    obtain res2 where res2: "admit_loop cfg computed n ls full q c2 a1 = Some res2"
      "loop_ok w n (refs + mset (map lock_of ys)) q c2 a1 res2"
      using Cons.IH [OF a1(5) c2 a1(4) nd] by blast
    obtain f q' c3 a2 where s2: "res2 = (f, q', c3, a2)" by (metis prod_cases4)
    have stop2: "loop_ok w n refs (r # q) c a (f, r1 # q, c2, a1)" for f
      by (rule step [OF loop_ok_stop [OF a1(5,4)]])
    show ?thesis
    proof (cases res)
      case CONTINUE
      then have "admit_loop cfg computed n ls full (r # q) c a = Some (f, r1 # q', c3, a2)"
        using False r1(1) a1(1) res2(1) s2 by auto
      then show ?thesis using step [OF res2(2) [unfolded s2]] by blast
    qed (use False r1(1) a1(1) stop2 in auto)
  qed
qed

section \<open>The new batch\<close>

lemma subseq_complement:
  assumes "subseq xs ys" and "distinct ys"
  shows "mset (filter (\<lambda>y. y \<notin> set xs) ys) + mset xs = mset ys"
proof -
  obtain N where N: "xs = nths ys N" using assms(1) by (auto simp: subseq_conv_nths)
  have d: "distinct xs" "set xs \<subseteq> set ys" using assms(2) by (simp_all add: N distinct_nthsI set_nths_subset)
  then have "mset xs = mset (filter (\<lambda>y. y \<in> set xs) ys)"
    using assms(2) by (intro set_eq_iff_mset_eq_distinct [THEN iffD1]) auto
  then show ?thesis using multiset_partition [of "mset ys" "\<lambda>y. y \<in> set xs"] by (simp add: add.commute)
qed

lemma waiting_rest:
  assumes q: "map rid q' = map rid q" "distinct (map rid q)" and adm: "admitted_from q adm"
  shows "mset (map rid (filter (\<lambda>x. rid x \<notin> rid ` set adm) q')) + mset (map rid adm) = mset (map rid q)"
proof -
  have "map rid (filter (\<lambda>x. rid x \<notin> rid ` set adm) q') = filter (\<lambda>y. y \<notin> set (map rid adm)) (map rid q')"
    by (simp add: filter_map comp_def)
  then show ?thesis using subseq_complement [of "map rid adm" "map rid q"] q adm by (simp add: admitted_from_def)
qed

lemma mark_chunked_map:
  "(\<And>r k. f (r\<lparr>is_chunked := k\<rparr>) = f r) \<Longrightarrow> map f (mark_chunked rs ro) = map f rs"
  by (auto simp: mark_chunked_def split: option.splits)

lemma mark_chunked_ready:
  "\<forall>x\<in>set rs. extend_ready w x \<Longrightarrow> \<forall>x\<in>set (mark_chunked rs ro). extend_ready w x"
  by (auto simp: mark_chunked_def extend_ready_def split: option.splits)

lemma samplable_admitted:
  assumes "samplable v q" and "\<forall>x\<in>set adm. \<exists>r\<in>set q. like r x"
  shows "samplable v adm"
proof -
  have eq: "min_required x = min_required r \<and> stop_ids_of x = stop_ids_of r" if "like r x" for r x
    using that by (simp add: like_def min_required_def stop_ids_of_def split: option.splits)
  show ?thesis
    unfolding samplable_def
  proof (intro impI ballI)
    fix x assume m: "list_ex min_required adm" and x: "x \<in> set adm"
    obtain r where r: "r \<in> set q" "like r x" using assms(2) x by blast
    have "list_ex min_required q" using m assms(2) eq unfolding list_ex_iff by blast
    then have "case stop_ids_of r of Inl e \<Rightarrow> False | Inr ids \<Rightarrow> \<forall>t\<in>set ids. 0 \<le> t \<and> t \<le> int v"
      using assms(1) r(1) by (simp add: samplable_def)
    then show "case stop_ids_of x of Inl e \<Rightarrow> False | Inr ids \<Rightarrow> \<forall>t\<in>set ids. 0 \<le> t \<and> t \<le> int v"
      using eq [OF r(2)] by simp
  qed
qed

lemma extend_total_ready:
  "\<forall>x\<in>set rs. extend_ready w x \<Longrightarrow> int (extend_total rs) = sum_list (map extend_input_len rs)"
proof (induction rs)
  case (Cons r rs)
  have "int (length (fill_of r) - length (prefix_indices r)) = extend_input_len r"
    using Cons.prems by (simp add: extend_readyD(2,4) [of w] of_nat_diff)
  then show ?case using Cons by (simp add: extend_total_def)
qed (simp add: extend_total_def)

lemma adder_fits:
  assumes "adder_ok w c a" and "can_run_list a \<noteq> []"
  shows "int (extend_total (can_run_list a)) \<le> int (kv_available (kv_pool c)) + evictable_size c"
proof -
  let ?t = "sum_list (map extend_input_len (can_run_list a))" and ?m = "int (kv_available (kv_pool c)) + evictable_size c"
  have "(of_int ?t :: rat) \<le> rem_total_token_offset a" "- 1 < of_int ?m - rem_total_token_offset a"
    using assms by (auto simp: adder_ok_def rem_total_tokens_def)
  then have "(of_int ?t :: rat) < of_int (?m + 1)" by simp
  then have "?t < ?m + 1" by (simp only: of_int_less_iff)
  then show ?thesis using extend_total_ready [of "can_run_list a" w] assms(1) by (simp add: adder_ok_def)
qed

lemma new_prefill_batch_spec:
  assumes pools: "radix_inv (tree_cache s) refs" "\<not> cache_disable (tree_cache s)" "plain_pool (kv_pool (tree_cache s))"
      "rtp_inv (req_pool (tree_cache s))"
    and a: "adder_ok (max_context_len (req_pool (tree_cache s))) (tree_cache s) a" "can_run_list a \<noteq> []"
      "samplable (cfg_vocab_size cfg) (can_run_list a)" "length (can_run_list a) \<le> rtp_available_size (req_pool (tree_cache s))"
    and ck: "chunked_req s = None"
  shows "\<exists>b s'. new_prefill_batch hsh cfg s a = Inr (b, s') \<and> batch_ok b \<and> map rid (sb_reqs b) = map rid (can_run_list a) \<and>
    map lock_of (sb_reqs b) = map lock_of (can_run_list a) \<and>
    waiting_queue s' = filter (\<lambda>x. rid x \<notin> rid ` set (can_run_list a)) (waiting_queue s) \<and>
    running_batch s' = running_batch s \<and> radix_inv (tree_cache s') refs"
proof -
  let ?c = "tree_cache s" and ?ck = "if new_chunked_req a \<noteq> None then new_chunked_req a else chunked_req s"
  let ?rs = "mark_chunked (can_run_list a) ?ck"
  let ?b = "init_new ?rs (cfg_overlap cfg) (cfg_custom_processor cfg) (sync_req ?rs ?ck)"
  have same: "map rid ?rs = map rid (can_run_list a)" "map lock_of ?rs = map lock_of (can_run_list a)"
    "map r_params ?rs = map r_params (can_run_list a)" "map r_tokenizer ?rs = map r_tokenizer (can_run_list a)"
    "map (\<lambda>r. length (fill_of r) - length (prefix_indices r)) ?rs = map (\<lambda>r. length (fill_of r) - length (prefix_indices r)) (can_run_list a)"
    by (rule mark_chunked_map; simp add: lock_of_def fill_of_def)+
  have ready: "\<forall>x\<in>set ?rs. extend_ready (max_context_len (req_pool ?c)) x"
    by (rule mark_chunked_ready) (use a(1) in \<open>simp add: adder_ok_def\<close>)
  have smp: "samplable (cfg_vocab_size cfg) ?rs" using samplable_cong [OF same(3,4)] a(3) by simp
  have fits: "extend_fits ?c ?rs"
    using adder_fits [OF a(1,2)] a(4) same(5) map_eq_imp_length_eq [OF same(1)] by (simp add: extend_fits_def extend_total_def)
  have b: "sb_reqs ?b = ?rs" by (simp add: init_new_def)
  obtain b' c' where e: "prepare_for_extend hsh (cfg_vocab_size cfg) ?c ?b = Inr (b', c')"
    "sb_reqs b' = map2 extended ?rs (req_pool_indices b')" "length (req_pool_indices b') = length ?rs" "radix_inv c' refs"
    using prepare_for_extend_spec [OF pools b ready smp fits, of hsh] by blast
  have ok: "batch_ok b'" using extend_batch_ok [OF pools ready smp fits e(1)] by simp
  have ids: "map rid (sb_reqs b') = map rid ?rs" "map lock_of (sb_reqs b') = map lock_of ?rs"
    using e(2,3) by (auto intro!: nth_equalityI simp: extended_def extend_update_def lock_of_def)
  show ?thesis
    using e(1,4) ok ids same(1,2) ck
    by (auto simp: new_prefill_batch_def Let_def bind_result_def batch_ok_def)
qed

section \<open>Prefill\<close>

lemma adder_init_ok:
  assumes "0 \<le> ratio" and "\<forall>r\<in>set rs. int (length (output_ids r)) \<le> new_tokens_of r"
  shows "adder_ok w c (prefill_adder_init (Some rs) ratio mp ch 0)"
proof -
  have "0 \<le> sum_list (map (\<lambda>r. of_int (min (new_tokens_of r - int (length (output_ids r))) CLIP_MAX_NEW_TOKENS_ESTIMATION) * ratio) rs)"
    using assms by (intro sum_list_nonneg) (auto simp: CLIP_MAX_NEW_TOKENS_ESTIMATION_def)
  then show ?thesis by (simp add: adder_ok_def prefill_adder_init_def)
qed

text \<open>What a call of \<open>get_new_batch_prefill\<close> may leave behind.\<close>

definition prefilled :: "node_id multiset \<Rightarrow> scheduler \<Rightarrow> schedule_batch option \<Rightarrow> scheduler \<Rightarrow> bool" where
  "prefilled refs s bo s' \<longleftrightarrow>
     sb_reqs (running_batch s') = sb_reqs (running_batch s) \<and>
     (case bo of
        None \<Rightarrow> mset (map rid (waiting_queue s')) = mset (map rid (waiting_queue s)) \<and> radix_inv (tree_cache s') refs
      | Some b \<Rightarrow>
          batch_ok b \<and> sb_reqs b \<noteq> [] \<and>
          mset (map rid (waiting_queue s')) + mset (map rid (sb_reqs b)) = mset (map rid (waiting_queue s)) \<and>
          radix_inv (tree_cache s') (refs + mset (map lock_of (sb_reqs b))))"

lemma get_new_batch_prefill_spec:
  assumes pools: "pools_ok refs (tree_cache s)"
    and wq: "\<not> cache_disable (waiting_queue_radix_tree s)" "page_size (waiting_queue_radix_tree s) = 1"
    and perm: "mset (shuffle (waiting_queue s)) = mset (waiting_queue s)"
    and q: "distinct (map rid (waiting_queue s))" "samplable (cfg_vocab_size cfg) (waiting_queue s)"
      "\<forall>r\<in>set (waiting_queue s). waiting_ok (max_context_len (req_pool (tree_cache s))) r"
    and run: "0 \<le> new_token_ratio s" "\<forall>r\<in>set (sb_reqs (running_batch s)). int (length (output_ids r)) \<le> new_tokens_of r"
    and rows: "max_micro_batch_size cfg \<le> int (length (sb_reqs (running_batch s))) + int (rtp_available_size (req_pool (tree_cache s)))"
    and cfg: "chunked_req s = None" "\<not> is_mixed_chunk cfg"
  shows "\<exists>bo s'. get_new_batch_prefill hsh shuffle cfg s = Inr (bo, s') \<and> prefilled refs s bo s'"
proof -
  let ?c = "tree_cache s" and ?rb = "running_batch s" and ?q = "waiting_queue s"
  let ?n = "get_num_allocatable_reqs cfg s (length (sb_reqs ?rb))" and ?w = "max_context_len (req_pool ?c)"
  have inv: "radix_inv ?c refs" "\<not> cache_disable ?c" "plain_pool (kv_pool ?c)" "rtp_inv (req_pool ?c)" "page_size ?c = 1"
    using pools by (auto simp: pools_ok_def)
  show ?thesis
  proof (cases "batch_is_full ?rb \<or> ?q = [] \<or> ?n \<le> 0")
    case True
    then show ?thesis using cfg inv(1) by (auto simp: get_new_batch_prefill_def Let_def prefilled_def)
  next
    case go: False
    obtain computed q1 c1 w1 where p: "calc_priority shuffle (cfg_policy cfg) ?q ?c (waiting_queue_radix_tree s) = Some (computed, q1, c1, w1)"
      "mset (map rid q1) = mset (map rid ?q)" "radix_inv c1 refs" "same_cache ?c c1"
      "if computed = Some True then \<forall>r'\<in>set q1. \<exists>r\<in>set ?q. matched c1 r r' else mset q1 = mset ?q \<and> c1 = ?c"
      using calc_priority_spec [where pol = "cfg_policy cfg" and shuffle = shuffle and q = ?q, OF inv(1,2) wq perm] by blast
    have env1: "same_env ?c c1" using p(4) by (simp add: same_cache_def)
    then have c1: "\<not> cache_disable c1" "page_size c1 = 1" "req_pool c1 = req_pool ?c" using inv by (auto simp: same_env_def)
    have q1: "\<forall>r\<in>set q1. waiting_ok ?w r \<and> (computed = Some True \<longrightarrow> noded c1 r)" and lk: "\<forall>x\<in>set q1. \<exists>r\<in>set ?q. like r x"
    proof -
      have "waiting_ok ?w x \<and> (computed = Some True \<longrightarrow> noded c1 x) \<and> (\<exists>r\<in>set ?q. like r x)" if "x \<in> set q1" for x
      proof (cases "computed = Some True")
        case True
        then obtain r where "r \<in> set ?q" "matched c1 r x" using p(5) \<open>x \<in> set q1\<close> by auto
        then show ?thesis using matched_noded q(3) by blast
      next
        case False
        then have "x \<in> set ?q" using p(5) \<open>x \<in> set q1\<close> mset_eq_setD by auto
        then show ?thesis using False q(3) by (auto simp: like_def)
      qed
      then show "\<forall>r\<in>set q1. waiting_ok ?w r \<and> (computed = Some True \<longrightarrow> noded c1 r)" "\<forall>x\<in>set q1. \<exists>r\<in>set ?q. like r x" by auto
    qed
    let ?a0 = "prefill_adder_init (Some (sb_reqs ?rb)) (new_token_ratio s) (max_prefill_tokens cfg) (chunked_prefill_size cfg) 0"
    obtain res where l: "admit_loop cfg (computed = Some True) ?n (lora_path ` set (sb_reqs ?rb)) (batch_is_full ?rb) q1 c1 ?a0 = Some res"
      "loop_ok ?w ?n refs q1 c1 ?a0 res"
      using admit_loop_spec [OF p(3) c1(1,2) adder_init_ok [OF run] q1] by blast
    obtain full q2 c2 a2 where res: "res = (full, q2, c2, a2)" by (metis prod_cases4)
    have a0: "can_run_list ?a0 = []" by (simp add: prefill_adder_init_def)
    obtain adm where adm: "can_run_list a2 = adm" "admitted_from q1 adm" "radix_inv c2 (refs + mset (map lock_of adm))"
      "map rid q2 = map rid q1" "adder_ok ?w c2 a2" "same_env c1 c2" "int (length adm) \<le> max ?n 0"
      using l(2) a0 by (auto simp: res loop_ok_def)
    let ?s1 = "s\<lparr>tree_cache := c2, waiting_queue_radix_tree := w1, waiting_queue := q2, chunked_req := None,
        running_batch := ?rb\<lparr>batch_is_full := full\<rparr>\<rparr>"
    have ids: "mset (map rid q2) = mset (map rid ?q)" using p(2) adm(4) by simp
    have unfold: "get_new_batch_prefill hsh shuffle cfg s =
        (if adm = [] then Inr (None, ?s1)
         else bind_result (new_prefill_batch hsh cfg ?s1 a2) (\<lambda>(b1, s2). bind_result (mix_running cfg b1 s2) (\<lambda>(b2, s3). Inr (Some b2, s3))))"
      using go cfg p(1) l(1) adm(1) by (simp add: get_new_batch_prefill_def Let_def bind_result_def the_result_def admit_chunked_def res)
    show ?thesis
    proof (cases "adm = []")
      case True
      then show ?thesis using unfold adm(3) ids by (auto simp: prefilled_def)
    next
      case False
      have env2: "same_env ?c c2" using env1 adm(6) by (simp add: same_env_def)
      have pools1: "radix_inv (tree_cache ?s1) (refs + mset (map lock_of adm))" "\<not> cache_disable (tree_cache ?s1)"
        "plain_pool (kv_pool (tree_cache ?s1))" "rtp_inv (req_pool (tree_cache ?s1))"
        using adm(3) env2 inv by (auto simp: same_env_def)
      have "?n \<le> int (rtp_available_size (req_pool ?c))" using rows by (simp add: get_num_allocatable_reqs_def Let_def)
      then have len: "length (can_run_list a2) \<le> rtp_available_size (req_pool (tree_cache ?s1))"
        using adm(1,7) env2 by (simp add: same_env_def)
      have "\<forall>x\<in>set adm. \<exists>r\<in>set ?q. like r x" using adm(2) lk unfolding admitted_from_def like_def by metis
      then have smp: "samplable (cfg_vocab_size cfg) (can_run_list a2)" using samplable_admitted [OF q(2)] adm(1) by simp
      have ado: "adder_ok (max_context_len (req_pool (tree_cache ?s1))) (tree_cache ?s1) a2" using adm(5) env2 by (simp add: same_env_def)
      obtain b s' where b: "new_prefill_batch hsh cfg ?s1 a2 = Inr (b, s')" "batch_ok b" "map rid (sb_reqs b) = map rid adm"
        "map lock_of (sb_reqs b) = map lock_of adm" "waiting_queue s' = filter (\<lambda>x. rid x \<notin> rid ` set adm) q2"
        "running_batch s' = ?rb\<lparr>batch_is_full := full\<rparr>" "radix_inv (tree_cache s') (refs + mset (map lock_of adm))"
        using new_prefill_batch_spec [OF pools1 ado _ smp len, of hsh] False adm(1) by auto
      have "distinct (map rid q1)" using q(1) mset_eq_imp_distinct_iff [OF p(2)] by simp
      then have "mset (map rid (waiting_queue s')) + mset (map rid (sb_reqs b)) = mset (map rid ?q)"
        using waiting_rest [OF adm(4) _ adm(2)] b(3,5) p(2) by simp
      moreover have "get_new_batch_prefill hsh shuffle cfg s = Inr (Some (b\<lparr>decoding_reqs := None\<rparr>), s')"
        using unfold False b(1) cfg(2) by (simp add: bind_result_def mix_running_def)
      ultimately show ?thesis
        using b(2-4,6,7) False by (intro exI) (auto simp: prefilled_def batch_ok_def)
    qed
  qed
qed

section \<open>Properties\<close>



end
