(* ===== verification/Session.thy ===== *)
theory Session
  imports Req "HOL-Library.Monad_Syntax"
begin

text \<open>
  Sessions of \<open>managers/session_controller.py\<close>: a session keeps its requests in a dictionary of
  nodes, which form trees through their parents and children. The nodes are objects that are
  shared between the dictionary and the child lists, so they live in a store here and are named by
  numbers. Only the printing of a session is left out.
\<close>

section \<open>Data\<close>

record session_params =
  sp_id :: "string option"
  sp_rid :: "string option"
  sp_offset :: "int option"
  sp_replace :: bool

record session_node =
  sn_req :: req
  sn_parent :: "nat option"
  sn_childs :: "nat list"

record session =
  sess_id :: string
  capacity_of_str_len :: int
  req_nodes :: "(string \<times> nat) list"
  sess_store :: "nat \<Rightarrow> session_node"
  sess_next :: nat

text \<open>The attributes of \<open>TokenizedGenerateReqInput\<close>; of the embeddings only their number matters.\<close>

record 'm gen_input =
  gi_rid :: string
  gi_input_ids :: "token list"
  gi_input_embeds :: "nat option"
  gi_params :: sampling_params
  gi_return_logprob :: bool
  gi_logprob_start_len :: int
  gi_top_logprobs_num :: int
  gi_token_ids_logprob :: "token list option"
  gi_stream :: bool
  gi_lora_path :: "string option"
  gi_processor :: "string option"
  gi_return_hidden_states :: bool
  gi_session_params :: "session_params option"
  gi_mm_inputs :: "'m option"

section \<open>Nodes\<close>

definition empty_node :: session_node where
  "empty_node = \<lparr>sn_req = req_init [] [] default_params False 0 None False None None None None, sn_parent = None, sn_childs = []\<rparr>"

definition session_init :: "int \<Rightarrow> string \<Rightarrow> session" where
  "session_init cap i = \<lparr>sess_id = i, capacity_of_str_len = cap, req_nodes = [], sess_store = (\<lambda>_. empty_node), sess_next = 0\<rparr>"

definition set_node :: "session \<Rightarrow> nat \<Rightarrow> session_node \<Rightarrow> session" where
  "set_node s n x = s\<lparr>sess_store := (sess_store s)(n := x)\<rparr>"

definition new_session_node :: "session \<Rightarrow> req \<Rightarrow> nat option \<Rightarrow> nat \<times> session" where
  "new_session_node s r parent =
     (let n = sess_next s;
          s1 = (case parent of
                  None \<Rightarrow> s
                | Some p \<Rightarrow> set_node s p ((sess_store s p)\<lparr>sn_childs := sn_childs (sess_store s p) @ [n]\<rparr>))
      in (n, (set_node s1 n \<lparr>sn_req = r, sn_parent = parent, sn_childs = []\<rparr>)\<lparr>sess_next := Suc n\<rparr>))"

definition abort_node :: "session \<Rightarrow> nat \<Rightarrow> session" where
  "abort_node s n =
     (let x = sess_store s n
      in if finished_reason (sn_req x) = None then set_node s n (x\<lparr>sn_req := (sn_req x)\<lparr>to_abort := True\<rparr>\<rparr>) else s)"

text \<open>\<open>del req_dict[rid]\<close> raises \<open>KeyError\<close> on a missing key.\<close>

definition drop_node :: "session \<Rightarrow> nat \<Rightarrow> session result" where
  "drop_node s n =
     (let s1 = abort_node s n; k = rid (sn_req (sess_store s n))
      in if map_of (req_nodes s1) k = None then Inl KeyError
         else Inr (s1\<lparr>req_nodes := AList.delete k (req_nodes s1)\<rparr>))"

text \<open>
  \<open>clear\<close> on every node of a list, in order: the children of a node are cleared before the node.
  \<open>None\<close> means that the recursion does not end.
\<close>

partial_function (option) clear_all :: "session \<Rightarrow> nat list \<Rightarrow> session result option" where
  "clear_all s ns =
     (case ns of
        [] \<Rightarrow> Some (Inr s)
      | n # rest \<Rightarrow>
          do {
            r1 \<leftarrow> clear_all s (sn_childs (sess_store s n));
            (case r1 of
               Inl e \<Rightarrow> Some (Inl e)
             | Inr s1 \<Rightarrow>
                 (case drop_node s1 n of
                    Inl e \<Rightarrow> Some (Inl e)
                  | Inr s2 \<Rightarrow> clear_all s2 rest))
          })"

definition clear_childs :: "session \<Rightarrow> nat \<Rightarrow> session result option" where
  "clear_childs s n =
     do {
       r \<leftarrow> clear_all s (sn_childs (sess_store s n));
       Some (case r of Inl e \<Rightarrow> Inl e | Inr s1 \<Rightarrow> Inr (set_node s1 n ((sess_store s1 n)\<lparr>sn_childs := []\<rparr>)))
     }"

text \<open>
  \<open>for _, req_node in self.req_nodes.items(): req_node.clear(self.req_nodes)\<close>. A step of the
  iterator, the last one included, raises \<open>RuntimeError\<close> when the size of the dictionary is no
  longer the one at the start.
\<close>

fun clear_items :: "nat \<Rightarrow> session \<Rightarrow> (string \<times> nat) list \<Rightarrow> session result option" where
  "clear_items sz s [] = Some (if length (req_nodes s) \<noteq> sz then Inl RuntimeError else Inr s)"
| "clear_items sz s ((k, n) # rest) =
     (if length (req_nodes s) \<noteq> sz then Some (Inl RuntimeError)
      else
        do {
          r \<leftarrow> clear_all s [n];
          (case r of Inl e \<Rightarrow> Some (Inl e) | Inr s1 \<Rightarrow> clear_items sz s1 rest)
        })"

definition clear_session :: "session \<Rightarrow> session result option" where
  "clear_session s = clear_items (length (req_nodes s)) s (req_nodes s)"

section \<open>A new request of a session\<close>

text \<open>The node to continue, whether the request is aborted, and the session after the selection.\<close>

definition select_last ::
  "session \<Rightarrow> session_params \<Rightarrow> (nat option \<times> bool \<times> session) result option" where
  "select_last s p =
     (if sp_replace p then
        (case sp_rid p of
           None \<Rightarrow>
             do {
               r \<leftarrow> clear_session s;
               Some (case r of Inl e \<Rightarrow> Inl e | Inr s1 \<Rightarrow> Inr (None, False, s1))
             }
         | Some k \<Rightarrow>
             (case map_of (req_nodes s) k of
                None \<Rightarrow> Some (Inr (None, True, s))
              | Some n \<Rightarrow>
                  do {
                    r \<leftarrow> clear_childs (abort_node s n) n;
                    Some (case r of Inl e \<Rightarrow> Inl e | Inr s1 \<Rightarrow> Inr (Some n, False, s1))
                  }))
      else
        (case sp_rid p of
           None \<Rightarrow> Some (Inr (None, False, s))
         | Some k \<Rightarrow>
             (case map_of (req_nodes s) k of
                None \<Rightarrow> Some (Inr (None, True, s))
              | Some n \<Rightarrow> Some (Inr (Some n, \<not> finished (sn_req (sess_store s n)), s)))))"

text \<open>
  The tokens of the conversation so far and the new ones. The first token is compared with the
  beginning-of-sequence token of the tokenizer, which raises \<open>IndexError\<close> on an empty input.
\<close>

definition strip_bos :: "token option option \<Rightarrow> token list \<Rightarrow> token list result" where
  "strip_bos bos ids =
     (case bos of
        None \<Rightarrow> Inr ids
      | Some t \<Rightarrow> (case ids of [] \<Rightarrow> Inl IndexError | x # xs \<Rightarrow> Inr (if Some x = t then xs else ids)))"

definition continued_ids :: "token list \<Rightarrow> req \<Rightarrow> int option \<Rightarrow> token list \<Rightarrow> token list" where
  "continued_ids base prev off ids =
     (let outs = (case max_new_tokens (r_params prev) of None \<Rightarrow> output_ids prev | Some m \<Rightarrow> py_to (output_ids prev) m);
          all = base @ outs
      in (case off of Some j \<Rightarrow> if j \<noteq> 0 then py_to all j @ ids else all @ ids | None \<Rightarrow> all @ ids))"

text \<open>
  \<open>create_req\<close>: \<open>bos\<close> is the beginning-of-sequence token of the tokenizer, when there is one.
  The attribute \<open>mm_inputs\<close> that is read from the request being continued does not exist on
  \<open>Req\<close>, whose attribute is called \<open>multimodal_inputs\<close>; reading it raises \<open>AttributeError\<close>.
\<close>

definition create_req ::
  "token option option \<Rightarrow> tokenizer option \<Rightarrow> session \<Rightarrow> 'm gen_input \<Rightarrow> (req \<times> session) result option" where
  "create_req bos tk s gi =
     (case gi_session_params gi of
        None \<Rightarrow> Some (Inl AssertionError)
      | Some p \<Rightarrow>
          do {
            sel \<leftarrow> select_last s p;
            Some (bind_result sel (\<lambda>(lst, abort, s1).
              bind_result
                (case lst of
                   None \<Rightarrow> Inr (gi_input_ids gi, gi_input_ids gi)
                 | Some n \<Rightarrow>
                     (let prev = sn_req (sess_store s1 n)
                      in bind_result (strip_bos bos (gi_input_ids gi)) (\<lambda>ids.
                           Inr (continued_ids (origin_input_ids prev) prev (sp_offset p) ids,
                                continued_ids (origin_input_ids_unpadded prev) prev (sp_offset p) ids))))
                (\<lambda>(ids, unpadded).
              let r0 = (req_init (gi_rid gi) ids (gi_params gi) (gi_return_logprob gi) (gi_top_logprobs_num gi)
                          (gi_token_ids_logprob gi) (gi_stream gi) (Some unpadded) (gi_lora_path gi)
                          (Some (sess_id s)) None)\<lparr>r_processor := gi_processor gi\<rparr>
              in (case lst of
                    Some n \<Rightarrow> Inl AttributeError
                  | None \<Rightarrow>
                      (let r1 = r0\<lparr>r_tokenizer := tk\<rparr>
                       in if abort then Inr (r1\<lparr>to_abort := True\<rparr>, s1)
                          else
                            (case new_session_node s1 r1 lst of (n, s2) \<Rightarrow>
                               Inr (r1, s2\<lparr>req_nodes := AList.update (gi_rid gi) n (req_nodes s2)\<rparr>)))))))
          })"

section \<open>The well-formed sessions\<close>

text \<open>Children are younger than their parents, so clearing a node ends.\<close>

definition bounded_childs :: "session \<Rightarrow> bool" where
  "bounded_childs s \<longleftrightarrow> (\<forall>n<sess_next s. \<forall>m\<in>set (sn_childs (sess_store s n)). n < m \<and> m < sess_next s)"

definition session_wf :: "session \<Rightarrow> bool" where
  "session_wf s \<longleftrightarrow>
     distinct (map fst (req_nodes s)) \<and> (\<forall>(k, n)\<in>set (req_nodes s). n < sess_next s) \<and> bounded_childs s"

lemma bounded_childsD:
  assumes "bounded_childs s" and "n < sess_next s"
  shows "\<forall>m\<in>set (sn_childs (sess_store s n)). n < m \<and> m < sess_next s"
  using assms unfolding bounded_childs_def by blast

lemma bounded_childs_nodes: "bounded_childs (s\<lparr>req_nodes := x\<rparr>) = bounded_childs s"
  by (simp add: bounded_childs_def)

lemma session_init_wf: "session_wf (session_init cap i)"
  by (simp add: session_wf_def bounded_childs_def session_init_def)

text \<open>Clearing keeps the shape of the trees and the names of the nodes.\<close>

definition same_tree :: "session \<Rightarrow> session \<Rightarrow> bool" where
  "same_tree s s' \<longleftrightarrow>
     sess_next s' = sess_next s \<and> sess_id s' = sess_id s \<and>
     (\<forall>n. sn_childs (sess_store s' n) = sn_childs (sess_store s n) \<and> rid (sn_req (sess_store s' n)) = rid (sn_req (sess_store s n)))"

lemma same_tree_trans: "same_tree s s' \<Longrightarrow> same_tree s' s'' \<Longrightarrow> same_tree s s''"
  by (simp add: same_tree_def)

lemma same_tree_refl [simp]: "same_tree s s"
  by (simp add: same_tree_def)

lemma abort_node_tree: "same_tree s (abort_node s n)" "req_nodes (abort_node s n) = req_nodes s"
  by (auto simp: same_tree_def abort_node_def set_node_def Let_def)

lemma drop_node_tree:
  assumes "drop_node s n = Inr s'"
  shows "same_tree s s'" "rid (sn_req (sess_store s n)) \<in> fst ` set (req_nodes s)"
    "req_nodes s' = AList.delete (rid (sn_req (sess_store s n))) (req_nodes s)"
  using assms abort_node_tree [of s n]
  by (auto simp: drop_node_def Let_def same_tree_def map_of_eq_None_iff split: if_splits)

lemma length_delete_less: "k \<in> fst ` set al \<Longrightarrow> length (AList.delete k al) < length al"
  by (auto simp: AList.delete_eq intro: length_filter_less)

lemma clear_all_Nil: "clear_all s [] = Some (Inr s)"
  by (simp add: clear_all.simps [of s "[]"])

lemmas clear_all_Cons = clear_all.simps [of s "n # ns" for s n ns, simplified list.case]

lemma bounded_childs_tree: "same_tree s s' \<Longrightarrow> bounded_childs s \<Longrightarrow> bounded_childs s'"
  unfolding bounded_childs_def same_tree_def by metis

lemma clear_all_ends:
  assumes "sess_next s = N" and "\<forall>n\<in>set ns. b \<le> n \<and> n < N" and "bounded_childs s"
  shows "\<exists>r. clear_all s ns = Some r \<and>
    (\<forall>s'. r = Inr s' \<longrightarrow> same_tree s s' \<and> length (req_nodes s') + length ns \<le> length (req_nodes s))"
  using assms
proof (induction "N - b" arbitrary: b s ns rule: less_induct)
  case less
  note outer = less.hyps
  show ?case
    using less.prems
  proof (induction ns arbitrary: s)
    case Nil
    then show ?case by (simp add: clear_all_Nil)
  next
    case (Cons n ns)
    let ?cs = "sn_childs (sess_store s n)"
    have n: "b \<le> n" "n < N" and cs: "\<forall>m\<in>set ?cs. Suc b \<le> m \<and> m < N"
      using Cons.prems(1,2) bounded_childsD [OF Cons.prems(3), of n] by (auto intro: Suc_leI le_less_trans)
    have less_b: "N - Suc b < N - b" using n by linarith
    obtain r1 where r1: "clear_all s ?cs = Some r1"
      "\<forall>s'. r1 = Inr s' \<longrightarrow> same_tree s s' \<and> length (req_nodes s') + length ?cs \<le> length (req_nodes s)"
      using outer [OF less_b Cons.prems(1) cs Cons.prems(3)] by blast
    show ?case
    proof (cases r1)
      case (Inl e)
      then show ?thesis using r1 by (simp add: clear_all_Cons)
    next
      case (Inr s1)
      with r1 have s1: "same_tree s s1" "length (req_nodes s1) \<le> length (req_nodes s)" by auto
      show ?thesis
      proof (cases "drop_node s1 n")
        case (Inl e)
        then show ?thesis using r1 Inr by (simp add: clear_all_Cons)
      next
        case (Inr s2)
        note s2 = drop_node_tree [OF Inr]
        have shape: "same_tree s s2" using s1(1) s2(1) by (rule same_tree_trans)
        have "length (req_nodes s2) < length (req_nodes s1)" using s2(2,3) by (simp add: length_delete_less)
        moreover obtain r where "clear_all s2 ns = Some r"
          "\<forall>s'. r = Inr s' \<longrightarrow> same_tree s2 s' \<and> length (req_nodes s') + length ns \<le> length (req_nodes s2)"
          using Cons.IH [of s2] Cons.prems shape bounded_childs_tree [OF shape] by (auto simp: same_tree_def)
        ultimately show ?thesis
          using r1(1) \<open>r1 = Inr s1\<close> Inr s1(2) same_tree_trans [OF shape]
          by (intro exI [of _ r]) (auto simp: clear_all_Cons)
      qed
    qed
  qed
qed

lemma clear_node_ends:
  assumes "session_wf s" and "n < sess_next s"
  obtains r where "clear_all s [n] = Some r"
    "\<forall>s'. r = Inr s' \<longrightarrow> same_tree s s' \<and> length (req_nodes s') < length (req_nodes s)"
proof -
  obtain r where "clear_all s [n] = Some r"
    "\<forall>s'. r = Inr s' \<longrightarrow> same_tree s s' \<and> length (req_nodes s') + length [n] \<le> length (req_nodes s)"
    using clear_all_ends [of s "sess_next s" "[n]" 0] assms by (auto simp: session_wf_def)
  then show ?thesis by (intro that [of r]) auto
qed

lemma clear_childs_ends:
  assumes "session_wf s" and "n < sess_next s"
  shows "\<exists>r. clear_childs s n = Some r"
proof -
  have b: "bounded_childs s" using assms(1) by (simp add: session_wf_def)
  then have "\<forall>m\<in>set (sn_childs (sess_store s n)). 0 \<le> m \<and> m < sess_next s"
    using bounded_childsD [OF b assms(2)] by blast
  then obtain r where "clear_all s (sn_childs (sess_store s n)) = Some r"
    using clear_all_ends [OF refl _ b] by blast
  then show ?thesis by (simp add: clear_childs_def)
qed

lemma clear_session_raises:
  assumes wf: "session_wf s" and "req_nodes s \<noteq> []"
  shows "\<exists>e. clear_session s = Some (Inl e)"
proof -
  obtain k n rest where l: "req_nodes s = (k, n) # rest" using assms(2) by (cases "req_nodes s") auto
  then have n: "n < sess_next s" using wf by (simp add: session_wf_def)
  obtain r where r: "clear_all s [n] = Some r"
    "\<forall>s'. r = Inr s' \<longrightarrow> same_tree s s' \<and> length (req_nodes s') < length (req_nodes s)"
    by (rule clear_node_ends [OF wf n])
  show ?thesis
  proof (cases r)
    case (Inl e)
    then show ?thesis using r(1) by (simp add: clear_session_def l)
  next
    case (Inr s')
    then have "length (req_nodes s') \<noteq> Suc (length rest)" using r(2) l by fastforce
    then show ?thesis using r(1) Inr by (cases rest) (auto simp: clear_session_def l)
  qed
qed

section \<open>What a session accepts\<close>

lemma abort_node_wf: "session_wf s \<Longrightarrow> session_wf (abort_node s n)"
  using abort_node_tree [of s n] bounded_childs_tree [OF abort_node_tree(1) [of s n]]
  by (simp add: session_wf_def same_tree_def)

lemma new_root_wf:
  assumes "session_wf s" and "new_session_node s r None = (n, s2)"
  shows "session_wf (s2\<lparr>req_nodes := AList.update k n (req_nodes s2)\<rparr>)" "req_nodes s2 = req_nodes s"
proof -
  have s2: "s2 = (set_node s n \<lparr>sn_req = r, sn_parent = None, sn_childs = []\<rparr>)\<lparr>sess_next := Suc n\<rparr>" and n: "n = sess_next s"
    using assms(2) by (auto simp: new_session_node_def Let_def)
  show eq: "req_nodes s2 = req_nodes s" by (simp add: s2 set_node_def)
  have "bounded_childs s" using assms(1) by (simp add: session_wf_def)
  note b = bounded_childsD [OF this]
  have "\<forall>m\<in>set (sn_childs (sess_store s2 k)). k < m \<and> m < sess_next s2" if "k < sess_next s2" for k
  proof (cases "k = n")
    case True
    then show ?thesis by (simp add: s2 set_node_def)
  next
    case False
    then have k: "k < sess_next s" and c: "sn_childs (sess_store s2 k) = sn_childs (sess_store s k)" "sess_next s2 = Suc (sess_next s)"
      using that by (simp_all add: s2 n set_node_def)
    show ?thesis unfolding c using b [OF k] less_SucI by blast
  qed
  then have "bounded_childs s2" unfolding bounded_childs_def by blast
  then have "bounded_childs (s2\<lparr>req_nodes := AList.update k n (req_nodes s2)\<rparr>)" by (simp only: bounded_childs_nodes)
  moreover have "sess_next s2 = Suc (sess_next s)" by (simp add: s2 n)
  ultimately show "session_wf (s2\<lparr>req_nodes := AList.update k n (req_nodes s2)\<rparr>)"
    using assms(1) by (auto simp: session_wf_def eq n distinct_update set_update_distinct intro: less_SucI)
qed

lemma select_last_fresh:
  assumes "sp_rid p = None" and "\<not> (sp_replace p \<and> req_nodes s \<noteq> [])"
  shows "select_last s p = Some (Inr (None, False, s))"
proof -
  have "clear_session s = Some (Inr s) \<or> \<not> sp_replace p" using assms(2) by (auto simp: clear_session_def)
  then show ?thesis using assms(1) by (auto simp: select_last_def)
qed

lemma select_last_missing:
  assumes "sp_rid p = Some k" and "k \<notin> fst ` set (req_nodes s)"
  shows "select_last s p = Some (Inr (None, True, s))"
proof -
  have "map_of (req_nodes s) k = None" using assms(2) by (simp only: map_of_eq_None_iff simp_thms)
  then show ?thesis using assms(1) by (simp add: select_last_def)
qed

lemma select_last_other:
  assumes wf: "session_wf s"
    and "case sp_rid p of None \<Rightarrow> sp_replace p \<and> req_nodes s \<noteq> [] | Some k \<Rightarrow> k \<in> fst ` set (req_nodes s)"
  shows "(\<exists>e. select_last s p = Some (Inl e)) \<or> (\<exists>n abort s1. select_last s p = Some (Inr (Some n, abort, s1)))"
proof (cases "sp_rid p")
  case None
  then have "sp_replace p" "req_nodes s \<noteq> []" using assms(2) by simp_all
  moreover then obtain e where "clear_session s = Some (Inl e)" using clear_session_raises [OF wf] by blast
  ultimately show ?thesis using None by (simp add: select_last_def)
next
  case (Some k)
  then have "k \<in> dom (map_of (req_nodes s))" using assms(2) by (simp add: dom_map_of_conv_image_fst)
  then obtain n where n: "map_of (req_nodes s) k = Some n" by blast
  then have "n < sess_next (abort_node s n)"
    using wf abort_node_tree(1) [of s n] by (auto simp: session_wf_def same_tree_def dest!: map_of_SomeD)
  then obtain r where "clear_childs (abort_node s n) n = Some r" using clear_childs_ends [OF abort_node_wf [OF wf]] by blast
  then show ?thesis using Some n by (cases r) (auto simp: select_last_def)
qed

text \<open>
  C37: \<open>create_req\<close> always ends, and it returns a request exactly if the session parameters name
  no request (and do not ask to replace the requests of a session that has some) or name one that
  is not in the session; it raises in every other case. So a request of a session can be started,
  but never continued or replaced. A returned request carries the input tokens as they are, it is
  to be aborted exactly if a missing request was named, and otherwise it is recorded in the session.
\<close>

theorem sessions_never_continue:
  assumes "session_wf s" and "gi_session_params gi = Some p"
  shows "\<exists>out. create_req bos tk s gi = Some out \<and>
    ((\<exists>r s'. out = Inr (r, s')) \<longleftrightarrow>
       (case sp_rid p of
          None \<Rightarrow> \<not> (sp_replace p \<and> req_nodes s \<noteq> [])
        | Some k \<Rightarrow> k \<notin> fst ` set (req_nodes s))) \<and>
    (\<forall>r s'. out = Inr (r, s') \<longrightarrow>
       rid r = gi_rid gi \<and> origin_input_ids r = gi_input_ids gi \<and> r_params r = gi_params gi \<and>
       session_id r = Some (sess_id s) \<and> finished_reason r = None \<and> to_abort r = (sp_rid p \<noteq> None) \<and>
       session_wf s' \<and>
       fst ` set (req_nodes s') = fst ` set (req_nodes s) \<union> (if sp_rid p = None then {gi_rid gi} else {}))"
proof (cases "case sp_rid p of None \<Rightarrow> sp_replace p \<and> req_nodes s \<noteq> [] | Some k \<Rightarrow> k \<in> fst ` set (req_nodes s)")
  case True
  have "\<exists>e. create_req bos tk s gi = Some (Inl e)"
    using select_last_other [OF assms(1) True]
  proof
    assume "\<exists>e. select_last s p = Some (Inl e)"
    then show ?thesis using assms(2) by (auto simp: create_req_def bind_result_def)
  next
    assume "\<exists>n abort s1. select_last s p = Some (Inr (Some n, abort, s1))"
    then show ?thesis using assms(2)
      by (cases "strip_bos bos (gi_input_ids gi)") (auto simp: create_req_def bind_result_def Let_def)
  qed
  then show ?thesis using True by (auto split: option.splits)
next
  case False
  note out = assms(2) create_req_def bind_result_def req_init_def
  show ?thesis
  proof (cases "sp_rid p")
    case None
    with False have fresh: "\<not> (sp_replace p \<and> req_nodes s \<noteq> [])" by simp
    note sel = select_last_fresh [OF None fresh]
    let ?r = "(req_init (gi_rid gi) (gi_input_ids gi) (gi_params gi) (gi_return_logprob gi) (gi_top_logprobs_num gi)
       (gi_token_ids_logprob gi) (gi_stream gi) (Some (gi_input_ids gi)) (gi_lora_path gi) (Some (sess_id s)) None)
       \<lparr>r_processor := gi_processor gi, r_tokenizer := tk\<rparr>"
    obtain n s2 where n: "new_session_node s ?r None = (n, s2)" by (metis surj_pair)
    note wf = new_root_wf [OF assms(1) n]
    have "create_req bos tk s gi = Some (Inr (?r, s2\<lparr>req_nodes := AList.update (gi_rid gi) n (req_nodes s2)\<rparr>))"
      using n sel by (simp add: create_req_def assms(2) bind_result_def)
    moreover have "fst ` set (AList.update (gi_rid gi) n (req_nodes s)) = insert (gi_rid gi) (fst ` set (req_nodes s))"
      using arg_cong [OF map_fst_update, of set "gi_rid gi" n "req_nodes s"] by (auto split: if_splits)
    ultimately show ?thesis using None fresh wf by (simp add: req_init_def)
  next
    case (Some k)
    with False have "k \<notin> fst ` set (req_nodes s)" by simp
    then show ?thesis using Some assms select_last_missing [OF Some] by (simp add: out)
  qed
qed

definition demo_gen_input :: "unit gen_input" where
  "demo_gen_input =
     \<lparr>gi_rid = ''b'', gi_input_ids = [5], gi_input_embeds = None, gi_params = default_params, gi_return_logprob = False,
      gi_logprob_start_len = - 1, gi_top_logprobs_num = 0, gi_token_ids_logprob = None, gi_stream = False,
      gi_lora_path = None, gi_processor = None, gi_return_hidden_states = False,
      gi_session_params = Some \<lparr>sp_id = Some ''s'', sp_rid = Some ''a'', sp_offset = None, sp_replace = False\<rparr>,
      gi_mm_inputs = None\<rparr>"

theorem sessions_never_continue_witness:
  "\<exists>e. create_req None None
     ((session_init 100 ''s'')\<lparr>req_nodes := [(''a'', 0)], sess_next := 1\<rparr>) demo_gen_input = Some (Inl e)"
proof -
  let ?s = "(session_init 100 ''s'')\<lparr>req_nodes := [(''a'', 0)], sess_next := 1\<rparr>"
  have "session_wf ?s" by (simp add: session_wf_def bounded_childs_def session_init_def empty_node_def)
  from sessions_never_continue [OF this, of demo_gen_input _ None None] show ?thesis
    by (auto simp: demo_gen_input_def session_init_def) (metis sumE surj_pair)
qed

end
