(* ===== verification/Intake.thy ===== *)
theory Intake
  imports Scheduler_Admit Session
begin

text \<open>
  The way of a request into the scheduler: \<open>handle_generate_request\<close> and
  \<open>handle_embedding_request\<close> of \<open>managers/scheduler.py\<close>, \<open>validate_input_length\<close> of
  \<open>managers/utils.py\<close>, the length limits of \<open>managers/tp_worker.py\<close>, opening and closing sessions,
  and the grammar cache of \<open>constrained/base_grammar_backend.py\<close> with the queue of requests that
  wait for their grammar. The expansion of multimodal tokens (\<open>pad\<close>), the compilation of grammars
  (\<open>outcome\<close> of a future) and the copy of a grammar object (\<open>gcopy\<close>) are parameters; grammar
  objects and futures are numbers. The error messages are shortened to their constant parts.
\<close>

section \<open>State\<close>

type_synonym grammar_key = "string \<times> string"

text \<open>The object of \<open>INVALID_GRAMMAR_OBJ\<close>.\<close>

definition INVALID_GRAMMAR_OBJ :: nat where
  "INVALID_GRAMMAR_OBJ = 0"

text \<open>
  What \<open>Future.result\<close> does within its timeout: raise \<open>TimeoutError\<close>, return a grammar object or
  \<open>None\<close>, or raise the exception of the task.
\<close>

datatype future_outcome = Timed_out | Built nat | Built_None | Task_raised py_error

text \<open>
  A request of the grammar queue: \<open>gw_future\<close> is the future in its attribute \<open>grammar\<close>; it is
  \<open>None\<close> once the attribute is a grammar object or, after an abort, \<open>None\<close>. Neither has the methods
  \<open>cancel\<close> and \<open>result\<close> of a future.
\<close>

record grammar_wait =
  gw_req :: req
  gw_key :: grammar_key
  gw_future :: "nat option"
  grammar_wait_ct :: nat

record intake_cfg =
  max_req_len :: int
  max_req_input_len :: int
  allow_auto_truncate :: bool
  ik_tokenizer :: "tokenizer option"
  ik_bos :: "token option option"
  hf_eos_token_id :: "token list option"
  has_grammar_backend :: bool
  ik_tp_size :: nat
  GRAMMAR_TIMEOUT_STEPS :: nat

record intake_state =
  ik_sched :: scheduler
  sessions :: "(string \<times> session) list"
  grammar_queue :: "grammar_wait list"
  grammar_cache :: "grammar_key \<Rightarrow> nat option"
  next_future :: nat

text \<open>The limits of the worker: they raise \<open>AssertionError\<close> when the pool is too small.\<close>

definition worker_limits :: "int \<Rightarrow> int \<Rightarrow> (int \<times> int) result" where
  "worker_limits context_len max_total_tokens =
     (let max_len = min (context_len - 1) (max_total_tokens - 1); max_input = max_len - 5
      in if max_len > 0 \<and> max_input > 0 then Inr (max_len, max_input) else Inl AssertionError)"

section \<open>Grammars\<close>

definition get_cached_or_future_value :: "(nat \<Rightarrow> nat) \<Rightarrow> intake_state \<Rightarrow> grammar_key \<Rightarrow> nat \<times> bool \<times> intake_state" where
  "get_cached_or_future_value gcopy st key =
     (case grammar_cache st key of
        Some v \<Rightarrow> (gcopy v, True, st)
      | None \<Rightarrow> (next_future st, False, st\<lparr>next_future := Suc (next_future st)\<rparr>))"

definition set_cache :: "intake_state \<Rightarrow> grammar_key \<Rightarrow> nat \<Rightarrow> intake_state" where
  "set_cache st key v = st\<lparr>grammar_cache := (grammar_cache st)(key \<mapsto> v)\<rparr>"

definition reset_grammar_cache :: "intake_state \<Rightarrow> intake_state" where
  "reset_grammar_cache st = st\<lparr>grammar_cache := (\<lambda>_. None)\<rparr>"

text \<open>
  The key of the request's grammar. An empty structural tag is a grammar that is not \<open>None\<close> but
  sets no key, so that using the variable \<open>key\<close> raises \<open>UnboundLocalError\<close>.
\<close>

definition grammar_key_of :: "sampling_params \<Rightarrow> grammar_key result" where
  "grammar_key_of p =
     (case json_schema p of
        Some x \<Rightarrow> Inr (''json'', x)
      | None \<Rightarrow>
          (case regex p of
             Some x \<Rightarrow> Inr (''regex'', x)
           | None \<Rightarrow>
               (case ebnf p of
                  Some x \<Rightarrow> Inr (''ebnf'', x)
                | None \<Rightarrow>
                    (case structural_tag p of
                       Some (x # xs) \<Rightarrow> Inr (''structural_tag'', x # xs)
                     | _ \<Rightarrow> Inl UnboundLocalError))))"

section \<open>Sessions\<close>

definition open_session :: "intake_state \<Rightarrow> string option \<Rightarrow> int \<Rightarrow> bool \<times> intake_state" where
  "open_session st ido cap =
     (case ido of
        None \<Rightarrow> (False, st)
      | Some i \<Rightarrow>
          if i \<in> fst ` set (sessions st) then (False, st)
          else (True, st\<lparr>sessions := AList.update i (session_init cap i) (sessions st)\<rparr>))"

definition close_session :: "intake_state \<Rightarrow> string \<Rightarrow> intake_state" where
  "close_session st i = (if i \<in> fst ` set (sessions st) then st\<lparr>sessions := AList.delete i (sessions st)\<rparr> else st)"

section \<open>New requests\<close>

definition validate_input_length :: "req \<Rightarrow> int \<Rightarrow> bool \<Rightarrow> string option \<times> req" where
  "validate_input_length r max_len trunc =
     (if int (length (origin_input_ids r)) \<ge> max_len then
        (if trunc then (None, r\<lparr>origin_input_ids := py_to (origin_input_ids r) max_len\<rparr>)
         else (Some ''Input length exceeds the maximum allowed length'', r))
      else (None, r))"

definition enqueue :: "intake_state \<Rightarrow> req \<Rightarrow> intake_state" where
  "enqueue st r = st\<lparr>ik_sched := add_request_to_queue (ik_sched st) r\<rparr>"

definition new_gen_req :: "intake_cfg \<Rightarrow> 'm gen_input \<Rightarrow> req" where
  "new_gen_req cfg gi =
     (let ids = (case gi_input_embeds gi of Some n \<Rightarrow> replicate n 1 | None \<Rightarrow> gi_input_ids gi)
      in (req_init (gi_rid gi) ids (gi_params gi) (gi_return_logprob gi) (gi_top_logprobs_num gi)
            (gi_token_ids_logprob gi) (gi_stream gi) None (gi_lora_path gi) None (hf_eos_token_id cfg))
         \<lparr>r_processor := gi_processor gi, r_return_hidden_states := gi_return_hidden_states gi,
          r_tokenizer := ik_tokenizer cfg\<rparr>)"

text \<open>
  The request of a message: from its session when it names one that is open, otherwise a new one,
  which is aborted when it names a session that is not. The flag says that it is queued at once.
\<close>

definition intake_req ::
  "intake_cfg \<Rightarrow> intake_state \<Rightarrow> 'm gen_input \<Rightarrow> (req \<times> bool \<times> intake_state) result option" where
  "intake_req cfg st gi =
     (case Option.bind (gi_session_params gi) sp_id of
        None \<Rightarrow> Some (Inr (new_gen_req cfg gi, False, st))
      | Some i \<Rightarrow>
          (case map_of (sessions st) i of
             None \<Rightarrow>
               Some (Inr ((new_gen_req cfg gi)\<lparr>finished_reason :=
                            Some (FINISH_ABORT (Some ''Invalid request: session id does not exist'') None None)\<rparr>,
                          True, st))
           | Some s \<Rightarrow>
               do {
                 out \<leftarrow> create_req (ik_bos cfg) (ik_tokenizer cfg) s gi;
                 Some (bind_result out (\<lambda>(r, s1).
                   Inr (r, (case finished_reason r of Some f \<Rightarrow> is_error f | None \<Rightarrow> False),
                        st\<lparr>sessions := AList.update i s1 (sessions st)\<rparr>)))
               }))"

definition set_logprob_start :: "'m gen_input \<Rightarrow> req \<Rightarrow> req" where
  "set_logprob_start gi r =
     r\<lparr>logprob_start_len :=
         (if gi_logprob_start_len gi = - 1 \<or> \<not> gi_return_logprob gi then int (length (origin_input_ids r)) - 1
          else gi_logprob_start_len gi)\<rparr>"

definition limit_new_tokens :: "intake_cfg \<Rightarrow> req \<Rightarrow> req" where
  "limit_new_tokens cfg r =
     r\<lparr>r_params := (r_params r)\<lparr>max_new_tokens :=
         Some (min (case max_new_tokens (r_params r) of Some m \<Rightarrow> m | None \<Rightarrow> 2 ^ 30)
                   (max_req_len cfg - int (length (origin_input_ids r)) - 1))\<rparr>\<rparr>"

text \<open>The grammar of the request: from the cache, or the request waits for it.\<close>

definition start_grammar :: "(nat \<Rightarrow> nat) \<Rightarrow> intake_state \<Rightarrow> req \<Rightarrow> grammar_key \<Rightarrow> intake_state" where
  "start_grammar gcopy st r key =
     (case get_cached_or_future_value gcopy st key of (v, cache_hit, st1) \<Rightarrow>
        if cache_hit then
          enqueue st1
            (if v = INVALID_GRAMMAR_OBJ
             then set_finish_with_abort (r\<lparr>grammar := Some v\<rparr>) ''Invalid grammar request with cache hit''
             else r\<lparr>grammar := Some v\<rparr>)
        else
          st1\<lparr>grammar_queue := grammar_queue st1 @
                 [\<lparr>gw_req = r, gw_key = key, gw_future = Some v, grammar_wait_ct = 0\<rparr>]\<rparr>)"

definition init_grammar ::
  "(nat \<Rightarrow> nat) \<Rightarrow> intake_cfg \<Rightarrow> intake_state \<Rightarrow> req \<Rightarrow> intake_state result" where
  "init_grammar gcopy cfg st r =
     (if json_schema (r_params r) = None \<and> regex (r_params r) = None \<and> ebnf (r_params r) = None \<and>
         structural_tag (r_params r) = None then Inr (enqueue st r)
      else if \<not> has_grammar_backend cfg then Inl AssertionError
      else bind_result (grammar_key_of (r_params r)) (\<lambda>key. Inr (start_grammar gcopy st r key)))"

definition handle_generate_request ::
  "(nat \<Rightarrow> nat) \<Rightarrow> (token list \<Rightarrow> 'm \<Rightarrow> token list) \<Rightarrow> intake_cfg \<Rightarrow> intake_state \<Rightarrow> 'm gen_input \<Rightarrow> intake_state result option" where
  "handle_generate_request gcopy pad cfg st gi =
     do {
       out \<leftarrow> intake_req cfg st gi;
       Some (bind_result out (\<lambda>(r, now, st1).
         if now then Inr (enqueue st1 r)
         else
           (let r1 = (case gi_mm_inputs gi of
                        None \<Rightarrow> r
                      | Some m \<Rightarrow> r\<lparr>origin_input_ids := pad (origin_input_ids r) m\<rparr>)
            in if gi_mm_inputs gi \<noteq> None \<and> int (length (origin_input_ids r1)) \<ge> max_req_input_len cfg then
                 Inr (enqueue st1 (set_finish_with_abort r1 ''Multimodal prompt is too long''))
               else
                 (case validate_input_length r1 (max_req_input_len cfg) (allow_auto_truncate cfg) of
                    (Some msg, r2) \<Rightarrow> Inr (enqueue st1 (set_finish_with_abort r2 msg))
                  | (None, r2) \<Rightarrow>
                      (let r3 = set_logprob_start gi r2
                       in if logprob_start_len r3 \<ge> int (length (origin_input_ids r3)) then
                            Inr (enqueue st1
                              (set_finish_with_abort (r3\<lparr>logprob_start_len := int (length (origin_input_ids r3)) - 1\<rparr>)
                                 ''logprob_start_len is higher than the number of input tokens''))
                          else init_grammar gcopy cfg st1 (limit_new_tokens cfg r3))))))
     }"

definition handle_embedding_request ::
  "(token list \<Rightarrow> 'm \<Rightarrow> token list) \<Rightarrow> intake_cfg \<Rightarrow> intake_state \<Rightarrow> string \<Rightarrow> token list \<Rightarrow> sampling_params \<Rightarrow> 'm option \<Rightarrow> intake_state" where
  "handle_embedding_request pad cfg st i ids params mm =
     (let r = (req_init i ids params False 0 None False None None None None)\<lparr>r_tokenizer := ik_tokenizer cfg\<rparr>;
          r1 = (case mm of None \<Rightarrow> r | Some m \<Rightarrow> r\<lparr>origin_input_ids := pad (origin_input_ids r) m\<rparr>)
      in if mm \<noteq> None \<and> int (length (origin_input_ids r1)) \<ge> max_req_input_len cfg then
           enqueue st (set_finish_with_abort r1 ''Multimodal prompt is too long'')
         else
           (case validate_input_length r1 (max_req_input_len cfg) (allow_auto_truncate cfg) of
              (Some msg, r2) \<Rightarrow> enqueue st r2
            | (None, r2) \<Rightarrow> enqueue st (r2\<lparr>logprob_start_len := int (length (origin_input_ids r2)) - 1\<rparr>)))"

section \<open>The grammar queue\<close>

text \<open>\<open>req.grammar.cancel()\<close> raises \<open>AttributeError\<close> on what is not a future.\<close>

definition cancel_grammar :: "string \<Rightarrow> grammar_wait \<Rightarrow> grammar_wait result" where
  "cancel_grammar msg g =
     (case gw_future g of
        None \<Rightarrow> Inl AttributeError
      | Some f \<Rightarrow> Inr (g\<lparr>gw_req := set_finish_with_abort (gw_req g) msg, gw_future := None\<rparr>))"

fun abort_grammar :: "string \<Rightarrow> grammar_wait list \<Rightarrow> grammar_wait list result" where
  "abort_grammar p [] = Inr []"
| "abort_grammar p (g # gs) =
     bind_result (if prefix p (rid (gw_req g)) then cancel_grammar ''Aborted by AbortReq.'' g else Inr g) (\<lambda>g1.
     bind_result (abort_grammar p gs) (\<lambda>gs1. Inr (g1 # gs1)))"

text \<open>A request whose grammar object has arrived.\<close>

definition accept_grammar ::
  "(nat \<Rightarrow> nat) \<Rightarrow> (grammar_key \<Rightarrow> nat option) \<Rightarrow> grammar_wait \<Rightarrow> nat \<Rightarrow> grammar_wait \<times> (grammar_key \<Rightarrow> nat option)" where
  "accept_grammar gcopy m g v =
     (let r = (gw_req g)\<lparr>grammar := Some v\<rparr>
      in (g\<lparr>gw_req := (if v = INVALID_GRAMMAR_OBJ then set_finish_with_abort r ''Invalid grammar request'' else r),
             gw_future := None\<rparr>,
          m(gw_key g \<mapsto> gcopy v)))"

text \<open>
  The first loop: the number of ready requests and of timeouts (0 or 1), the queue and the cache.
  A grammar that is \<open>None\<close> has no \<open>copy\<close>, and an aborted request is skipped.
\<close>

fun ready_loop ::
  "(nat \<Rightarrow> nat) \<Rightarrow> (nat \<Rightarrow> future_outcome) \<Rightarrow> nat \<Rightarrow> grammar_wait list \<Rightarrow> (grammar_key \<Rightarrow> nat option) \<Rightarrow>
   (nat \<times> nat \<times> grammar_wait list \<times> (grammar_key \<Rightarrow> nat option)) result" where
  "ready_loop gcopy outcome limit [] m = Inr (0, 0, [], m)"
| "ready_loop gcopy outcome limit (g # gs) m =
     (if finished (gw_req g) then
        bind_result (ready_loop gcopy outcome limit gs m) (\<lambda>(k, t, gs1, m1). Inr (Suc k, t, g # gs1, m1))
      else
        (case gw_future g of
           None \<Rightarrow> Inl AttributeError
         | Some f \<Rightarrow>
             (case outcome f of
                Timed_out \<Rightarrow>
                  (let ct = Suc (grammar_wait_ct g)
                   in Inr (0, if ct > limit then 1 else 0, g\<lparr>grammar_wait_ct := ct\<rparr> # gs, m))
              | Built_None \<Rightarrow> Inl AttributeError
              | Task_raised e \<Rightarrow> Inl e
              | Built v \<Rightarrow>
                  (case accept_grammar gcopy m g v of (g1, m1) \<Rightarrow>
                     bind_result (ready_loop gcopy outcome limit gs m1) (\<lambda>(k, t, gs1, m2).
                       Inr (Suc k, t, g1 # gs1, m2))))))"

text \<open>
  The second loop, for the requests that are ready on another rank: it waits for the grammar
  without a timeout (\<open>final\<close> is what the future gives in the end).
\<close>

fun await_loop ::
  "(nat \<Rightarrow> nat) \<Rightarrow> (nat \<Rightarrow> future_outcome) \<Rightarrow> nat list \<Rightarrow> grammar_wait list \<Rightarrow> (grammar_key \<Rightarrow> nat option) \<Rightarrow>
   (grammar_wait list \<times> (grammar_key \<Rightarrow> nat option)) result" where
  "await_loop gcopy final [] q m = Inr (q, m)"
| "await_loop gcopy final (i # is) q m =
     (if \<not> i < length q then Inl IndexError
      else if finished (gw_req (q ! i)) then await_loop gcopy final is q m
      else
        (case gw_future (q ! i) of
           None \<Rightarrow> Inl AttributeError
         | Some f \<Rightarrow>
             (case final f of
                Built v \<Rightarrow>
                  (case accept_grammar gcopy m (q ! i) v of (g1, m1) \<Rightarrow> await_loop gcopy final is (q[i := g1]) m1)
              | Built_None \<Rightarrow> Inl AttributeError
              | Task_raised e \<Rightarrow> Inl e
              | Timed_out \<Rightarrow> Inl RuntimeError)))"

text \<open>The third loop cancels the grammars that timed out.\<close>

fun timeout_loop ::
  "nat list \<Rightarrow> grammar_wait list \<Rightarrow> (grammar_key \<Rightarrow> nat option) \<Rightarrow> (grammar_wait list \<times> (grammar_key \<Rightarrow> nat option)) result" where
  "timeout_loop [] q m = Inr (q, m)"
| "timeout_loop (i # is) q m =
     (if \<not> i < length q then Inl IndexError
      else
        bind_result (cancel_grammar ''Grammar preprocessing timed out'' (q ! i)) (\<lambda>g1.
          timeout_loop is (q[i := g1]) (m(gw_key (q ! i) \<mapsto> INVALID_GRAMMAR_OBJ))))"

text \<open>
  \<open>all_reduce\<close> gives the maxima of both numbers over the ranks; it is used when there is more than
  one.
\<close>

definition move_ready_grammar_requests ::
  "(nat \<Rightarrow> nat) \<Rightarrow> (nat \<Rightarrow> future_outcome) \<Rightarrow> (nat \<Rightarrow> future_outcome) \<Rightarrow> (nat \<times> nat \<Rightarrow> nat \<times> nat) \<Rightarrow> intake_cfg \<Rightarrow> intake_state \<Rightarrow> intake_state result" where
  "move_ready_grammar_requests gcopy outcome final all_reduce cfg st =
     bind_result (ready_loop gcopy outcome (GRAMMAR_TIMEOUT_STEPS cfg) (grammar_queue st) (grammar_cache st)) (\<lambda>(ready, timeouts, q1, m1).
     case (if ik_tp_size cfg > 1 then all_reduce (ready, timeouts) else (ready, timeouts)) of (ready_max, timeouts_max) \<Rightarrow>
     bind_result (if ik_tp_size cfg > 1 then await_loop gcopy final [ready..<ready_max] q1 m1 else Inr (q1, m1)) (\<lambda>(q2, m2).
     bind_result (timeout_loop [ready..<ready + timeouts_max] q2 m2) (\<lambda>(q3, m3).
       let k = ready_max + timeouts_max in
       Inr (st\<lparr>ik_sched := extend_requests_to_queue (ik_sched st) (map gw_req (take k q3)),
               grammar_queue := drop k q3, grammar_cache := m3\<rparr>))))"

end
