(* ===== verification/Scheduler_Idle.thy ===== *)
theory Scheduler_Idle
  imports Scheduler_Admit
begin

text \<open>
  An idle server serves the request at the head of the queue: when all slots are free or evictable
  and the request fits into them, the admission takes it, whatever part of it is cached.
\<close>

section \<open>Locking a prefix\<close>

text \<open>A lock protects no more slots than the path to the node has tokens.\<close>

lemma ancestors_length:
  assumes "cwf c L P" and "n \<in> L"
  shows "at_count z (nodes c) (ancestors (root_node c) L P n) \<le> int (length (P n))"
  using assms
proof (induction "length (P n)" arbitrary: n rule: less_induct)
  case less
  note wf = less.prems(1)
  let ?r = "root_node c"
  show ?case
  proof (cases "n = ?r")
    case True
    then show ?thesis using ancestors_root [OF wf] by (simp add: at_count_def)
  next
    case False
    obtain q where q: "q \<in> L" "child_of (nodes c) q n" "P n = P q @ n_key (nodes c n)"
      using wf_parent [OF wf less.prems(2) False] by metis
    note st = ancestors_step [OF wf q(1,2)]
    note node = wf_node [OF wf less.prems(2) False]
    have fin: "finite (ancestors ?r L P q)" using wf_basic(2) [OF wf] by (simp add: ancestors_def)
    have "at_count z (nodes c) (ancestors ?r L P q) \<le> int (length (P q))"
      using less.hyps [OF _ wf q(1)] q(3) node(1) by simp
    then show ?thesis
      unfolding st(1) at_count_insert [OF fin st(2)] using q(3) node(4) by auto
  qed
qed

lemma lock_evictable:
  assumes inv: "radix_inv c refs" and on: "\<not> cache_disable c" and n: "n \<in> live c" and i: "inc_lock_ref c n = Some (d, c')"
  shows "evictable_size c - int (length (path_of c n)) \<le> evictable_size c'"
proof -
  have wf: "cwf c (live c) (path_of c)" using inv by (simp add: radix_inv_def)
  have "evictable_sz c' = evictable_sz c - at_count 0 (nodes c) (ancestors (root_node c) (live c) (path_of c) n)"
    using i on lock_loop_spec [OF inc_lock_body wf n, of 0] by (auto simp: inc_lock_ref_def)
  then show ?thesis using ancestors_length [OF wf n, of 0] by (simp add: evictable_size_def)
qed

section \<open>Admitting the head of the queue\<close>

lemma add_locked_admits:
  assumes inv: "radix_inv c refs" "\<not> cache_disable c" "page_size c = 1" and n: "n \<in> live c"
    and f: "fill_ids r = Some ids" and m: "0 \<le> new_tokens_of r"
    and room: "of_int (extend_input_len r + new_tokens_of r) \<le> rem_total_tokens c a"
    and chunk: "\<forall>t. rem_chunk_tokens a = Some t \<longrightarrow> 0 < t"
  shows "\<exists>a' c' x. add_locked c a r n = Some (None, a', c') \<and> can_run_list a' = can_run_list a @ [x] \<and> rid x = rid r \<and>
    (\<exists>d. inc_lock_ref c n = Some (d, c'))"
proof -
  obtain d c1 where i: "inc_lock_ref c n = Some (d, c1)" by (rule inc_lock_ref_spec [OF inv(1,2) n])
  have "clipped_new_tokens r \<le> new_tokens_of r" by (simp add: clipped_new_tokens_def)
  then have "(of_int (extend_input_len r + clipped_new_tokens r) :: rat) \<le> of_int (extend_input_len r + new_tokens_of r)" by simp
  then have "\<not> of_int (extend_input_len r + clipped_new_tokens r) > rem_total_tokens c a" using room by linarith
  then show ?thesis
    using i f chunk inv(3) by (auto simp: add_locked_def Let_def prefill_one_req_def split: option.splits)
qed

lemma add_one_req_admits:
  assumes inv: "radix_inv c refs" "\<not> cache_disable c" "page_size c = 1" and n: "last_node r = Some n" "n \<in> live c"
    and f: "fill_ids r = Some ids" and m: "0 \<le> new_tokens_of r" "max_new_tokens (r_params r) \<noteq> None"
    and p: "length (path_of c n) \<le> length (prefix_indices r)"
    and room: "of_int (int (length (prefix_indices r)) + extend_input_len r + new_tokens_of r) < rem_total_tokens c a"
    and fresh: "can_run_list a = []" and chunk: "\<forall>t. rem_chunk_tokens a = Some t \<longrightarrow> 0 < t"
  shows "\<exists>res a' c' x. add_one_req c a r = Some (res, a', c') \<and> can_run_list a' = [x] \<and> rid x = rid r"
proof -
  obtain d c1 where i: "inc_lock_ref c n = Some (d, c1)" "radix_inv c1 (add_mset n refs)" "same_env c c1" "live c1 = live c"
    by (rule inc_lock_ref_spec [OF inv(1,2) n(2)])
  have c1: "\<not> cache_disable c1" "page_size c1 = 1" "n \<in> live c1" "kv_pool c1 = kv_pool c"
    using i(3,4) inv n(2) by (auto simp: same_env_def)
  have ev: "evictable_size c - int (length (prefix_indices r)) \<le> evictable_size c1"
    using lock_evictable [OF inv(1,2) n(2) i(1)] p by linarith
  then have "(of_int (evictable_size c - int (length (prefix_indices r))) :: rat) \<le> of_int (evictable_size c1)" by (simp only: of_int_le_iff)
  then have room1: "of_int (extend_input_len r + new_tokens_of r) \<le> rem_total_tokens c1 a"
    using room by (simp add: rem_total_tokens_def c1(4))
  obtain a' c2 x d2 where l: "add_locked c1 a r n = Some (None, a', c2)" "can_run_list a' = can_run_list a @ [x]" "rid x = rid r"
    "inc_lock_ref c1 n = Some (d2, c2)"
    using add_locked_admits [OF i(2) c1(1-3) f m(1) room1 chunk] by blast
  obtain d3 c2' where l2: "inc_lock_ref c1 n = Some (d3, c2')" "radix_inv c2' (add_mset n (add_mset n refs))" "same_env c1 c2'"
    by (rule inc_lock_ref_spec [OF i(2) c1(1,3)])
  then have c2: "radix_inv c2 (add_mset n (add_mset n refs))" "\<not> cache_disable c2" using l(4) c1(1) by (auto simp: same_env_def)
  obtain d4 c3 where u: "dec_lock_ref c2 n = Some (d4, c3)" by (rule dec_lock_ref_spec [OF c2, of n]) simp_all
  have "0 \<le> extend_input_len r \<or> extend_input_len r < 0" by linarith
  have "(of_int (clipped_new_tokens r) :: rat) \<le> of_int (new_tokens_of r)" by (simp add: clipped_new_tokens_def)
  then have "\<not> of_int (extend_input_len r + clipped_new_tokens r) \<ge> rem_total_tokens c a" using room by simp
  then show ?thesis
    using inv(2) m(2) n(1) i(1) l u fresh by (auto simp: add_one_req_def Let_def)
qed

section \<open>The loop keeps what it has admitted\<close>

lemma add_one_req_mono:
  assumes "add_one_req c a r = Some (res, a', c')"
  shows "prefix (can_run_list a) (can_run_list a')"
  using assms
  by (auto simp: add_one_req_def add_one_req_ignore_eos_def add_locked_def Let_def prefill_one_req_def bind_eq_Some_conv
      split: if_splits option.splits sum.splits prod.splits)

lemma admit_loop_mono:
  assumes "admit_loop cfg computed n ls full q c a = Some (f, q', c', a')"
  shows "prefix (can_run_list a) (can_run_list a')"
  using assms
proof (induction q arbitrary: c a f q' c' a')
  case (Cons r q)
  let ?stop = "lora_paths cfg \<and> card (ls \<union> lora_path ` set (can_run_list a) \<union> {lora_path r}) > max_loras_per_batch cfg \<or>
      int (length (can_run_list a)) \<ge> n"
  show ?case
  proof (cases ?stop)
    case True
    then show ?thesis using Cons.prems by (auto split: if_splits)
  next
    case False
    then obtain r1 c1 res a1 c2 where st: "init_next_round_input (if computed then None else Some match_prefix) c r = Some (r1, c1)"
      "add_one_req c1 a r1 = Some (res, a1, c2)"
      using Cons.prems by (auto simp: bind_eq_Some_conv simp del: if_cong split del: if_split)
    have p: "prefix (can_run_list a) (can_run_list a1)" by (rule add_one_req_mono [OF st(2)])
    show ?thesis
    proof (cases res)
      case CONTINUE
      then obtain q2 where "admit_loop cfg computed n ls full q c2 a1 = Some (f, q2, c', a')"
        using False Cons.prems st by (auto simp: bind_eq_Some_conv)
      then show ?thesis using Cons.IH p prefix_order.trans by blast
    qed (use False Cons.prems st p in auto)
  qed
qed simp

lemma admit_loop_head:
  assumes "init_next_round_input (if computed then None else Some match_prefix) c r = Some (r1, c1)"
    and "add_one_req c1 a r1 = Some (res, a1, c2)" and "can_run_list a1 = [x]"
    and "\<not> lora_paths cfg" "int (length (can_run_list a)) < n"
    and "admit_loop cfg computed n ls full (r # q) c a = Some (f, q', c', a')"
  shows "x \<in> set (can_run_list a')"
proof (cases res)
  case CONTINUE
  then obtain q2 where "admit_loop cfg computed n ls full q c2 a1 = Some (f, q2, c', a')"
    using assms by (auto simp: bind_eq_Some_conv)
  then show ?thesis using admit_loop_mono assms(3) by (fastforce dest: set_mono_prefix)
qed (use assms in auto)

section \<open>An idle server\<close>

lemma bind_result_InrD: "bind_result x f = Inr y \<Longrightarrow> \<exists>z. x = Inr z \<and> f z = Inr y"
  by (cases x) (simp_all add: bind_result_def)

lemma the_result_Inr: "the_result x = Inr y \<longleftrightarrow> x = Some y"
  by (simp add: the_result_def split: option.split)

lemma new_prefill_batch_queue:
  assumes "new_prefill_batch hsh cfg s a = Inr (b, s')"
  shows "waiting_queue s' = filter (\<lambda>x. rid x \<notin> rid ` set (can_run_list a)) (waiting_queue s)"
  using assms by (auto simp: new_prefill_batch_def Let_def split: if_splits dest!: bind_result_InrD)

lemma next_round_head:
  assumes inv: "radix_inv c refs" "\<not> cache_disable c" and ids: "origin_input_ids r @ output_ids r \<noteq> []"
  shows "\<exists>r1 c1 n ids. init_next_round_input (Some match_prefix) c r = Some (r1, c1) \<and> radix_inv c1 refs \<and> same_cache c c1 \<and>
    last_node r1 = Some n \<and> n \<in> live c1 \<and> fill_ids r1 = Some ids \<and> rid r1 = rid r \<and> r_params r1 = r_params r \<and>
    length (path_of c1 n) = length (prefix_indices r1) \<and>
    int (length (prefix_indices r1)) + extend_input_len r1 = int (length (origin_input_ids r @ output_ids r))"
proof -
  let ?ids = "origin_input_ids r @ output_ids r"
  let ?r0 = "r\<lparr>fill_ids := Some ?ids\<rparr>"
  define ks where "ks = fst (adjust_max_prefix_ids ?r0)"
  have a: "adjust_max_prefix_ids ?r0 = (ks, ?r0)" by (simp add: ks_def adjust_max_prefix_ids_def Let_def)
  obtain V n c1 where m: "match_prefix c ks = Some (V, n, c1)" "radix_inv c1 refs" "same_cache c c1" "n \<in> live c1"
    "path_of c1 n = take (length V) ks" "longest_match c ks V"
    by (rule match_prefix_spec [OF inv])
  have V: "length (path_of c1 n) = length V" using m(5,6) by (simp add: longest_match_def)
  show ?thesis
    using m V by (intro exI [of _ "?r0\<lparr>prefix_indices := V, last_node := Some n, extend_input_len := int (length ?ids) - int (length V)\<rparr>"]
        exI [of _ c1] exI [of _ n] exI [of _ ?ids]) (simp add: init_next_round_input_def Let_def a)
qed

lemma reset_evictable [simp]: "evictable_size (radix_reset c) = 0"
  by (simp add: radix_reset_def record_all_cleared_event_def evictable_size_def split: prod.split)

text \<open>The server is idle: nothing runs, and the idle-time check of the memory passes.\<close>

definition idle :: "sched_cfg \<Rightarrow> scheduler \<Rightarrow> bool" where
  "idle cfg s \<longleftrightarrow>
     sb_reqs (running_batch s) = [] \<and> \<not> batch_is_full (running_batch s) \<and> chunked_req s = None \<and>
     check_memory cfg s = Inr () \<and> pools_ok {#} (tree_cache s) \<and>
     \<not> cache_disable (waiting_queue_radix_tree s) \<and> page_size (waiting_queue_radix_tree s) = 1 \<and> 0 \<le> new_token_ratio s"

lemma idle_serves:
  assumes idle: "idle cfg s" and q: "waiting_queue s = r # rest"
    and ok: "distinct (map rid (waiting_queue s))" "samplable (cfg_vocab_size cfg) (waiting_queue s)"
      "\<forall>x\<in>set (waiting_queue s). waiting_ok (max_context_len (req_pool (tree_cache s))) x"
    and fit: "int (length (origin_input_ids r @ output_ids r)) + new_tokens_of r < max_total_num_tokens cfg"
    and perm: "mset (shuffle (waiting_queue s)) = mset (waiting_queue s)"
    and cfg: "cfg_policy cfg = Agnostic FCFS" "\<not> lora_paths cfg" "\<not> is_mixed_chunk cfg"
      "\<forall>t. chunked_prefill_size cfg = Some t \<longrightarrow> 0 < t"
      "0 < max_micro_batch_size cfg" "max_micro_batch_size cfg \<le> int (rtp_available_size (req_pool (tree_cache s)))"
  shows "\<exists>b s'. get_new_batch_prefill hsh shuffle cfg s = Inr (Some b, s') \<and> prefilled {#} s (Some b) s' \<and> rid r \<in> rid ` set (sb_reqs b)"
proof -
  let ?c = "tree_cache s" and ?n = "get_num_allocatable_reqs cfg s 0"
  have inv: "radix_inv ?c {#}" "\<not> cache_disable ?c" "page_size ?c = 1" using idle by (auto simp: idle_def pools_ok_def)
  have r: "waiting_ok (max_context_len (req_pool ?c)) r" using ok(3) q by simp
  obtain bo s' where g: "get_new_batch_prefill hsh shuffle cfg s = Inr (bo, s')" "prefilled {#} s bo s'"
    using get_new_batch_prefill_spec [of "{#}" s shuffle cfg hsh] idle ok perm cfg by (auto simp: idle_def)
  obtain r1 c1 n ids where h: "init_next_round_input (Some match_prefix) ?c r = Some (r1, c1)" "radix_inv c1 {#}" "same_cache ?c c1"
    "last_node r1 = Some n" "n \<in> live c1" "fill_ids r1 = Some ids" "rid r1 = rid r" "r_params r1 = r_params r"
    "length (path_of c1 n) = length (prefix_indices r1)"
    "int (length (prefix_indices r1)) + extend_input_len r1 = int (length (origin_input_ids r @ output_ids r))"
    using next_round_head [OF inv(1,2)] r unfolding waiting_ok_def by metis
  let ?a0 = "prefill_adder_init (Some []) (new_token_ratio s) (max_prefill_tokens cfg) (chunked_prefill_size cfg) 0"
  have mem: "int (kv_available (kv_pool c1)) + evictable_size c1 = max_total_num_tokens cfg"
    using idle h(3) by (auto simp: idle_def check_memory_def Let_def same_cache_def same_env_def evictable_size_def split: if_splits)
  have new: "new_tokens_of r1 = new_tokens_of r" "0 \<le> new_tokens_of r" "max_new_tokens (r_params r1) \<noteq> None"
    using r by (simp_all add: new_tokens_of_def h(8) waiting_ok_def)
  have "int (length (prefix_indices r1)) + extend_input_len r1 + new_tokens_of r1 < max_total_num_tokens cfg"
    using fit h(10) new(1) by linarith
  then have room: "of_int (int (length (prefix_indices r1)) + extend_input_len r1 + new_tokens_of r1) < rem_total_tokens c1 ?a0"
    unfolding rem_total_tokens_def mem by (simp add: prefill_adder_init_def del: of_int_add)
  have c1: "\<not> cache_disable c1" "page_size c1 = 1" using inv h(3) by (auto simp: same_cache_def same_env_def)
  obtain res a1 c2 x where a1: "add_one_req c1 ?a0 r1 = Some (res, a1, c2)" "can_run_list a1 = [x]" "rid x = rid r1"
    using add_one_req_admits [OF h(2) c1 h(4-6) _ new(3) _ room] new h(9) cfg(4) by (auto simp: prefill_adder_init_def)
  let ?s1 = "\<lambda>full q2 c2. s\<lparr>tree_cache := c2, waiting_queue_radix_tree := waiting_queue_radix_tree s, waiting_queue := q2, chunked_req := None, running_batch := (running_batch s)\<lparr>batch_is_full := full\<rparr>\<rparr>"
  have n: "0 < ?n" using cfg(5,6) by (simp add: get_num_allocatable_reqs_def Let_def)
  have ne: "waiting_queue s \<noteq> []" using q by simp
  with n have e: "get_new_batch_prefill hsh shuffle cfg s =
      bind_result (the_result (admit_loop cfg False ?n {} False (waiting_queue s) ?c ?a0)) (\<lambda>(full, q2, c2, a2).
        if can_run_list a2 = [] then Inr (None, ?s1 full q2 c2)
        else bind_result (new_prefill_batch hsh cfg (?s1 full q2 c2) a2) (\<lambda>(b1, s2).
               bind_result (mix_running cfg b1 s2) (\<lambda>(b2, s3). Inr (Some b2, s3))))"
    using idle cfg(1,3) ne
    by (simp add: get_new_batch_prefill_def idle_def calc_priority_def the_result_def [of "Some x" for x] bind_result_def [of "Inr x" for x]
        admit_chunked_def Let_def)
  obtain full q2 c2 a2 where l: "admit_loop cfg False ?n {} False (r # rest) ?c ?a0 = Some (full, q2, c2, a2)"
    and rest: "(if can_run_list a2 = [] then Inr (None, ?s1 full q2 c2)
        else bind_result (new_prefill_batch hsh cfg (?s1 full q2 c2) a2) (\<lambda>(b1, s2).
               bind_result (mix_running cfg b1 s2) (\<lambda>(b2, s3). Inr (Some b2, s3)))) = Inr (bo, s')"
    using bind_result_InrD [OF trans [OF e [symmetric] g(1)]] unfolding q the_result_Inr by auto
  have x: "x \<in> set (can_run_list a2)"
    by (rule admit_loop_head [OF _ a1(1,2) cfg(2) _ l]) (use h(1) n in \<open>simp_all add: prefill_adder_init_def\<close>)
  then obtain b s2 where b: "new_prefill_batch hsh cfg (?s1 full q2 c2) a2 = Inr (b, s2)" "bo = Some (b\<lparr>decoding_reqs := None\<rparr>)" "s' = s2"
  proof -
    from x have "can_run_list a2 \<noteq> []" by auto
    from bind_result_InrD [OF rest [unfolded if_not_P [OF this]]] show thesis
      using cfg(3) by (auto simp: mix_running_def bind_result_def intro: that)
  qed
  have "rid r \<notin> rid ` set (waiting_queue s')"
    using new_prefill_batch_queue [OF b(1)] b(3) x a1(3) h(7) by (auto simp: image_iff) metis
  moreover have "rid r \<in># mset (map rid (waiting_queue s')) + mset (map rid (sb_reqs b))"
    using g(2) b(2) q by (simp add: prefilled_def)
  ultimately show ?thesis using g b(2) by (intro exI [of _ "b\<lparr>decoding_reqs := None\<rparr>"] exI [of _ s']) auto
qed

end
