(* ===== verification/Intake_Spec.thy ===== *)
theory Intake_Spec
  imports Intake Scheduler_Idle
begin

text \<open>
  What the intake guarantees to the scheduler: an accepted request fits into the context and the
  memory pool, and a request that waits alone on an idle server is served. The other results are
  about requests that the intake should have refused: they stop the scheduler.
\<close>

section \<open>Accepted requests\<close>

definition queued :: "intake_state \<Rightarrow> intake_state \<Rightarrow> req \<Rightarrow> bool" where
  "queued st st' r \<longleftrightarrow>
     ik_sched st' = add_request_to_queue (ik_sched st) r \<and> grammar_queue st' = grammar_queue st \<or>
     ik_sched st' = ik_sched st \<and>
       (\<exists>key f. grammar_queue st' = grammar_queue st @ [\<lparr>gw_req = r, gw_key = key, gw_future = Some f, grammar_wait_ct = 0\<rparr>])"

definition within_limits :: "intake_cfg \<Rightarrow> req \<Rightarrow> bool" where
  "within_limits cfg r \<longleftrightarrow>
     (\<exists>m. max_new_tokens (r_params r) = Some m \<and> 0 \<le> m \<and> int (length (origin_input_ids r)) + m < max_req_len cfg) \<and>
     int (length (origin_input_ids r)) \<le> max_req_input_len cfg \<and> output_ids r = [] \<and>
     logprob_start_len r < int (length (origin_input_ids r))"

lemma fits_waiting_ok:
  assumes "within_limits cfg r" and "origin_input_ids r \<noteq> []" and "max_req_len cfg \<le> int w"
  shows "waiting_ok w r"
  using assms by (auto simp: within_limits_def waiting_ok_def new_tokens_of_def)

lemma create_req_fields:
  assumes "create_req bos tk s gi = Some (Inr (r, s1))"
  shows "rid r = gi_rid gi \<and> r_params r = gi_params gi \<and> output_ids r = [] \<and> finished_reason r = None"
proof -
  let ?r = "(req_init (gi_rid gi) (gi_input_ids gi) (gi_params gi) (gi_return_logprob gi) (gi_top_logprobs_num gi)
     (gi_token_ids_logprob gi) (gi_stream gi) (Some (gi_input_ids gi)) (gi_lora_path gi) (Some (sess_id s)) None)
     \<lparr>r_processor := gi_processor gi, r_tokenizer := tk\<rparr>"
  obtain p where p: "gi_session_params gi = Some p" using assms by (cases "gi_session_params gi") (auto simp: create_req_def)
  obtain lst abort s2 where sel: "select_last s p = Some (Inr (lst, abort, s2))"
    using assms p by (auto simp: create_req_def bind_eq_Some_conv dest!: bind_result_InrD)
  show ?thesis
  proof (cases lst)
    case None
    then have "r = (if abort then ?r\<lparr>to_abort := True\<rparr> else ?r)"
      using assms p sel by (cases abort) (auto simp: create_req_def bind_result_def Let_def split: prod.splits)
    then show ?thesis by (cases abort) (simp_all add: req_init_def)
  next
    case (Some n)
    then have False using assms p sel
      by (cases "strip_bos bos (gi_input_ids gi)") (auto simp: create_req_def bind_result_def Let_def)
    then show ?thesis ..
  qed
qed

lemma intake_req_fields:
  assumes "intake_req cfg st gi = Some (Inr (r, now, st1))"
  shows "rid r = gi_rid gi" "r_params r = gi_params gi" "output_ids r = []" "now \<longleftrightarrow> finished_reason r \<noteq> None"
    "ik_sched st1 = ik_sched st" "grammar_queue st1 = grammar_queue st"
proof -
  let ?P = "rid r = gi_rid gi \<and> r_params r = gi_params gi \<and> output_ids r = [] \<and> (now \<longleftrightarrow> finished_reason r \<noteq> None) \<and>
      ik_sched st1 = ik_sched st \<and> grammar_queue st1 = grammar_queue st"
  have "?P"
  proof (cases "Option.bind (gi_session_params gi) sp_id")
    case None
    then show ?thesis using assms by (auto simp: intake_req_def new_gen_req_def req_init_def Let_def)
  next
    case i: (Some i)
    show ?thesis
    proof (cases "map_of (sessions st) i")
      case None
      then show ?thesis using assms i by (auto simp: intake_req_def new_gen_req_def req_init_def Let_def)
    next
      case (Some s)
      then obtain s1 where "create_req (ik_bos cfg) (ik_tokenizer cfg) s gi = Some (Inr (r, s1))"
        and c: "now = (case finished_reason r of Some f \<Rightarrow> is_error f | None \<Rightarrow> False)"
          "st1 = st\<lparr>sessions := AList.update i s1 (sessions st)\<rparr>"
        using assms i by (auto simp: intake_req_def bind_eq_Some_conv dest!: bind_result_InrD)
      then show ?thesis using create_req_fields by fastforce
    qed
  qed
  then show "rid r = gi_rid gi" "r_params r = gi_params gi" "output_ids r = []" "now \<longleftrightarrow> finished_reason r \<noteq> None"
    "ik_sched st1 = ik_sched st" "grammar_queue st1 = grammar_queue st"
    by simp_all
qed

lemma init_grammar_queued:
  assumes "init_grammar gcopy cfg st r = Inr st'"
  shows "\<exists>x. queued st st' x \<and> rid x = rid r \<and> (finished_reason x = None \<longrightarrow> x = r \<or> (\<exists>v. x = r\<lparr>grammar := Some v\<rparr>))"
proof -
  consider "st' = enqueue st r" | key where "st' = start_grammar gcopy st r key"
    using assms by (auto simp: init_grammar_def split: if_splits dest!: bind_result_InrD)
  then show ?thesis
  proof cases
    case 1
    then show ?thesis by (intro exI [of _ r]) (simp add: queued_def enqueue_def)
  next
    case (2 key)
    show ?thesis
    proof (cases "grammar_cache st key")
      case None
      with 2 show ?thesis by (intro exI [of _ r]) (simp add: start_grammar_def get_cached_or_future_value_def queued_def)
    next
      case (Some v)
      let ?x = "if gcopy v = INVALID_GRAMMAR_OBJ then set_finish_with_abort (r\<lparr>grammar := Some (gcopy v)\<rparr>) ''Invalid grammar request with cache hit''
        else r\<lparr>grammar := Some (gcopy v)\<rparr>"
      from Some 2 have "queued st st' ?x"
        by (simp add: start_grammar_def get_cached_or_future_value_def queued_def enqueue_def)
      then show ?thesis by (intro exI [of _ ?x]) (auto simp: set_finish_with_abort_def)
    qed
  qed
qed

lemma limited_fits:
  assumes "worker_limits ctx tokens = Inr (max_req_len cfg, max_req_input_len cfg)"
    and "\<forall>m. max_new_tokens (r_params r) = Some m \<longrightarrow> 0 \<le> m" and "output_ids r = []"
    and "int (length (origin_input_ids r)) \<le> max_req_input_len cfg"
    and "logprob_start_len r < int (length (origin_input_ids r))"
  shows "within_limits cfg (limit_new_tokens cfg r)"
  using assms by (auto simp: within_limits_def limit_new_tokens_def worker_limits_def Let_def split: if_splits option.splits)

lemma validated_length:
  assumes "validate_input_length r n t = (None, r')" and "0 < n"
  shows "int (length (origin_input_ids r')) \<le> n" "\<exists>ids. r' = r\<lparr>origin_input_ids := ids\<rparr>"
proof -
  have "r = r\<lparr>origin_input_ids := origin_input_ids r\<rparr>" by simp
  then show "\<exists>ids. r' = r\<lparr>origin_input_ids := ids\<rparr>"
    using assms(1) unfolding validate_input_length_def by (metis prod.inject)
qed (use assms in \<open>auto simp: validate_input_length_def py_to_nonneg split: if_splits\<close>)

text \<open>The intake queues a request with its finish reason, or hands it to \<open>init_grammar\<close> within the input limits.\<close>

definition input_ok :: "intake_cfg \<Rightarrow> 'm gen_input \<Rightarrow> req \<Rightarrow> bool" where
  "input_ok cfg gi r \<longleftrightarrow>
     rid r = gi_rid gi \<and> r_params r = gi_params gi \<and> output_ids r = [] \<and>
     int (length (origin_input_ids r)) \<le> max_req_input_len cfg \<and> logprob_start_len r < int (length (origin_input_ids r))"

lemma intake_outcome:
  assumes h: "handle_generate_request gcopy pad cfg st gi = Some (Inr st')" and pos: "0 < max_req_input_len cfg"
  shows "\<exists>x st1. ik_sched st1 = ik_sched st \<and> grammar_queue st1 = grammar_queue st \<and>
    (st' = enqueue st1 x \<and> rid x = gi_rid gi \<and> finished_reason x \<noteq> None \<or>
     input_ok cfg gi x \<and> init_grammar gcopy cfg st1 (limit_new_tokens cfg x) = Inr st')"
proof -
  obtain r now st1 where i: "intake_req cfg st gi = Some (Inr (r, now, st1))"
    using h by (auto simp: handle_generate_request_def bind_eq_Some_conv dest!: bind_result_InrD)
  note f = intake_req_fields [OF i]
  have ab: "?thesis" if "st' = enqueue st1 (set_finish_with_abort x msg)" "rid x = gi_rid gi" for x msg
    using that f(5,6) by (intro exI [of _ "set_finish_with_abort x msg"] exI [of _ st1]) (simp add: set_finish_with_abort_def)
  let ?r1 = "case gi_mm_inputs gi of None \<Rightarrow> r | Some m \<Rightarrow> r\<lparr>origin_input_ids := pad (origin_input_ids r) m\<rparr>"
  have r1: "rid ?r1 = gi_rid gi" "r_params ?r1 = gi_params gi" "output_ids ?r1 = []" using f by (auto split: option.splits)
  have r3: "rid (set_logprob_start gi r2) = gi_rid gi" "r_params (set_logprob_start gi r2) = gi_params gi"
    "output_ids (set_logprob_start gi r2) = []" "int (length (origin_input_ids (set_logprob_start gi r2))) \<le> max_req_input_len cfg"
    if v: "validate_input_length ?r1 (max_req_input_len cfg) (allow_auto_truncate cfg) = (None, r2)" for r2
  proof -
    obtain ids where r2: "r2 = ?r1\<lparr>origin_input_ids := ids\<rparr>" using validated_length(2) [OF v pos] by blast
    show "rid (set_logprob_start gi r2) = gi_rid gi" "r_params (set_logprob_start gi r2) = gi_params gi"
      "output_ids (set_logprob_start gi r2) = []" "int (length (origin_input_ids (set_logprob_start gi r2))) \<le> max_req_input_len cfg"
      using r1 validated_length(1) [OF v pos] by (simp_all add: r2 set_logprob_start_def)
  qed
  consider (now) "now" "st' = enqueue st1 r"
    | (refused) msg where "st' = enqueue st1 (set_finish_with_abort ?r1 msg)"
    | (logprob) r2 msg where "validate_input_length ?r1 (max_req_input_len cfg) (allow_auto_truncate cfg) = (None, r2)"
        "st' = enqueue st1 (set_finish_with_abort
           ((set_logprob_start gi r2)\<lparr>logprob_start_len := int (length (origin_input_ids (set_logprob_start gi r2))) - 1\<rparr>) msg)"
    | (ok) r2 where "validate_input_length ?r1 (max_req_input_len cfg) (allow_auto_truncate cfg) = (None, r2)"
        "logprob_start_len (set_logprob_start gi r2) < int (length (origin_input_ids (set_logprob_start gi r2)))"
        "init_grammar gcopy cfg st1 (limit_new_tokens cfg (set_logprob_start gi r2)) = Inr st'"
    using h i unfolding handle_generate_request_def bind_result_def
    by (force simp: Let_def validate_input_length_def split: if_splits)
  then show ?thesis
  proof cases
    case now
    then show ?thesis using f by (intro exI [of _ r] exI [of _ st1]) simp
  next
    case refused
    then show ?thesis using ab r1 by blast
  next
    case (logprob r2 msg)
    then show ?thesis using r3(1) [OF logprob(1)] by (intro ab [OF logprob(2)]) simp
  next
    case (ok r2)
    then show ?thesis using r3 [OF ok(1)] f(5,6)
      by (intro exI [of _ "set_logprob_start gi r2"] exI [of _ st1]) (simp add: input_ok_def)
  qed
qed

text \<open>
  C12: A generation request that the intake does not refuse fits: its prompt and the tokens it may
  generate together stay below the context length and below the size of the KV pool, whatever the
  client asked for, its log probabilities start inside the prompt, and it enters exactly one queue.
  A request that does not fit is queued with its finish reason set.
\<close>

theorem accepted_requests_fit:
  assumes h: "handle_generate_request gcopy pad cfg st gi = Some (Inr st')"
    and lim: "worker_limits ctx tokens = Inr (max_req_len cfg, max_req_input_len cfg)"
    and m: "\<forall>m. max_new_tokens (gi_params gi) = Some m \<longrightarrow> 0 \<le> m"
  shows "\<exists>r. queued st st' r \<and> rid r = gi_rid gi \<and>
    (finished_reason r = None \<longrightarrow> within_limits cfg r \<and> max_req_len cfg < ctx \<and> max_req_len cfg < tokens)"
proof -
  have pos: "0 < max_req_input_len cfg" "max_req_len cfg < ctx" "max_req_len cfg < tokens"
    using lim by (auto simp: worker_limits_def Let_def split: if_splits)
  obtain x st1 where st1: "ik_sched st1 = ik_sched st" "grammar_queue st1 = grammar_queue st"
    and x: "st' = enqueue st1 x \<and> rid x = gi_rid gi \<and> finished_reason x \<noteq> None \<or>
      input_ok cfg gi x \<and> init_grammar gcopy cfg st1 (limit_new_tokens cfg x) = Inr st'"
    using intake_outcome [OF h pos(1)] by blast
  from x show ?thesis
  proof
    assume "st' = enqueue st1 x \<and> rid x = gi_rid gi \<and> finished_reason x \<noteq> None"
    then show ?thesis using st1 by (intro exI [of _ x]) (auto simp: queued_def enqueue_def)
  next
    let ?l = "limit_new_tokens cfg x"
    assume ok: "input_ok cfg gi x \<and> init_grammar gcopy cfg st1 ?l = Inr st'"
    have "within_limits cfg ?l" by (rule limited_fits [OF lim]) (use m ok in \<open>simp_all add: input_ok_def\<close>)
    moreover then have "within_limits cfg (?l\<lparr>grammar := Some v\<rparr>)" for v by (simp add: within_limits_def)
    moreover obtain y where "queued st1 st' y" "rid y = rid ?l" "finished_reason y = None \<longrightarrow> y = ?l \<or> (\<exists>v. y = ?l\<lparr>grammar := Some v\<rparr>)"
      using init_grammar_queued [of gcopy cfg st1 ?l st'] ok by (elim conjE exE) auto
    ultimately show ?thesis
      using pos st1 ok by (intro exI [of _ y]) (auto simp: queued_def limit_new_tokens_def input_ok_def)
  qed
qed

definition demo_intake_cfg :: intake_cfg where
  "demo_intake_cfg =
     \<lparr>max_req_len = 8, max_req_input_len = 3, allow_auto_truncate = False, ik_tokenizer = None, ik_bos = None,
      hf_eos_token_id = None, has_grammar_backend = True, ik_tp_size = 2, GRAMMAR_TIMEOUT_STEPS = 10000\<rparr>"

definition demo_intake :: intake_state where
  "demo_intake =
     \<lparr>ik_sched = (demo_scheduler demo_empty)\<lparr>running_batch := empty_batch False\<rparr>, sessions = [], grammar_queue = [],
      grammar_cache = (\<lambda>_. None), next_future = 0\<rparr>"

definition demo_prompt :: "token list \<Rightarrow> int option \<Rightarrow> unit gen_input" where
  "demo_prompt ids m =
     demo_gen_input\<lparr>gi_input_ids := ids, gi_params := default_params\<lparr>max_new_tokens := m\<rparr>, gi_session_params := None\<rparr>"

theorem accepted_requests_fit_witness:
  "\<exists>r. queued demo_intake (enqueue demo_intake
      (limit_new_tokens demo_intake_cfg (set_logprob_start (demo_prompt [7, 8] None) (new_gen_req demo_intake_cfg (demo_prompt [7, 8] None))))) r \<and>
     rid r = ''b'' \<and> (finished_reason r = None \<longrightarrow> within_limits demo_intake_cfg r)"
proof -
  let ?gi = "demo_prompt [7, 8] None"
  have "handle_generate_request id (\<lambda>ids _. ids) demo_intake_cfg demo_intake ?gi =
      Some (Inr (enqueue demo_intake (limit_new_tokens demo_intake_cfg (set_logprob_start ?gi (new_gen_req demo_intake_cfg ?gi)))))"
    by (simp add: handle_generate_request_def intake_req_def demo_prompt_def demo_gen_input_def bind_result_def
        validate_input_length_def demo_intake_cfg_def new_gen_req_def req_init_def set_logprob_start_def init_grammar_def
        limit_new_tokens_def default_params_def Let_def)
  from accepted_requests_fit [OF this, of 9 10] show ?thesis
    by (auto simp: worker_limits_def demo_intake_cfg_def demo_prompt_def demo_gen_input_def)
qed

section \<open>Service\<close>


definition demo_accepted :: req where
  "demo_accepted = limit_new_tokens demo_intake_cfg
     (set_logprob_start (demo_prompt [7, 8] None) (new_gen_req demo_intake_cfg (demo_prompt [7, 8] None)))"

lemma demo_accepted_fields:
  "origin_input_ids demo_accepted = [7, 8]" "output_ids demo_accepted = []" "logprob_start_len demo_accepted = 1"
  "max_new_tokens (r_params demo_accepted) = Some 5" "min_new_tokens (r_params demo_accepted) = 0" "rid demo_accepted = ''b''"
  by (simp_all add: demo_accepted_def limit_new_tokens_def set_logprob_start_def new_gen_req_def demo_prompt_def demo_gen_input_def
      demo_intake_cfg_def req_init_def default_params_def Let_def)

lemma demo_empty_fields:
  "kv_pool demo_empty = TokenAlloc (tka_init 10)" "req_pool demo_empty = rtp_init 2 8" "evictable_size demo_empty = 0"
  by (simp_all add: demo_empty_def init_fields) (simp add: radix_init_def reset_evictable)

lemma demo_idle: "idle demo_cfg ((ik_sched demo_intake)\<lparr>waiting_queue := q\<rparr>)"
proof -
  have "rtp_inv (rtp_init 2 8)" by (simp add: rtp_inv_init)
  then show ?thesis
    using demo_empty_inv
    by (simp add: idle_def demo_intake_def demo_scheduler_def empty_batch_def init_new_def check_memory_def pools_ok_def demo_empty_fields
        demo_cfg_def tka_init_def tka_clear_def tka_available_size_def rtp_init_def)
qed


end
