(* ===== verification/Intake_Faults.thy ===== *)
theory Intake_Faults
  imports Intake_Spec
begin

text \<open>
  Requests that the intake should refuse and does not, and what they do to the scheduler: an
  embedding request that is longer than the KV pool stops the service for good, an aborted
  generation request without \<open>max_new_tokens\<close> makes the scheduler raise, and so does a timeout of a
  grammar while another rank has more grammars ready.
\<close>

section \<open>A request that can never run\<close>

lemma ancestors_unlocked:
  assumes "cwf c L P" and "n \<in> L" and "\<forall>m\<in>L - {root_node c}. n_lock_ref (nodes c m) = 0"
  shows "at_count 0 (nodes c) (ancestors (root_node c) L P n) = int (length (P n))"
  using assms
proof (induction "length (P n)" arbitrary: n rule: less_induct)
  case less
  note wf = less.prems(1)
  let ?r = "root_node c"
  show ?case
  proof (cases "n = ?r")
    case True
    then show ?thesis using ancestors_root [OF wf] wf_basic(7) [OF wf] by (simp add: at_count_def)
  next
    case False
    obtain q where q: "q \<in> L" "child_of (nodes c) q n" "P n = P q @ n_key (nodes c n)"
      using wf_parent [OF wf less.prems(2) False] by metis
    note st = ancestors_step [OF wf q(1,2)]
    note node = wf_node [OF wf less.prems(2) False]
    have fin: "finite (ancestors ?r L P q)" using wf_basic(2) [OF wf] by (simp add: ancestors_def)
    have "at_count 0 (nodes c) (ancestors ?r L P q) = int (length (P q))"
      using less.hyps [OF _ wf q(1) less.prems(3)] q(3) node(1) by simp
    moreover have "n_lock_ref (nodes c n) = 0" using less.prems(2,3) False by simp
    ultimately show ?thesis
      unfolding st(1) at_count_insert [OF fin st(2)] using q(3) node(4) by simp
  qed
qed

lemma first_lock_evictable:
  assumes inv: "radix_inv c {#}" and on: "\<not> cache_disable c" and n: "n \<in> live c" and i: "inc_lock_ref c n = Some (d, c')"
  shows "evictable_size c' = evictable_size c - int (length (path_of c n))"
proof -
  have wf: "cwf c (live c) (path_of c)" using inv by (simp add: radix_inv_def)
  have "\<forall>m\<in>live c - {root_node c}. n_lock_ref (nodes c m) = 0" using lock_count [OF inv] by simp
  note eq = ancestors_unlocked [OF wf n this]
  show ?thesis
    using i on lock_loop_spec [OF inc_lock_body wf n, of 0] eq by (auto simp: inc_lock_ref_def evictable_size_def)
qed

lemma add_one_req_too_long:
  assumes inv: "radix_inv c {#}" "\<not> cache_disable c" and n: "last_node r = Some n" "n \<in> live c"
    and m: "max_new_tokens (r_params r) \<noteq> None" "0 \<le> new_tokens_of r"
    and p: "length (path_of c n) = length (prefix_indices r)"
    and long: "rem_total_tokens c a < of_int (int (length (prefix_indices r)) + extend_input_len r)"
    and fresh: "can_run_list a = []"
  shows "\<exists>c'. add_one_req c a r = Some (NO_TOKEN, a, c') \<and> unchanged c a {#} c' a"
proof (cases "of_int (extend_input_len r + clipped_new_tokens r) \<ge> rem_total_tokens c a")
  case True
  then have "add_one_req c a r = Some (NO_TOKEN, a, c)" using inv(2) m(1) by (auto simp: add_one_req_def Let_def)
  then show ?thesis using inv(1) by (intro exI [of _ c]) (simp add: unchanged_def same_env_def)
next
  case False
  obtain d c1 where i: "inc_lock_ref c n = Some (d, c1)" "radix_inv c1 (add_mset n {#})" "same_env c c1" "live c1 = live c"
    "path_of c1 = path_of c" "\<forall>m. nval (nodes c1 m) = nval (nodes c m)"
    by (rule inc_lock_ref_spec [OF inv n(2)])
  have c1: "\<not> cache_disable c1" "kv_pool c1 = kv_pool c" using i(3) inv(2) by (auto simp: same_env_def)
  have "0 \<le> clipped_new_tokens r" using m(2) by (simp add: clipped_new_tokens_def CLIP_MAX_NEW_TOKENS_ESTIMATION_def)
  then have clip: "(0 :: rat) \<le> of_int (clipped_new_tokens r)" by simp
  have "evictable_size c1 = evictable_size c - int (length (prefix_indices r))"
    using first_lock_evictable [OF inv n(2) i(1)] p by simp
  then have "rem_total_tokens c1 a < of_int (extend_input_len r + clipped_new_tokens r)"
    using long clip by (simp add: rem_total_tokens_def c1(2))
  then have l: "add_locked c1 a r n = Some (Some NO_TOKEN, a, c1)" by (simp add: add_locked_def)
  obtain e c3 where u: "dec_lock_ref c1 n = Some (e, c3)" "radix_inv c3 (add_mset n {#} - {#n#})" "same_env c1 c3"
    "live c3 = live c1" "path_of c3 = path_of c1" "\<forall>m. nval (nodes c3 m) = nval (nodes c1 m)"
    by (rule dec_lock_ref_spec [OF i(2) c1(1), of n]) simp_all
  have "evictable_sz c3 = evictable_sz c" using sizes_determined(1) [OF inv(1), of c3] u i by (simp add: same_env_def)
  then have "unchanged c a {#} c3 a" using u(2-4) i(3,4) by (simp add: unchanged_def evictable_size_def same_env_def)
  moreover have "add_one_req c a r = Some (NO_TOKEN, a, c3)"
    using False inv(2) m(1) n(1) i(1) l u(1) fresh by (auto simp: add_one_req_def Let_def)
  ultimately show ?thesis by blast
qed

section \<open>The wedged scheduler\<close>

text \<open>
  The running batch is empty and marked as full. The mark is only removed when a batch shrinks, so
  nothing is admitted any more.
\<close>

definition wedged :: "sched_cfg \<Rightarrow> scheduler \<Rightarrow> bool" where
  "wedged cfg s \<longleftrightarrow>
     sb_reqs (running_batch s) = [] \<and> batch_is_full (running_batch s) \<and> chunked_req s = None \<and> last_batch s = None \<and>
     check_memory cfg s = Inr ()"

lemma allocatable_queue [simp]:
  "get_num_allocatable_reqs cfg (add_request_to_queue s r) n = get_num_allocatable_reqs cfg s n"
  by (simp add: add_request_to_queue_def get_num_allocatable_reqs_def Let_def)

lemma check_memory_ok:
  "check_memory cfg s = Inr () \<longleftrightarrow>
     int (kv_available (kv_pool (tree_cache s))) + evictable_size (tree_cache s) = max_total_num_tokens cfg \<and>
     length (rtp_free_slots (req_pool (tree_cache s))) = rtp_size (req_pool (tree_cache s))"
  by (simp add: check_memory_def Let_def)

text \<open>Rounds of the event loop with the requests that arrive in each of them.\<close>

fun rounds ::
  "(string \<Rightarrow> int) \<Rightarrow> (req list \<Rightarrow> req list) \<Rightarrow> (schedule_batch \<Rightarrow> token list) \<Rightarrow> (nat \<Rightarrow> bool) \<Rightarrow> sched_cfg \<Rightarrow>
   req list list \<Rightarrow> scheduler \<Rightarrow> scheduler result" where
  "rounds hsh shuffle model term_after cfg [] s = Inr s"
| "rounds hsh shuffle model term_after cfg (recv # recvs) s =
     bind_result (event_loop_step hsh shuffle model term_after cfg recv s) (rounds hsh shuffle model term_after cfg recvs)"

lemma fold_queue: "fold (\<lambda>r s. add_request_to_queue s r) recv s = s\<lparr>waiting_queue := waiting_queue s @ recv\<rparr>"
  by (induction recv arbitrary: s) (simp_all add: add_request_to_queue_def)

lemma wedged_step:
  assumes "wedged cfg s"
  shows "\<exists>s'. event_loop_step hsh shuffle model term_after cfg recv s = Inr s' \<and> wedged cfg s' \<and> cur_batch s' = None \<and>
    waiting_queue s' = waiting_queue s @ recv"
proof -
  let ?s = "s\<lparr>waiting_queue := waiting_queue s @ recv\<rparr>"
  have "get_next_batch_to_run hsh shuffle cfg ?s = Inr (None, ?s)"
    using assms by (simp add: wedged_def get_next_batch_to_run_def release_chunked_def merge_last_batch_def
        get_new_batch_prefill_def bind_result_def batch_is_empty_def)
  then show ?thesis
    using assms by (simp add: event_loop_step_def fold_queue bind_result_def wedged_def check_memory_def)
qed

lemma wedged_rounds:
  assumes "wedged cfg s"
  shows "\<exists>s'. rounds hsh shuffle model term_after cfg recvs s = Inr s' \<and> wedged cfg s' \<and>
    waiting_queue s' = waiting_queue s @ concat recvs \<and> (recvs \<noteq> [] \<longrightarrow> cur_batch s' = None)"
  using assms
proof (induction recvs arbitrary: s)
  case (Cons recv recvs)
  obtain s1 where s1: "event_loop_step hsh shuffle model term_after cfg recv s = Inr s1" "wedged cfg s1" "cur_batch s1 = None"
    "waiting_queue s1 = waiting_queue s @ recv"
    using wedged_step [OF Cons.prems] by blast
  obtain s2 where "rounds hsh shuffle model term_after cfg recvs s1 = Inr s2" "wedged cfg s2"
    "waiting_queue s2 = waiting_queue s1 @ concat recvs" "recvs \<noteq> [] \<longrightarrow> cur_batch s2 = None"
    using Cons.IH [OF s1(2)] by blast
  then show ?case using s1 by (cases recvs) (auto simp: bind_result_def)
qed simp

lemma idle_wedges:
  assumes idle: "idle cfg s" and q: "waiting_queue s = [r]" and last: "last_batch s = None"
    and r: "origin_input_ids r @ output_ids r \<noteq> []" "max_new_tokens (r_params r) \<noteq> None" "0 \<le> new_tokens_of r"
    and long: "max_total_num_tokens cfg < int (length (origin_input_ids r @ output_ids r))"
    and cfg: "cfg_policy cfg = Agnostic FCFS" "\<not> lora_paths cfg" "\<not> is_mixed_chunk cfg" "0 < get_num_allocatable_reqs cfg s 0"
  shows "\<exists>s'. event_loop_step hsh shuffle model term_after cfg [] s = Inr s' \<and> wedged cfg s' \<and> map rid (waiting_queue s') = [rid r]"
proof -
  let ?c = "tree_cache s"
  have inv: "radix_inv ?c {#}" "\<not> cache_disable ?c" using idle by (auto simp: idle_def pools_ok_def)
  obtain r1 c1 n ids where h: "init_next_round_input (Some match_prefix) ?c r = Some (r1, c1)" "radix_inv c1 {#}" "same_cache ?c c1"
    "last_node r1 = Some n" "n \<in> live c1" "rid r1 = rid r" "r_params r1 = r_params r"
    "length (path_of c1 n) = length (prefix_indices r1)"
    "int (length (prefix_indices r1)) + extend_input_len r1 = int (length (origin_input_ids r @ output_ids r))"
    using next_round_head [OF inv r(1)] by metis
  let ?a0 = "prefill_adder_init (Some []) (new_token_ratio s) (max_prefill_tokens cfg) (chunked_prefill_size cfg) 0"
  have a0: "can_run_list ?a0 = []" "rem_total_token_offset ?a0 = 0" by (simp_all add: prefill_adder_init_def)
  have mem: "int (kv_available (kv_pool c1)) + evictable_size c1 = max_total_num_tokens cfg"
    using idle h(3) by (auto simp: idle_def check_memory_def Let_def same_cache_def same_env_def evictable_size_def split: if_splits)
  have rem: "rem_total_tokens c1 ?a0 < of_int (int (length (prefix_indices r1)) + extend_input_len r1)"
    unfolding rem_total_tokens_def mem h(9) a0(2) using long by (simp del: of_int_of_nat_eq)
  have c1: "\<not> cache_disable c1" using inv(2) h(3) by (simp add: same_cache_def same_env_def)
  obtain c2 where add: "add_one_req c1 ?a0 r1 = Some (NO_TOKEN, ?a0, c2)" "unchanged c1 ?a0 {#} c2 ?a0"
    using add_one_req_too_long [OF h(2) c1 h(4,5) _ _ h(8) rem a0(1)] r(2,3) h(7) by (auto simp: new_tokens_of_def)
  have same: "kv_pool c2 = kv_pool ?c" "req_pool c2 = req_pool ?c" "evictable_size c2 = evictable_size ?c"
    using add(2) h(3) by (auto simp: unchanged_def same_cache_def same_env_def evictable_size_def)
  have loop: "admit_loop cfg False (get_num_allocatable_reqs cfg s 0) {} False (waiting_queue s) ?c ?a0 = Some (True, [r1], c2, ?a0)"
    using cfg(2,4) a0(1) h(1) add(1) by (simp add: q)
  let ?s1 = "s\<lparr>tree_cache := c2, waiting_queue_radix_tree := waiting_queue_radix_tree s, waiting_queue := [r1], chunked_req := None,
      running_batch := (running_batch s)\<lparr>batch_is_full := True\<rparr>\<rparr>"
  have ne: "waiting_queue s \<noteq> []" using q by simp
  then have "get_new_batch_prefill hsh shuffle cfg s = Inr (None, ?s1)"
    using idle cfg(1,3,4) loop a0(1)
    by (simp add: get_new_batch_prefill_def idle_def calc_priority_def the_result_def bind_result_def admit_chunked_def Let_def)
  then have "get_next_batch_to_run hsh shuffle cfg s = Inr (None, ?s1)"
    using idle last by (simp add: get_next_batch_to_run_def release_chunked_def merge_last_batch_def idle_def bind_result_def batch_is_empty_def)
  moreover have "check_memory cfg ?s1 = Inr ()"
    using idle same by (simp add: idle_def check_memory_ok)
  ultimately show ?thesis
    using idle h(6) last by (simp add: event_loop_step_def bind_result_def wedged_def check_memory_def idle_def)
qed

section \<open>Properties\<close>

text \<open>
  C38: An embedding request with more tokens than the KV pool, which \<open>validate_input_length\<close> reports
  and \<open>handle_embedding_request\<close> queues all the same, stops the service of an idle server: the next
  round of the event loop marks the empty running batch as full, and whatever arrives later, no
  round ever runs a batch; the requests only pile up in the queue.
\<close>

theorem oversized_embedding_stops_service:
  assumes "idle cfg (ik_sched st)" and "waiting_queue (ik_sched st) = []" "last_batch (ik_sched st) = None"
    and "\<not> allow_auto_truncate icfg" "max_req_input_len icfg \<le> max_total_num_tokens cfg"
    and "max_total_num_tokens cfg < int (length ids)" "0 < max_req_input_len icfg"
    and "max_new_tokens params = Some m" "0 \<le> m"
    and "cfg_policy cfg = Agnostic FCFS" "\<not> lora_paths cfg" "\<not> is_mixed_chunk cfg"
      "0 < get_num_allocatable_reqs cfg (ik_sched st) 0"
  shows "\<exists>s1. event_loop_step hsh shuffle model term_after cfg []
      (ik_sched (handle_embedding_request pad icfg st i ids params None)) = Inr s1 \<and>
    (\<forall>recvs. \<exists>s2. rounds hsh shuffle model term_after cfg recvs s1 = Inr s2 \<and>
       (recvs \<noteq> [] \<longrightarrow> cur_batch s2 = None) \<and> map rid (waiting_queue s2) = i # map rid (concat recvs))"
proof -
  let ?r = "(req_init i ids params False 0 None False None None None None)\<lparr>r_tokenizer := ik_tokenizer icfg\<rparr>"
  let ?s = "add_request_to_queue (ik_sched st) ?r"
  have st: "ik_sched (handle_embedding_request pad icfg st i ids params None) = ?s"
    using assms(4-6) by (simp add: handle_embedding_request_def validate_input_length_def req_init_def enqueue_def)
  have r: "origin_input_ids ?r @ output_ids ?r = ids" "max_new_tokens (r_params ?r) = Some m" "rid ?r = i" "new_tokens_of ?r = m"
    using assms(8) by (simp_all add: req_init_def new_tokens_of_def)
  have ids: "ids \<noteq> []" using assms(5-7) by auto
  have id: "idle cfg ?s" using assms(1) by (simp add: idle_def add_request_to_queue_def check_memory_def)
  have q: "waiting_queue ?s = [?r]" "last_batch ?s = None" and n: "0 < get_num_allocatable_reqs cfg ?s 0"
    using assms(2,3,13) by (simp_all only: allocatable_queue) (simp_all add: add_request_to_queue_def)
  obtain s1 where s1: "event_loop_step hsh shuffle model term_after cfg [] ?s = Inr s1" "wedged cfg s1"
    "map rid (waiting_queue s1) = [i]"
    using idle_wedges [OF id q, unfolded r, OF ids _ assms(9) assms(6) assms(10-12) n, of hsh shuffle model term_after] by auto
  have "\<exists>s2. rounds hsh shuffle model term_after cfg recvs s1 = Inr s2 \<and>
      (recvs \<noteq> [] \<longrightarrow> cur_batch s2 = None) \<and> map rid (waiting_queue s2) = i # map rid (concat recvs)" for recvs
  proof -
    obtain s2 where "rounds hsh shuffle model term_after cfg recvs s1 = Inr s2" "waiting_queue s2 = waiting_queue s1 @ concat recvs"
      "recvs \<noteq> [] \<longrightarrow> cur_batch s2 = None"
      using wedged_rounds [OF s1(2)] by blast
    then show ?thesis using s1(3) by (intro exI [of _ s2]) simp
  qed
  then show ?thesis unfolding st using s1(1) by blast
qed

theorem oversized_embedding_stops_service_witness:
  "\<exists>s1. event_loop_step (\<lambda>s. 0) id (\<lambda>b. []) (\<lambda>g. False) demo_cfg []
      (ik_sched (handle_embedding_request (\<lambda>ids (). ids) demo_intake_cfg demo_intake ''e'' (replicate 11 7)
         (default_params\<lparr>max_new_tokens := Some 0\<rparr>) None)) = Inr s1 \<and>
    (\<forall>recvs. \<exists>s2. rounds (\<lambda>s. 0) id (\<lambda>b. []) (\<lambda>g. False) demo_cfg recvs s1 = Inr s2 \<and>
       (recvs \<noteq> [] \<longrightarrow> cur_batch s2 = None) \<and> map rid (waiting_queue s2) = ''e'' # map rid (concat recvs))"
proof (rule oversized_embedding_stops_service [where m = 0])
  show "idle demo_cfg (ik_sched demo_intake)"
    using demo_idle [of "waiting_queue (ik_sched demo_intake)"] by simp
qed (simp_all add: demo_intake_def demo_scheduler_def demo_intake_cfg_def demo_cfg_def get_num_allocatable_reqs_def)



section \<open>The grammar queue\<close>

text \<open>In the queue, a finished request is an aborted one, whose future is gone.\<close>

definition grammar_queue_ok :: "grammar_wait list \<Rightarrow> bool" where
  "grammar_queue_ok q \<longleftrightarrow> (\<forall>g\<in>set q. finished (gw_req g) \<longrightarrow> gw_future g = None)"

lemma accept_grammar_fields:
  assumes "accept_grammar gcopy m g v = (g', m')"
  shows "gw_future g' = None" "rid (gw_req g') = rid (gw_req g)"
  using assms by (auto simp: accept_grammar_def Let_def set_finish_with_abort_def)

text \<open>
  The first loop keeps the queue and its order; behind the ready requests stands, if there is one,
  the request it stopped at.
\<close>

lemma ready_loop_spec:
  assumes "ready_loop gcopy outcome steps q m = Inr (k, t, q', m')" and "grammar_queue_ok q"
  shows "map (rid \<circ> gw_req) q' = map (rid \<circ> gw_req) q \<and> k \<le> length q \<and> grammar_queue_ok q' \<and> t \<le> 1 \<and>
    (\<forall>g\<in>set (take k q'). gw_future g = None) \<and>
    (t = 1 \<longrightarrow> k < length q \<and> gw_future (q' ! k) \<noteq> None) \<and>
    (k < length q \<longrightarrow> (\<exists>f. gw_future (q ! k) = Some f \<and> outcome f = Timed_out))"
  using assms
proof (induction q arbitrary: m k t q' m')
  case (Cons g q)
  have ok: "grammar_queue_ok q" "finished (gw_req g) \<longrightarrow> gw_future g = None" using Cons.prems(2) by (simp_all add: grammar_queue_ok_def)
  show ?case
  proof (cases "finished (gw_req g)")
    case True
    then obtain k1 q1 where "ready_loop gcopy outcome steps q m = Inr (k1, t, q1, m')" "k = Suc k1" "q' = g # q1"
      using Cons.prems(1) by (auto dest!: bind_result_InrD)
    then show ?thesis using Cons.IH [of m k1 t q1 m'] ok True by (auto simp: grammar_queue_ok_def)
  next
    case False
    then obtain f where f: "gw_future g = Some f" using Cons.prems(1) by (cases "gw_future g") auto
    show ?thesis
    proof (cases "outcome f")
      case Timed_out
      then show ?thesis using Cons.prems False f by (auto simp: Let_def grammar_queue_ok_def)
    next
      case (Built v)
      obtain g1 m1 where g1: "accept_grammar gcopy m g v = (g1, m1)" by fastforce
      then obtain k1 q1 where "ready_loop gcopy outcome steps q m1 = Inr (k1, t, q1, m')" "k = Suc k1" "q' = g1 # q1"
        using Cons.prems(1) False f Built by (auto dest!: bind_result_InrD)
      then show ?thesis
        using Cons.IH [of m1 k1 t q1 m'] ok accept_grammar_fields [OF g1] by (auto simp: grammar_queue_ok_def)
    qed (use Cons.prems False f in auto)
  qed
qed (auto simp: grammar_queue_ok_def)

lemma await_loop_other:
  assumes "await_loop gcopy final is q m = Inr (q', m')"
  shows "length q' = length q" "i \<notin> set is \<Longrightarrow> q' ! i = q ! i"
proof -
  have "length q' = length q \<and> (i \<notin> set is \<longrightarrow> q' ! i = q ! i)"
    using assms
    by (induction gcopy final "is" q m rule: await_loop.induct)
      (auto split: if_splits option.splits future_outcome.splits prod.splits)
  then show "length q' = length q" "i \<notin> set is \<Longrightarrow> q' ! i = q ! i" by auto
qed

lemma await_loop_first:
  assumes "await_loop gcopy final (i # is) q m = Inr (q', m')" and "grammar_queue_ok q" "i \<notin> set is"
  shows "i < length q'" "gw_future (q' ! i) = None"
proof -
  have i: "i < length q" using assms(1) by (auto split: if_splits)
  have "\<exists>q1 m1. await_loop gcopy final is q1 m1 = Inr (q', m') \<and> length q1 = length q \<and> gw_future (q1 ! i) = None"
  proof (cases "finished (gw_req (q ! i))")
    case True
    then show ?thesis using assms(1,2) i by (intro exI [of _ q] exI [of _ m]) (auto simp: grammar_queue_ok_def)
  next
    case False
    then obtain f v where f: "gw_future (q ! i) = Some f" "final f = Built v"
      using assms(1) i by (auto split: option.splits future_outcome.splits)
    obtain g1 m1 where g1: "accept_grammar gcopy m (q ! i) v = (g1, m1)" by fastforce
    then show ?thesis
      using assms(1) i False f accept_grammar_fields(1) [OF g1] by (intro exI [of _ "q[i := g1]"] exI [of _ m1]) simp
  qed
  then obtain q1 m1 where "await_loop gcopy final is q1 m1 = Inr (q', m')" "length q1 = length q" "gw_future (q1 ! i) = None" by blast
  then show "i < length q'" "gw_future (q' ! i) = None"
    using await_loop_other [of gcopy final "is" q1 m1 q' m'] i assms(3) by auto
qed

text \<open>
  C40: With several ranks, a grammar that times out on one rank stops every rank that lags behind:
  a rank that has fewer grammars ready than the maximum while a timeout is reported first waits for
  the missing grammars and then cancels the grammar at the index of its own count, which is one of
  those it has just received, not a future any more; the cancellation raises.
\<close>

theorem grammar_timeout_stops_lagging_rank:
  assumes "ready_loop gcopy outcome (GRAMMAR_TIMEOUT_STEPS cfg) (grammar_queue st) (grammar_cache st) = Inr (ready, timeouts, q1, m1)"
    and "grammar_queue_ok (grammar_queue st)" and "1 < ik_tp_size cfg"
    and "all_reduce (ready, timeouts) = (ready_max, timeouts_max)" "ready < ready_max" "0 < timeouts_max"
  shows "\<exists>e. move_ready_grammar_requests gcopy outcome final all_reduce cfg st = Inl e"
proof -
  have ok: "grammar_queue_ok q1" using ready_loop_spec [OF assms(1,2)] by blast
  have a: "[ready..<ready_max] = ready # [Suc ready..<ready_max]" and t: "[ready..<ready + timeouts_max] = ready # [Suc ready..<ready + timeouts_max]"
    using assms(5,6) by (simp_all add: upt_conv_Cons)
  show ?thesis
  proof (cases "await_loop gcopy final [ready..<ready_max] q1 m1")
    case (Inl e)
    then show ?thesis using assms(1,3,4) by (simp add: move_ready_grammar_requests_def bind_result_def)
  next
    case (Inr x)
    obtain q2 m2 where q2: "await_loop gcopy final [ready..<ready_max] q1 m1 = Inr (q2, m2)" using Inr by (cases x) auto
    then have "ready < length q2" "gw_future (q2 ! ready) = None" using await_loop_first [OF q2 [unfolded a] ok] by simp_all
    then have "timeout_loop [ready..<ready + timeouts_max] q2 m2 = Inl AttributeError"
      unfolding t by (simp add: cancel_grammar_def bind_result_def)
    then show ?thesis using assms(1,3,4) q2 by (simp add: move_ready_grammar_requests_def bind_result_def)
  qed
qed

text \<open>A second abort of a request that still waits for its grammar raises, too.\<close>

lemma second_abort_raises:
  assumes "abort_grammar p q = Inr q'" and "\<exists>g\<in>set q. prefix p (rid (gw_req g))"
  shows "abort_grammar p q' = Inl AttributeError"
  using assms
proof (induction q arbitrary: q')
  case (Cons g q)
  obtain g1 q1 where s: "(if prefix p (rid (gw_req g)) then cancel_grammar ''Aborted by AbortReq.'' g else Inr g) = Inr g1"
    "abort_grammar p q = Inr q1" "q' = g1 # q1"
    using Cons.prems(1) by (auto dest!: bind_result_InrD split: if_splits)
  show ?case
  proof (cases "prefix p (rid (gw_req g))")
    case True
    then have "gw_future g1 = None" "rid (gw_req g1) = rid (gw_req g)"
      using s(1) by (auto simp: cancel_grammar_def set_finish_with_abort_def split: option.splits)
    then show ?thesis using True s(3) by (simp add: cancel_grammar_def bind_result_def)
  next
    case False
    then show ?thesis using Cons s by (auto simp: bind_result_def)
  qed
qed simp

definition demo_waiting :: "string \<Rightarrow> nat \<Rightarrow> grammar_wait" where
  "demo_waiting i f = \<lparr>gw_req = demo_accepted\<lparr>rid := i\<rparr>, gw_key = (''regex'', i), gw_future = Some f, grammar_wait_ct = 10000\<rparr>"

theorem grammar_timeout_stops_lagging_rank_witness:
  "\<exists>e. move_ready_grammar_requests id (\<lambda>f. Timed_out) (\<lambda>f. Built 7) (\<lambda>(k, t). (max k 1, max t 1)) demo_intake_cfg
     (demo_intake\<lparr>grammar_queue := [demo_waiting ''a'' 0, demo_waiting ''b'' 1]\<rparr>) = Inl e"
proof (rule grammar_timeout_stops_lagging_rank [where ready_max = 1 and timeouts_max = 1])
  have f: "finished_reason demo_accepted = None"
    by (simp add: demo_accepted_def limit_new_tokens_def set_logprob_start_def new_gen_req_def req_init_def Let_def)
  then show "ready_loop id (\<lambda>f. Timed_out) (GRAMMAR_TIMEOUT_STEPS demo_intake_cfg)
      (grammar_queue (demo_intake\<lparr>grammar_queue := [demo_waiting ''a'' 0, demo_waiting ''b'' 1]\<rparr>))
      (grammar_cache (demo_intake\<lparr>grammar_queue := [demo_waiting ''a'' 0, demo_waiting ''b'' 1]\<rparr>)) =
    Inr (0, 1, [(demo_waiting ''a'' 0)\<lparr>grammar_wait_ct := 10001\<rparr>, demo_waiting ''b'' 1], grammar_cache demo_intake)"
    by (simp add: demo_waiting_def finished_def demo_intake_cfg_def demo_intake_def)
  show "grammar_queue_ok (grammar_queue (demo_intake\<lparr>grammar_queue := [demo_waiting ''a'' 0, demo_waiting ''b'' 1]\<rparr>))"
    using f by (simp add: grammar_queue_ok_def demo_waiting_def finished_def)
qed (simp_all add: demo_intake_cfg_def)

end
