(* ===== verification/Prefix_Cache.thy ===== *)
theory Prefix_Cache
  imports Radix_Props
begin

text \<open>
  The interface of \<open>base_prefix_cache.py\<close> as the scheduler uses it for requests that finish: a
  locale with the slots a cache accounts for, the slots and the row a running request owns, and the
  law that finishing a request gives back exactly these. It is proved for the radix cache with
  single-token pages and for \<open>chunk_cache.py\<close>, which is used when the radix cache is disabled and
  is modelled here in full.
\<close>

section \<open>The chunk cache\<close>

record chunk_cache =
  ch_req_pool :: req_to_token_pool
  ch_kv_pool :: kv_alloc
  ch_page_size :: nat

definition chunk_init :: "req_to_token_pool \<Rightarrow> kv_alloc \<Rightarrow> nat \<Rightarrow> chunk_cache" where
  "chunk_init rp kv p = \<lparr>ch_req_pool = rp, ch_kv_pool = kv, ch_page_size = p\<rparr>"

definition chunk_reset :: "chunk_cache \<Rightarrow> chunk_cache" where
  "chunk_reset c = c"

definition chunk_match_prefix :: "slot list \<times> node_id option" where
  "chunk_match_prefix = ([], None)"

text \<open>\<open>None\<close> stands for an exception, or for a tensor of another shape when there is no row.\<close>

definition chunk_finished_req :: "chunk_cache \<Rightarrow> req \<Rightarrow> chunk_cache option" where
  "chunk_finished_req c r =
     (case req_pool_idx r of
        None \<Rightarrow> None
      | Some i \<Rightarrow>
          if \<not> i < length (req_to_token (ch_req_pool c)) then None
          else
            (let kv_indices = rtp_row (ch_req_pool c) i (length (origin_input_ids r) + (length (output_ids r) - 1));
                 c1 = c\<lparr>ch_req_pool := rtp_free (ch_req_pool c) (FreeOne i)\<rparr>
             in (case kv_free (ch_kv_pool c1) kv_indices of Inl e \<Rightarrow> None | Inr a \<Rightarrow> Some (c1\<lparr>ch_kv_pool := a\<rparr>))))"

definition chunk_unfinished_req :: "chunk_cache \<Rightarrow> req \<Rightarrow> req option" where
  "chunk_unfinished_req c r =
     (case (req_pool_idx r, fill_ids r) of
        (Some i, Some ids) \<Rightarrow>
          if \<not> i < length (req_to_token (ch_req_pool c)) then None
          else Some (r\<lparr>prefix_indices := rtp_row (ch_req_pool c) i (length ids)\<rparr>)
      | _ \<Rightarrow> None)"

definition chunk_insert :: "nat result" where
  "chunk_insert = Inl NotImplementedError"

definition chunk_evict :: "chunk_cache \<Rightarrow> nat \<Rightarrow> chunk_cache" where
  "chunk_evict c num_tokens = c"

definition chunk_inc_lock_ref :: "node_id option \<Rightarrow> int" where
  "chunk_inc_lock_ref node = 0"

definition chunk_dec_lock_ref :: "node_id option \<Rightarrow> int" where
  "chunk_dec_lock_ref node = 0"

text \<open>The defaults of the base class.\<close>

definition base_evictable_size :: int where
  "base_evictable_size = 0"

definition base_protected_size :: int where
  "base_protected_size = 0"

definition base_total_size :: "nat result" where
  "base_total_size = Inl NotImplementedError"

section \<open>The interface\<close>

text \<open>Handing the finished requests of a list over to a cache, in order.\<close>

fun settle :: "('c \<Rightarrow> req \<Rightarrow> 'c option) \<Rightarrow> 'c \<Rightarrow> req list \<Rightarrow> 'c option" where
  "settle finish c [] = Some c"
| "settle finish c (r # rs) =
     (if finished r then (case finish c r of None \<Rightarrow> None | Some c1 \<Rightarrow> settle finish c1 rs) else settle finish c rs)"

definition still_running :: "req list \<Rightarrow> req list" where
  "still_running rs = filter (\<lambda>r. \<not> finished r) rs"

definition done_reqs :: "req list \<Rightarrow> req list" where
  "done_reqs rs = filter finished rs"

lemma split_done [simp]:
  "still_running [] = []" "done_reqs [] = []"
  "still_running (r # rs) = (if finished r then still_running rs else r # still_running rs)"
  "done_reqs (r # rs) = (if finished r then r # done_reqs rs else done_reqs rs)"
  by (simp_all add: still_running_def done_reqs_def)

locale request_cache =
  fixes finish :: "'c \<Rightarrow> req \<Rightarrow> 'c option"
    and running :: "'c \<Rightarrow> req list \<Rightarrow> bool"
    and unused :: "'c \<Rightarrow> slot multiset"
    and owned :: "'c \<Rightarrow> req \<Rightarrow> slot multiset"
    and free_rows :: "'c \<Rightarrow> nat list"
    and num_rows :: "'c \<Rightarrow> nat"
  assumes finishes: "running c (r # rs) \<Longrightarrow>
      \<exists>c'. finish c r = Some c' \<and> running c' rs \<and> unused c' = unused c + owned c r \<and>
        (\<forall>x\<in>set rs. owned c' x = owned c x) \<and> free_rows c' = free_rows c @ [the (req_pool_idx r)] \<and> num_rows c' = num_rows c"
    and order: "running c rs \<Longrightarrow> mset rs' = mset rs \<Longrightarrow> running c rs'"
begin

lemma settles_beside:
  assumes "running c (kept @ rs)"
  shows "\<exists>c'. settle finish c rs = Some c' \<and> running c' (kept @ still_running rs) \<and>
    unused c' = unused c + (\<Sum>r\<leftarrow>done_reqs rs. owned c r) \<and>
    free_rows c' = free_rows c @ map (\<lambda>r. the (req_pool_idx r)) (done_reqs rs) \<and> num_rows c' = num_rows c \<and>
    (\<forall>x\<in>set (kept @ still_running rs). owned c' x = owned c x)"
  using assms
proof (induction rs arbitrary: c kept)
  case (Cons r rs)
  show ?case
  proof (cases "finished r")
    case True
    have "running c (r # kept @ rs)" by (rule order [OF Cons.prems]) simp
    from finishes [OF this] obtain c1 where c1: "finish c r = Some c1" "running c1 (kept @ rs)"
      "unused c1 = unused c + owned c r" "\<forall>x\<in>set (kept @ rs). owned c1 x = owned c x"
      "free_rows c1 = free_rows c @ [the (req_pool_idx r)]" "num_rows c1 = num_rows c" by blast
    have same: "map (owned c1) (done_reqs rs) = map (owned c) (done_reqs rs)" using c1(4) by (simp add: done_reqs_def)
    show ?thesis using Cons.IH [OF c1(2)] c1 True same by (auto simp: still_running_def ac_simps)
  next
    case False
    have "running c ((kept @ [r]) @ rs)" using Cons.prems by simp
    from Cons.IH [OF this] show ?thesis using False by auto
  qed
qed simp

lemma settles:
  assumes "running c rs"
  shows "\<exists>c'. settle finish c rs = Some c' \<and> running c' (still_running rs) \<and>
    unused c' = unused c + (\<Sum>r\<leftarrow>done_reqs rs. owned c r) \<and>
    free_rows c' = free_rows c @ map (\<lambda>r. the (req_pool_idx r)) (done_reqs rs) \<and> num_rows c' = num_rows c \<and>
    (\<forall>x\<in>set (still_running rs). owned c' x = owned c x)"
  using settles_beside [of c "[]" rs] assms by simp

end

section \<open>The two caches\<close>

text \<open>The free slots of an allocator, with those that wait in an open free group.\<close>

fun kv_returned :: "kv_alloc \<Rightarrow> slot multiset" where
  "kv_returned (TokenAlloc a) =
     mset (tka_free_slots a) + (if tka_is_not_in_free_group a then {#} else mset (concat (tka_free_group a)))"
| "kv_returned (PagedAlloc a) = {#}"

lemma kv_returned_free: "kv_returned (TokenAlloc (tka_free a xs)) = kv_returned (TokenAlloc a) + mset xs"
  by (simp add: tka_free_def)

definition req_tokens :: "req \<Rightarrow> token list" where
  "req_tokens r = butlast (origin_input_ids r @ output_ids r)"

subsection \<open>Radix cache\<close>

definition radix_holding :: "radix_cache \<Rightarrow> req \<Rightarrow> bool" where
  "radix_holding c r \<longleftrightarrow>
     (\<exists>i n. req_pool_idx r = Some i \<and> i < length (req_to_token (req_pool c)) \<and> last_node r = Some n \<and>
        length (req_tokens r) \<le> length (req_to_token (req_pool c) ! i) \<and>
        length (prefix_indices r) \<le> length (req_tokens r) \<and> path_of c n = take (length (prefix_indices r)) (req_tokens r))"

text \<open>
  Besides the locks of the requests there are those of \<open>others\<close>; \<open>g\<close> is false while a free group
  is open.
\<close>

definition radix_running :: "bool \<Rightarrow> node_id multiset \<Rightarrow> radix_cache \<Rightarrow> req list \<Rightarrow> bool" where
  "radix_running g others c rs \<longleftrightarrow>
     radix_inv c (others + mset (map (\<lambda>r. the (last_node r)) rs)) \<and> \<not> cache_disable c \<and> page_size c = 1 \<and>
     (\<exists>a. kv_pool c = TokenAlloc a \<and> tka_is_not_in_free_group a = g) \<and> (\<forall>r\<in>set rs. radix_holding c r)"

definition radix_unused :: "radix_cache \<Rightarrow> slot multiset" where
  "radix_unused c = kv_returned (kv_pool c) + cached_slots c"

definition radix_owned :: "radix_cache \<Rightarrow> req \<Rightarrow> slot multiset" where
  "radix_owned c r = mset (drop (length (prefix_indices r)) (rtp_row (req_pool c) (the (req_pool_idx r)) (length (req_tokens r))))"

lemma radix_finishes:
  assumes run: "radix_running g others c (r # rs)"
  shows "\<exists>c'. cache_finished_req c r = Some c' \<and> radix_running g others c' rs \<and> radix_unused c' = radix_unused c + radix_owned c r \<and>
    (\<forall>x\<in>set rs. radix_owned c' x = radix_owned c x) \<and>
    rtp_free_slots (req_pool c') = rtp_free_slots (req_pool c) @ [the (req_pool_idx r)] \<and>
    rtp_size (req_pool c') = rtp_size (req_pool c)"
proof -
  let ?refs = "others + mset (map (\<lambda>r. the (last_node r)) (r # rs))"
  have inv: "radix_inv c ?refs" "\<not> cache_disable c" "page_size c = 1" using run by (auto simp: radix_running_def)
  obtain a where a: "kv_pool c = TokenAlloc a" "tka_is_not_in_free_group a = g" using run by (auto simp: radix_running_def)
  obtain i n where r: "req_pool_idx r = Some i" "i < length (req_to_token (req_pool c))" "last_node r = Some n"
    "length (req_tokens r) \<le> length (req_to_token (req_pool c) ! i)" "length (prefix_indices r) \<le> length (req_tokens r)"
    "path_of c n = take (length (prefix_indices r)) (req_tokens r)"
    using run by (auto simp: radix_running_def radix_holding_def)
  have n: "n \<in># ?refs" "n \<in> live c" and refs: "?refs - {#n#} = others + mset (map (\<lambda>r. the (last_node r)) rs)"
    using r(3) inv(1) by (auto simp: radix_inv_def lock_ok_def)
  let ?kv = "rtp_row (req_pool c) i (length (req_tokens r))" and ?pl = "length (prefix_indices r)"
  have lk: "length ?kv = length (req_tokens r)" using r(4) by (simp add: rtp_row_def)
  have al: "aligned_len c (length ?kv) = length (req_tokens r)" using inv(3) lk by (simp add: aligned_len_def)
  obtain c' k V where f: "cache_finished_req c r = Some c'" "radix_inv c' (?refs - {#n#})"
    "longest_match c (take (aligned_len c (length ?kv)) (req_tokens r)) V" "length V = k" "k \<le> aligned_len c (length ?kv)"
    "kv_frees (kv_pool c) ((if page_size c \<noteq> 1 then [drop (aligned_len c (length ?kv)) ?kv] else []) @ [seg ?kv ?pl k]) = Inr (kv_pool c')"
    "cached_slots c' = cached_slots c + mset (seg ?kv k (aligned_len c (length ?kv)))"
    "req_pool c' = rtp_free (req_pool c) (FreeOne i)" "page_size c' = page_size c" "\<not> cache_disable c'"
    "live c \<subseteq> live c'" "\<forall>m\<in>live c. path_of c' m = path_of c m"
    by (rule cache_finished_req_spec [OF inv(1,2) _ r(1-3) n(1), folded req_tokens_def, OF _ r(4)]) (simp add: a(1))
  have kv': "kv_pool c' = TokenAlloc (tka_free a (seg ?kv ?pl k))" using f(6) inv(3) a(1) by simp
  have grp: "tka_is_not_in_free_group (tka_free a xs) = g" for xs using a(2) by (simp add: tka_free_def)
  have "?pl \<le> k" using match_covers_path [OF inv(1) n(2) r(6,5), of V] f(3,4) al by simp
  then have "mset (seg ?kv ?pl k) + mset (seg ?kv k (length (req_tokens r))) = mset (drop ?pl ?kv)"
    using seg_append [of ?pl k ?kv] f(5) al lk by (metis mset_append seg_def take_all order_refl)
  then have "radix_unused c' = radix_unused c + radix_owned c r"
    using f(7) kv' a(1) al r(1) kv_returned_free by (simp add: radix_unused_def radix_owned_def ac_simps)
  moreover have tab: "req_to_token (req_pool c') = req_to_token (req_pool c)" by (simp add: f(8))
  moreover have "radix_holding c' x" if x: "x \<in> set rs" for x
  proof -
    obtain j m where j: "req_pool_idx x = Some j" "j < length (req_to_token (req_pool c))" "last_node x = Some m"
      "length (req_tokens x) \<le> length (req_to_token (req_pool c) ! j)" "length (prefix_indices x) \<le> length (req_tokens x)"
      "path_of c m = take (length (prefix_indices x)) (req_tokens x)"
      using run x by (auto simp: radix_running_def radix_holding_def)
    have "m \<in># ?refs" using x j(3) by force
    then have "m \<in> live c" using inv(1) by (auto simp: radix_inv_def lock_ok_def)
    then show ?thesis using j f(12) tab by (simp add: radix_holding_def)
  qed
  ultimately show ?thesis
    using f(1,2,8-10) refs inv(3) kv' r(1) tab grp by (auto simp: radix_running_def radix_owned_def rtp_row_def)
qed

interpretation rdx: request_cache cache_finished_req "radix_running g others" radix_unused radix_owned "\<lambda>c. rtp_free_slots (req_pool c)"
  "\<lambda>c. rtp_size (req_pool c)"
proof
  show "radix_running g others c (r # rs) \<Longrightarrow>
    \<exists>c'. cache_finished_req c r = Some c' \<and> radix_running g others c' rs \<and> radix_unused c' = radix_unused c + radix_owned c r \<and>
      (\<forall>x\<in>set rs. radix_owned c' x = radix_owned c x) \<and>
      rtp_free_slots (req_pool c') = rtp_free_slots (req_pool c) @ [the (req_pool_idx r)] \<and>
      rtp_size (req_pool c') = rtp_size (req_pool c)" for c r rs
    by (rule radix_finishes)
next
  fix c and rs rs' :: "req list"
  assume "radix_running g others c rs" and m: "mset rs' = mset rs"
  moreover have "mset (map (\<lambda>r. the (last_node r)) rs') = mset (map (\<lambda>r. the (last_node r)) rs)" using m by simp
  ultimately show "radix_running g others c rs'" using mset_eq_setD [OF m] by (simp add: radix_running_def)
qed

subsection \<open>Chunk cache\<close>

definition chunk_running :: "chunk_cache \<Rightarrow> req list \<Rightarrow> bool" where
  "chunk_running c rs \<longleftrightarrow> (\<exists>a. ch_kv_pool c = TokenAlloc a) \<and>
     (\<forall>r\<in>set rs. \<exists>i. req_pool_idx r = Some i \<and> i < length (req_to_token (ch_req_pool c)))"

definition chunk_owned :: "chunk_cache \<Rightarrow> req \<Rightarrow> slot multiset" where
  "chunk_owned c r =
     mset (rtp_row (ch_req_pool c) (the (req_pool_idx r)) (length (origin_input_ids r) + (length (output_ids r) - 1)))"

interpretation chk: request_cache chunk_finished_req chunk_running "\<lambda>c. kv_returned (ch_kv_pool c)" chunk_owned
  "\<lambda>c. rtp_free_slots (ch_req_pool c)" "\<lambda>c. rtp_size (ch_req_pool c)"
proof
  fix c r and rs :: "req list"
  assume run: "chunk_running c (r # rs)"
  then obtain a i where a: "ch_kv_pool c = TokenAlloc a" "req_pool_idx r = Some i" "i < length (req_to_token (ch_req_pool c))"
    by (auto simp: chunk_running_def)
  let ?kv = "rtp_row (ch_req_pool c) i (length (origin_input_ids r) + (length (output_ids r) - 1))"
  let ?c = "c\<lparr>ch_req_pool := rtp_free (ch_req_pool c) (FreeOne i), ch_kv_pool := TokenAlloc (tka_free a ?kv)\<rparr>"
  have "chunk_finished_req c r = Some ?c" using a by (simp add: chunk_finished_req_def Let_def)
  moreover have "kv_returned (ch_kv_pool ?c) = kv_returned (ch_kv_pool c) + chunk_owned c r"
    using a kv_returned_free by (simp add: chunk_owned_def)
  moreover have "chunk_running ?c rs" using run by (simp add: chunk_running_def)
  ultimately show "\<exists>c'. chunk_finished_req c r = Some c' \<and> chunk_running c' rs \<and>
      kv_returned (ch_kv_pool c') = kv_returned (ch_kv_pool c) + chunk_owned c r \<and>
      (\<forall>x\<in>set rs. chunk_owned c' x = chunk_owned c x) \<and>
      rtp_free_slots (ch_req_pool c') = rtp_free_slots (ch_req_pool c) @ [the (req_pool_idx r)] \<and>
      rtp_size (ch_req_pool c') = rtp_size (ch_req_pool c)"
    using a(2) by (intro exI [of _ ?c]) (simp add: chunk_owned_def rtp_row_def)
next
  show "chunk_running c rs \<Longrightarrow> mset rs' = mset rs \<Longrightarrow> chunk_running c rs'" for c and rs rs' :: "req list"
    using mset_eq_setD [of rs' rs] by (simp add: chunk_running_def)
qed

end
