(* ===== verification/Scheduler_Result.thy ===== *)
theory Scheduler_Result
  imports Scheduler_Decode Prefix_Cache
begin

text \<open>
  Taking in the sampled tokens of a decode batch, \<open>process_batch_result_decode\<close>: every request gets
  its token, the requests that end with it hand their slots, row and lock over to the cache, and
  nothing is lost. When all of them end, the memory check of the idle scheduler passes.
\<close>

section \<open>One token for every request\<close>

definition answered :: "req \<Rightarrow> token \<Rightarrow> req" where
  "answered r t = r\<lparr>output_ids := output_ids r @ [t]\<rparr>"

text \<open>\<open>check_finished\<close> needs a token limit, and a tokenizer when there are stop strings.\<close>

definition checkable :: "req \<Rightarrow> bool" where
  "checkable r \<longleftrightarrow> max_new_tokens (r_params r) \<noteq> None \<and> (stop_list (stop_strs (r_params r)) = [] \<or> r_tokenizer r \<noteq> None)"

lemma check_stop_strs_total:
  "stop_list (stop_strs (r_params r)) = [] \<or> r_tokenizer r \<noteq> None \<Longrightarrow> \<exists>f. check_stop_strs r = Inr (r\<lparr>finished_reason := f\<rparr>)"
  by (cases "finished_reason r")
    (auto simp: check_stop_strs_def Let_def split: option.splits intro: exI [of _ "finished_reason r"])

lemma check_finished_total:
  assumes "checkable r" and "output_ids r \<noteq> []"
  shows "\<exists>f. check_finished term_after r = Inr (r\<lparr>finished_reason := f\<rparr>)"
proof -
  have keep: "\<exists>f. r = r\<lparr>finished_reason := f\<rparr>" by (rule exI [of _ "finished_reason r"]) simp
  have other: "\<exists>f. r\<lparr>finished_reason := x\<rparr> = r\<lparr>finished_reason := f\<rparr>" for x by blast
  obtain m where m: "max_new_tokens (r_params r) = Some m" using assms(1) by (auto simp: checkable_def)
  obtain t where t: "py_get (output_ids r) (- 1) = Inr t" using assms(2) by (cases "output_ids r") (auto simp: py_get_def)
  have stop: "\<exists>f. check_stop_strs r = Inr (r\<lparr>finished_reason := f\<rparr>)" using assms(1) by (intro check_stop_strs_total) (simp add: checkable_def)
  show ?thesis unfolding check_finished_def m t option.case sum.case using keep other stop by simp
qed

text \<open>The requests of a batch with their tokens, as \<open>check_finished\<close> leaves them.\<close>

definition checked :: "(nat \<Rightarrow> bool) \<Rightarrow> req list \<Rightarrow> token list \<Rightarrow> req list \<Rightarrow> bool" where
  "checked term_after rs toks rs' \<longleftrightarrow>
     list_all2 (\<lambda>x r'. check_finished term_after (answered (fst x) (snd x)) = Inr r' \<and>
        (\<exists>f. r' = (answered (fst x) (snd x))\<lparr>finished_reason := f\<rparr>)) (zip rs toks) rs'"

lemma checked_total:
  assumes "\<forall>r\<in>set rs. checkable r"
  shows "\<exists>rs'. checked term_after rs toks rs'"
  using assms
proof (induction rs arbitrary: toks)
  case (Cons r rs)
  show ?case
  proof (cases toks)
    case (Cons t ts)
    have "checkable (answered r t)" "output_ids (answered r t) \<noteq> []"
      using Cons.prems by (simp_all add: checkable_def answered_def)
    from check_finished_total [OF this] obtain f where
      "check_finished term_after (answered r t) = Inr ((answered r t)\<lparr>finished_reason := f\<rparr>)" by blast
    moreover obtain rs' where "checked term_after rs ts rs'" using Cons.IH Cons.prems by fastforce
    ultimately show ?thesis using Cons by (intro exI [of _ "(answered r t)\<lparr>finished_reason := f\<rparr> # rs'"]) (auto simp: checked_def)
  qed (auto simp: checked_def)
qed (auto simp: checked_def)

text \<open>The loop of the decode results is \<open>settle\<close> on the checked requests.\<close>

lemma decode_loop_settles:
  assumes "\<not> cfg_overlap cfg" and "\<forall>r\<in>set rs. \<not> is_retracted r" and "checked term_after rs toks rs'"
    and "length toks = length rs" and "settle cache_finished_req c rs' = Some c'"
  shows "for_reqs (decode_result term_after cfg b) i rs toks c = Inr (rs', c')"
  using assms(2-5)
proof (induction rs arbitrary: toks rs' c i)
  case Nil
  then show ?case by (simp add: checked_def)
next
  case (Cons r rs)
  obtain t ts where t: "toks = t # ts" "length ts = length rs" using Cons.prems(3) by (cases toks) auto
  obtain r1 rs1 where r1: "rs' = r1 # rs1" "check_finished term_after (answered r t) = Inr r1" "checked term_after rs ts rs1"
    using Cons.prems(2) t(1) by (auto simp: checked_def list_all2_Cons1)
  have step: "decode_result term_after cfg b i r t c =
      (if finished r1 then bind_result (the_result (cache_finished_req c r1)) (\<lambda>c1. Inr (r1, c1)) else Inr (r1, c))"
    using Cons.prems(1) assms(1) r1(2) by (simp add: decode_result_def answered_def bind_result_def)
  obtain c1 where c1: "settle cache_finished_req c1 rs1 = Some c'" "decode_result term_after cfg b i r t c = Inr (r1, c1)"
    using Cons.prems(4) r1(1) step by (auto simp: bind_result_def the_result_def split: if_splits option.splits)
  have "for_reqs (decode_result term_after cfg b) (Suc i) rs ts c1 = Inr (rs1, c')"
    using Cons.IH [of ts rs1 c1] Cons.prems(1) r1(3) t(2) c1(1) by simp
  then show ?case using c1(2) t(1) r1(1) by (simp add: bind_result_def)
qed

section \<open>What the requests hold\<close>

text \<open>A decoding request holds a slot for every token it has; the sampled one is not among them yet.\<close>

definition decoding :: "node_id multiset \<Rightarrow> radix_cache \<Rightarrow> req list \<Rightarrow> bool" where
  "decoding others c rs \<longleftrightarrow> radix_running True others c (map (\<lambda>r. answered r 0) rs)"

definition held :: "radix_cache \<Rightarrow> req \<Rightarrow> slot multiset" where
  "held c r = radix_owned c (answered r 0)"

definition same_hold :: "req \<Rightarrow> req \<Rightarrow> bool" where
  "same_hold r r' \<longleftrightarrow> req_pool_idx r' = req_pool_idx r \<and> last_node r' = last_node r \<and>
     prefix_indices r' = prefix_indices r \<and> req_tokens r' = req_tokens r"

lemma same_hold_owned: "same_hold r r' \<Longrightarrow> radix_owned c r' = radix_owned c r" "same_hold r r' \<Longrightarrow> radix_holding c r' = radix_holding c r"
  by (simp_all add: same_hold_def radix_owned_def radix_holding_def)

lemma same_hold_running:
  assumes "list_all2 same_hold rs rs'" and "radix_running g others c rs"
  shows "radix_running g others c rs'"
proof -
  have "map (\<lambda>r. the (last_node r)) rs' = map (\<lambda>r. the (last_node r)) rs"
    using assms(1) by (induction rule: list_all2_induct) (auto simp: same_hold_def)
  moreover have "\<forall>r'\<in>set rs'. \<exists>r\<in>set rs. same_hold r r'"
    using assms(1) by (induction rule: list_all2_induct) auto
  ultimately show ?thesis using assms(2) same_hold_owned(2) unfolding radix_running_def by metis
qed

lemma checked_same_hold:
  assumes "checked term_after rs toks rs'" and "length toks = length rs"
  shows "list_all2 same_hold (map (\<lambda>r. answered r 0) rs) rs'" and "length rs' = length rs"
proof -
  have "list_all2 (\<lambda>x r'. same_hold (answered (fst x) 0) r') (zip rs toks) rs'"
    using assms(1) unfolding checked_def
    by (rule list_all2_mono) (auto simp: same_hold_def answered_def req_tokens_def butlast_append)
  then have "list_all2 (\<lambda>r r'. same_hold (answered r 0) r') (map fst (zip rs toks)) rs'" unfolding list_all2_map1 .
  then show l: "list_all2 same_hold (map (\<lambda>r. answered r 0) rs) rs'" using assms(2) by (simp add: list_all2_map1)
  show "length rs' = length rs" using list_all2_lengthD [OF l] by simp
qed

lemma checked_owned:
  assumes "checked term_after rs toks rs'" and "length toks = length rs"
  shows "(\<Sum>r\<leftarrow>done_reqs rs'. radix_owned c r) = (\<Sum>(r, r')\<leftarrow>zip rs rs'. if finished r' then held c r else {#})"
    and "map (\<lambda>r. the (req_pool_idx r)) (done_reqs rs') = map (\<lambda>(r, r'). the (req_pool_idx r)) (filter (\<lambda>(r, r'). finished r') (zip rs rs'))"
proof -
  have "list_all2 (\<lambda>r r'. same_hold (answered r 0) r') rs rs'"
    using checked_same_hold(1) [OF assms] by (simp add: list_all2_map1)
  then show "(\<Sum>r\<leftarrow>done_reqs rs'. radix_owned c r) = (\<Sum>(r, r')\<leftarrow>zip rs rs'. if finished r' then held c r else {#})"
    "map (\<lambda>r. the (req_pool_idx r)) (done_reqs rs') = map (\<lambda>(r, r'). the (req_pool_idx r)) (filter (\<lambda>(r, r'). finished r') (zip rs rs'))"
    by (induction rule: list_all2_induct) (auto simp: held_def same_hold_owned(1) same_hold_def answered_def)
qed

section \<open>The free group\<close>

lemma group_running:
  assumes "radix_running True others c rs"
  shows "radix_running False others (c\<lparr>kv_pool := kv_group_begin (kv_pool c)\<rparr>) rs"
    "radix_unused (c\<lparr>kv_pool := kv_group_begin (kv_pool c)\<rparr>) = radix_unused c"
    "radix_owned (c\<lparr>kv_pool := kv_group_begin (kv_pool c)\<rparr>) r = radix_owned c r"
  using assms by (auto simp: radix_running_def radix_holding_def tka_free_group_begin_def radix_unused_def radix_owned_def)

lemma group_settled:
  assumes "radix_running False others c rs"
  shows "\<exists>a. kv_group_end (kv_pool c) = Inr a \<and> radix_running True others (c\<lparr>kv_pool := a\<rparr>) rs \<and>
    radix_unused (c\<lparr>kv_pool := a\<rparr>) = radix_unused c"
proof -
  obtain a where a: "kv_pool c = TokenAlloc a" "\<not> tka_is_not_in_free_group a" using assms by (auto simp: radix_running_def)
  let ?a = "tka_free_group_end a"
  have "tka_is_not_in_free_group ?a" "kv_returned (TokenAlloc ?a) = kv_returned (TokenAlloc a)"
    using a(2) by (auto simp: tka_free_group_end_def tka_free_def Let_def)
  then show ?thesis using assms a(1) by (auto simp: radix_running_def radix_holding_def radix_unused_def)
qed

section \<open>The results of a decode batch\<close>

lemma decode_results_spec:
  assumes dec: "decoding others (tree_cache s) (sb_reqs b)" and cfg: "\<not> cfg_overlap cfg" and toks: "length toks = length (sb_reqs b)"
    and rs: "\<forall>r\<in>set (sb_reqs b). \<not> is_retracted r" "checked term_after (sb_reqs b) toks rs'"
  shows "\<exists>s'. process_batch_result_decode term_after cfg s b toks = Inr (b\<lparr>sb_reqs := rs'\<rparr>, s') \<and>
    radix_running True others (tree_cache s') (still_running rs') \<and>
    radix_unused (tree_cache s') =
      radix_unused (tree_cache s) + (\<Sum>(r, r')\<leftarrow>zip (sb_reqs b) rs'. if finished r' then held (tree_cache s) r else {#}) \<and>
    rtp_free_slots (req_pool (tree_cache s')) = rtp_free_slots (req_pool (tree_cache s)) @
      map (\<lambda>(r, r'). the (req_pool_idx r)) (filter (\<lambda>(r, r'). finished r') (zip (sb_reqs b) rs')) \<and>
    rtp_size (req_pool (tree_cache s')) = rtp_size (req_pool (tree_cache s)) \<and> waiting_queue s' = waiting_queue s"
proof -
  let ?c = "tree_cache s" and ?c1 = "(tree_cache s)\<lparr>kv_pool := kv_group_begin (kv_pool (tree_cache s))\<rparr>"
  have run: "radix_running True others ?c rs'"
    using same_hold_running [OF checked_same_hold(1) [OF rs(2) toks]] dec by (simp add: decoding_def)
  note g = group_running [OF run]
  obtain c2 where c2: "settle cache_finished_req ?c1 rs' = Some c2" "radix_running False others c2 (still_running rs')"
    "radix_unused c2 = radix_unused ?c1 + (\<Sum>r\<leftarrow>done_reqs rs'. radix_owned ?c1 r)"
    "rtp_free_slots (req_pool c2) = rtp_free_slots (req_pool ?c1) @ map (\<lambda>r. the (req_pool_idx r)) (done_reqs rs')"
    "rtp_size (req_pool c2) = rtp_size (req_pool ?c1)"
    using rdx.settles [OF g(1)] by blast
  obtain a where a: "kv_group_end (kv_pool c2) = Inr a" "radix_running True others (c2\<lparr>kv_pool := a\<rparr>) (still_running rs')"
    "radix_unused (c2\<lparr>kv_pool := a\<rparr>) = radix_unused c2"
    using group_settled [OF c2(2)] by blast
  have "process_batch_result_decode term_after cfg s b toks = Inr (b\<lparr>sb_reqs := rs'\<rparr>,
      s\<lparr>tree_cache := c2\<lparr>kv_pool := a\<rparr>, num_generated_tokens := num_generated_tokens s + length (sb_reqs b),
        forward_ct_decode := Suc (forward_ct_decode s) mod 2 ^ 30\<rparr>)"
    using decode_loop_settles [OF cfg rs toks c2(1), where b = b and i = 0] a(1) by (simp add: process_batch_result_decode_def Let_def bind_result_def)
  then show ?thesis using a(2,3) c2(3-5) g(2,3) checked_owned(1) [OF rs(2) toks, where c = ?c] checked_owned(2) [OF rs(2) toks] by simp
qed

lemma unlocked_protected:
  assumes "radix_inv c {#}"
  shows "int (size (cached_slots c)) = evictable_size c"
proof -
  have "protected_sz c = 0"
    using assms by (simp add: radix_inv_def lock_ok_def lock_sum_def)
  then show ?thesis using total_size_split [OF assms] by (auto simp: protected_size_def)
qed

section \<open>Properties\<close>

text \<open>
  C10: Taking in the tokens of a decode batch always succeeds and loses nothing. Every request gets
  exactly its token and the finish reason that \<open>check_finished\<close> finds. The slots that finished
  requests held are afterwards free or cached, each exactly once, although the frees are collected
  in a group; their rows are released in order and only their locks are dropped, and the other
  requests hold what they held.
\<close>

theorem decode_results_settle:
  assumes "decoding others (tree_cache s) (sb_reqs b)" and "\<not> cfg_overlap cfg" and "length toks = length (sb_reqs b)"
    and "\<forall>r\<in>set (sb_reqs b). \<not> is_retracted r \<and> checkable r"
  shows "\<exists>rs' s'. process_batch_result_decode term_after cfg s b toks = Inr (b\<lparr>sb_reqs := rs'\<rparr>, s') \<and>
    checked term_after (sb_reqs b) toks rs' \<and> length rs' = length (sb_reqs b) \<and>
    radix_running True others (tree_cache s') (still_running rs') \<and>
    radix_unused (tree_cache s') =
      radix_unused (tree_cache s) + (\<Sum>(r, r')\<leftarrow>zip (sb_reqs b) rs'. if finished r' then held (tree_cache s) r else {#}) \<and>
    rtp_free_slots (req_pool (tree_cache s')) = rtp_free_slots (req_pool (tree_cache s)) @
      map (\<lambda>(r, r'). the (req_pool_idx r)) (filter (\<lambda>(r, r'). finished r') (zip (sb_reqs b) rs'))"
proof -
  have ok: "\<forall>r\<in>set (sb_reqs b). \<not> is_retracted r" "\<forall>r\<in>set (sb_reqs b). checkable r" using assms(4) by auto
  obtain rs' where rs': "checked term_after (sb_reqs b) toks rs'" using checked_total [OF ok(2)] by blast
  show ?thesis
    using decode_results_spec [OF assms(1-3) ok(1) rs'] rs' checked_same_hold(2) [OF rs' assms(3)] by blast
qed

text \<open>
  C11: A server that has answered everything has leaked nothing: if the slots that are free, cached
  or held by the decoding requests are all there are, and likewise the rows, and all of the
  requests end with their next token, then the memory check that the idle scheduler makes
  (\<open>check_memory\<close>, which raises on a leak) passes.
\<close>

theorem drained_server_passes_check:
  assumes "decoding {#} (tree_cache s) (sb_reqs b)" and "\<not> cfg_overlap cfg" and "length toks = length (sb_reqs b)"
    and "\<forall>r\<in>set (sb_reqs b). \<not> is_retracted r \<and> checkable r"
    and "int (size (radix_unused (tree_cache s) + (\<Sum>r\<leftarrow>sb_reqs b. held (tree_cache s) r))) = max_total_num_tokens cfg"
    and "length (rtp_free_slots (req_pool (tree_cache s))) + length (sb_reqs b) = rtp_size (req_pool (tree_cache s))"
    and "process_batch_result_decode term_after cfg s b toks = Inr (b', s')" and "\<forall>r\<in>set (sb_reqs b'). finished r"
  shows "check_memory cfg s' = Inr ()"
proof -
  let ?c = "tree_cache s" and ?c' = "tree_cache s'"
  have ok: "\<forall>r\<in>set (sb_reqs b). \<not> is_retracted r" "\<forall>r\<in>set (sb_reqs b). checkable r" using assms(4) by auto
  obtain rs' where rs': "checked term_after (sb_reqs b) toks rs'" using checked_total [OF ok(2)] by blast
  note len = checked_same_hold(2) [OF rs' assms(3)]
  note spec = decode_results_spec [OF assms(1-3) ok(1) rs']
  have all: "\<forall>r'\<in>set rs'. finished r'" using spec assms(7,8) by auto
  have pairs: "\<forall>x\<in>set (zip (sb_reqs b) rs'). finished (snd x)" using all by (auto dest: set_zip_rightD)
  have "map (\<lambda>(r, r'). if finished r' then held ?c r else {#}) (zip (sb_reqs b) rs') = map (held ?c) (map fst (zip (sb_reqs b) rs'))"
    using pairs by (auto simp: case_prod_beta)
  then have own: "(\<Sum>(r, r')\<leftarrow>zip (sb_reqs b) rs'. if finished r' then held ?c r else {#}) = (\<Sum>r\<leftarrow>sb_reqs b. held ?c r)"
    using len by simp
  have "filter (\<lambda>(r, r'). finished r') (zip (sb_reqs b) rs') = zip (sb_reqs b) rs'" using pairs by (intro filter_True) auto
  then have rows: "length (rtp_free_slots (req_pool ?c')) = rtp_size (req_pool ?c')" using spec assms(6,7) len by auto
  have "radix_running True {#} ?c' []" "size (radix_unused ?c') = size (radix_unused ?c + (\<Sum>r\<leftarrow>sb_reqs b. held ?c r))"
    using spec assms(7) own all by (auto simp: still_running_def)
  then obtain a where a: "radix_inv ?c' {#}" "kv_pool ?c' = TokenAlloc a" "tka_is_not_in_free_group a"
    "int (size (radix_unused ?c')) = max_total_num_tokens cfg"
    using assms(5) by (auto simp: radix_running_def)
  then have "int (kv_available (kv_pool ?c')) + evictable_size ?c' = max_total_num_tokens cfg"
    using unlocked_protected [OF a(1)] by (simp add: radix_unused_def tka_available_size_def)
  then show ?thesis using rows by (simp add: check_memory_def Let_def)
qed

text \<open>One request that holds four slots besides what is cached, and ends with its next token.\<close>

definition demo_last :: radix_cache where
  "demo_last = demo_cache\<lparr>kv_pool := TokenAlloc ((tka_init 10)\<lparr>tka_free_slots := [8, 9, 10]\<rparr>),
     req_pool := (rtp_init 2 8)\<lparr>req_to_token := [[4, 5, 6, 7, 0, 0, 0, 0], replicate 8 0], rtp_free_slots := [1]\<rparr>\<rparr>"

definition demo_last_batch :: schedule_batch where
  "demo_last_batch = demo_decode\<lparr>sb_reqs := [demo_req\<lparr>r_params := default_params\<lparr>max_new_tokens := Some 2\<rparr>\<rparr>]\<rparr>"

lemma demo_last_ok:
  "decoding {#} demo_last (sb_reqs demo_last_batch)" "\<forall>r\<in>set (sb_reqs demo_last_batch). \<not> is_retracted r \<and> checkable r"
  "map (held demo_last) (sb_reqs demo_last_batch) = [{#4, 5, 6, 7#}]"
  using demo_locked demo_inv(2,4) demo_root_path
  by (simp_all add: decoding_def radix_running_def radix_holding_def demo_last_def demo_last_batch_def demo_req_def req_init_def answered_def
      req_tokens_def tka_init_def tka_clear_def rtp_init_def checkable_def default_params_def held_def radix_owned_def rtp_row_def)

theorem decode_results_settle_witness:
  "\<exists>rs' s'. process_batch_result_decode (\<lambda>_. False) demo_cfg (demo_scheduler demo_last) demo_last_batch [9] =
     Inr (demo_last_batch\<lparr>sb_reqs := rs'\<rparr>, s') \<and> map output_ids rs' = [[6, 9]]"
proof -
  have "\<exists>rs' s'. process_batch_result_decode (\<lambda>_. False) demo_cfg (demo_scheduler demo_last) demo_last_batch [9] =
      Inr (demo_last_batch\<lparr>sb_reqs := rs'\<rparr>, s') \<and> checked (\<lambda>_. False) (sb_reqs demo_last_batch) [9] rs'"
    using decode_results_settle [of "{#}" "demo_scheduler demo_last" demo_last_batch demo_cfg "[9]" "\<lambda>_. False"] demo_last_ok(1,2)
    by (auto simp: demo_scheduler_def demo_cfg_def demo_last_batch_def)
  then show ?thesis by (auto simp: checked_def demo_last_batch_def answered_def demo_req_def list_all2_Cons1)
qed

theorem drained_server_passes_check_witness:
  "\<exists>b' s'. process_batch_result_decode (\<lambda>_. False) (demo_cfg\<lparr>max_total_num_tokens := 7 + evictable_size demo_cache\<rparr>)
     (demo_scheduler demo_last) demo_last_batch [9] = Inr (b', s') \<and>
     check_memory (demo_cfg\<lparr>max_total_num_tokens := 7 + evictable_size demo_cache\<rparr>) s' = Inr ()"
proof -
  let ?cfg = "demo_cfg\<lparr>max_total_num_tokens := 7 + evictable_size demo_cache\<rparr>" and ?s = "demo_scheduler demo_last" and ?b = demo_last_batch
  have dec: "decoding {#} (tree_cache ?s) (sb_reqs ?b)" "\<not> cfg_overlap ?cfg" "length [9 :: token] = length (sb_reqs ?b)"
    using demo_last_ok(1) by (simp_all add: demo_scheduler_def demo_cfg_def demo_last_batch_def)
  obtain rs' where rs': "checked (\<lambda>_. False) (sb_reqs ?b) [9] rs'" using checked_total demo_last_ok(2) by blast
  then have fin: "\<forall>r\<in>set rs'. finished r"
    by (auto simp: checked_def demo_last_batch_def list_all2_Cons1 answered_def demo_req_def req_init_def check_finished_def finished_def default_params_def
        split: if_splits)
  obtain s' where s': "process_batch_result_decode (\<lambda>_. False) ?cfg ?s ?b [9] = Inr (?b\<lparr>sb_reqs := rs'\<rparr>, s')"
    using decode_results_spec [OF dec _ rs'] demo_last_ok(2) by blast
  have "size (radix_unused demo_last) = 3 + size (cached_slots demo_cache)"
    by (simp add: radix_unused_def demo_last_def tka_init_def tka_clear_def)
  then have acc: "int (size (radix_unused (tree_cache ?s) + (\<Sum>r\<leftarrow>sb_reqs ?b. held (tree_cache ?s) r))) = max_total_num_tokens ?cfg"
    using demo_last_ok(3) unlocked_protected [OF demo_inv(1)] by (simp add: demo_scheduler_def)
  have rows: "length (rtp_free_slots (req_pool (tree_cache ?s))) + length (sb_reqs ?b) = rtp_size (req_pool (tree_cache ?s))"
    by (simp add: demo_scheduler_def demo_last_def demo_last_batch_def rtp_init_def)
  show ?thesis using drained_server_passes_check [OF dec demo_last_ok(2) acc rows s'] fin s' by auto
qed

end
