(* ===== verification/EPLB.thy ===== *)
theory EPLB
  imports Prelude Complex_Main
begin

text \<open>
  The expert-parallelism load balancer of \<open>managers/eplb_algorithms/deepseek.py\<close>: replicating the
  experts of a layer, packing the replicas onto devices, and the maps between logical and physical
  experts. A tensor is a list, with one list per layer; the loads are rationals. Two results of
  the tensor library are not determined by its documentation when there are ties, so they are
  parameters: \<open>order\<close> gives the indices of a list sorted by decreasing value, \<open>argmax\<close> an index of
  the greatest value.
\<close>

section \<open>Tensor operations\<close>

text \<open>\<open>gather\<close> and \<open>scatter_\<close> along the last dimension raise on an index out of range.\<close>

definition gather :: "'a list \<Rightarrow> int list \<Rightarrow> 'a list result" where
  "gather xs idx =
     (if \<forall>i\<in>set idx. 0 \<le> i \<and> i < int (length xs) then Inr (map (\<lambda>i. xs ! nat i) idx) else Inl RuntimeError)"

definition tensor_scatter :: "'a list \<Rightarrow> int list \<Rightarrow> 'a list \<Rightarrow> 'a list result" where
  "tensor_scatter base idx vals =
     (if \<forall>i\<in>set idx. 0 \<le> i \<and> i < int (length base)
      then Inr (foldl (\<lambda>xs (i, v). xs[nat i := v]) base (zip idx vals)) else Inl RuntimeError)"

definition arange :: "nat \<Rightarrow> int list" where
  "arange n = map int [0..<n]"

definition unflatten :: "nat \<Rightarrow> nat \<Rightarrow> 'a list \<Rightarrow> 'a list list" where
  "unflatten n k xs = map (\<lambda>i. take k (drop (i * k) xs)) [0..<n]"

fun map_result :: "('a \<Rightarrow> 'b result) \<Rightarrow> 'a list \<Rightarrow> 'b list result" where
  "map_result f [] = Inr []"
| "map_result f (x # xs) = bind_result (f x) (\<lambda>y. bind_result (map_result f xs) (\<lambda>ys. Inr (y # ys)))"

section \<open>Packing\<close>

text \<open>The first pack of the least weight among the candidates, as \<open>min\<close> with a key gives it.\<close>

fun first_min :: "(nat \<Rightarrow> rat) \<Rightarrow> nat list \<Rightarrow> nat option" where
  "first_min f [] = None"
| "first_min f (x # xs) =
     (case first_min f xs of None \<Rightarrow> Some x | Some y \<Rightarrow> if f y < f x then Some y else Some x)"

fun pack_loop ::
  "nat \<Rightarrow> rat list \<Rightarrow> nat list \<Rightarrow> int list \<Rightarrow> int list \<Rightarrow> rat list \<Rightarrow> nat list \<Rightarrow> (int list \<times> int list) result" where
  "pack_loop per weight [] pack_index rank_in_pack pack_weights pack_items = Inr (pack_index, rank_in_pack)"
| "pack_loop per weight (g # gs) pack_index rank_in_pack pack_weights pack_items =
     (case first_min (\<lambda>i. pack_weights ! i) (filter (\<lambda>i. pack_items ! i < per) [0..<length pack_items]) of
        None \<Rightarrow> Inl ValueError
      | Some p \<Rightarrow>
          pack_loop per weight gs (pack_index[g := int p]) (rank_in_pack[g := int (pack_items ! p)])
            (pack_weights[p := pack_weights ! p + weight ! g]) (pack_items[p := Suc (pack_items ! p)]))"

definition balanced_packing ::
  "(rat list \<Rightarrow> nat list) \<Rightarrow> rat list \<Rightarrow> nat \<Rightarrow> (int list \<times> int list) result" where
  "balanced_packing order weight num_packs =
     (let n = length weight in
      if num_packs = 0 then Inl ZeroDivisionError
      else if n mod num_packs \<noteq> 0 then Inl AssertionError
      else
        (let per = n div num_packs in
         if per = 1 then Inr (arange n, replicate n 0)
         else pack_loop per weight (order weight) (replicate n (- 1)) (replicate n (- 1))
                (replicate num_packs 0) (replicate num_packs 0)))"

section \<open>Replication\<close>

fun replicate_loop ::
  "(rat list \<Rightarrow> nat) \<Rightarrow> rat list \<Rightarrow> nat list \<Rightarrow> int list \<Rightarrow> int list \<Rightarrow> int list \<Rightarrow> (int list \<times> int list \<times> int list) result" where
  "replicate_loop argmax weight [] phy2log rank logcnt = Inr (phy2log, rank, logcnt)"
| "replicate_loop argmax weight (i # is) phy2log rank logcnt =
     (if weight = [] then Inl IndexError
      else
        (let r = argmax (map2 (\<lambda>w c. w / of_int c) weight logcnt)
         in replicate_loop argmax weight is (phy2log[i := int r]) (rank[i := logcnt ! r]) (logcnt[r := logcnt ! r + 1])))"

definition replicate_experts ::
  "(rat list \<Rightarrow> nat) \<Rightarrow> rat list \<Rightarrow> nat \<Rightarrow> (int list \<times> int list \<times> int list) result" where
  "replicate_experts argmax weight num_phy =
     (let num_log = length weight in
      if num_phy < num_log then Inl AssertionError
      else replicate_loop argmax weight [num_log..<num_phy] (arange num_phy) (replicate num_phy 0) (replicate num_log 1))"

section \<open>The hierarchical policy\<close>

definition inverse_perm :: "int list \<Rightarrow> int list result" where
  "inverse_perm perm = tensor_scatter (replicate (length perm) 0) perm (arange (length perm))"

text \<open>Step 1: the groups of experts are packed to nodes.\<close>

definition pack_groups ::
  "(rat list \<Rightarrow> nat list) \<Rightarrow> rat list \<Rightarrow> nat \<Rightarrow> nat \<Rightarrow> (int list \<times> int list) result" where
  "pack_groups order weight num_groups num_nodes =
     (let group_size = length weight div num_groups; groups_per_node = num_groups div num_nodes in
      bind_result (balanced_packing order (map sum_list (unflatten num_groups group_size weight)) num_nodes) (\<lambda>(pack, rank).
      let log2mlog = concat (map (\<lambda>(p, r). map (\<lambda>j. (p * int groups_per_node + r) * int group_size + j) (arange group_size))
                       (zip pack rank)) in
      bind_result (inverse_perm log2mlog) (\<lambda>mlog2log. Inr (log2mlog, mlog2log))))"

text \<open>Steps 2 and 3 for one node: its experts are replicated and packed to its devices.\<close>

definition place_node ::
  "(rat list \<Rightarrow> nat list) \<Rightarrow> (rat list \<Rightarrow> nat) \<Rightarrow> nat \<Rightarrow> nat \<Rightarrow> nat \<Rightarrow> rat list \<Rightarrow> (int list \<times> int list \<times> int list) result" where
  "place_node order argmax num_phy num_packs per_gpu tokens_per_mlog =
     bind_result (replicate_experts argmax tokens_per_mlog num_phy) (\<lambda>(phy2mlog, phyrank, mlogcnt).
     bind_result (gather (map2 (\<lambda>w c. w / of_int c) tokens_per_mlog mlogcnt) phy2mlog) (\<lambda>tokens_per_phy.
     bind_result (balanced_packing order tokens_per_phy num_packs) (\<lambda>(pack, rank).
     bind_result (inverse_perm (map2 (\<lambda>p r. p * int per_gpu + r) pack rank)) (\<lambda>pphy2phy.
     bind_result (gather phy2mlog pphy2phy) (\<lambda>pphy2mlog.
     bind_result (gather phyrank pphy2phy) (\<lambda>pphyrank. Inr (pphy2mlog, pphyrank, mlogcnt)))))))"

definition rebalance_experts_hierarchical ::
  "(rat list \<Rightarrow> nat list) \<Rightarrow> (rat list \<Rightarrow> nat) \<Rightarrow> rat list \<Rightarrow> nat \<Rightarrow> nat \<Rightarrow> nat \<Rightarrow> nat \<Rightarrow>
   (int list \<times> int list \<times> int list) result" where
  "rebalance_experts_hierarchical order argmax weight num_physical num_groups num_nodes num_gpus =
     (let num_logical = length weight in
      if num_groups = 0 \<or> num_nodes = 0 then Inl ZeroDivisionError
      else if num_logical mod num_groups \<noteq> 0 \<or> num_groups mod num_nodes \<noteq> 0 \<or> num_gpus mod num_nodes \<noteq> 0 then Inl AssertionError
      else if num_gpus = 0 then Inl ZeroDivisionError
      else if num_physical mod num_gpus \<noteq> 0 then Inl AssertionError
      else
        (let per_gpu = num_physical div num_gpus; per_node = num_logical div num_nodes in
         bind_result (pack_groups order weight num_groups num_nodes) (\<lambda>(log2mlog, mlog2log).
         bind_result (gather weight mlog2log) (\<lambda>tokens_per_mlog.
         bind_result (map_result (place_node order argmax (num_physical div num_nodes) (num_gpus div num_nodes) per_gpu)
                        (unflatten num_nodes per_node tokens_per_mlog)) (\<lambda>placed.
         let pphy2mlog = concat (map2 (\<lambda>k t. map (\<lambda>x. x + int (k * per_node)) (fst t)) [0..<num_nodes] placed) in
         bind_result (gather mlog2log pphy2mlog) (\<lambda>pphy2log.
         bind_result (gather (concat (map (\<lambda>t. snd (snd t)) placed)) log2mlog) (\<lambda>logcnt.
           Inr (pphy2log, concat (map (\<lambda>t. fst (snd t)) placed), logcnt))))))))"

section \<open>The entry point\<close>

text \<open>
  \<open>maxlogcnt\<close> is the maximum over all layers. The map from logical to physical experts has a row of
  that length for every expert, filled up with \<open>-1\<close>; it is written as a flat list per layer.
\<close>

definition rebalance_experts ::
  "(rat list \<Rightarrow> nat list) \<Rightarrow> (rat list \<Rightarrow> nat) \<Rightarrow> rat list list \<Rightarrow> nat \<Rightarrow> nat \<Rightarrow> nat \<Rightarrow> nat \<Rightarrow> bool \<Rightarrow>
   (int list \<times> int list list \<times> int list) list result" where
  "rebalance_experts order argmax weight num_replicas num_groups num_nodes num_gpus enable_hierarchical =
     bind_result
       (map_result (\<lambda>w. if enable_hierarchical
                        then rebalance_experts_hierarchical order argmax w num_replicas num_groups num_nodes num_gpus
                        else rebalance_experts_hierarchical order argmax w num_replicas 1 1 num_gpus) weight) (\<lambda>maps.
     if concat (map (\<lambda>t. snd (snd t)) maps) = [] then Inl RuntimeError
     else
       (let maxlogcnt = Max (set (concat (map (\<lambda>t. snd (snd t)) maps)))
        in map_result (\<lambda>(phy2log, phyrank, logcnt).
             bind_result (tensor_scatter (replicate (length logcnt * nat maxlogcnt) (- 1))
                            (map2 (\<lambda>l r. l * maxlogcnt + r) phy2log phyrank) (arange num_replicas)) (\<lambda>flat.
               Inr (phy2log, unflatten (length logcnt) (nat maxlogcnt) flat, logcnt))) maps))"

end
