(* ===== verification/EPLB_Props.thy ===== *)
theory EPLB_Props
  imports EPLB
begin

text \<open>
  Correctness of the load balancer: packing fills every pack exactly, replication minimises the
  greatest load of a replica, and the maps between logical and physical experts are inverse to
  each other in every layer.
\<close>

section \<open>Permutations, gather and scatter\<close>

lemma bind_Inr [simp]: "bind_result (Inr x) f = f x"
  by (simp add: bind_result_def)

definition perm_of :: "nat \<Rightarrow> nat list \<Rightarrow> bool" where
  "perm_of n ps \<longleftrightarrow> length ps = n \<and> set ps = {..<n}"

lemma perm_of_distinct: "perm_of n ps \<Longrightarrow> distinct ps"
  by (simp add: perm_of_def card_distinct)

lemma perm_of_bij: "perm_of n ps \<Longrightarrow> bij_betw (\<lambda>i. ps ! i) {..<n} {..<n}"
  by (rule bij_betw_nth) (simp_all add: perm_of_distinct perm_of_def)

lemma gather_ok: "\<forall>i\<in>set idx. i < length xs \<Longrightarrow> gather xs (map int idx) = Inr (map (\<lambda>i. xs ! i) idx)"
  by (simp add: gather_def)

lemma foldl_update:
  assumes "distinct idx" and "length vals = length idx" and "\<forall>i\<in>set idx. i < length base"
  shows "length (foldl (\<lambda>xs (i, v). xs[nat i := v]) base (zip (map int idx) vals)) = length base \<and>
    (\<forall>k<length idx. foldl (\<lambda>xs (i, v). xs[nat i := v]) base (zip (map int idx) vals) ! (idx ! k) = vals ! k) \<and>
    (\<forall>j. j \<notin> set idx \<longrightarrow> foldl (\<lambda>xs (i, v). xs[nat i := v]) base (zip (map int idx) vals) ! j = base ! j)"
  using assms
proof (induction idx arbitrary: vals base)
  case (Cons i idx)
  obtain v vs where vals: "vals = v # vs" using Cons.prems(2) by (cases vals) auto
  note IH = Cons.IH [of vs "base[i := v]"]
  show ?case
    using IH Cons.prems by (auto simp: vals nth_Cons split: nat.split)
qed simp

lemma scatter_ok:
  assumes "distinct idx" and "length vals = length idx" and "\<forall>i\<in>set idx. i < length base"
  shows "\<exists>ys. tensor_scatter base (map int idx) vals = Inr ys \<and> length ys = length base \<and>
    (\<forall>k<length idx. ys ! (idx ! k) = vals ! k) \<and> (\<forall>j. j \<notin> set idx \<longrightarrow> ys ! j = base ! j)"
  using foldl_update [OF assms] assms(3) by (auto simp: tensor_scatter_def)

lemma arange_nth: "i < n \<Longrightarrow> arange n ! i = int i" and length_arange [simp]: "length (arange n) = n"
  by (simp_all add: arange_def)

lemma inverse_perm_ok:
  assumes "perm_of n ps"
  obtains qs where "inverse_perm (map int ps) = Inr (map int qs)" "perm_of n qs"
    "\<And>k. k < n \<Longrightarrow> qs ! (ps ! k) = k" "\<And>k. k < n \<Longrightarrow> ps ! (qs ! k) = k"
proof -
  have l: "length ps = n" "set ps = {..<n}" using assms by (auto simp: perm_of_def)
  obtain ys where ys: "inverse_perm (map int ps) = Inr ys" "length ys = n" "\<forall>k<n. ys ! (ps ! k) = arange n ! k"
    using scatter_ok [OF perm_of_distinct [OF assms], of "arange n" "replicate n 0"] l by (auto simp: inverse_perm_def)
  define qs where "qs = map nat ys"
  have k: "\<exists>j<n. ps ! j = i" if "i < n" for i using that l by (metis in_set_conv_nth lessThan_iff)
  have q: "qs ! (ps ! j) = j \<and> ys ! (ps ! j) = int j" if "j < n" for j
    using ys(2,3) that l nth_mem [of j ps] by (simp add: qs_def arange_nth)
  have inv: "ps ! (qs ! i) = i \<and> qs ! i < n \<and> ys ! i = int (qs ! i)" if i: "i < n" for i
  proof -
    obtain j where "j < n" "ps ! j = i" using k [OF i] by blast
    then show ?thesis using q [of j] by simp
  qed
  have len: "length qs = n" using ys(2) by (simp add: qs_def)
  have eq: "ys = map int qs" using inv ys(2) len by (intro nth_equalityI) auto
  have "set qs = {..<n}"
  proof -
    have "i \<in> set qs" if "i < n" for i
      using q [OF that] nth_mem [of "ps ! i" qs] that l nth_mem [of i ps] len by simp
    moreover have "set qs \<subseteq> {..<n}" using inv len unfolding set_conv_nth by blast
    ultimately show ?thesis by blast
  qed
  then have "perm_of n qs" using len by (simp add: perm_of_def)
  then show thesis using that ys(1) eq q inv by blast
qed

section \<open>Packing\<close>

text \<open>Documented behaviour of the sort: the indices, with decreasing values.\<close>

definition sorts_descending :: "(rat list \<Rightarrow> nat list) \<Rightarrow> bool" where
  "sorts_descending order \<longleftrightarrow>
     (\<forall>xs. perm_of (length xs) (order xs) \<and> sorted_wrt (\<ge>) (map (\<lambda>i. xs ! i) (order xs)))"

lemma first_min_None: "first_min f xs = None \<longleftrightarrow> xs = []"
  by (cases xs) (auto split: option.splits)

lemma first_min_Some:
  assumes "first_min f xs = Some p"
  shows "p \<in> set xs" "\<forall>x\<in>set xs. f p \<le> f x"
proof -
  have "p \<in> set xs \<and> (\<forall>x\<in>set xs. f p \<le> f x)"
    using assms by (induction xs arbitrary: p) (force split: option.splits if_splits simp: first_min_None)+
  then show "p \<in> set xs" "\<forall>x\<in>set xs. f p \<le> f x" by auto
qed

text \<open>The items in \<open>D\<close> have been packed.\<close>

definition packed :: "nat \<Rightarrow> nat \<Rightarrow> nat \<Rightarrow> nat set \<Rightarrow> int list \<Rightarrow> int list \<Rightarrow> nat list \<Rightarrow> bool" where
  "packed n m per D pidx rnk items \<longleftrightarrow>
     length pidx = n \<and> length rnk = n \<and> length items = m \<and> (\<forall>p<m. items ! p \<le> per) \<and> sum_list items = card D \<and>
     (\<forall>g\<in>D. \<exists>p<m. \<exists>r<items ! p. pidx ! g = int p \<and> rnk ! g = int r) \<and> inj_on (\<lambda>g. (pidx ! g, rnk ! g)) D"

lemma packed_item:
  "packed n m per D pidx rnk items \<Longrightarrow> g \<in> D \<Longrightarrow> \<exists>p<m. \<exists>r<items ! p. pidx ! g = int p \<and> rnk ! g = int r"
  by (simp add: packed_def)

lemma packed_step:
  assumes D: "packed n m per D pidx rnk items" "finite D" "g \<notin> D" "g < n" and p: "p < m" "items ! p < per"
  shows "packed n m per (insert g D) (pidx[g := int p]) (rnk[g := int (items ! p)]) (items[p := Suc (items ! p)])"
proof -
  let ?pi = "pidx[g := int p]" and ?ri = "rnk[g := int (items ! p)]" and ?it = "items[p := Suc (items ! p)]"
  have len: "length pidx = n" "length rnk = n" "length items = m" using D(1) by (auto simp: packed_def)
  have old: "?pi ! x = pidx ! x" "?ri ! x = rnk ! x" if "x \<in> D" for x using that D(3) by (metis nth_list_update_neq)+
  have new: "?pi ! g = int p" "?ri ! g = int (items ! p)" using len D(4) by simp_all
  have mem: "\<exists>q<m. \<exists>r<?it ! q. ?pi ! x = int q \<and> ?ri ! x = int r" if "x \<in> insert g D" for x
  proof (cases "x = g")
    case True
    then show ?thesis using new p(1) len by (intro exI [of _ p] conjI exI [of _ "items ! p"]) auto
  next
    case False
    then have x: "x \<in> D" using that by blast
    obtain q r where qr: "q < m" "r < items ! q" "pidx ! x = int q" "rnk ! x = int r" using packed_item [OF D(1) x] by blast
    have "items ! q \<le> ?it ! q" using len p(1) by (cases "q = p") auto
    then have "r < ?it ! q" using qr(2) by linarith
    then show ?thesis using old [OF x] qr by (intro exI [of _ q] exI [of _ r] conjI) simp_all
  qed
  have fresh: "(?pi ! x, ?ri ! x) \<noteq> (?pi ! g, ?ri ! g)" if x: "x \<in> D" for x
  proof -
    obtain q r where "r < items ! q" "pidx ! x = int q" "rnk ! x = int r" using packed_item [OF D(1) x] by blast
    then show ?thesis using old [OF x] new by auto
  qed
  have "inj_on (\<lambda>x. (?pi ! x, ?ri ! x)) D" using D(1) old by (auto simp: packed_def inj_on_def)
  moreover have "(?pi ! g, ?ri ! g) \<notin> (\<lambda>x. (?pi ! x, ?ri ! x)) ` (D - {g})"
  proof (rule notI, erule imageE)
    fix x assume e: "(?pi ! g, ?ri ! g) = (?pi ! x, ?ri ! x)" and "x \<in> D - {g}"
    then have "x \<in> D" by blast
    from fresh [OF this] e show False by (metis)
  qed
  ultimately have "inj_on (\<lambda>x. (?pi ! x, ?ri ! x)) (insert g D)" by (simp only: inj_on_insert simp_thms)
  moreover have "sum_list ?it = card (insert g D)"
    using D(1-3) p(1) len by (simp add: packed_def sum_list_update)
  moreover have "\<forall>q<m. ?it ! q \<le> per" using D(1) p len by (auto simp: packed_def nth_list_update)
  ultimately show ?thesis using mem len unfolding packed_def by simp
qed

lemma packed_room:
  assumes "packed n m per D pidx rnk items" and "card D < m * per"
  shows "\<exists>p<m. items ! p < per"
proof (rule ccontr)
  assume "\<not> ?thesis"
  then have ge: "per \<le> items ! p" if "p < m" for p using that by (meson not_less)
  have "items ! p = per" if "p < m" for p using ge [OF that] that assms(1) by (simp add: packed_def le_antisym)
  then have "items = replicate m per" using assms(1) by (intro nth_equalityI) (simp_all add: packed_def)
  then have "sum_list items = m * per" by (simp add: sum_list_replicate)
  then show False using assms by (simp add: packed_def)
qed

lemma pack_loop_ok:
  assumes "packed n m per D pidx rnk items" and "finite D" "distinct gs" "set gs \<inter> D = {}" "\<forall>g\<in>set gs. g < n"
    and "card D + length gs \<le> m * per"
  shows "\<exists>pidx' rnk' items'. pack_loop per w gs pidx rnk pw items = Inr (pidx', rnk') \<and> packed n m per (D \<union> set gs) pidx' rnk' items'"
  using assms
proof (induction gs arbitrary: D pidx rnk pw items)
  case (Cons g gs)
  have room: "\<exists>p<m. items ! p < per" using packed_room [OF Cons.prems(1)] Cons.prems(6) by simp
  let ?cs = "filter (\<lambda>i. items ! i < per) [0..<length items]"
  have "?cs \<noteq> []" using room Cons.prems(1) by (auto simp: packed_def filter_empty_conv)
  then obtain p where p: "first_min (\<lambda>i. pw ! i) ?cs = Some p" by (metis first_min_None option.exhaust)
  then have pm: "p < m" "items ! p < per" using first_min_Some(1) [OF p] Cons.prems(1) by (auto simp: packed_def)
  have st: "packed n m per (insert g D) (pidx[g := int p]) (rnk[g := int (items ! p)]) (items[p := Suc (items ! p)])"
    using Cons.prems pm by (intro packed_step) auto
  show ?case
    using Cons.IH [OF st, of "pw[p := pw ! p + w ! g]"] Cons.prems p by auto
qed auto

lemma slots_perm:
  assumes "packed (m * per) m per {..<m * per} pidx rnk items"
  shows "\<exists>ps. perm_of (m * per) ps \<and> map2 (\<lambda>p r. p * int per + r) pidx rnk = map int ps"
proof -
  let ?n = "m * per"
  have len: "length pidx = ?n" "length rnk = ?n" using assms by (auto simp: packed_def)
  have g: "\<exists>p<m. \<exists>r<per. pidx ! g = int p \<and> rnk ! g = int r" if gn: "g < ?n" for g
  proof -
    from gn have "g \<in> {..<?n}" by simp
    from packed_item [OF assms this] obtain p r where "p < m" "r < items ! p" "pidx ! g = int p" "rnk ! g = int r" by blast
    moreover then have "r < per" using assms by (fastforce simp: packed_def)
    ultimately show ?thesis by blast
  qed
  define ps where "ps = map (\<lambda>g. nat (pidx ! g) * per + nat (rnk ! g)) [0..<?n]"
  have ps: "ps ! g = nat (pidx ! g) * per + nat (rnk ! g)" if "g < ?n" for g using that by (simp add: ps_def)
  have lt: "ps ! i < ?n" if i: "i < ?n" for i
  proof -
    obtain p r where "p < m" "r < per" "pidx ! i = int p" "rnk ! i = int r" using g [OF i] by blast
    then have "ps ! i < Suc p * per" "Suc p * per \<le> ?n" using ps [OF i] mult_le_mono1 [of "Suc p" m per] by simp_all
    then show ?thesis by linarith
  qed
  have "inj_on (\<lambda>i. ps ! i) {..<?n}"
  proof (rule inj_onI)
    fix i j assume ij: "i \<in> {..<?n}" "j \<in> {..<?n}" "ps ! i = ps ! j"
    obtain p r where i: "r < per" "pidx ! i = int p" "rnk ! i = int r" using g [of i] ij(1) by blast
    obtain p' r' where j: "r' < per" "pidx ! j = int p'" "rnk ! j = int r'" using g [of j] ij(2) by blast
    have e: "p * per + r = p' * per + r'" using ij ps i j by simp
    have "(p * per + r) div per = (p' * per + r') div per" "(p * per + r) mod per = (p' * per + r') mod per" by (simp_all only: e)
    then have "p = p'" "r = r'" using i(1) j(1) by simp_all
    then show "i = j" using assms i j ij(1,2) by (auto simp: packed_def inj_on_def)
  qed
  moreover have "length ps = ?n" by (simp add: ps_def)
  then have "set ps = (\<lambda>i. ps ! i) ` {..<?n}" by (auto simp: set_conv_nth)
  ultimately have "card (set ps) = ?n" "set ps \<subseteq> {..<?n}" using lt by (auto simp: card_image)
  then have "set ps = {..<?n}" by (simp add: card_subset_eq)
  then have "perm_of ?n ps" by (simp add: perm_of_def ps_def)
  moreover have "map2 (\<lambda>p r. p * int per + r) pidx rnk = map int ps"
  proof (rule nth_equalityI)
    fix i assume "i < length (map2 (\<lambda>p r. p * int per + r) pidx rnk)"
    then have i: "i < ?n" using len by simp
    obtain p r where "pidx ! i = int p" "rnk ! i = int r" using g [OF i] by blast
    then show "map2 (\<lambda>p r. p * int per + r) pidx rnk ! i = map int ps ! i" using i len ps [OF i] by (simp add: ps_def)
  qed (simp add: len ps_def)
  ultimately show ?thesis by blast
qed

lemma balanced_packing_ok:
  assumes "sorts_descending order" and m: "0 < m" and n: "length w = m * per"
  shows "\<exists>pidx rnk items. balanced_packing order w m = Inr (pidx, rnk) \<and> packed (m * per) m per {..<m * per} pidx rnk items"
proof (cases "per = 1")
  case True
  have "sum_list (replicate m 1) = (m :: nat)" by (simp add: sum_list_replicate)
  then have "packed (m * per) m per {..<m * per} (arange m) (replicate m 0) (replicate m 1)"
    using True by (auto simp: packed_def arange_def inj_on_def)
  then show ?thesis using m n True by (auto simp: balanced_packing_def Let_def)
next
  case False
  let ?n = "m * per"
  have o: "perm_of ?n (order w)" using assms(1) n unfolding sorts_descending_def by metis
  have "packed ?n m per {} (replicate ?n (- 1)) (replicate ?n (- 1)) (replicate m 0)" by (simp add: packed_def sum_list_replicate)
  from pack_loop_ok [OF this, of "order w" w "replicate m 0"] o perm_of_distinct [OF o]
  show ?thesis using m n False by (auto simp: balanced_packing_def Let_def perm_of_def)
qed

section \<open>Replication\<close>

text \<open>Documented behaviour of \<open>max\<close>: an index of the greatest value.\<close>

definition finds_max :: "(rat list \<Rightarrow> nat) \<Rightarrow> bool" where
  "finds_max argmax \<longleftrightarrow> (\<forall>xs. xs \<noteq> [] \<longrightarrow> argmax xs < length xs \<and> (\<forall>x\<in>set xs. x \<le> xs ! argmax xs))"

text \<open>
  The first \<open>n\<close> physical experts are exactly the replicas of the logical experts: the pairs of
  expert and rank are in bijection with the ranks below the counts.
\<close>

definition replicas :: "int list \<Rightarrow> (int \<times> int) set" where
  "replicas cnt = {(e, r). 0 \<le> e \<and> e < int (length cnt) \<and> 0 \<le> r \<and> r < cnt ! nat e}"

definition placement :: "nat \<Rightarrow> int list \<Rightarrow> int list \<Rightarrow> int list \<Rightarrow> bool" where
  "placement n phy2log rank cnt \<longleftrightarrow>
     n \<le> length phy2log \<and> length rank = length phy2log \<and> (\<forall>c\<in>set cnt. 1 \<le> c) \<and>
     bij_betw (\<lambda>p. (phy2log ! p, rank ! p)) {..<n} (replicas cnt)"

lemma sum_list_update_int: "i < length xs \<Longrightarrow> sum_list (xs[i := v]) = sum_list xs - xs ! i + (v :: int)"
  by (induction xs arbitrary: i) (auto split: nat.splits)

lemma placement_step:
  assumes "placement n phy2log rank cnt" and "n < length phy2log" and r: "r < length cnt"
  shows "placement (Suc n) (phy2log[n := int r]) (rank[n := cnt ! r]) (cnt[r := cnt ! r + 1])"
proof -
  let ?p = "phy2log[n := int r]" and ?k = "rank[n := cnt ! r]" and ?c = "cnt[r := cnt ! r + 1]"
  have len: "length rank = length phy2log" and pos: "\<forall>c\<in>set cnt. 1 \<le> c" using assms(1) by (auto simp: placement_def)
  have "bij_betw (\<lambda>p. (?p ! p, ?k ! p)) {..<n} (replicas cnt) \<longleftrightarrow> bij_betw (\<lambda>p. (phy2log ! p, rank ! p)) {..<n} (replicas cnt)"
    by (rule bij_betw_cong) simp
  then have "bij_betw (\<lambda>p. (?p ! p, ?k ! p)) {..<n} (replicas cnt)"
    using assms(1) by (simp only: placement_def)
  moreover have at: "(?p ! n, ?k ! n) = (int r, cnt ! r)" using assms(2) len by simp
  moreover have "(int r, cnt ! r) \<notin> replicas cnt" by (simp add: replicas_def)
  ultimately have "bij_betw (\<lambda>p. (?p ! p, ?k ! p)) ({..<n} \<union> {n}) (replicas cnt \<union> {(int r, cnt ! r)})"
    using notIn_Un_bij_betw [of n "{..<n}" "\<lambda>p. (?p ! p, ?k ! p)" "replicas cnt"] by simp
  moreover have "{..<n} \<union> {n} = {..<Suc n}" by auto
  moreover have "replicas cnt \<union> {(int r, cnt ! r)} = replicas ?c"
  proof -
    have "1 \<le> cnt ! r" using pos r by simp
    then show ?thesis using r by (auto simp: replicas_def nth_list_update split: if_splits)
  qed
  moreover have "1 \<le> cnt ! r" using pos r by simp
  then have "\<forall>c\<in>set ?c. 1 \<le> c" using pos set_update_subset_insert [of cnt r "cnt ! r + 1"] by (auto dest: subsetD)
  ultimately show ?thesis using assms(2) len by (simp add: placement_def)
qed

text \<open>
  The greedy invariant: taking the last replica away from an expert would make its load at least
  the greatest load of the others.
\<close>

definition greedy :: "rat list \<Rightarrow> int list \<Rightarrow> bool" where
  "greedy w cnt \<longleftrightarrow>
     (\<forall>e<length w. \<forall>e'<length w. 1 < cnt ! e \<longrightarrow> w ! e' / of_int (cnt ! e') \<le> w ! e / of_int (cnt ! e - 1))"

lemma greedy_step:
  assumes g: "greedy w cnt" and len: "length cnt = length w" and pos: "\<forall>c\<in>set cnt. 1 \<le> c" and w: "\<forall>x\<in>set w. 0 \<le> x"
    and r: "r < length w" "\<forall>e<length w. w ! e / of_int (cnt ! e) \<le> w ! r / of_int (cnt ! r)"
  shows "greedy w (cnt[r := cnt ! r + 1])"
  unfolding greedy_def
proof (intro allI impI)
  let ?c = "cnt[r := cnt ! r + 1]"
  fix e e' assume e: "e < length w" "e' < length w" "1 < ?c ! e"
  have cr: "1 \<le> cnt ! r" using pos r(1) len by simp
  have less: "w ! e' / of_int (?c ! e') \<le> w ! e' / of_int (cnt ! e')"
  proof (cases "e' = r")
    case True
    have "(1 :: rat) \<le> of_int (cnt ! r)" using cr by simp
    then show ?thesis using True r(1) len w by (auto intro!: divide_left_mono simp: nth_mem)
  qed simp
  show "w ! e' / of_int (?c ! e') \<le> w ! e / of_int (?c ! e - 1)"
  proof (cases "e = r")
    case True
    then have "?c ! e - 1 = cnt ! r" using r(1) len by simp
    then show ?thesis using less r(2) e(2) True by fastforce
  next
    case False
    then have c: "?c ! e = cnt ! e" by simp
    then have "w ! e' / of_int (cnt ! e') \<le> w ! e / of_int (cnt ! e - 1)"
      using g e unfolding greedy_def by simp
    then show ?thesis unfolding c using less by (rule order_trans [rotated])
  qed
qed

lemma replicate_loop_ok:
  assumes "finds_max argmax" and "placement n phy2log rank cnt" "length phy2log = m" "n \<le> m" "length cnt = length w"
    and "w \<noteq> []" "\<forall>x\<in>set w. 0 \<le> x" "greedy w cnt" "sum_list cnt = int n"
  shows "\<exists>p k c. replicate_loop argmax w [n..<m] phy2log rank cnt = Inr (p, k, c) \<and> placement m p k c \<and> length p = m \<and>
    length c = length w \<and> greedy w c \<and> sum_list c = int m"
  using assms
proof (induction "m - n" arbitrary: n phy2log rank cnt)
  case (Suc d)
  then have n: "n < m" "[n..<m] = n # [Suc n..<m]" by (simp_all add: upt_conv_Cons)
  let ?xs = "map2 (\<lambda>w c. w / of_int c) w cnt" and ?r = "argmax (map2 (\<lambda>w c. w / of_int c) w cnt)"
  have ne: "?xs \<noteq> []" "length ?xs = length w" using Suc.prems(5,6) by (cases w; cases cnt; simp)+
  then have r: "?r < length w" "\<forall>x\<in>set ?xs. x \<le> ?xs ! ?r" using Suc.prems(1) unfolding finds_max_def by metis+
  have mx: "\<forall>e<length w. w ! e / of_int (cnt ! e) \<le> w ! ?r / of_int (cnt ! ?r)"
  proof (intro allI impI)
    fix e assume "e < length w"
    then have "?xs ! e \<le> ?xs ! ?r" using r(2) ne(2) by (metis nth_mem)
    then show "w ! e / of_int (cnt ! e) \<le> w ! ?r / of_int (cnt ! ?r)" using r(1) \<open>e < length w\<close> Suc.prems(5) by simp
  qed
  have pos: "\<forall>c\<in>set cnt. 1 \<le> c" using Suc.prems(2) by (simp add: placement_def)
  have st: "placement (Suc n) (phy2log[n := int ?r]) (rank[n := cnt ! ?r]) (cnt[?r := cnt ! ?r + 1])"
    by (rule placement_step [OF Suc.prems(2)]) (use n r(1) Suc.prems(3,5) in simp_all)
  have gr: "greedy w (cnt[?r := cnt ! ?r + 1])"
    by (rule greedy_step [OF Suc.prems(8,5) pos Suc.prems(7) r(1) mx])
  have "sum_list (cnt[?r := cnt ! ?r + 1]) = int (Suc n)"
    using Suc.prems(5,9) r(1) by (simp add: sum_list_update_int)
  from Suc.hyps(1) [OF _ Suc.prems(1) st _ _ _ Suc.prems(6,7) gr this] Suc.hyps(2) n(1) Suc.prems(3,5) show ?case
    unfolding n(2) using Suc.prems(6) by (simp add: Let_def)
qed simp

lemma replicate_experts_ok:
  assumes "finds_max argmax" and "w \<noteq> []" "\<forall>x\<in>set w. 0 \<le> x" "length w \<le> m"
  shows "\<exists>p k c. replicate_experts argmax w m = Inr (p, k, c) \<and> placement m p k c \<and> length p = m \<and> length c = length w \<and>
    greedy w c \<and> sum_list c = int m"
proof -
  let ?n = "length w"
  have "bij_betw (\<lambda>p. (arange m ! p, replicate m 0 ! p)) {..<?n} (replicas (replicate ?n 1))"
  proof (rule bij_betw_imageI)
    show "inj_on (\<lambda>p. (arange m ! p, replicate m 0 ! p)) {..<?n}" using assms(4) by (auto simp: inj_on_def arange_nth)
    have "(e, r) \<in> (\<lambda>p. (arange m ! p, replicate m 0 ! p)) ` {..<?n}" if "(e, r) \<in> replicas (replicate ?n 1)" for e r :: int
      using that assms(4) by (intro rev_image_eqI [of "nat e"]) (auto simp: replicas_def arange_nth)
    then show "(\<lambda>p. (arange m ! p, replicate m 0 ! p)) ` {..<?n} = replicas (replicate ?n 1)"
      using assms(4) by (auto simp: replicas_def arange_nth)
  qed
  then have "placement ?n (arange m) (replicate m 0) (replicate ?n 1)" using assms(4) by (simp add: placement_def)
  from replicate_loop_ok [OF assms(1) this] assms(2-4) show ?thesis
    by (simp add: replicate_experts_def Let_def greedy_def sum_list_replicate)
qed

text \<open>No other distribution of the same number of replicas has a smaller greatest load.\<close>

lemma greedy_optimal:
  assumes g: "greedy w cnt" and len: "length cnt = length w" "length c = length w" and w: "\<forall>x\<in>set w. 0 \<le> x"
    and pos: "\<forall>x\<in>set cnt. 1 \<le> x" "\<forall>x\<in>set c. 1 \<le> x" and sum: "sum_list c = sum_list cnt"
    and e: "e < length w"
  shows "\<exists>e'<length w. w ! e / of_int (cnt ! e) \<le> w ! e' / of_int (c ! e')"
proof (cases "\<exists>x<length w. c ! x < cnt ! x")
  case True
  then obtain x where x: "x < length w" "c ! x < cnt ! x" by blast
  have cx: "1 \<le> c ! x" using pos(2) x(1) len by simp
  have "w ! e / of_int (cnt ! e) \<le> w ! x / of_int (cnt ! x - 1)" using g x cx e unfolding greedy_def by simp
  moreover have "w ! x / of_int (cnt ! x - 1) \<le> w ! x / of_int (c ! x)"
  proof -
    have "(of_int (c ! x) :: rat) \<le> of_int (cnt ! x - 1)" "(0 :: rat) < of_int (c ! x)" using x(2) cx by (simp_all only: of_int_le_iff of_int_0_less_iff)
    then show ?thesis using w x(1) by (intro divide_left_mono) (auto simp: nth_mem)
  qed
  ultimately show ?thesis using x(1) order_trans by blast
next
  case False
  then have le: "cnt ! x \<le> c ! x" if "x < length w" for x using that by (meson not_less)
  have "cnt = c"
  proof (rule nth_equalityI)
    fix i assume i: "i < length cnt"
    have "sum_list cnt = (\<Sum>j<length w. cnt ! j)" "sum_list c = (\<Sum>j<length w. c ! j)"
      using len by (simp_all add: sum_list_sum_nth atLeast0LessThan)
    then have "(\<Sum>j<length w. c ! j - cnt ! j) = 0" using sum by (simp add: sum_subtractf)
    then have "\<forall>j\<in>{..<length w}. c ! j - cnt ! j = 0" using le by (subst (asm) sum_nonneg_eq_0_iff) auto
    then show "cnt ! i = c ! i" using i len by simp
  qed (simp add: len)
  then show ?thesis using e by blast
qed

section \<open>Placements\<close>

lemma placement_range:
  assumes "placement n p k c" and "i < n"
  shows "0 \<le> p ! i" "p ! i < int (length c)" "0 \<le> k ! i" "k ! i < c ! nat (p ! i)"
proof -
  have "(p ! i, k ! i) \<in> replicas c" using assms by (auto simp: placement_def dest: bij_betwE)
  then show "0 \<le> p ! i" "p ! i < int (length c)" "0 \<le> k ! i" "k ! i < c ! nat (p ! i)" by (auto simp: replicas_def)
qed

lemma placement_set:
  assumes "placement n p k c" and "length p = n"
  shows "\<forall>i\<in>set p. 0 \<le> i \<and> i < int (length c)"
  using placement_range(1,2) [OF assms(1)] assms(2) by (auto simp: in_set_conv_nth)

lemma placement_perm:
  assumes "placement n p k c" and "length p = n" and q: "perm_of n qs"
  shows "placement n (map (\<lambda>i. p ! i) qs) (map (\<lambda>i. k ! i) qs) c"
proof -
  have "bij_betw (\<lambda>i. (p ! (qs ! i), k ! (qs ! i))) {..<n} (replicas c)"
    using bij_betw_trans [OF perm_of_bij [OF q], of "\<lambda>i. (p ! i, k ! i)"] assms(1) by (simp add: placement_def comp_def)
  moreover have "length qs = n" using q by (simp add: perm_of_def)
  moreover then have "bij_betw (\<lambda>i. (map (\<lambda>i. p ! i) qs ! i, map (\<lambda>i. k ! i) qs ! i)) {..<n} (replicas c) =
      bij_betw (\<lambda>i. (p ! (qs ! i), k ! (qs ! i))) {..<n} (replicas c)"
    by (intro bij_betw_cong) simp
  ultimately show ?thesis using assms(1) by (simp add: placement_def)
qed

lemma bij_shift: "bij_betw (\<lambda>i. i + n) {..<m} {n..<n + m}" for n m :: nat
  by (rule bij_betw_byWitness [where f' = "\<lambda>i. i - n"]) auto

lemma replicas_append:
  "replicas (c @ c') = replicas c \<union> (\<lambda>(e, r). (e + int (length c), r)) ` replicas c'"
proof -
  have "(e, r) \<in> (\<lambda>(e, r). (e + int (length c), r)) ` replicas c'" if "(e, r) \<in> replicas (c @ c')" "int (length c) \<le> e" for e r
    using that by (intro image_eqI [of _ _ "(e - int (length c), r)"]) (auto simp: replicas_def nth_append nat_diff_distrib nat_less_iff split: if_splits)
  moreover have "(e, r) \<in> replicas c" if "(e, r) \<in> replicas (c @ c')" "\<not> int (length c) \<le> e" for e r
    using that by (auto simp: replicas_def nth_append nat_less_iff)
  ultimately have "replicas (c @ c') \<subseteq> replicas c \<union> (\<lambda>(e, r). (e + int (length c), r)) ` replicas c'" by (meson UnI1 UnI2 subrelI)
  moreover have "replicas c \<subseteq> replicas (c @ c')" by (auto simp: replicas_def nth_append nat_less_iff)
  moreover have "(\<lambda>(e, r). (e + int (length c), r)) ` replicas c' \<subseteq> replicas (c @ c')"
    by (auto simp: replicas_def nth_append nat_add_distrib)
  ultimately show ?thesis by blast
qed

lemma placement_append:
  assumes a: "placement n p k c" "length p = n" and b: "placement m p' k' c'" "length p' = m"
  shows "placement (n + m) (p @ map (\<lambda>x. x + int (length c)) p') (k @ k') (c @ c')"
proof -
  let ?f = "\<lambda>i. ((p @ map (\<lambda>x. x + int (length c)) p') ! i, (k @ k') ! i)"
  let ?s = "\<lambda>(e, r). (e + int (length c), r :: int)"
  have len: "length k = n" "length k' = m" using assms by (auto simp: placement_def)
  have "bij_betw ?f {..<n} (replicas c) = bij_betw (\<lambda>i. (p ! i, k ! i)) {..<n} (replicas c)"
    by (rule bij_betw_cong) (simp add: nth_append a len)
  then have one: "bij_betw ?f {..<n} (replicas c)" using a(1) by (simp only: placement_def)
  have "bij_betw ?s (replicas c') (?s ` replicas c')" by (rule bij_betw_imageI) (auto simp: inj_on_def)
  then have "bij_betw (?s \<circ> (\<lambda>i. (p' ! i, k' ! i))) {..<m} (?s ` replicas c')"
    using b(1) bij_betw_trans unfolding placement_def by blast
  moreover have "bij_betw (?f \<circ> (\<lambda>i. i + n)) {..<m} (?s ` replicas c') = bij_betw (?s \<circ> (\<lambda>i. (p' ! i, k' ! i))) {..<m} (?s ` replicas c')"
    by (rule bij_betw_cong) (simp add: nth_append a b len)
  ultimately have "bij_betw (?f \<circ> (\<lambda>i. i + n)) {..<m} (?s ` replicas c')" by simp
  then have two: "bij_betw ?f {n..<n + m} (?s ` replicas c')" using bij_betw_comp_iff [OF bij_shift] by blast
  have "replicas c \<inter> ?s ` replicas c' = {}" by (auto simp: replicas_def)
  then have "bij_betw ?f ({..<n} \<union> {n..<n + m}) (replicas c \<union> ?s ` replicas c')" by (rule bij_betw_combine [OF one two])
  moreover have "{..<n} \<union> {n..<n + m} = {..<n + m}" by auto
  moreover have "\<forall>x\<in>set (c @ c'). 1 \<le> x" using a(1) b(1) by (auto simp: placement_def)
  ultimately show ?thesis using a b len unfolding placement_def replicas_append by simp
qed

lemma placement_concat:
  assumes "\<forall>t\<in>set placed. placement n (fst t) (fst (snd t)) (snd (snd t)) \<and> length (fst t) = n \<and> length (snd (snd t)) = l"
  shows "placement (length placed * n)
      (concat (map2 (\<lambda>k t. map (\<lambda>x. x + int (k * l)) (fst t)) [0..<length placed] placed))
      (concat (map (\<lambda>t. fst (snd t)) placed)) (concat (map (\<lambda>t. snd (snd t)) placed)) \<and>
    length (concat (map2 (\<lambda>k t. map (\<lambda>x. x + int (k * l)) (fst t)) [0..<length placed] placed)) = length placed * n \<and>
    length (concat (map (\<lambda>t. snd (snd t)) placed)) = length placed * l"
  using assms
proof (induction placed rule: rev_induct)
  case Nil
  show ?case by (simp add: placement_def replicas_def bij_betw_def)
next
  case (snoc t placed)
  let ?p = "fst t" and ?k = "fst (snd t)" and ?c = "snd (snd t)"
  let ?P = "concat (map2 (\<lambda>k t. map (\<lambda>x. x + int (k * l)) (fst t)) [0..<length placed] placed)"
  have IH: "placement (length placed * n) ?P (concat (map (\<lambda>t. fst (snd t)) placed)) (concat (map (\<lambda>t. snd (snd t)) placed))"
    "length ?P = length placed * n" "length (concat (map (\<lambda>t. snd (snd t)) placed)) = length placed * l"
    using snoc by auto
  have new: "placement n ?p ?k ?c" "length ?p = n" "length ?c = l" using snoc.prems by auto
  have "placement (length placed * n + n) (?P @ map (\<lambda>x. x + int (length placed * l)) ?p)
      (concat (map (\<lambda>t. fst (snd t)) placed) @ ?k) (concat (map (\<lambda>t. snd (snd t)) placed) @ ?c)"
    using placement_append [OF IH(1,2) new(1,2)] unfolding IH(3) by simp
  then show ?case using IH new by (simp add: add.commute)
qed

text \<open>Renaming the experts by a permutation.\<close>

lemma placement_rename:
  assumes pl: "placement n p k c" "length p = n" and f: "perm_of (length c) fs" and g: "perm_of (length c) gs"
    and inv: "\<And>i. i < length c \<Longrightarrow> gs ! (fs ! i) = i" "\<And>i. i < length c \<Longrightarrow> fs ! (gs ! i) = i"
  shows "placement n (map (\<lambda>x. int (gs ! nat x)) p) k (map (\<lambda>i. c ! i) fs)"
proof -
  let ?h = "\<lambda>(e, r :: int). (int (gs ! nat e), r)" and ?c = "map (\<lambda>i. c ! i) fs"
  have len: "length fs = length c" "length gs = length c" and fr: "fs ! i < length c" "gs ! i < length c" if "i < length c" for i
    using f g that nth_mem [of i fs] nth_mem [of i gs] by (auto simp: perm_of_def)
  have "bij_betw ?h (replicas c) (replicas ?c)"
  proof (rule bij_betw_byWitness [where f' = "\<lambda>(e, r). (int (fs ! nat e), r)"])
    show "\<forall>a\<in>replicas c. (\<lambda>(e, r). (int (fs ! nat e), r)) (?h a) = a" using inv by (auto simp: replicas_def)
    show "\<forall>a\<in>replicas ?c. ?h ((\<lambda>(e, r). (int (fs ! nat e), r)) a) = a" using inv f by (auto simp: replicas_def perm_of_def)
    show "?h ` replicas c \<subseteq> replicas ?c" using inv fr f by (auto simp: replicas_def perm_of_def)
    show "(\<lambda>(e, r). (int (fs ! nat e), r)) ` replicas ?c \<subseteq> replicas c" using fr f by (auto simp: replicas_def perm_of_def)
  qed
  then have "bij_betw (?h \<circ> (\<lambda>i. (p ! i, k ! i))) {..<n} (replicas ?c)"
    using pl(1) bij_betw_trans unfolding placement_def by blast
  moreover have "bij_betw (\<lambda>i. (map (\<lambda>x. int (gs ! nat x)) p ! i, k ! i)) {..<n} (replicas ?c) =
      bij_betw (?h \<circ> (\<lambda>i. (p ! i, k ! i))) {..<n} (replicas ?c)"
    by (rule bij_betw_cong) (simp add: pl(2))
  moreover have "\<forall>x\<in>set ?c. 1 \<le> x" using pl(1) f by (auto simp: placement_def perm_of_def)
  ultimately show ?thesis using pl by (simp add: placement_def)
qed

section \<open>A layer\<close>

lemma place_node_ok:
  assumes "sorts_descending order" "finds_max argmax" and w: "w \<noteq> []" "\<forall>x\<in>set w. 0 \<le> x" "length w \<le> m * per" and m: "0 < m"
  shows "\<exists>p k c. place_node order argmax (m * per) m per w = Inr (p, k, c) \<and> placement (m * per) p k c \<and>
    length p = m * per \<and> length c = length w"
proof -
  obtain p k c where r: "replicate_experts argmax w (m * per) = Inr (p, k, c)" "placement (m * per) p k c" "length p = m * per"
    "length c = length w"
    using replicate_experts_ok [OF assms(2) w] by blast
  let ?l = "map2 (\<lambda>w c. w / of_int c) w c"
  have rng: "\<forall>i\<in>set p. 0 \<le> i \<and> i < int (length ?l)" using placement_set [OF r(2,3)] r(4) by simp
  obtain pidx rnk items where b: "balanced_packing order (map (\<lambda>i. ?l ! nat i) p) m = Inr (pidx, rnk)"
    "packed (m * per) m per {..<m * per} pidx rnk items"
    using balanced_packing_ok [OF assms(1) m, of "map (\<lambda>i. ?l ! nat i) p" per] r(3) by auto
  obtain ps where ps: "perm_of (m * per) ps" "map2 (\<lambda>p r. p * int per + r) pidx rnk = map int ps" using slots_perm [OF b(2)] by blast
  obtain qs where qs: "inverse_perm (map int ps) = Inr (map int qs)" "perm_of (m * per) qs" by (rule inverse_perm_ok [OF ps(1)])
  have "length k = m * per" using r(2,3) by (simp add: placement_def)
  then have g: "gather p (map int qs) = Inr (map (\<lambda>i. p ! i) qs)" "gather k (map int qs) = Inr (map (\<lambda>i. k ! i) qs)"
    using qs(2) r(3) by (simp_all add: gather_ok perm_of_def)
  have "place_node order argmax (m * per) m per w = Inr (map (\<lambda>i. p ! i) qs, map (\<lambda>i. k ! i) qs, c)"
    using r(1) rng b(1) ps(2) qs(1) g by (simp add: place_node_def gather_def [of ?l])
  then show ?thesis using placement_perm [OF r(2,3) qs(2)] r(4) qs(2) by (auto simp: perm_of_def)
qed

lemma blocks_perm:
  assumes "perm_of n bs"
  shows "perm_of (n * s) (concat (map (\<lambda>b. map (\<lambda>j. b * s + j) [0..<s]) bs))"
proof -
  have "length (concat (map (\<lambda>b. map (\<lambda>j. b * s + j) [0..<s]) bs)) = n * s"
    using assms by (simp add: length_concat comp_def perm_of_def sum_list_triv)
  moreover have "set (concat (map (\<lambda>b. map (\<lambda>j. b * s + j) [0..<s]) bs)) = {..<n * s}"
  proof -
    have "\<exists>b<n. \<exists>j<s. x = b * s + j" if x: "x < n * s" for x
    proof -
      have "0 < s" using x by (cases s) auto
      then have "x div s < n" "x mod s < s" "x = x div s * s + x mod s" using x by (simp_all add: less_mult_imp_div_less)
      then show ?thesis by blast
    qed
    moreover have "b * s + j < n * s" if "b < n" "j < s" for b j
    proof -
      have "b * s + j < Suc b * s" "Suc b * s \<le> n * s" using that mult_le_mono1 [of "Suc b" n s] by simp_all
      then show ?thesis by linarith
    qed
    ultimately have "{..<n * s} = (\<Union>b\<in>{..<n}. (\<lambda>j. b * s + j) ` {..<s})" unfolding image_def by blast
    moreover have "set bs = {..<n}" using assms by (simp add: perm_of_def)
    ultimately show ?thesis by (simp only: set_concat set_map set_upt image_image atLeast0LessThan)
  qed
  ultimately show ?thesis by (simp add: perm_of_def)
qed

lemma length_unflatten: "length (unflatten n k xs) = n" "length xs = n * k \<Longrightarrow> c \<in> set (unflatten n k xs) \<Longrightarrow> length c = k"
proof -
  show "length (unflatten n k xs) = n" by (simp add: unflatten_def)
  assume "length xs = n * k" "c \<in> set (unflatten n k xs)"
  then obtain i where "i < n" "c = take k (drop (i * k) xs)" by (auto simp: unflatten_def)
  moreover then have "Suc i * k \<le> n * k" using mult_le_mono1 [of "Suc i" n k] by simp
  ultimately show "length c = k" using \<open>length xs = n * k\<close> by simp
qed

lemma pack_groups_ok:
  assumes "sorts_descending order" and m: "0 < nodes" "0 < gpn" and w: "length w = nodes * gpn * gs"
  shows "\<exists>fs qs. pack_groups order w (nodes * gpn) nodes = Inr (map int fs, map int qs) \<and> perm_of (length w) fs \<and> perm_of (length w) qs \<and>
    (\<forall>i<length w. qs ! (fs ! i) = i) \<and> (\<forall>i<length w. fs ! (qs ! i) = i)"
proof -
  let ?n = "nodes * gpn"
  have gs: "length w div ?n = gs" "?n div nodes = gpn" using w m by simp_all
  let ?t = "map sum_list (unflatten ?n gs w)"
  obtain pidx rnk items where b: "balanced_packing order ?t nodes = Inr (pidx, rnk)" "packed ?n nodes gpn {..<?n} pidx rnk items"
    using balanced_packing_ok [OF assms(1) m(1), of ?t gpn] by (auto simp: length_unflatten(1))
  obtain ps where ps: "perm_of ?n ps" "map2 (\<lambda>p r. p * int gpn + r) pidx rnk = map int ps" using slots_perm [OF b(2)] by blast
  let ?fs = "concat (map (\<lambda>b. map (\<lambda>j. b * gs + j) [0..<gs]) ps)"
  have "concat (map (\<lambda>(p, r). map (\<lambda>j. (p * int gpn + r) * int gs + j) (arange gs)) (zip pidx rnk)) =
      concat (map (\<lambda>b. map (\<lambda>j. b * int gs + j) (arange gs)) (map2 (\<lambda>p r. p * int gpn + r) pidx rnk))"
    by (simp add: comp_def case_prod_unfold)
  also have "\<dots> = map int ?fs" unfolding ps(2) by (simp add: map_concat comp_def arange_def)
  finally have fs: "concat (map (\<lambda>(p, r). map (\<lambda>j. (p * int gpn + r) * int gs + j) (arange gs)) (zip pidx rnk)) = map int ?fs" .
  have pf: "perm_of (length w) ?fs" using blocks_perm [OF ps(1), of gs] w by simp
  obtain qs where qs: "inverse_perm (map int ?fs) = Inr (map int qs)" "perm_of (length w) qs"
    "\<And>k. k < length w \<Longrightarrow> qs ! (?fs ! k) = k" "\<And>k. k < length w \<Longrightarrow> ?fs ! (qs ! k) = k"
    using inverse_perm_ok [OF pf] by blast
  have "pack_groups order w ?n nodes = Inr (map int ?fs, map int qs)"
    unfolding pack_groups_def Let_def gs b(1) bind_Inr prod.case fs qs(1) ..
  then show ?thesis using pf qs by blast
qed

lemma map_result_ok:
  assumes "\<forall>x\<in>set xs. \<exists>y. f x = Inr y \<and> Q x y"
  shows "\<exists>ys. map_result f xs = Inr ys \<and> list_all2 Q xs ys"
  using assms
proof (induction xs)
  case (Cons x xs)
  then obtain y ys where "f x = Inr y" "Q x y" "map_result f xs = Inr ys" "list_all2 Q xs ys" by auto
  then show ?case by (intro exI [of _ "y # ys"]) simp
qed simp

lemma rebalance_hierarchical_ok:
  assumes "sorts_descending order" "finds_max argmax"
    and w: "w \<noteq> []" "\<forall>x\<in>set w. 0 \<le> x" "length w = nodes * gpn * gs" and "length w \<le> nodes * gpus * per"
    and "0 < nodes" "0 < gpus" "0 < gpn"
  shows "\<exists>p k c. rebalance_experts_hierarchical order argmax w (nodes * gpus * per) (nodes * gpn) nodes (nodes * gpus) = Inr (p, k, c) \<and>
    placement (nodes * gpus * per) p k c \<and> length p = nodes * gpus * per \<and> length c = length w"
proof -
  let ?P = "nodes * gpus * per" and ?l = "gpn * gs"
  have sizes: "?P div (nodes * gpus) = per" "length w div nodes = ?l" "?P div nodes = gpus * per" "nodes * gpus div nodes = gpus"
    using assms(5,7,8) by (simp_all add: mult.assoc)
  obtain fs qs where pg: "pack_groups order w (nodes * gpn) nodes = Inr (map int fs, map int qs)" "perm_of (length w) fs"
    "perm_of (length w) qs" "\<forall>i<length w. qs ! (fs ! i) = i" "\<forall>i<length w. fs ! (qs ! i) = i"
    using pack_groups_ok [OF assms(1,7,9) w(3)] by blast
  let ?t = "map (\<lambda>i. w ! i) qs"
  have lt: "length ?t = nodes * ?l" "set ?t \<subseteq> set w" using pg(3) w(3) by (simp_all add: perm_of_def mult.assoc image_subset_iff)
  have t: "gather w (map int qs) = Inr ?t" using pg(3) by (intro gather_ok) (simp add: perm_of_def)
  have "\<forall>x\<in>set (unflatten nodes ?l ?t). \<exists>y. place_node order argmax (gpus * per) gpus per x = Inr y \<and>
      (placement (gpus * per) (fst y) (fst (snd y)) (snd (snd y)) \<and> length (fst y) = gpus * per \<and> length (snd (snd y)) = ?l)"
  proof
    fix x assume x: "x \<in> set (unflatten nodes ?l ?t)"
    have lx: "length x = ?l" by (rule length_unflatten(2) [OF lt(1) x])
    have "set x \<subseteq> set ?t" using x set_take_subset set_drop_subset unfolding unflatten_def by fastforce
    then have "\<forall>y\<in>set x. 0 \<le> y" using lt(2) w(2) by blast
    moreover have "0 < ?l" using w(1,3) by (cases "?l") (auto simp: mult.assoc)
    then have "x \<noteq> []" using lx by auto
    moreover have "nodes * ?l \<le> nodes * (gpus * per)" using assms(6) w(3) by (simp add: mult.assoc)
    then have "length x \<le> gpus * per" using assms(7) lx by simp
    ultimately show "\<exists>y. place_node order argmax (gpus * per) gpus per x = Inr y \<and>
      (placement (gpus * per) (fst y) (fst (snd y)) (snd (snd y)) \<and> length (fst y) = gpus * per \<and> length (snd (snd y)) = ?l)"
      using place_node_ok [OF assms(1,2) _ _ _ assms(8), of x per] lx by (metis fst_conv snd_conv)
  qed
  from map_result_ok [OF this] obtain placed where pl: "map_result (place_node order argmax (gpus * per) gpus per) (unflatten nodes ?l ?t) = Inr placed"
    "list_all2 (\<lambda>x y. placement (gpus * per) (fst y) (fst (snd y)) (snd (snd y)) \<and> length (fst y) = gpus * per \<and> length (snd (snd y)) = ?l)
       (unflatten nodes ?l ?t) placed"
    by blast
  have len: "length placed = nodes" using list_all2_lengthD [OF pl(2)] by (simp add: length_unflatten(1))
  have all: "\<forall>y\<in>set placed. placement (gpus * per) (fst y) (fst (snd y)) (snd (snd y)) \<and> length (fst y) = gpus * per \<and> length (snd (snd y)) = ?l"
    using pl(2) by (simp add: list_all2_conv_all_nth all_set_conv_all_nth)
  let ?m = "concat (map2 (\<lambda>k t. map (\<lambda>x. x + int (k * ?l)) (fst t)) [0..<nodes] placed)"
  let ?k = "concat (map (\<lambda>t. fst (snd t)) placed)" and ?c = "concat (map (\<lambda>t. snd (snd t)) placed)"
  have cc: "placement ?P ?m ?k ?c" "length ?m = ?P" "length ?c = length w"
    using placement_concat [OF all] w(3) unfolding len by (simp_all add: mult.assoc)
  have gm: "gather (map int qs) ms = Inr (map (\<lambda>x. int (qs ! nat x)) ms)" if "\<forall>i\<in>set ms. 0 \<le> i \<and> i < int (length w)" for ms
    using that pg(3) by (simp add: gather_def perm_of_def nat_less_iff)
  note gm = gm [OF placement_set [OF cc(1,2), unfolded cc(3)]]
  have gc: "gather ?c (map int fs) = Inr (map (\<lambda>i. ?c ! i) fs)" using pg(2) cc(3) by (intro gather_ok) (simp add: perm_of_def)
  have "placement ?P (map (\<lambda>x. int (qs ! nat x)) ?m) ?k (map (\<lambda>i. ?c ! i) fs)"
    using placement_rename [OF cc(1,2)] pg(2-5) unfolding cc(3) by blast
  moreover have "rebalance_experts_hierarchical order argmax w ?P (nodes * gpn) nodes (nodes * gpus) =
      Inr (map (\<lambda>x. int (qs ! nat x)) ?m, ?k, map (\<lambda>i. ?c ! i) fs)"
    unfolding rebalance_experts_hierarchical_def Let_def sizes pg(1) bind_Inr prod.case t pl(1) gm gc
    using assms(5,7-9) by (simp add: mult.assoc)
  ultimately show ?thesis using cc(2) pg(2) by (auto simp: perm_of_def)
qed

section \<open>The maps of a layer\<close>

text \<open>
  The maps of a layer with \<open>n\<close> physical experts: the row of a logical expert lists exactly its
  physical replicas, each of them once, and \<open>-1\<close> behind them.
\<close>

definition valid_maps :: "nat \<Rightarrow> nat \<Rightarrow> int list \<times> int list list \<times> int list \<Rightarrow> bool" where
  "valid_maps n l maps =
     (case maps of (phy2log, log2phy, logcnt) \<Rightarrow>
        length phy2log = n \<and> length log2phy = l \<and> length logcnt = l \<and> (\<forall>q<n. 0 \<le> phy2log ! q \<and> phy2log ! q < int l) \<and>
        (\<forall>e<l. 1 \<le> logcnt ! e \<and> nat (logcnt ! e) \<le> length (log2phy ! e) \<and>
           distinct (take (nat (logcnt ! e)) (log2phy ! e)) \<and>
           set (take (nat (logcnt ! e)) (log2phy ! e)) = int ` {q. q < n \<and> phy2log ! q = int e} \<and>
           (\<forall>x\<in>set (drop (nat (logcnt ! e)) (log2phy ! e)). x = - 1)))"

lemma block_index_eq:
  assumes "r < m" "r' < m" "e * m + r = e' * m + (r' :: nat)"
  shows "e = e' \<and> r = r'"
proof -
  have "(e * m + r) div m = (e' * m + r') div m" "(e * m + r) mod m = (e' * m + r') mod m" by (simp_all only: assms(3))
  then show ?thesis using assms(1,2) by simp
qed

lemma unflatten_nth:
  assumes "length xs = n * k" "e < n" "j < k"
  shows "unflatten n k xs ! e ! j = xs ! (e * k + j)" "length (unflatten n k xs ! e) = k"
proof -
  have "Suc e * k \<le> n * k" using assms(2) mult_le_mono1 [of "Suc e" n k] by simp
  then show "unflatten n k xs ! e ! j = xs ! (e * k + j)" "length (unflatten n k xs ! e) = k" using assms by (simp_all add: unflatten_def)
qed

text \<open>The entries of a placement are in range and determine the physical expert.\<close>

lemma placement_bounds:
  assumes pl: "placement n p k c" and M: "\<forall>x\<in>set c. x \<le> M" and q: "q < n"
  shows "nat (p ! q) < length c" "nat (k ! q) < nat M" "0 \<le> p ! q" "p ! q < int (length c)" "0 \<le> k ! q" "k ! q < c ! nat (p ! q)"
proof -
  note r = placement_range [OF pl q]
  show l: "nat (p ! q) < length c" "0 \<le> p ! q" "p ! q < int (length c)" "0 \<le> k ! q" "k ! q < c ! nat (p ! q)"
    using r by (simp_all add: nat_less_iff)
  then show "nat (k ! q) < nat M" using M nth_mem [OF l(1)] by fastforce
qed

lemma placement_inj:
  "placement n p k c \<Longrightarrow> q < n \<Longrightarrow> q' < n \<Longrightarrow> p ! q = p ! q' \<Longrightarrow> k ! q = k ! q' \<Longrightarrow> q = q'"
  by (auto simp: placement_def bij_betw_def inj_on_def)

text \<open>The flat positions of the physical experts, where the scatter writes.\<close>

definition flat_index :: "nat \<Rightarrow> int list \<Rightarrow> int list \<Rightarrow> nat \<Rightarrow> nat" where
  "flat_index m p k q = nat (p ! q) * m + nat (k ! q)"

lemma flat_index_ok:
  assumes pl: "placement n p k c" and M: "\<forall>x\<in>set c. x \<le> M"
  shows "distinct (map (flat_index (nat M) p k) [0..<n])" "\<forall>i\<in>set (map (flat_index (nat M) p k) [0..<n]). i < length c * nat M"
proof -
  note rng = placement_bounds [OF pl M]
  have "q = q'" if q: "q < n" "q' < n" "flat_index (nat M) p k q = flat_index (nat M) p k q'" for q q'
  proof -
    have "nat (p ! q) = nat (p ! q')" "nat (k ! q) = nat (k ! q')"
      using block_index_eq [OF rng(2) [OF q(1)] rng(2) [OF q(2)]] q(3) by (auto simp: flat_index_def)
    then have "p ! q = p ! q'" "k ! q = k ! q'" using rng(3,5) [OF q(1)] rng(3,5) [OF q(2)] by (simp_all add: eq_nat_nat_iff)
    then show ?thesis by (rule placement_inj [OF pl q(1,2)])
  qed
  then show "distinct (map (flat_index (nat M) p k) [0..<n])" by (auto simp: distinct_map inj_on_def)
  have "flat_index (nat M) p k q < length c * nat M" if "q < n" for q
  proof -
    have "flat_index (nat M) p k q < Suc (nat (p ! q)) * nat M" "Suc (nat (p ! q)) * nat M \<le> length c * nat M"
      using rng [OF that] mult_le_mono1 [of "Suc (nat (p ! q))" "length c" "nat M"] by (simp_all add: flat_index_def)
    then show ?thesis by linarith
  qed
  then show "\<forall>i\<in>set (map (flat_index (nat M) p k) [0..<n]). i < length c * nat M" by simp
qed

text \<open>
  A row of the scattered map: the replicas of the expert below its count, and nothing above.
\<close>

lemma scattered_row:
  assumes pl: "placement n p k c" and M: "\<forall>x\<in>set c. x \<le> M" and flat: "length flat = length c * nat M"
      "\<forall>q<n. flat ! flat_index (nat M) p k q = int q" "\<forall>j. j \<notin> flat_index (nat M) p k ` {..<n} \<and> j < length flat \<longrightarrow> flat ! j = - 1"
    and e: "e < length c" "j < nat M"
  shows "j < nat (c ! e) \<Longrightarrow> \<exists>q<n. p ! q = int e \<and> k ! q = int j \<and> flat ! (e * nat M + j) = int q"
    and "nat (c ! e) \<le> j \<Longrightarrow> flat ! (e * nat M + j) = - 1"
proof -
  note rng = placement_bounds [OF pl M]
  show "\<exists>q<n. p ! q = int e \<and> k ! q = int j \<and> flat ! (e * nat M + j) = int q" if j: "j < nat (c ! e)"
  proof -
    have "(int e, int j) \<in> replicas c" using e j by (auto simp: replicas_def)
    then have "(int e, int j) \<in> (\<lambda>q. (p ! q, k ! q)) ` {..<n}" using pl unfolding placement_def bij_betw_def by simp
    then obtain q where q: "q < n" "p ! q = int e" "k ! q = int j" by auto
    then have "flat_index (nat M) p k q = e * nat M + j" by (simp add: flat_index_def)
    then show ?thesis using flat(2) q by metis
  qed
  show "flat ! (e * nat M + j) = - 1" if j: "nat (c ! e) \<le> j"
  proof -
    have "flat_index (nat M) p k q \<noteq> e * nat M + j" if q: "q < n" for q
    proof
      assume "flat_index (nat M) p k q = e * nat M + j"
      then have "nat (p ! q) = e" "nat (k ! q) = j"
        using block_index_eq [OF rng(2) [OF q] e(2), of "nat (p ! q)" e] by (auto simp: flat_index_def)
      then show False using rng(5,6) [OF q] j by auto
    qed
    moreover have "e * nat M + j < Suc e * nat M" "Suc e * nat M \<le> length c * nat M" using e mult_le_mono1 [of "Suc e" "length c" "nat M"] by simp_all
    ultimately show ?thesis using flat(1,3) by (metis (no_types, lifting) imageE lessThan_iff less_le_trans)
  qed
qed

lemma replica_row:
  assumes row: "length row = m" "1 \<le> (x :: int)" "nat x \<le> m"
    and hit: "\<And>r. r < nat x \<Longrightarrow> \<exists>q<n. p ! q = e \<and> k ! q = int r \<and> row ! r = int q"
    and miss: "\<And>j. nat x \<le> j \<Longrightarrow> j < m \<Longrightarrow> row ! j = - 1"
    and inj: "\<And>q q'. q < n \<Longrightarrow> q' < n \<Longrightarrow> p ! q = p ! q' \<Longrightarrow> k ! q = k ! q' \<Longrightarrow> q = q'"
    and rank: "\<And>q. q < n \<Longrightarrow> p ! q = e \<Longrightarrow> 0 \<le> k ! q \<and> k ! q < x"
  shows "distinct (take (nat x) row)" "set (take (nat x) row) = int ` {q. q < n \<and> p ! q = e}" "\<forall>y\<in>set (drop (nat x) row). y = - 1"
proof -
  let ?t = "take (nat x) row"
  have lt: "length ?t = nat x" using row by simp
  show "distinct ?t"
    unfolding distinct_conv_nth lt
  proof (intro allI impI notI)
    fix r r' assume r: "r < nat x" "r' < nat x" "r \<noteq> r'" "?t ! r = ?t ! r'"
    then show False using hit [OF r(1)] hit [OF r(2)] by auto
  qed
  have "int q \<in> set ?t" if q: "q < n" "p ! q = e" for q
  proof -
    have r: "nat (k ! q) < nat x" using rank [OF q] by simp
    then obtain q' where q': "q' < n" "p ! q' = e" "k ! q' = int (nat (k ! q))" "row ! nat (k ! q) = int q'" using hit by blast
    then have "q' = q" using inj [of q' q] q rank [OF q] by simp
    then have "?t ! nat (k ! q) = int q" using r q'(4) by simp
    then show ?thesis using r lt by (metis nth_mem)
  qed
  moreover have "y \<in> int ` {q. q < n \<and> p ! q = e}" if y: "y \<in> set ?t" for y
  proof -
    obtain r where r: "r < length ?t" "?t ! r = y" using y by (auto simp: in_set_conv_nth)
    then have "r < nat x" "row ! r = y" unfolding lt by simp_all
    then show ?thesis using hit by blast
  qed
  ultimately show "set ?t = int ` {q. q < n \<and> p ! q = e}" by blast
  show "\<forall>y\<in>set (drop (nat x) row). y = - 1" unfolding all_set_conv_all_nth using miss row(1) by simp
qed

lemma scattered_maps:
  assumes pl: "placement n p k c" "length p = n" and M: "\<forall>x\<in>set c. x \<le> M" and M1: "1 \<le> M"
  shows "\<exists>flat. tensor_scatter (replicate (length c * nat M) (- 1)) (map2 (\<lambda>l r. l * M + r) p k) (arange n) = Inr flat \<and>
    valid_maps n (length c) (p, unflatten (length c) (nat M) flat, c)"
proof -
  let ?l = "length c" and ?m = "nat M" and ?ix = "map (flat_index (nat M) p k) [0..<n]"
  note rng = placement_bounds [OF pl(1) M]
  have lk: "length k = n" and c1: "\<forall>x\<in>set c. 1 \<le> x" using pl by (auto simp: placement_def)
  have idx: "map2 (\<lambda>l r. l * M + r) p k = map int ?ix"
    using rng M1 by (intro nth_equalityI) (simp_all add: flat_index_def pl(2) lk)
  note ix = flat_index_ok [OF pl(1) M]
  obtain flat where flat: "tensor_scatter (replicate (?l * ?m) (- 1)) (map int ?ix) (arange n) = Inr flat" "length flat = ?l * ?m"
    "\<forall>q<n. flat ! (?ix ! q) = arange n ! q" "\<forall>j. j \<notin> set ?ix \<longrightarrow> flat ! j = replicate (?l * ?m) (- 1) ! j"
    using scatter_ok [OF ix(1), of "arange n" "replicate (?l * ?m) (- 1)"] ix(2) by auto
  have "\<forall>q<n. flat ! flat_index ?m p k q = int q" using flat(3) by (simp add: arange_nth)
  moreover have "\<forall>j. j \<notin> flat_index ?m p k ` {..<n} \<and> j < length flat \<longrightarrow> flat ! j = - 1"
    using flat(2,4) by (auto simp: lessThan_atLeast0)
  ultimately have row: "\<And>e j. e < ?l \<Longrightarrow> j < ?m \<Longrightarrow> j < nat (c ! e) \<Longrightarrow> \<exists>q<n. p ! q = int e \<and> k ! q = int j \<and> flat ! (e * ?m + j) = int q"
    "\<And>e j. e < ?l \<Longrightarrow> j < ?m \<Longrightarrow> nat (c ! e) \<le> j \<Longrightarrow> flat ! (e * ?m + j) = - 1"
    using scattered_row [OF pl(1) M flat(2)] by auto
  let ?rows = "unflatten ?l ?m flat"
  have "1 \<le> c ! e \<and> nat (c ! e) \<le> length (?rows ! e) \<and> distinct (take (nat (c ! e)) (?rows ! e)) \<and>
      set (take (nat (c ! e)) (?rows ! e)) = int ` {q. q < n \<and> p ! q = int e} \<and> (\<forall>x\<in>set (drop (nat (c ! e)) (?rows ! e)). x = - 1)"
    if e: "e < ?l" for e
  proof -
    have ce: "1 \<le> c ! e" "nat (c ! e) \<le> ?m" using c1 M nth_mem [OF e] by auto
    have at: "?rows ! e ! j = flat ! (e * ?m + j)" if "j < ?m" for j using unflatten_nth(1) [OF flat(2) e that] .
    have le: "length (?rows ! e) = ?m" using unflatten_nth(2) [OF flat(2) e, of 0] M1 by simp
    have hit: "\<exists>q<n. p ! q = int e \<and> k ! q = int r \<and> ?rows ! e ! r = int q" if "r < nat (c ! e)" for r
      using row(1) [OF e, of r] at [of r] that ce(2) by simp
    have miss: "?rows ! e ! j = - 1" if "nat (c ! e) \<le> j" "j < ?m" for j using row(2) [OF e that(2,1)] at [OF that(2)] by simp
    have rank: "0 \<le> k ! q \<and> k ! q < c ! e" if "q < n" "p ! q = int e" for q using rng(5,6) [OF that(1)] that(2) by simp
    note end_row = replica_row [where row = "?rows ! e" and x = "c ! e" and n = n and p = p and k = k and e = "int e", OF le ce]
    have "distinct (take (nat (c ! e)) (?rows ! e))" by (rule end_row(1)) (fact hit miss placement_inj [OF pl(1)] rank)+
    moreover have "set (take (nat (c ! e)) (?rows ! e)) = int ` {q. q < n \<and> p ! q = int e}"
      by (rule end_row(2)) (fact hit miss placement_inj [OF pl(1)] rank)+
    moreover have "\<forall>x\<in>set (drop (nat (c ! e)) (?rows ! e)). x = - 1" by (rule end_row(3)) (fact hit miss placement_inj [OF pl(1)] rank)+
    ultimately show ?thesis using ce unfolding le by blast
  qed
  then have "valid_maps n ?l (p, ?rows, c)"
    using pl(2) rng(3,4) by (simp add: valid_maps_def length_unflatten(1))
  then show ?thesis using flat(1) idx by auto
qed

section \<open>The layers\<close>

text \<open>Under both policies every layer gets a placement.\<close>

definition placed_layer :: "nat \<Rightarrow> nat \<Rightarrow> int list \<times> int list \<times> int list \<Rightarrow> bool" where
  "placed_layer n l y \<longleftrightarrow> placement n (fst y) (fst (snd y)) (snd (snd y)) \<and> length (fst y) = n \<and> length (snd (snd y)) = l"

lemma layer_placed:
  assumes par: "sorts_descending order" "finds_max argmax"
    and w: "length w = nodes * gpn * gs" "\<forall>x\<in>set w. 0 \<le> x"
    and dims: "0 < nodes" "0 < gpus" "0 < gpn" "0 < gs" "nodes * gpn * gs \<le> nodes * gpus * per"
  shows "\<exists>y. (if hierarchical then rebalance_experts_hierarchical order argmax w (nodes * gpus * per) (nodes * gpn) nodes (nodes * gpus)
      else rebalance_experts_hierarchical order argmax w (nodes * gpus * per) 1 1 (nodes * gpus)) = Inr y \<and>
    placed_layer (nodes * gpus * per) (nodes * gpn * gs) y"
proof -
  have ne: "w \<noteq> []" "length w \<le> nodes * gpus * per" using w dims by auto
  have g: "0 < nodes * gpus" using dims by simp
  show ?thesis
  proof (cases hierarchical)
    case True
    then show ?thesis
      using rebalance_hierarchical_ok [OF par ne(1) w(2,1) ne(2) dims(1-3)] w(1) unfolding placed_layer_def by fastforce
  next
    case False
    have "length w = 1 * 1 * (nodes * gpn * gs)" "length w \<le> 1 * (nodes * gpus) * per" "(0 :: nat) < 1" using w(1) ne(2) by simp_all
    from rebalance_hierarchical_ok [OF par ne(1) w(2) this(1,2) this(3) g this(3)] show ?thesis
      using False w(1) unfolding placed_layer_def by (fastforce simp: mult.assoc)
  qed
qed

text \<open>The last step of \<open>rebalance_experts\<close> for one layer.\<close>

definition layer_maps :: "int \<Rightarrow> nat \<Rightarrow> int list \<times> int list \<times> int list \<Rightarrow> (int list \<times> int list list \<times> int list) result" where
  "layer_maps M n = (\<lambda>(phy2log, phyrank, logcnt).
     bind_result (tensor_scatter (replicate (length logcnt * nat M) (- 1)) (map2 (\<lambda>l r. l * M + r) phy2log phyrank) (arange n)) (\<lambda>flat.
       Inr (phy2log, unflatten (length logcnt) (nat M) flat, logcnt)))"

lemma layer_maps_ok:
  assumes "placed_layer n l x" and "\<forall>v\<in>set (snd (snd x)). v \<le> M" and "1 \<le> M"
  shows "\<exists>m. layer_maps M n x = Inr m \<and> valid_maps n l m"
proof -
  obtain p k c where t: "x = (p, k, c)" by (metis prod_cases3)
  then have pl: "placement n p k c" "length p = n" "length c = l" using assms(1) by (auto simp: placed_layer_def)
  from scattered_maps [OF pl(1,2) _ assms(3)] show ?thesis using pl(3) t assms(2) by (fastforce simp: layer_maps_def)
qed

lemma all_layer_maps:
  assumes all: "\<forall>y\<in>set ms. placed_layer n l y" and ne: "ms \<noteq> []" "0 < l"
  shows "concat (map (\<lambda>t. snd (snd t)) ms) \<noteq> []"
    "\<exists>maps. map_result (layer_maps (Max (set (concat (map (\<lambda>t. snd (snd t)) ms)))) n) ms = Inr maps \<and> length maps = length ms \<and>
       (\<forall>m\<in>set maps. valid_maps n l m)"
proof -
  let ?cs = "concat (map (\<lambda>t. snd (snd t)) ms)"
  let ?M = "Max (set ?cs)"
  obtain y where y: "y \<in> set ms" using ne(1) by (cases ms) auto
  then obtain z where z: "z \<in> set (snd (snd y))" using all ne(2) by (metis length_greater_0_conv list.set_sel(1) placed_layer_def)
  then have zc: "z \<in> set ?cs" "1 \<le> z" using y all by (auto simp: placed_layer_def placement_def)
  then show "?cs \<noteq> []" by force
  have M: "x \<le> ?M" if "x \<in> set ?cs" for x using that by simp
  then have M1: "1 \<le> ?M" using zc order_trans by blast
  have "\<forall>x\<in>set ms. \<forall>v\<in>set (snd (snd x)). v \<le> ?M"
  proof (intro ballI)
    fix x v assume "x \<in> set ms" "v \<in> set (snd (snd x))"
    then show "v \<le> ?M" by (intro M) auto
  qed
  then have "\<forall>x\<in>set ms. \<exists>m. layer_maps ?M n x = Inr m \<and> valid_maps n l m"
    using all M1 layer_maps_ok by blast
  from map_result_ok [OF this] obtain maps where maps: "map_result (layer_maps ?M n) ms = Inr maps" "list_all2 (\<lambda>x m. valid_maps n l m) ms maps" by blast
  then show "\<exists>maps. map_result (layer_maps ?M n) ms = Inr maps \<and> length maps = length ms \<and> (\<forall>m\<in>set maps. valid_maps n l m)"
    by (auto simp: list_all2_conv_all_nth all_set_conv_all_nth)
qed

section \<open>Properties\<close>

text \<open>
  C31: \<open>rebalance_experts\<close> returns for every load whose sizes divide, under both policies, and the
  three maps of every layer belong together: the row of a logical expert lists exactly the physical
  experts that hold it, each once, followed by \<open>-1\<close>; every expert has at least one replica and its
  count is their number; all physical slots are used.
\<close>

theorem rebalance_maps_inverse:
  assumes "sorts_descending order" "finds_max argmax"
    and "weight \<noteq> []" "\<forall>w\<in>set weight. length w = nodes * gpn * gs \<and> (\<forall>x\<in>set w. 0 \<le> x)"
    and "0 < nodes" "0 < gpus" "0 < gpn" "0 < gs" "nodes * gpn * gs \<le> nodes * gpus * per"
  shows "\<exists>maps. rebalance_experts order argmax weight (nodes * gpus * per) (nodes * gpn) nodes (nodes * gpus) hierarchical = Inr maps \<and>
    length maps = length weight \<and> (\<forall>m\<in>set maps. valid_maps (nodes * gpus * per) (nodes * gpn * gs) m)"
proof -
  let ?P = "nodes * gpus * per" and ?L = "nodes * gpn * gs"
  let ?f = "\<lambda>w. if hierarchical then rebalance_experts_hierarchical order argmax w ?P (nodes * gpn) nodes (nodes * gpus)
      else rebalance_experts_hierarchical order argmax w ?P 1 1 (nodes * gpus)"
  have "\<forall>w\<in>set weight. \<exists>y. ?f w = Inr y \<and> placed_layer ?P ?L y"
    using layer_placed [OF assms(1,2) _ _ assms(5-9), where hierarchical = hierarchical] assms(4) by blast
  from map_result_ok [OF this] obtain ms where ms: "map_result ?f weight = Inr ms" "list_all2 (\<lambda>w y. placed_layer ?P ?L y) weight ms" by blast
  have len: "length ms = length weight" using list_all2_lengthD [OF ms(2)] by simp
  have all: "\<forall>y\<in>set ms. placed_layer ?P ?L y" using ms(2) len by (simp add: list_all2_conv_all_nth all_set_conv_all_nth)
  have ne: "ms \<noteq> []" "0 < ?L" using len assms(3,5,7,8) by auto
  note maps = all_layer_maps [OF all ne]
  obtain ls where ls: "map_result (layer_maps (Max (set (concat (map (\<lambda>t. snd (snd t)) ms)))) ?P) ms = Inr ls" "length ls = length ms"
    "\<forall>m\<in>set ls. valid_maps ?P ?L m" using maps(2) by blast
  have "rebalance_experts order argmax weight ?P (nodes * gpn) nodes (nodes * gpus) hierarchical = Inr ls"
    unfolding rebalance_experts_def ms(1) bind_Inr if_not_P [OF maps(1)] Let_def using ls(1) unfolding layer_maps_def .
  then show ?thesis using ls(2,3) len by auto
qed

text \<open>
  C32: The replication is optimal: \<open>replicate_experts\<close> gives the \<open>num_phy\<close> physical slots to the
  logical experts so that no other distribution with at least one replica each has a smaller
  greatest load per replica.
\<close>

theorem replication_optimal:
  assumes "finds_max argmax" and "weight \<noteq> []" "\<forall>x\<in>set weight. 0 \<le> x" "length weight \<le> num_phy"
  shows "\<exists>p k c. replicate_experts argmax weight num_phy = Inr (p, k, c) \<and> placement num_phy p k c \<and> sum_list c = int num_phy \<and>
    (\<forall>d. length d = length weight \<and> (\<forall>x\<in>set d. 1 \<le> x) \<and> sum_list d = int num_phy \<longrightarrow>
       (\<forall>e<length weight. \<exists>e'<length weight. weight ! e / of_int (c ! e) \<le> weight ! e' / of_int (d ! e')))"
proof -
  obtain p k c where r: "replicate_experts argmax weight num_phy = Inr (p, k, c)" "placement num_phy p k c"
    "length c = length weight" "greedy weight c" "sum_list c = int num_phy"
    using replicate_experts_ok [OF assms] by blast
  have "\<forall>x\<in>set c. 1 \<le> x" using r(2) by (simp add: placement_def)
  then show ?thesis using r greedy_optimal [OF r(4,3) _ assms(3)] by (intro exI [of _ p] exI [of _ k] exI [of _ c]) simp
qed

text \<open>
  Instances of the two parameters, for the witnesses.
\<close>

definition sort_indices :: "rat list \<Rightarrow> nat list" where
  "sort_indices xs = sort_key (\<lambda>i. - (xs ! i)) [0..<length xs]"

definition first_max :: "rat list \<Rightarrow> nat" where
  "first_max xs = the (first_min (\<lambda>i. - (xs ! i)) [0..<length xs])"

lemma sort_indices_ok: "sorts_descending sort_indices"
proof -
  have "sorted_wrt (\<ge>) (map (\<lambda>i. xs ! i) (sort_indices xs))" for xs :: "rat list"
  proof -
    have "sorted (map (\<lambda>i. - (xs ! i)) (sort_indices xs))" by (simp add: sort_indices_def)
    then show ?thesis by (simp add: sorted_wrt_map)
  qed
  moreover have "perm_of (length xs) (sort_indices xs)" for xs by (simp add: perm_of_def sort_indices_def atLeast0LessThan)
  ultimately show ?thesis by (simp add: sorts_descending_def)
qed

lemma first_max_ok: "finds_max first_max"
  unfolding finds_max_def
proof (intro allI impI)
  fix xs :: "rat list" assume "xs \<noteq> []"
  then obtain p where p: "first_min (\<lambda>i. - (xs ! i)) [0..<length xs] = Some p"
    by (cases "first_min (\<lambda>i. - (xs ! i)) [0..<length xs]") (auto simp: first_min_None)
  then show "first_max xs < length xs \<and> (\<forall>x\<in>set xs. x \<le> xs ! first_max xs)"
    using first_min_Some [OF p] by (auto simp: first_max_def all_set_conv_all_nth)
qed

theorem rebalance_maps_inverse_witness:
  "\<exists>maps. rebalance_experts sort_indices first_max [[90, 132, 40, 61]] 6 2 2 2 True = Inr maps \<and>
    length maps = 1 \<and> (\<forall>m\<in>set maps. valid_maps 6 4 m)"
  using rebalance_maps_inverse [OF sort_indices_ok first_max_ok, of "[[90, 132, 40, 61]]" 2 1 2 1 3 True] by simp

theorem replication_optimal_witness:
  "\<exists>p k c. replicate_experts first_max [90, 132, 40, 61] 6 = Inr (p, k, c) \<and> placement 6 p k c \<and> sum_list c = 6 \<and>
    (\<forall>e<4. \<exists>e'<4. [90, 132, 40, 61] ! e / of_int (c ! e) \<le> [90, 132, 40, 61] ! e' / rat_of_int ([1, 3, 1, 1] ! e'))"
proof -
  let ?w = "[90, 132, 40, 61] :: rat list"
  obtain p k c where r: "replicate_experts first_max ?w 6 = Inr (p, k, c)" "placement 6 p k c" "sum_list c = int 6"
    and opt: "\<forall>d. length d = length ?w \<and> (\<forall>x\<in>set d. 1 \<le> x) \<and> sum_list d = int 6 \<longrightarrow>
       (\<forall>e<length ?w. \<exists>e'<length ?w. ?w ! e / of_int (c ! e) \<le> ?w ! e' / rat_of_int (d ! e'))"
    using replication_optimal [OF first_max_ok, of ?w 6] by auto
  have "\<forall>e<length ?w. \<exists>e'<length ?w. ?w ! e / of_int (c ! e) \<le> ?w ! e' / rat_of_int ([1, 3, 1, 1] ! e')"
    by (rule opt [THEN spec, of "[1, 3, 1, 1]", THEN mp]) simp
  moreover have "length ?w = 4" by simp
  ultimately show ?thesis using r by (metis of_nat_numeral)
qed

end
