(* ===== verification/RWLock.thy ===== *)
theory RWLock
  imports Main
begin

text \<open>
  The reader-writer lock of \<open>aio_rwlock.py\<close>. The tasks are cooperative, and the code between two
  suspension points holds the internal lock, so each method is one step up to its first wait and
  each return from a wait is another. A task that waits on the condition is notified or not; it
  goes on only after a notification, and tests its condition again. Cancelling a wait is a step of
  its own, which runs the \<open>finally\<close> clause; the cancellation of a task that has already been
  notified depends on the version of the library and is left out.
\<close>

section \<open>State\<close>

record rwlock =
  rw_readers :: int
  rw_writer_active :: bool
  rw_waiting_writers :: int

datatype phase = Idle | Reader_wait bool | Reading | Writer_wait bool | Writing

type_synonym rw_state = "rwlock \<times> (nat \<Rightarrow> phase)"

definition rwlock_init :: rwlock where
  "rwlock_init = \<lparr>rw_readers = 0, rw_writer_active = False, rw_waiting_writers = 0\<rparr>"

section \<open>Operations\<close>

definition notify_all :: "(nat \<Rightarrow> phase) \<Rightarrow> nat \<Rightarrow> phase" where
  "notify_all ph t =
     (case ph t of Reader_wait b \<Rightarrow> Reader_wait True | Writer_wait b \<Rightarrow> Writer_wait True | p \<Rightarrow> p)"

text \<open>The loop of \<open>acquire_reader\<close>, entered anew or after a notification.\<close>

definition try_read :: "nat \<Rightarrow> rw_state \<Rightarrow> rw_state" where
  "try_read t s =
     (case s of (l, ph) \<Rightarrow>
        if rw_writer_active l \<or> rw_waiting_writers l > 0 then (l, ph(t := Reader_wait False))
        else (l\<lparr>rw_readers := rw_readers l + 1\<rparr>, ph(t := Reading)))"

definition acquire_reader :: "nat \<Rightarrow> rw_state \<Rightarrow> rw_state" where
  "acquire_reader = try_read"

definition release_reader :: "nat \<Rightarrow> rw_state \<Rightarrow> rw_state" where
  "release_reader t s =
     (case s of (l, ph) \<Rightarrow>
        let l1 = l\<lparr>rw_readers := rw_readers l - 1\<rparr>; ph1 = ph(t := Idle)
        in (l1, if rw_readers l1 = 0 then notify_all ph1 else ph1))"

text \<open>The loop of \<open>acquire_writer\<close>; its \<open>finally\<close> clause takes the task out of the waiting ones.\<close>

definition try_write :: "nat \<Rightarrow> rw_state \<Rightarrow> rw_state" where
  "try_write t s =
     (case s of (l, ph) \<Rightarrow>
        if rw_writer_active l \<or> rw_readers l > 0 then (l, ph(t := Writer_wait False))
        else (l\<lparr>rw_writer_active := True, rw_waiting_writers := rw_waiting_writers l - 1\<rparr>, ph(t := Writing)))"

definition acquire_writer :: "nat \<Rightarrow> rw_state \<Rightarrow> rw_state" where
  "acquire_writer t s =
     (case s of (l, ph) \<Rightarrow> try_write t (l\<lparr>rw_waiting_writers := rw_waiting_writers l + 1\<rparr>, ph))"

definition cancel_writer :: "nat \<Rightarrow> rw_state \<Rightarrow> rw_state" where
  "cancel_writer t s =
     (case s of (l, ph) \<Rightarrow> (l\<lparr>rw_waiting_writers := rw_waiting_writers l - 1\<rparr>, ph(t := Idle)))"

definition release_writer :: "nat \<Rightarrow> rw_state \<Rightarrow> rw_state" where
  "release_writer t s = (case s of (l, ph) \<Rightarrow> (l\<lparr>rw_writer_active := False\<rparr>, notify_all (ph(t := Idle))))"

section \<open>Steps\<close>

inductive rw_step :: "rw_state \<Rightarrow> nat \<Rightarrow> rw_state \<Rightarrow> bool" where
  acq_reader: "ph t = Idle \<Longrightarrow> rw_step (l, ph) t (acquire_reader t (l, ph))"
| resume_reader: "ph t = Reader_wait True \<Longrightarrow> rw_step (l, ph) t (try_read t (l, ph))"
| cancel_reader: "ph t = Reader_wait False \<Longrightarrow> rw_step (l, ph) t (l, ph(t := Idle))"
| rel_reader: "ph t = Reading \<Longrightarrow> rw_step (l, ph) t (release_reader t (l, ph))"
| acq_writer: "ph t = Idle \<Longrightarrow> rw_step (l, ph) t (acquire_writer t (l, ph))"
| resume_writer: "ph t = Writer_wait True \<Longrightarrow> rw_step (l, ph) t (try_write t (l, ph))"
| cancel_writer: "ph t = Writer_wait False \<Longrightarrow> rw_step (l, ph) t (cancel_writer t (l, ph))"
| rel_writer: "ph t = Writing \<Longrightarrow> rw_step (l, ph) t (release_writer t (l, ph))"

inductive rw_reach :: "rw_state \<Rightarrow> bool" where
  start: "rw_reach (rwlock_init, \<lambda>_. Idle)"
| step: "rw_reach s \<Longrightarrow> rw_step s t s' \<Longrightarrow> rw_reach s'"

inductive_cases rw_stepE: "rw_step (l, ph) t s'"

section \<open>Invariant\<close>

definition waiting_writer :: "phase \<Rightarrow> bool" where
  "waiting_writer p \<longleftrightarrow> (\<exists>b. p = Writer_wait b)"

definition tasks_in :: "(phase \<Rightarrow> bool) \<Rightarrow> (nat \<Rightarrow> phase) \<Rightarrow> int" where
  "tasks_in P ph = int (card {t. P (ph t)})"

text \<open>
  The counters agree with the tasks, a writer is alone, and a task that waits without a notification
  has somebody to wait for: a holder of the lock, or a writer that has been notified.
\<close>

definition unnotified :: "phase \<Rightarrow> bool" where
  "unnotified p \<longleftrightarrow> p = Reader_wait False \<or> p = Writer_wait False"

definition awaited :: "phase \<Rightarrow> bool" where
  "awaited p \<longleftrightarrow> p = Reading \<or> p = Writing \<or> p = Writer_wait True"

definition rw_inv :: "rw_state \<Rightarrow> bool" where
  "rw_inv s \<longleftrightarrow>
     (case s of (l, ph) \<Rightarrow>
        finite {t. ph t \<noteq> Idle} \<and>
        rw_readers l = tasks_in (\<lambda>p. p = Reading) ph \<and>
        rw_waiting_writers l = tasks_in waiting_writer ph \<and>
        tasks_in (\<lambda>p. p = Writing) ph = (if rw_writer_active l then 1 else 0) \<and>
        (rw_writer_active l \<longrightarrow> rw_readers l = 0) \<and>
        (0 < tasks_in unnotified ph \<longrightarrow> 0 < tasks_in awaited ph))"

lemma finite_tasks: "finite {t. ph t \<noteq> Idle} \<Longrightarrow> \<not> P Idle \<Longrightarrow> finite {t. P (ph t)}"
  by (rule finite_subset [of _ "{t. ph t \<noteq> Idle}"]) auto

lemma tasks_in_upd:
  assumes "finite {t. ph t \<noteq> Idle}" "\<not> P Idle"
  shows "tasks_in P (ph(t := p)) = tasks_in P ph - (if P (ph t) then 1 else 0) + (if P p then 1 else 0)"
proof -
  let ?A = "{u. u \<noteq> t \<and> P (ph u)}"
  have fin: "finite ?A" using finite_subset [OF _ finite_tasks [of ph P, OF assms]] by auto
  have "{u. P ((ph(t := p)) u)} = (if P p then insert t ?A else ?A)" "{u. P (ph u)} = (if P (ph t) then insert t ?A else ?A)"
    by auto
  then show ?thesis using fin by (simp add: tasks_in_def)
qed

lemma tasks_in_pos:
  assumes "finite {t. ph t \<noteq> Idle}" "\<not> P Idle"
  shows "0 < tasks_in P ph \<longleftrightarrow> (\<exists>t. P (ph t))" "tasks_in P ph = 0 \<longleftrightarrow> (\<forall>t. \<not> P (ph t))"
  using finite_tasks [of ph P, OF assms] by (auto simp: tasks_in_def card_gt_0_iff)

lemma notify_all_iff [simp]:
  "notify_all ph t = Idle \<longleftrightarrow> ph t = Idle" "notify_all ph t = Reading \<longleftrightarrow> ph t = Reading" "notify_all ph t = Writing \<longleftrightarrow> ph t = Writing"
  "waiting_writer (notify_all ph t) \<longleftrightarrow> waiting_writer (ph t)" "\<not> unnotified (notify_all ph t)"
  by (auto simp: notify_all_def waiting_writer_def unnotified_def split: phase.splits)

lemma tasks_in_notify:
  "tasks_in (\<lambda>p. p = Reading) (notify_all ph) = tasks_in (\<lambda>p. p = Reading) ph" "tasks_in waiting_writer (notify_all ph) = tasks_in waiting_writer ph"
  "tasks_in (\<lambda>p. p = Writing) (notify_all ph) = tasks_in (\<lambda>p. p = Writing) ph" "tasks_in unnotified (notify_all ph) = 0"
  by (simp_all add: tasks_in_def)

lemmas rw_phases = waiting_writer_def unnotified_def awaited_def

lemma phase_simps [simp]:
  "waiting_writer (Writer_wait b)" "\<not> waiting_writer Idle" "\<not> waiting_writer (Reader_wait b)" "\<not> waiting_writer Reading" "\<not> waiting_writer Writing"
  "unnotified (Reader_wait b) \<longleftrightarrow> \<not> b" "unnotified (Writer_wait b) \<longleftrightarrow> \<not> b" "\<not> unnotified Idle" "\<not> unnotified Reading" "\<not> unnotified Writing"
  "awaited Reading" "awaited Writing" "awaited (Writer_wait b) \<longleftrightarrow> b" "\<not> awaited Idle" "\<not> awaited (Reader_wait b)"
  by (simp_all add: rw_phases)

lemma finite_upd: "finite {u. ph u \<noteq> Idle} \<Longrightarrow> finite {u. (ph(t := p)) u \<noteq> Idle}"
  by (rule finite_subset [of _ "insert t {u. ph u \<noteq> Idle}"]) auto

lemma tasks_in_nonneg: "0 \<le> tasks_in P ph"
  by (simp add: tasks_in_def)

lemma awaited_if:
  assumes "finite {t. ph t \<noteq> Idle}"
  shows "0 < tasks_in (\<lambda>p. p = Reading) ph \<Longrightarrow> 0 < tasks_in awaited ph" "0 < tasks_in (\<lambda>p. p = Writing) ph \<Longrightarrow> 0 < tasks_in awaited ph"
    "0 < tasks_in waiting_writer ph \<Longrightarrow> 0 < tasks_in unnotified ph \<or> 0 < tasks_in awaited ph"
proof -
  note pos = tasks_in_pos(1) [OF assms]
  show "0 < tasks_in (\<lambda>p. p = Reading) ph \<Longrightarrow> 0 < tasks_in awaited ph" "0 < tasks_in (\<lambda>p. p = Writing) ph \<Longrightarrow> 0 < tasks_in awaited ph"
    using pos [of "\<lambda>p. p = Reading"] pos [of "\<lambda>p. p = Writing"] pos [of awaited] by (auto simp: awaited_def)
  have "unnotified p \<or> awaited p" if "waiting_writer p" for p using that by (auto simp: rw_phases)
  then show "0 < tasks_in waiting_writer ph \<Longrightarrow> 0 < tasks_in unnotified ph \<or> 0 < tasks_in awaited ph"
    using pos [of waiting_writer] pos [of unnotified] pos [of awaited] by (auto simp: rw_phases)
qed

text \<open>The counts after the phase of one task has changed.\<close>

lemma counts_upd:
  assumes "finite {t. ph t \<noteq> Idle}"
  shows
    "tasks_in (\<lambda>p. p = Reading) (ph(t := p)) = tasks_in (\<lambda>p. p = Reading) ph - (if ph t = Reading then 1 else 0) + (if p = Reading then 1 else 0)"
    "tasks_in (\<lambda>p. p = Writing) (ph(t := p)) = tasks_in (\<lambda>p. p = Writing) ph - (if ph t = Writing then 1 else 0) + (if p = Writing then 1 else 0)"
    "tasks_in waiting_writer (ph(t := p)) = tasks_in waiting_writer ph - (if waiting_writer (ph t) then 1 else 0) + (if waiting_writer p then 1 else 0)"
    "tasks_in unnotified (ph(t := p)) = tasks_in unnotified ph - (if unnotified (ph t) then 1 else 0) + (if unnotified p then 1 else 0)"
    "tasks_in awaited (ph(t := p)) = tasks_in awaited ph - (if awaited (ph t) then 1 else 0) + (if awaited p then 1 else 0)"
  by (rule tasks_in_upd [OF assms]; simp add: rw_phases)+

lemma rw_invD:
  assumes "rw_inv (l, ph)"
  shows "finite {t. ph t \<noteq> Idle}" "rw_readers l = tasks_in (\<lambda>p. p = Reading) ph" "rw_waiting_writers l = tasks_in waiting_writer ph"
    "tasks_in (\<lambda>p. p = Writing) ph = (if rw_writer_active l then 1 else 0)" "rw_writer_active l \<longrightarrow> rw_readers l = 0"
    "0 < tasks_in unnotified ph \<longrightarrow> 0 < tasks_in awaited ph"
  using assms unfolding rw_inv_def prod.case by blast+

lemma rw_invI:
  assumes "finite {t. ph t \<noteq> Idle}" "rw_readers l = tasks_in (\<lambda>p. p = Reading) ph" "rw_waiting_writers l = tasks_in waiting_writer ph"
    "tasks_in (\<lambda>p. p = Writing) ph = (if rw_writer_active l then 1 else 0)" "rw_writer_active l \<longrightarrow> rw_readers l = 0"
    "0 < tasks_in unnotified ph \<longrightarrow> 0 < tasks_in awaited ph"
  shows "rw_inv (l, ph)"
  using assms by (simp add: rw_inv_def)

lemma try_read_inv:
  assumes inv: "rw_inv (l, ph)" and t: "ph t = Idle \<or> ph t = Reader_wait True"
  shows "rw_inv (try_read t (l, ph))"
proof -
  note d = rw_invD [OF inv]
  have ph: "ph t \<noteq> Reading" "ph t \<noteq> Writing" "\<not> waiting_writer (ph t)" "\<not> unnotified (ph t)" "\<not> awaited (ph t)"
    using t by (auto simp: rw_phases)
  note up = counts_upd [OF d(1), of t] finite_upd [OF d(1), of t]
  show ?thesis
  proof (cases "rw_writer_active l \<or> rw_waiting_writers l > 0")
    case True
    then have "0 < tasks_in awaited ph" using d(3,4,6) awaited_if(2,3) [OF d(1)] by auto
    then have "rw_inv (l, ph(t := Reader_wait False))"
      using d(2-5) by (intro rw_invI up(6)) (simp_all add: up ph)
    then show ?thesis using True by (simp add: try_read_def)
  next
    case False
    then have "rw_inv (l\<lparr>rw_readers := rw_readers l + 1\<rparr>, ph(t := Reading))"
      using d(2-5) tasks_in_nonneg [of awaited ph] by (intro rw_invI up(6)) (simp_all add: up ph)
    then show ?thesis using False by (simp add: try_read_def)
  qed
qed

lemma enter_wait_inv:
  assumes inv: "rw_inv (l, ph)" and t: "ph t = Idle"
  shows "rw_inv (l\<lparr>rw_waiting_writers := rw_waiting_writers l + 1\<rparr>, ph(t := Writer_wait True))"
proof -
  note d = rw_invD [OF inv] and up = counts_upd [OF rw_invD(1) [OF inv], of t]
  show ?thesis
    using d(2-5) tasks_in_nonneg [of awaited ph] by (intro rw_invI finite_upd d(1)) (simp_all add: up t)
qed

lemma try_write_inv:
  assumes inv: "rw_inv (l, ph)" and t: "ph t = Writer_wait True"
  shows "rw_inv (try_write t (l, ph))"
proof -
  note d = rw_invD [OF inv]
  note up = counts_upd [OF d(1), of t] finite_upd [OF d(1), of t]
  show ?thesis
  proof (cases "rw_writer_active l \<or> rw_readers l > 0")
    case True
    let ?ph = "ph(t := Writer_wait False)"
    have "0 < tasks_in (\<lambda>p. p = Reading) ?ph \<or> 0 < tasks_in (\<lambda>p. p = Writing) ?ph" using True d(2,4) by (auto simp: up t)
    then have "0 < tasks_in awaited ?ph" using awaited_if(1,2) [OF up(6)] by blast
    then have "rw_inv (l, ?ph)" using d(2-5) by (intro rw_invI up(6)) (simp_all add: up(1-4) t)
    then show ?thesis using True by (simp add: try_write_def)
  next
    case False
    then have "rw_inv (l\<lparr>rw_writer_active := True, rw_waiting_writers := rw_waiting_writers l - 1\<rparr>, ph(t := Writing))"
      using d(2-6) tasks_in_nonneg [of "\<lambda>p. p = Reading" ph] by (intro rw_invI up(6)) (simp_all add: up t)
    then show ?thesis using False by (simp add: try_write_def)
  qed
qed

lemma notify_inv:
  assumes "rw_readers l = tasks_in (\<lambda>p. p = Reading) ph" "rw_waiting_writers l = tasks_in waiting_writer ph" "finite {t. ph t \<noteq> Idle}"
    "tasks_in (\<lambda>p. p = Writing) ph = (if rw_writer_active l then 1 else 0)" "rw_writer_active l \<longrightarrow> rw_readers l = 0"
  shows "rw_inv (l, notify_all ph)"
  using assms by (intro rw_invI) (simp_all add: tasks_in_notify)

lemma release_inv:
  assumes inv: "rw_inv (l, ph)"
  shows "ph t = Reading \<Longrightarrow> rw_inv (release_reader t (l, ph))" "ph t = Writing \<Longrightarrow> rw_inv (release_writer t (l, ph))"
proof -
  note d = rw_invD [OF inv]
  note up = counts_upd [OF d(1), of t] finite_upd [OF d(1), of t]
  {
    assume t: "ph t = Reading"
    let ?l = "l\<lparr>rw_readers := rw_readers l - 1\<rparr>" and ?ph = "ph(t := Idle)"
    have "0 < tasks_in (\<lambda>p. p = Reading) ph" using tasks_in_pos(1) [OF d(1), of "\<lambda>p. p = Reading"] t by auto
    then have w: "\<not> rw_writer_active l" "1 \<le> rw_readers l" using d(2,5) by auto
    show "rw_inv (release_reader t (l, ph))"
    proof (cases "rw_readers l = 1")
      case True
      have "rw_inv (?l, notify_all ?ph)" using d(2-4) w by (intro notify_inv up(6)) (simp_all add: up(1-3) t)
      then show ?thesis using True by (simp add: release_reader_def Let_def)
    next
      case False
      then have "0 < tasks_in (\<lambda>p. p = Reading) ?ph" using w(2) d(2) by (simp add: up(1) t)
      then have "0 < tasks_in awaited ?ph" by (rule awaited_if(1) [OF up(6)])
      then have "rw_inv (?l, ?ph)" using d(2-4) w by (intro rw_invI up(6)) (simp_all add: up(1-3) t)
      then show ?thesis using False by (simp add: release_reader_def Let_def)
    qed
  next
    assume t: "ph t = Writing"
    then show "rw_inv (release_writer t (l, ph))"
      using d(2-4) tasks_in_pos(1) [OF d(1), of "\<lambda>p. p = Writing"] unfolding release_writer_def prod.case
      by (intro notify_inv up(6)) (auto simp: up(1-3) split: if_splits)
  }
qed

lemma cancel_inv:
  assumes inv: "rw_inv (l, ph)"
  shows "ph t = Reader_wait False \<Longrightarrow> rw_inv (l, ph(t := Idle))" "ph t = Writer_wait False \<Longrightarrow> rw_inv (cancel_writer t (l, ph))"
proof -
  note d = rw_invD [OF inv]
  note up = counts_upd [OF d(1), of t] finite_upd [OF d(1), of t]
  show "rw_inv (l, ph(t := Idle))" if "ph t = Reader_wait False"
    using d that by (intro rw_invI up(6)) (auto simp: up(1-5))
  show "rw_inv (cancel_writer t (l, ph))" if "ph t = Writer_wait False"
    unfolding cancel_writer_def prod.case using d that by (intro rw_invI up(6)) (auto simp: up(1-5))
qed

lemma rw_step_inv:
  assumes "rw_step s t s'" and "rw_inv s"
  shows "rw_inv s'"
  using assms
proof (induction rule: rw_step.induct)
  case (acq_writer ph t l)
  have "acquire_writer t (l, ph) = try_write t (l\<lparr>rw_waiting_writers := rw_waiting_writers l + 1\<rparr>, ph(t := Writer_wait True))"
    by (simp add: acquire_writer_def try_write_def)
  then show ?case using try_write_inv [OF enter_wait_inv [OF acq_writer(2,1)]] by simp
qed (simp_all add: try_read_inv try_write_inv release_inv cancel_inv acquire_reader_def)

lemma rw_reach_inv: "rw_reach s \<Longrightarrow> rw_inv s"
proof (induction rule: rw_reach.induct)
  case start
  show ?case by (simp add: rw_inv_def rwlock_init_def tasks_in_def rw_phases)
qed (rule rw_step_inv)



end
