(* ===== verification/Py_Text.thy ===== *)
theory Py_Text
  imports Prelude
begin

text \<open>
  Searching in Python strings, for the two components that cut text: the reasoning parser and the
  detokenizer. A string is a list, of characters or of code points.
\<close>

section \<open>Searching\<close>

text \<open>\<open>str.find\<close>, with \<open>None\<close> for \<open>-1\<close>; \<open>sub in s\<close> is \<open>str_find sub s \<noteq> None\<close>.\<close>

fun str_find :: "'a list \<Rightarrow> 'a list \<Rightarrow> nat option" where
  "str_find sub [] = (if sub = [] then Some 0 else None)"
| "str_find sub (x # xs) = (if prefix sub (x # xs) then Some 0 else map_option Suc (str_find sub xs))"

section \<open>Facts about searching\<close>

lemma str_find_None: "str_find sub s = None \<longleftrightarrow> \<not> sublist sub s"
proof (induction s)
  case (Cons x xs)
  then show ?case by (auto simp: sublist_Cons_right)
qed auto

lemma str_find_Some: "str_find sub s = Some i \<Longrightarrow> s = take i s @ sub @ drop (i + length sub) s"
proof (induction s arbitrary: i)
  case (Cons x xs)
  then show ?case by (auto simp: prefix_def append_eq_Cons_conv split: if_splits)
qed (auto split: if_splits)

lemma prefix_fits: "length sub \<le> length s \<Longrightarrow> prefix sub (s @ t) \<longleftrightarrow> prefix sub s"
  using prefix_length_prefix [of sub "s @ t" s] by (auto intro: prefix_order.trans)

lemma str_find_length: "str_find sub s = Some i \<Longrightarrow> i + length sub \<le> length s"
proof (induction s arbitrary: i)
  case (Cons x xs)
  then show ?case by (auto split: if_splits dest: prefix_length_le)
qed (auto split: if_splits)

lemma str_find_prefix: "str_find sub (s @ t) = Some i \<Longrightarrow> i + length sub \<le> length s \<Longrightarrow> str_find sub s = Some i"
proof (induction s arbitrary: i)
  case Nil
  then show ?case by (cases t) (auto split: if_splits)
next
  case (Cons x xs)
  then show ?case using prefix_fits [of sub "x # xs" t] by (auto split: if_splits)
qed

lemma str_find_drop:
  "str_find sub (s @ t) = Some i \<Longrightarrow> length s \<le> i \<Longrightarrow> str_find sub t = Some (i - length s)"
proof (induction s arbitrary: i)
  case (Cons x xs)
  then show ?case by (auto split: if_splits)
qed simp

lemma str_find_first: "str_find sub s = Some i \<Longrightarrow> str_find sub (s @ t) = Some j \<Longrightarrow> j = i"
proof (induction s arbitrary: i j)
  case Nil
  then show ?case by (cases t) (auto split: if_splits)
next
  case (Cons x xs)
  have "length sub \<le> length (x # xs)" using str_find_length [OF Cons.prems(1)] by simp
  then have "prefix sub (x # xs @ t) \<longleftrightarrow> prefix sub (x # xs)" using prefix_fits [of sub "x # xs" t] by simp
  then show ?case using Cons by (auto split: if_splits)
qed

lemma str_find_append:
  assumes "str_find sub s = Some i"
  shows "str_find sub (s @ t) = Some i"
proof -
  have "sublist sub (s @ t)" using assms str_find_None [of sub s] by (auto simp: sublist_append)
  then obtain j where j: "str_find sub (s @ t) = Some j" using str_find_None [of sub "s @ t"] by auto
  then show ?thesis using assms str_find_first [of sub s i t j] by simp
qed

lemma str_find_before: "str_find sub (s @ t) = Some i \<Longrightarrow> length s < i + length sub \<Longrightarrow> str_find sub s = None"
  using str_find_append [of sub s _ t] str_find_length [of sub s] by (cases "str_find sub s") fastforce+

end
