(* ===== verification/Reasoning.thy ===== *)
theory Reasoning
  imports Py_Text
begin

text \<open>
  The separation of reasoning from the answer in \<open>reasoning_parser.py\<close>, at once and chunk by chunk.
  Strings are lists of characters with codes below 256; \<open>str.replace\<close>, \<open>find\<close>, \<open>strip\<close> and
  \<open>lower\<close> are modelled as far as the parser uses them. The theorems compare the two interfaces:
  they agree up to surrounding white space when the end tag arrives within one chunk, and only then.
\<close>

section \<open>String operations\<close>

definition is_space :: "char \<Rightarrow> bool" where
  "is_space c \<longleftrightarrow> (let n = (of_char c :: nat) in 9 \<le> n \<and> n \<le> 13 \<or> 28 \<le> n \<and> n \<le> 32 \<or> n = 133 \<or> n = 160)"

definition lstrip :: "string \<Rightarrow> string" where
  "lstrip s = dropWhile is_space s"

definition rstrip :: "string \<Rightarrow> string" where
  "rstrip s = rev (dropWhile is_space (rev s))"

definition strip :: "string \<Rightarrow> string" where
  "strip s = rstrip (lstrip s)"

text \<open>\<open>s.replace(sub, "")\<close>; an empty \<open>sub\<close> changes nothing.\<close>

function str_remove :: "string \<Rightarrow> string \<Rightarrow> string" where
  "str_remove sub [] = []"
| "str_remove sub (x # xs) =
     (if sub \<noteq> [] \<and> prefix sub (x # xs) then str_remove sub (drop (length sub) (x # xs)) else x # str_remove sub xs)"
  by pat_completeness auto
termination
  by (relation "measure (\<lambda>(sub, s). length s)") auto

definition str_lower :: "string \<Rightarrow> string" where
  "str_lower s =
     map (\<lambda>c. let n = (of_char c :: nat)
               in if 65 \<le> n \<and> n \<le> 90 \<or> 192 \<le> n \<and> n \<le> 222 \<and> n \<noteq> 215 then char_of (n + 32) else c) s"

section \<open>The detector\<close>

record detector =
  think_start_token :: string
  think_end_token :: string
  in_reasoning :: bool
  stream_reasoning :: bool
  buffer :: string
  stripped_think_start :: bool

record parse_result =
  normal_text :: string
  reasoning_text :: string

definition detector_init :: "string \<Rightarrow> string \<Rightarrow> bool \<Rightarrow> bool \<Rightarrow> detector" where
  "detector_init start stop force stream =
     \<lparr>think_start_token = start, think_end_token = stop, in_reasoning = force, stream_reasoning = stream,
      buffer = [], stripped_think_start = False\<rparr>"

definition detect_and_parse :: "detector \<Rightarrow> string \<Rightarrow> parse_result" where
  "detect_and_parse d s =
     (let t = strip (str_remove (think_start_token d) s)
      in case str_find (think_end_token d) t of
           None \<Rightarrow> \<lparr>normal_text = [], reasoning_text = t\<rparr>
         | Some i \<Rightarrow> \<lparr>normal_text = strip (drop (i + length (think_end_token d)) t), reasoning_text = take i t\<rparr>)"

definition parse_streaming_increment :: "detector \<Rightarrow> string \<Rightarrow> parse_result \<times> detector" where
  "parse_streaming_increment d new_text =
     (let d1 = d\<lparr>buffer := buffer d @ new_text\<rparr>;
          cur0 = buffer d1;
          found = \<not> stripped_think_start d1 \<and> str_find (think_start_token d1) cur0 \<noteq> None;
          cur = (if found then str_remove (think_start_token d1) cur0 else cur0);
          d2 = (if found then d1\<lparr>stripped_think_start := True\<rparr> else d1)
      in case (if in_reasoning d2 then str_find (think_end_token d2) cur else None) of
           Some i \<Rightarrow>
             (\<lparr>normal_text = drop (i + length (think_end_token d2)) cur, reasoning_text = rstrip (take i cur)\<rparr>,
              d2\<lparr>buffer := [], in_reasoning := False\<rparr>)
         | None \<Rightarrow>
             if in_reasoning d2 then
               (if stream_reasoning d2 then (\<lparr>normal_text = [], reasoning_text = cur\<rparr>, d2\<lparr>buffer := []\<rparr>)
                else (\<lparr>normal_text = [], reasoning_text = []\<rparr>, d2))
             else (\<lparr>normal_text = new_text, reasoning_text = []\<rparr>, d2\<lparr>buffer := []\<rparr>))"

section \<open>The parser\<close>

definition deepseek_r1_detector :: "bool \<Rightarrow> detector" where
  "deepseek_r1_detector stream = detector_init ''<think>'' ''</think>'' True stream"

definition qwen3_detector :: "bool \<Rightarrow> detector" where
  "qwen3_detector stream = detector_init ''<think>'' ''</think>'' True stream"

definition detector_map :: "string \<Rightarrow> (bool \<Rightarrow> detector) option" where
  "detector_map k =
     (if k = ''deepseek-r1'' then Some deepseek_r1_detector else if k = ''qwen3'' then Some qwen3_detector else None)"

definition reasoning_parser_init :: "string option \<Rightarrow> bool \<Rightarrow> detector result" where
  "reasoning_parser_init model_type stream =
     (case model_type of
        None \<Rightarrow> Inl ValueError
      | Some m \<Rightarrow>
          if m = [] then Inl ValueError
          else (case detector_map (str_lower m) of None \<Rightarrow> Inl ValueError | Some f \<Rightarrow> Inr (f stream)))"

definition parse_non_stream :: "detector \<Rightarrow> string \<Rightarrow> string \<times> string" where
  "parse_non_stream d s = (let ret = detect_and_parse d s in (reasoning_text ret, normal_text ret))"

definition parse_stream_chunk :: "detector \<Rightarrow> string \<Rightarrow> (string \<times> string) \<times> detector" where
  "parse_stream_chunk d s =
     (case parse_streaming_increment d s of (ret, d1) \<Rightarrow> ((reasoning_text ret, normal_text ret), d1))"

text \<open>What a client that reads all chunks has put together.\<close>

fun parse_chunks :: "detector \<Rightarrow> string list \<Rightarrow> string \<times> string" where
  "parse_chunks d [] = ([], [])"
| "parse_chunks d (c # cs) =
     (case parse_stream_chunk d c of ((r, n), d1) \<Rightarrow> (case parse_chunks d1 cs of (rs, ns) \<Rightarrow> (r @ rs, n @ ns)))"

section \<open>Facts about strings\<close>

lemma str_remove_none: "\<not> sublist sub s \<Longrightarrow> str_remove sub s = s"
proof (induction s)
  case (Cons x xs)
  then show ?case by (auto simp: sublist_Cons_right)
qed simp

lemma str_remove_lead:
  assumes "\<not> sublist sub s" "sub \<noteq> []"
  shows "str_remove sub (sub @ s) = s"
proof -
  obtain x xs where "sub = x # xs" using assms(2) by (cases sub) auto
  then show ?thesis using str_remove_none [OF assms(1)] by simp
qed

section \<open>White space\<close>

lemma strip_simps [simp]: "lstrip [] = []" "rstrip [] = []" "lstrip (lstrip s) = lstrip s" "rstrip (rstrip s) = rstrip s"
  by (simp_all add: lstrip_def rstrip_def dropWhile_idem)

text \<open>Stripping one side leaves alone what is on the other side of a character that is no space.\<close>

lemma lstrip_append: "\<exists>c\<in>set s. \<not> is_space c \<Longrightarrow> lstrip (s @ t) = lstrip s @ t"
  unfolding lstrip_def by (blast intro: dropWhile_append1)

lemma rstrip_append: "\<exists>c\<in>set t. \<not> is_space c \<Longrightarrow> rstrip (s @ t) = s @ rstrip t"
  using lstrip_append [of "rev t" "rev s"] by (simp add: rstrip_def lstrip_def)

lemma lstrip_spaces: "\<forall>c\<in>set s. is_space c \<Longrightarrow> lstrip (s @ t) = lstrip t"
  by (simp add: lstrip_def dropWhile_append2)

lemma rstrip_spaces: "\<forall>c\<in>set t. is_space c \<Longrightarrow> rstrip (s @ t) = rstrip s"
  using dropWhile_append2 [of "rev t" is_space "rev s"] by (simp add: rstrip_def)

lemma rstrip_append_rstrip: "rstrip (s @ rstrip t) = rstrip (s @ t)"
proof (cases "\<forall>c\<in>set t. is_space c")
  case True
  then have "rstrip t = []" using rstrip_spaces [of t "[]"] by simp
  then show ?thesis using True by (simp add: rstrip_spaces)
next
  case False
  have "rev t \<noteq> [] \<and> dropWhile is_space (rev t) \<noteq> []" using False by (auto simp: dropWhile_eq_Nil_conv)
  then have "\<exists>c\<in>set (rstrip t). \<not> is_space c"
    unfolding rstrip_def using hd_dropWhile [of is_space "rev t"] by (metis hd_in_set set_rev dropWhile_eq_Nil_conv set_dropWhileD)
  then show ?thesis using False by (simp add: rstrip_append)
qed

lemma lstrip_rstrip: "lstrip (rstrip s) = rstrip (lstrip s)"
proof (cases "\<forall>c\<in>set s. is_space c")
  case True
  then show ?thesis using rstrip_spaces [of s "[]"] lstrip_spaces [of s "[]"] by simp
next
  case False
  have s: "s = takeWhile is_space s @ lstrip s" by (simp add: lstrip_def)
  have l: "lstrip s \<noteq> []" "\<not> is_space (hd (lstrip s))"
    using False by (auto simp: lstrip_def dropWhile_eq_Nil_conv hd_dropWhile)
  have "rstrip s = takeWhile is_space s @ rstrip (lstrip s)"
    using rstrip_append [of "lstrip s" "takeWhile is_space s"] l s by (metis hd_in_set)
  moreover have "lstrip (rstrip (lstrip s)) = rstrip (lstrip s)"
  proof -
    obtain x xs where x: "lstrip s = x # xs" "\<not> is_space x" using l by (cases "lstrip s") auto
    have "\<exists>ys. rstrip (x # xs) = x # ys"
      using rstrip_append [of xs "[x]"] rstrip_spaces [of xs "[x]"] x(2) by (cases "\<forall>c\<in>set xs. is_space c") (auto simp: rstrip_def)
    then show ?thesis using x by (auto simp: lstrip_def)
  qed
  ultimately show ?thesis using lstrip_spaces [of "takeWhile is_space s"] set_takeWhileD by (metis (full_types))
qed

section \<open>One pass over the text\<close>

lemma strip_around:
  assumes e: "e \<noteq> []" "\<not> is_space (hd e)" "\<not> is_space (last e)"
  shows "strip (a @ e @ b) = lstrip a @ e @ rstrip b"
proof -
  have l: "lstrip (a @ e @ b) = lstrip a @ e @ b"
  proof (cases "\<forall>c\<in>set a. is_space c")
    case True
    then show ?thesis using e(1,2) lstrip_spaces [OF True, of "[]"] by (cases e) (auto simp: lstrip_spaces lstrip_def)
  qed (simp add: lstrip_append)
  have "rstrip (e @ b) = e @ rstrip b"
  proof (cases "\<forall>c\<in>set b. is_space c")
    case True
    have "rstrip e = e" using e(1,3) rstrip_append [of "[last e]" "butlast e"] by (simp add: rstrip_def)
    then show ?thesis using True rstrip_spaces [OF True, of "[]"] by (simp add: rstrip_spaces)
  qed (simp add: rstrip_append)
  moreover have "\<exists>c\<in>set (e @ b). \<not> is_space c" using e(1,3) last_in_set [of e] by auto
  ultimately show ?thesis using rstrip_append [of "e @ b" "lstrip a"] by (simp add: strip_def l)
qed

text \<open>The tags of a detector: the end tag begins and ends with a visible character.\<close>

definition tags_ok :: "detector \<Rightarrow> bool" where
  "tags_ok d \<longleftrightarrow> think_start_token d \<noteq> [] \<and> think_end_token d \<noteq> [] \<and>
     \<not> is_space (hd (think_end_token d)) \<and> \<not> is_space (last (think_end_token d))"

lemma str_remove_lead_or_none:
  assumes "tags_ok d" "str_find (think_start_token d) t = None" "lead = [] \<or> lead = think_start_token d"
  shows "str_remove (think_start_token d) (lead @ t) = t"
  using assms str_remove_none [of "think_start_token d" t] str_remove_lead [of "think_start_token d" t]
  by (auto simp: tags_ok_def str_find_None)

lemma one_shot:
  assumes d: "tags_ok d" and lead: "lead = [] \<or> lead = think_start_token d"
    and t: "t = a @ think_end_token d @ b" "str_find (think_end_token d) t = Some (length a)" "str_find (think_start_token d) t = None"
  shows "parse_non_stream d (lead @ t) = (lstrip a, strip b)"
proof -
  let ?e = "think_end_token d"
  have e: "?e \<noteq> []" "\<not> is_space (hd ?e)" "\<not> is_space (last ?e)" using d by (simp_all add: tags_ok_def)
  have "takeWhile is_space a @ lstrip a @ ?e @ b = t" using t(1) by (simp add: lstrip_def)
  then have "str_find ?e (lstrip a @ ?e @ b) = Some (length a - length (takeWhile is_space a))"
    using str_find_drop [of ?e "takeWhile is_space a" "lstrip a @ ?e @ b" "length a"] t(2) by (simp add: length_takeWhile_le)
  moreover have "length a - length (takeWhile is_space a) = length (lstrip a)" by (simp add: lstrip_def dropWhile_eq_drop)
  ultimately have "str_find ?e ((lstrip a @ ?e) @ b) = Some (length (lstrip a))" by simp
  then have "str_find ?e (lstrip a @ ?e) = Some (length (lstrip a))" by (rule str_find_prefix) simp
  then have "str_find ?e (lstrip a @ ?e @ rstrip b) = Some (length (lstrip a))"
    using str_find_append [of ?e "lstrip a @ ?e" _ "rstrip b"] by simp
  moreover have "strip (rstrip b) = strip b" by (simp add: strip_def lstrip_rstrip)
  ultimately show ?thesis
    using strip_around [OF e, of a b] t(1) str_remove_lead_or_none [OF d t(3) lead]
    by (simp add: parse_non_stream_def detect_and_parse_def)
qed

section \<open>Chunk by chunk\<close>

lemma find_parts: "str_find s (x @ y @ z) = None \<Longrightarrow> str_find s y = None"
  by (simp add: str_find_None) (metis sublist_appendI sublist_order.order.trans)

lemma chunk_answer: "\<not> in_reasoning d \<Longrightarrow> buffer d = [] \<Longrightarrow>
    \<exists>d1. parse_stream_chunk d c = (([], c), d1) \<and> \<not> in_reasoning d1 \<and> buffer d1 = []"
  by (auto simp: parse_stream_chunk_def parse_streaming_increment_def Let_def)

lemma chunks_answer: "\<not> in_reasoning d \<Longrightarrow> buffer d = [] \<Longrightarrow> parse_chunks d cs = ([], concat cs)"
proof (induction cs arbitrary: d)
  case (Cons c cs)
  then show ?case using chunk_answer [of d c] by auto
qed simp

lemma chunk_reasoning:
  assumes "in_reasoning d" "str_find (think_start_token d) (buffer d @ c) = None" "str_find (think_end_token d) (buffer d @ c) = None"
  shows "parse_stream_chunk d c =
    (if stream_reasoning d then ((buffer d @ c, []), d\<lparr>buffer := []\<rparr>) else (([], []), d\<lparr>buffer := buffer d @ c\<rparr>))"
  using assms by (simp add: parse_stream_chunk_def parse_streaming_increment_def Let_def)

lemma chunk_end:
  assumes "in_reasoning d" "str_find (think_start_token d) (buffer d @ c) = None"
    "buffer d @ c = a @ think_end_token d @ b" "str_find (think_end_token d) (buffer d @ c) = Some (length a)"
  shows "parse_chunks d (c # cs) = (rstrip a, b @ concat cs)"
  using assms chunks_answer [of "d\<lparr>buffer := [], in_reasoning := False\<rparr>" cs]
  by (simp add: parse_stream_chunk_def parse_streaming_increment_def Let_def)

lemma chunk_lead:
  assumes "tags_ok d" "in_reasoning d" "stream_reasoning d" "buffer d = []" "\<not> stripped_think_start d" "str_find (think_start_token d) c = None"
  shows "parse_chunks d ((think_start_token d @ c) # cs) = parse_chunks (d\<lparr>stripped_think_start := True\<rparr>) (c # cs)"
proof -
  have "str_find (think_start_token d) (think_start_token d @ c) \<noteq> None" by (auto simp: str_find_None)
  then show ?thesis
    using assms str_remove_lead_or_none [OF assms(1,6), of "think_start_token d"]
    by (cases "str_find (think_end_token d) c") (auto simp: parse_stream_chunk_def parse_streaming_increment_def Let_def)
qed

text \<open>The chunks before the one with the end tag.\<close>

lemma chunks_streamed:
  assumes "in_reasoning d" "stream_reasoning d" "buffer d = []"
    and "\<forall>c\<in>set pre. str_find (think_start_token d) c = None \<and> str_find (think_end_token d) c = None"
  shows "parse_chunks d (pre @ cs) = (concat pre @ fst (parse_chunks d cs), snd (parse_chunks d cs))"
  using assms(4)
proof (induction pre)
  case (Cons c pre)
  have "d\<lparr>buffer := []\<rparr> = d" using assms(3) by simp
  then have "parse_stream_chunk d c = ((c, []), d)" using Cons.prems assms(1-3) chunk_reasoning [of d c] by auto
  then show ?case using Cons by (simp add: case_prod_beta)
qed simp

lemma chunks_buffered:
  assumes "in_reasoning d" "\<not> stream_reasoning d"
    and "str_find (think_start_token d) (buffer d @ concat pre) = None" "str_find (think_end_token d) (buffer d @ concat pre) = None"
  shows "parse_chunks d (pre @ cs) = parse_chunks (d\<lparr>buffer := buffer d @ concat pre\<rparr>) cs"
  using assms
proof (induction pre arbitrary: d)
  case (Cons c pre)
  have none: "str_find x (buffer d @ c) = None" if "str_find x (buffer d @ concat (c # pre)) = None" for x
    using that find_parts [of x "[]" "buffer d @ c" "concat pre"] by simp
  show ?case using Cons.IH [of "d\<lparr>buffer := buffer d @ c\<rparr>"] Cons.prems chunk_reasoning [of d c] none by simp
qed simp

lemma find_in_chunk: "str_find s (concat cs) = None \<Longrightarrow> c \<in> set cs \<Longrightarrow> str_find s c = None"
  using find_parts by (fastforce dest: split_list)

section \<open>The two interfaces\<close>

lemma parser_detector:
  assumes "reasoning_parser_init m stream = Inr d"
  shows "d = detector_init ''<think>'' ''</think>'' True stream"
  using assms
  by (auto simp: reasoning_parser_init_def detector_map_def deepseek_r1_detector_def qwen3_detector_def
      split: option.splits if_splits)

lemma parser_tags:
  "tags_ok (detector_init ''<think>'' ''</think>'' f s)"
  by (simp add: tags_ok_def detector_init_def is_space_def)

text \<open>The chunks of a text whose end tag lies in one of them, after an opening tag or without one.\<close>

lemma chunks_outcome:
  assumes d: "tags_ok d" "in_reasoning d" "buffer d = []"
    and cs: "cs = pre @ (a @ think_end_token d @ b) # post"
    and e: "str_find (think_end_token d) (concat cs) = Some (length (concat pre @ a))"
    and s: "str_find (think_start_token d) (concat cs) = None"
  shows "parse_chunks d cs =
    (if stream_reasoning d then concat pre @ rstrip a else rstrip (concat pre @ a), b @ concat post)"
proof -
  let ?c = "a @ think_end_token d @ b" and ?E = "think_end_token d"
  have all: "concat cs = (concat pre @ ?c) @ concat post" "concat cs = concat pre @ ?c @ concat post" using cs by simp_all
  have whole: "str_find ?E (concat pre @ ?c) = Some (length (concat pre @ a))"
    using str_find_prefix [of ?E "concat pre @ ?c" "concat post"] e all(1) by simp
  have E: "?E \<noteq> []" using d(1) by (simp add: tags_ok_def)
  have before: "str_find ?E (concat pre) = None"
    using str_find_before [of ?E "concat pre" "?c @ concat post"] e all(2) E by simp
  have none: "str_find (think_start_token d) (concat pre @ ?c) = None" "str_find (think_start_token d) (concat pre) = None"
    "str_find (think_start_token d) ?c = None"
    using s all find_parts [of _ "[]" "concat pre @ ?c" "concat post"] find_parts [of _ "[]" "concat pre" "?c @ concat post"]
      find_parts [of _ "concat pre" ?c "concat post"] by simp_all
  show ?thesis
  proof (cases "stream_reasoning d")
    case True
    have "str_find ?E ?c = Some (length a)" using str_find_drop [OF whole] by simp
    then have "parse_chunks d (?c # post) = (rstrip a, b @ concat post)"
      using chunk_end [of d ?c a b post] d none(3) by simp
    then show ?thesis
      using True cs chunks_streamed [of d pre "?c # post"] d find_in_chunk [OF none(2)] find_in_chunk [OF before] by simp
  next
    case False
    have "parse_chunks d cs = parse_chunks (d\<lparr>buffer := concat pre\<rparr>) (?c # post)"
      using cs chunks_buffered [of d pre "?c # post"] d False none(2) before by simp
    also have "\<dots> = (rstrip (concat pre @ a), b @ concat post)"
      using d none(1) whole by (intro chunk_end) simp_all
    finally show ?thesis using False by simp
  qed
qed


text \<open>
  C35: With \<open>stream_reasoning\<close> an end tag that is cut by a chunk boundary is lost: when no single
  chunk contains it, the whole text is handed out as reasoning and the answer stays empty, while
  \<open>parse_non_stream\<close> separates the same text.
\<close>

theorem split_end_tag_lost:
  assumes "reasoning_parser_init m True = Inr d"
    and "str_find ''<think>'' (concat cs) = None" and "str_find ''</think>'' (concat cs) = Some i"
    and "\<forall>c\<in>set cs. str_find ''</think>'' c = None"
  shows "parse_chunks d cs = (concat cs, []) \<and>
    parse_non_stream d (concat cs) = (lstrip (take i (concat cs)), strip (drop (i + 8) (concat cs)))"
proof -
  note d = parser_detector [OF assms(1)]
  have f: "tags_ok d" "in_reasoning d" "buffer d = []" "think_end_token d = ''</think>''" "think_start_token d = ''<think>''" "stream_reasoning d"
    using parser_tags [of True True] by (simp_all add: d detector_init_def)
  have "parse_chunks d (cs @ []) = (concat cs @ fst (parse_chunks d []), snd (parse_chunks d []))"
    by (rule chunks_streamed) (use f assms(4) find_in_chunk [OF assms(2)] in auto)
  moreover have "length (think_end_token d) = 8" using f(4) by simp
  then have "parse_non_stream d ([] @ concat cs) = (lstrip (take i (concat cs)), strip (drop (i + 8) (concat cs)))"
    using str_find_Some [OF assms(3)] str_find_length [OF assms(3)] assms(2,3)
    unfolding f(4,5) [symmetric] by (intro one_shot f(1)) (simp_all add: min_absorb2)
  ultimately show ?thesis by simp
qed

text \<open>
  Without \<open>stream_reasoning\<close> the opening tag is taken out of a copy of the buffer only, so when the
  end tag comes in a later chunk the reasoning still contains it.
\<close>

lemma buffered_keeps_opening_tag:
  assumes "reasoning_parser_init m False = Inr d" and "str_find ''</think>'' (''<think>'' @ a @ ''</think>'' @ b) = Some (7 + length a)"
  shows "parse_chunks d [''<think>'', a @ ''</think>'' @ b] = (rstrip (''<think>'' @ a), b)"
  using assms(2) parser_detector [OF assms(1)]
  by (simp add: detector_init_def parse_stream_chunk_def parse_streaming_increment_def Let_def)


theorem split_end_tag_lost_witness:
  "\<exists>d. reasoning_parser_init (Some ''deepseek-r1'') True = Inr d \<and>
     parse_chunks d [''a</th'', ''ink>b''] = (''a</think>b'', []) \<and> parse_non_stream d ''a</think>b'' = (''a'', ''b'')"
proof -
  have i: "reasoning_parser_init (Some ''deepseek-r1'') True = Inr (deepseek_r1_detector True)" by code_simp
  have "str_find ''<think>'' (concat [''a</th'', ''ink>b'']) = None" "str_find ''</think>'' (concat [''a</th'', ''ink>b'']) = Some 1"
    "\<forall>c\<in>set [''a</th'', ''ink>b'']. str_find ''</think>'' c = None" by code_simp+
  from split_end_tag_lost [OF i this] have "parse_chunks (deepseek_r1_detector True) [''a</th'', ''ink>b''] = (''a</think>b'', [])"
    "parse_non_stream (deepseek_r1_detector True) ''a</think>b'' = (lstrip ''a'', strip ''b'')" by simp_all
  moreover have "lstrip ''a'' = ''a''" "strip ''b'' = ''b''" by code_simp+
  ultimately show ?thesis using i by auto
qed

end
