(* ===== verification/Streaming.thy ===== *)
theory Streaming
  imports Req Py_Text
begin

text \<open>
  The way of the generated tokens to the client: \<open>stream_output_generation\<close> of
  \<open>managers/scheduler_output_processor_mixin.py\<close> sends the new token ids of a batch to the
  detokenizer, and \<open>managers/detokenizer_manager.py\<close> turns them into text, incrementally. Text is a
  list of Unicode code points, because the replacement character and the Chinese characters matter
  here. The parallel lists of a \<open>BatchTokenIDOut\<close>, to which the scheduler always appends together,
  are one list of records. Log probabilities, hidden states and speculative-decoding counts are left
  out, as is the output of multimodal generation.
\<close>

type_synonym pystr = "nat list"

section \<open>Finish reasons on the wire\<close>

datatype matched_value = MatchedInt token | MatchedStr pystr

record finish_json =
  fj_type :: string
  fj_matched :: "matched_value option"
  fj_length :: "int option"
  fj_message :: "string option"
  fj_status_code :: "nat option"
  fj_err_type :: "string option"

text \<open>The constructor of \<open>FINISH_ABORT\<close> replaces a missing or empty message.\<close>

fun to_json :: "finish_reason \<Rightarrow> finish_json" where
  "to_json (FINISH_MATCHED_TOKEN t) =
     \<lparr>fj_type = ''stop'', fj_matched = Some (MatchedInt t), fj_length = None, fj_message = None,
      fj_status_code = None, fj_err_type = None\<rparr>"
| "to_json (FINISH_MATCHED_STR s) =
     \<lparr>fj_type = ''stop'', fj_matched = Some (MatchedStr (map of_char s)), fj_length = None, fj_message = None,
      fj_status_code = None, fj_err_type = None\<rparr>"
| "to_json (FINISH_LENGTH n) =
     \<lparr>fj_type = ''length'', fj_matched = None, fj_length = n, fj_message = None,
      fj_status_code = None, fj_err_type = None\<rparr>"
| "to_json (FINISH_ABORT msg code err) =
     \<lparr>fj_type = ''abort'', fj_matched = None, fj_length = None,
      fj_message = Some (case msg of None \<Rightarrow> ''Aborted'' | Some m \<Rightarrow> if m = [] then ''Aborted'' else m),
      fj_status_code = code, fj_err_type = err\<rparr>"

section \<open>The scheduler's side\<close>

record token_id_out =
  to_rid :: string
  to_finished_reason :: "finish_json option"
  to_decoded_text :: pystr
  to_decode_ids :: "token list"
  to_read_offset :: nat
  to_output_ids :: "token list option"
  to_skip_special :: bool
  to_spaces_between :: bool
  to_no_stop_trim :: bool
  to_prompt_tokens :: nat
  to_completion_tokens :: nat
  to_cached_tokens :: int

record stream_cfg =
  sc_stream_interval :: int
  sc_multimodal_gen :: bool
  sc_skip_tokenizer_init :: bool

definition DEFAULT_FORCE_STREAM_INTERVAL :: int where
  "DEFAULT_FORCE_STREAM_INTERVAL = 50"

text \<open>\<open>should_output\<close> for a request that has not finished.\<close>

definition output_due :: "stream_cfg \<Rightarrow> req \<Rightarrow> bool result" where
  "output_due cfg r =
     (if stream r then
        (let interval = (case stream_interval (r_params r) of
                           None \<Rightarrow> sc_stream_interval cfg
                         | Some n \<Rightarrow> if n = 0 then sc_stream_interval cfg else n)
         in if interval = 0 then Inl ZeroDivisionError else Inr (int (length (output_ids r)) mod interval = 0))
      else
        Inr (int (length (output_ids r)) mod DEFAULT_FORCE_STREAM_INTERVAL = 0 \<and> \<not> sc_multimodal_gen cfg))"

text \<open>The entry of one request; the read offset is never smaller than the surrounding offset.\<close>

definition output_entry :: "stream_cfg \<Rightarrow> req \<Rightarrow> token_id_out \<times> req" where
  "output_entry cfg r =
     (case init_incremental_detokenize r of ((ids, off), r1) \<Rightarrow>
        (\<lparr>to_rid = rid r1, to_finished_reason = map_option to_json (finished_reason r1),
          to_decoded_text = map of_char (decoded_text r1),
          to_decode_ids = (if sc_multimodal_gen cfg then ids else drop (send_decode_id_offset r1) ids),
          to_read_offset = nat off,
          to_output_ids = (if sc_skip_tokenizer_init cfg then Some (drop (send_token_offset r1) (output_ids r1)) else None),
          to_skip_special = skip_special_tokens (r_params r1),
          to_spaces_between = spaces_between_special_tokens (r_params r1),
          to_no_stop_trim = no_stop_trim (r_params r1),
          to_prompt_tokens = length (origin_input_ids r1), to_completion_tokens = length (output_ids r1),
          to_cached_tokens = cached_tokens r1\<rparr>,
         r1\<lparr>send_decode_id_offset := length ids, send_token_offset := length (output_ids r1)\<rparr>))"

definition stream_req :: "stream_cfg \<Rightarrow> string option \<Rightarrow> req \<Rightarrow> (token_id_out option \<times> req) result" where
  "stream_req cfg skip r =
     (if skip = Some (rid r) then Inr (None, r)
      else if sc_multimodal_gen cfg \<and> to_abort r then Inr (None, r)
      else if finished r then
        (if finished_output r = Some True then Inr (None, r)
         else (case output_entry cfg (r\<lparr>finished_output := Some True\<rparr>) of (e, r1) \<Rightarrow> Inr (Some e, r1)))
      else bind_result (output_due cfg r)
        (\<lambda>due. if due then (case output_entry cfg r of (e, r1) \<Rightarrow> Inr (Some e, r1)) else Inr (None, r)))"

fun stream_reqs :: "stream_cfg \<Rightarrow> string option \<Rightarrow> req list \<Rightarrow> (token_id_out list \<times> req list) result" where
  "stream_reqs cfg skip [] = Inr ([], [])"
| "stream_reqs cfg skip (r # rs) =
     bind_result (stream_req cfg skip r)
       (\<lambda>(e, r1). bind_result (stream_reqs cfg skip rs)
          (\<lambda>(es, rs1). Inr ((case e of None \<Rightarrow> es | Some x \<Rightarrow> x # es), r1 # rs1)))"

text \<open>The message to the detokenizer, when there is one, and the requests afterwards.\<close>

definition stream_output_generation ::
  "stream_cfg \<Rightarrow> string option \<Rightarrow> req list \<Rightarrow> (token_id_out list option \<times> req list) result" where
  "stream_output_generation cfg skip reqs =
     bind_result (stream_reqs cfg skip reqs)
       (\<lambda>(es, rs). Inr (if es = [] \<or> sc_multimodal_gen cfg then None else Some es, rs))"

section \<open>Printable text\<close>

definition REPLACEMENT :: nat where
  "REPLACEMENT = 0xFFFD"

definition is_chinese_char :: "nat \<Rightarrow> bool" where
  "is_chinese_char cp \<longleftrightarrow>
     cp \<ge> 0x4E00 \<and> cp \<le> 0x9FFF \<or> cp \<ge> 0x3400 \<and> cp \<le> 0x4DBF \<or> cp \<ge> 0x20000 \<and> cp \<le> 0x2A6DF \<or>
     cp \<ge> 0x2A700 \<and> cp \<le> 0x2B73F \<or> cp \<ge> 0x2B740 \<and> cp \<le> 0x2B81F \<or> cp \<ge> 0x2B820 \<and> cp \<le> 0x2CEAF \<or>
     cp \<ge> 0xF900 \<and> cp \<le> 0xFAFF \<or> cp \<ge> 0x2F800 \<and> cp \<le> 0x2FA1F"

text \<open>\<open>text[: text.rfind(c) + 1]\<close>: everything up to the last \<open>c\<close>.\<close>

definition upto_last :: "nat \<Rightarrow> pystr \<Rightarrow> pystr" where
  "upto_last c s = rev (dropWhile (\<lambda>x. x \<noteq> c) (rev s))"

definition find_printable_text :: "pystr \<Rightarrow> pystr" where
  "find_printable_text s =
     (if s \<noteq> [] \<and> last s = 10 then s
      else if s \<noteq> [] \<and> is_chinese_char (last s) then s
      else if length s > 1 \<and> is_chinese_char (s ! (length s - 2)) then butlast s
      else upto_last 32 s)"

section \<open>The detokenizer\<close>

record decode_status =
  ds_decoded_text :: pystr
  ds_decode_ids :: "token list"
  ds_surr_offset :: nat
  ds_read_offset :: nat
  ds_sent_offset :: nat

text \<open>
  A \<open>LimitedCapacityDict\<close> is an insertion-ordered association list; assigning to a key of a full
  dictionary first removes the oldest entry, whichever key is assigned.
\<close>

definition lcd_setitem :: "nat \<Rightarrow> string \<Rightarrow> 'v \<Rightarrow> (string \<times> 'v) list \<Rightarrow> (string \<times> 'v) list result" where
  "lcd_setitem capacity k v d =
     (if length d \<ge> capacity then
        (case d of [] \<Rightarrow> Inl KeyError | _ # d1 \<Rightarrow> Inr (AList.update k v d1))
      else Inr (AList.update k v d))"

text \<open>
  \<open>trim_matched_stop\<close> for a list of ids and for text. An id 0 and an empty string count as no match.
\<close>

definition stop_matched :: "finish_json option \<Rightarrow> bool \<Rightarrow> matched_value option" where
  "stop_matched reason no_trim =
     (if no_trim then None
      else case reason of
             None \<Rightarrow> None
           | Some j \<Rightarrow>
               (case fj_matched j of
                  Some (MatchedInt t) \<Rightarrow> if t = 0 then None else Some (MatchedInt t)
                | Some (MatchedStr s) \<Rightarrow> if s = [] then None else Some (MatchedStr s)
                | None \<Rightarrow> None))"

definition trim_stop_ids :: "token list \<Rightarrow> finish_json option \<Rightarrow> bool \<Rightarrow> token list result" where
  "trim_stop_ids ids reason no_trim =
     (case stop_matched reason no_trim of
        Some (MatchedInt t) \<Rightarrow> if ids = [] then Inl AssertionError else Inr (butlast ids)
      | _ \<Rightarrow> Inr ids)"

definition trim_stop_text :: "pystr \<Rightarrow> finish_json option \<Rightarrow> bool \<Rightarrow> pystr" where
  "trim_stop_text s reason no_trim =
     (case stop_matched reason no_trim of
        Some (MatchedStr m) \<Rightarrow> (case str_find m s of Some pos \<Rightarrow> take pos s | None \<Rightarrow> s)
      | _ \<Rightarrow> s)"

text \<open>The first loop of \<open>handle_batch_token_id_out\<close>: enter the new ids, cut the two windows.\<close>

definition enter_ids :: "token_id_out \<Rightarrow> decode_status option \<Rightarrow> decode_status" where
  "enter_ids e so =
     (case so of
        None \<Rightarrow> \<lparr>ds_decoded_text = to_decoded_text e, ds_decode_ids = to_decode_ids e, ds_surr_offset = 0,
                 ds_read_offset = to_read_offset e, ds_sent_offset = 0\<rparr>
      | Some s \<Rightarrow> s\<lparr>ds_decode_ids := ds_decode_ids s @ to_decode_ids e\<rparr>)"

definition read_window :: "token_id_out \<Rightarrow> decode_status \<Rightarrow> (token list \<times> token list) result" where
  "read_window e s =
     bind_result (trim_stop_ids (drop (ds_surr_offset s) (ds_decode_ids s)) (to_finished_reason e) (to_no_stop_trim e))
       (\<lambda>rd. Inr (rd, seg (ds_decode_ids s) (ds_surr_offset s) (ds_read_offset s)))"

fun collect_windows ::
  "nat \<Rightarrow> token_id_out list \<Rightarrow> (string \<times> decode_status) list \<Rightarrow>
   ((token list \<times> token list) list \<times> (string \<times> decode_status) list) result" where
  "collect_windows capacity [] d = Inr ([], d)"
| "collect_windows capacity (e # es) d =
     (let so = map_of d (to_rid e); s = enter_ids e so
      in bind_result (case so of
                        None \<Rightarrow> lcd_setitem capacity (to_rid e) s d
                      | Some _ \<Rightarrow> Inr (AList.update (to_rid e) s d))
           (\<lambda>d1. bind_result (read_window e s)
              (\<lambda>w. bind_result (collect_windows capacity es d1) (\<lambda>(ws, d2). Inr (w # ws, d2)))))"

text \<open>The second loop: what is new in the text, and how much of it can be sent.\<close>

definition decode_increment :: "token_id_out \<Rightarrow> pystr \<Rightarrow> pystr \<Rightarrow> decode_status \<Rightarrow> pystr \<times> decode_status" where
  "decode_increment e read_text surr_text s =
     (let new0 = drop (length surr_text) read_text;
          (s1, new_text) =
            (if to_finished_reason e = None then
               (if new0 \<noteq> [] \<and> last new0 \<noteq> REPLACEMENT then
                  (s\<lparr>ds_decoded_text := ds_decoded_text s @ new0, ds_surr_offset := ds_read_offset s,
                     ds_read_offset := length (ds_decode_ids s)\<rparr>, [])
                else (s, find_printable_text new0))
             else (s, new0));
          output_str = trim_stop_text (ds_decoded_text s1 @ new_text) (to_finished_reason e) (to_no_stop_trim e)
      in (drop (ds_sent_offset s1) output_str, s1\<lparr>ds_sent_offset := length output_str\<rparr>))"

record str_out =
  so_rid :: string
  so_finished_reason :: "finish_json option"
  so_output_str :: pystr
  so_prompt_tokens :: nat
  so_completion_tokens :: nat
  so_cached_tokens :: int

fun decode_loop ::
  "(token_id_out \<times> pystr \<times> pystr) list \<Rightarrow> (string \<times> decode_status) list \<Rightarrow>
   (str_out list \<times> (string \<times> decode_status) list) result" where
  "decode_loop [] d = Inr ([], d)"
| "decode_loop ((e, read_text, surr_text) # xs) d =
     (case map_of d (to_rid e) of
        None \<Rightarrow> Inl RuntimeError
      | Some s \<Rightarrow>
          (case decode_increment e read_text surr_text s of (inc, s1) \<Rightarrow>
             bind_result (decode_loop xs (AList.update (to_rid e) s1 d))
               (\<lambda>(os, d1). Inr (\<lparr>so_rid = to_rid e, so_finished_reason = to_finished_reason e, so_output_str = inc,
                                 so_prompt_tokens = to_prompt_tokens e, so_completion_tokens = to_completion_tokens e,
                                 so_cached_tokens = to_cached_tokens e\<rparr> # os, d1))))"

text \<open>
  \<open>dec\<close> is the tokenizer's \<open>decode\<close> with its two flags; \<open>batch_decode\<close> applies it to each list, and
  takes the flags of the first request of the batch for all of them.
\<close>

definition handle_batch_token_id_out ::
  "(bool \<Rightarrow> bool \<Rightarrow> token list \<Rightarrow> pystr) \<Rightarrow> nat \<Rightarrow> token_id_out list \<Rightarrow> (string \<times> decode_status) list \<Rightarrow>
   (str_out list \<times> (string \<times> decode_status) list) result" where
  "handle_batch_token_id_out dec capacity es d =
     bind_result (collect_windows capacity es d)
       (\<lambda>(ws, d1).
          (case es of
             [] \<Rightarrow> Inl IndexError
           | e0 # _ \<Rightarrow>
               (let decode = dec (to_skip_special e0) (to_spaces_between e0)
                in decode_loop (map (\<lambda>(e, rd, sr). (e, decode rd, decode sr)) (zip es ws)) d1)))"

end
