(* ===== verification/Streaming_Step.thy ===== *)
theory Streaming_Step
  imports Streaming
begin

text \<open>
  One message for one request: what the scheduler sends extends what the detokenizer has, and what
  the detokenizer sends extends what the client has. The window the detokenizer decodes is enough
  because of two laws of the tokenizer, \<open>incremental_decoder\<close>.
\<close>

lemma seg_seg:
  assumes "a \<le> b" and "b \<le> n"
  shows "seg xs a b @ seg xs b n = drop a (take n xs)"
proof -
  have "take (b - a) (drop a (take n xs)) = drop a (take b xs)"
    using assms by (simp add: take_drop min_def)
  moreover have "drop (b - a) (drop a (take n xs)) = drop b (take n xs)" using assms by simp
  ultimately show ?thesis unfolding seg_def by (metis append_take_drop_id)
qed

section \<open>Settled text\<close>

text \<open>
  Text that ends in a replacement character may end within a character whose bytes are not complete.
  The first law says that the text behind a complete position can be read off a window that starts
  some tokens before it; the second that only trailing replacement characters are ever revised.
\<close>

definition clean :: "pystr \<Rightarrow> bool" where
  "clean s \<longleftrightarrow> s = [] \<or> last s \<noteq> REPLACEMENT"

definition settled :: "pystr \<Rightarrow> pystr" where
  "settled s = rev (dropWhile (\<lambda>x. x = REPLACEMENT) (rev s))"

definition incremental_decoder :: "(token list \<Rightarrow> pystr) \<Rightarrow> bool" where
  "incremental_decoder dec \<longleftrightarrow>
     (\<forall>a b c. b \<noteq> [] \<and> clean (dec (a @ b)) \<longrightarrow> dec (a @ b @ c) = dec (a @ b) @ drop (length (dec b)) (dec (b @ c))) \<and>
     (\<forall>x c. prefix (settled (dec x)) (dec (x @ c)))"

lemma clean_append [simp]: "y \<noteq> [] \<Longrightarrow> clean (x @ y) \<longleftrightarrow> clean y"
  by (simp add: clean_def)

lemma settled_clean [simp]: "clean s \<Longrightarrow> settled s = s"
proof -
  assume "clean s"
  then have "dropWhile (\<lambda>x. x = REPLACEMENT) (rev s) = rev s"
    by (cases s rule: rev_cases) (auto simp: clean_def)
  then show ?thesis by (simp add: settled_def)
qed

lemma settled_append: "clean x \<Longrightarrow> settled (x @ y) = x @ settled y"
proof (induction y rule: rev_induct)
  case (snoc c y)
  then show ?case by (cases "c = REPLACEMENT") (simp_all add: settled_def)
qed (simp add: settled_def [of "[]"])

lemma prefix_settled: "prefix p s \<Longrightarrow> clean p \<Longrightarrow> prefix p (settled s)"
  by (auto simp: prefix_def settled_append)

lemma prefix_upto_last: "prefix (upto_last c s) s"
proof -
  have "rev s = takeWhile (\<lambda>x. x \<noteq> c) (rev s) @ dropWhile (\<lambda>x. x \<noteq> c) (rev s)"
    by (rule takeWhile_dropWhile_id [symmetric])
  then have "s = upto_last c s @ rev (takeWhile (\<lambda>x. x \<noteq> c) (rev s))"
    unfolding upto_last_def by (metis rev_append rev_rev_ident)
  then show ?thesis by (metis prefixI)
qed

lemma last_upto_last: "upto_last c s \<noteq> [] \<Longrightarrow> last (upto_last c s) = c"
proof -
  assume a: "upto_last c s \<noteq> []"
  then have "dropWhile (\<lambda>x. x \<noteq> c) (rev s) \<noteq> []" by (simp add: upto_last_def)
  then have "hd (dropWhile (\<lambda>x. x \<noteq> c) (rev s)) = c" using hd_dropWhile [of "\<lambda>x. x \<noteq> c" "rev s"] by blast
  then show ?thesis using a by (simp add: upto_last_def last_rev)
qed

lemma prefix_upto_last_mono: "prefix y s \<Longrightarrow> last y = c \<Longrightarrow> y \<noteq> [] \<Longrightarrow> prefix y (upto_last c s)"
proof -
  assume "prefix y s" and y: "last y = c" "y \<noteq> []"
  then obtain z where s: "s = y @ z" by (auto simp: prefix_def)
  have "dropWhile (\<lambda>x. x \<noteq> c) (rev y) = rev y" using y by (cases y rule: rev_cases) auto
  then have "prefix y (upto_last c (y @ z))"
    by (cases "\<forall>x \<in> set z. x \<noteq> c") (auto simp: upto_last_def dropWhile_append1 dropWhile_append2 dropWhile_append)
  then show ?thesis by (simp add: s)
qed

text \<open>
  Held-back text is printed up to its last space. The text must not contain Chinese characters:
  after one of them everything is printed, which the next call may take back.
\<close>

definition plain_decoder :: "(token list \<Rightarrow> pystr) \<Rightarrow> bool" where
  "plain_decoder dec \<longleftrightarrow> (\<forall>ids. \<forall>x \<in> set (dec ids). \<not> is_chinese_char x)"

lemma printable_plain:
  assumes "s = [] \<or> last s = REPLACEMENT" and "\<forall>x \<in> set s. \<not> is_chinese_char x"
  shows "find_printable_text s = upto_last 32 s" and "prefix (upto_last 32 s) (settled s)"
proof -
  have "\<not> (1 < length s \<and> is_chinese_char (s ! (length s - 2)))" using assms(2) by simp
  moreover have "\<not> (s \<noteq> [] \<and> last s = 10)" using assms(1) by (auto simp: REPLACEMENT_def)
  moreover have "\<not> (s \<noteq> [] \<and> is_chinese_char (last s))" using assms(2) by auto
  ultimately show "find_printable_text s = upto_last 32 s" unfolding find_printable_text_def by (simp only: if_False)
  show "prefix (upto_last 32 s) (settled s)"
    using prefix_upto_last last_upto_last [of 32 s] by (intro prefix_settled) (auto simp: clean_def REPLACEMENT_def)
qed

section \<open>A request and its decode status\<close>

definition prompt_tail :: "req \<Rightarrow> token list" where
  "prompt_tail r = drop (length (origin_input_ids_unpadded r) - INIT_INCREMENTAL_DETOKENIZATION_OFFSET) (origin_input_ids_unpadded r)"

definition all_ids :: "req \<Rightarrow> token list" where
  "all_ids r = prompt_tail r @ output_ids r"

text \<open>The text of generated tokens: what they add to the text of the end of the prompt.\<close>

definition text_of_ids :: "(token list \<Rightarrow> pystr) \<Rightarrow> req \<Rightarrow> token list \<Rightarrow> pystr" where
  "text_of_ids dec r ids = drop (length (dec (prompt_tail r))) (dec (prompt_tail r @ ids))"

definition streamable :: "(token list \<Rightarrow> pystr) \<Rightarrow> req \<Rightarrow> bool" where
  "streamable dec r \<longleftrightarrow> origin_input_ids_unpadded r \<noteq> [] \<and> clean (dec (prompt_tail r)) \<and> decoded_text r = []"

text \<open>
  \<open>reading dec r s c p\<close>: the status \<open>s\<close> knows all ids of \<open>r\<close>, its decoded text ends at a complete
  position, and the client's text \<open>c\<close> is settled by the first \<open>p\<close> ids.
\<close>

definition reading :: "(token list \<Rightarrow> pystr) \<Rightarrow> req \<Rightarrow> decode_status \<Rightarrow> pystr \<Rightarrow> nat \<Rightarrow> bool" where
  "reading dec r s c p \<longleftrightarrow>
     ds_decode_ids s = all_ids r \<and> ds_surr_offset s < ds_read_offset s \<and>
     length (prompt_tail r) \<le> ds_read_offset s \<and> ds_read_offset s \<le> p \<and> p \<le> length (all_ids r) \<and>
     clean (dec (take (ds_read_offset s) (all_ids r))) \<and>
     dec (prompt_tail r) @ ds_decoded_text s = dec (take (ds_read_offset s) (all_ids r)) \<and>
     ds_sent_offset s = length c \<and> (\<exists>y. c = ds_decoded_text s @ y \<and> (y = [] \<or> last y = 32)) \<and>
     prefix (dec (prompt_tail r) @ c) (settled (dec (take p (all_ids r))))"

definition linked :: "(token list \<Rightarrow> pystr) \<Rightarrow> req \<Rightarrow> decode_status option \<Rightarrow> pystr \<Rightarrow> bool" where
  "linked dec r so c \<longleftrightarrow>
     (case so of
        None \<Rightarrow> surr_offset r = None \<and> send_decode_id_offset r = 0 \<and> c = []
      | Some s \<Rightarrow>
          surr_offset r = Some (length (origin_input_ids_unpadded r) - INIT_INCREMENTAL_DETOKENIZATION_OFFSET) \<and>
          read_offset r = Some (length (origin_input_ids_unpadded r)) \<and>
          reading dec (r\<lparr>output_ids := take (send_decode_id_offset r - length (prompt_tail r)) (output_ids r)\<rparr>) s c
            (send_decode_id_offset r))"

definition stop_token_pending :: "req \<Rightarrow> bool" where
  "stop_token_pending r \<longleftrightarrow>
     (\<forall>t. finished_reason r = Some (FINISH_MATCHED_TOKEN t) \<longrightarrow>
        output_ids r \<noteq> [] \<and> send_decode_id_offset r < length (all_ids r))"

text \<open>What the client must have when the request is finished.\<close>

definition complete_text :: "(token list \<Rightarrow> pystr) \<Rightarrow> req \<Rightarrow> pystr \<Rightarrow> bool" where
  "complete_text dec r c \<longleftrightarrow>
     (let w = text_of_ids dec r (output_ids r)
      in case stop_matched (map_option to_json (finished_reason r)) (no_stop_trim (r_params r)) of
           None \<Rightarrow> c = w
         | Some (MatchedInt _) \<Rightarrow> c = text_of_ids dec r (butlast (output_ids r))
         | Some (MatchedStr m) \<Rightarrow>
             (case str_find m w of None \<Rightarrow> c = w | Some p \<Rightarrow> \<exists>n \<ge> p. c = take n w))"

section \<open>The two laws on the ids of a request\<close>

lemma prompt_tail_nonempty: "streamable dec r \<Longrightarrow> prompt_tail r \<noteq> []"
  by (auto simp: streamable_def prompt_tail_def INIT_INCREMENTAL_DETOKENIZATION_OFFSET_def not_le intro: diff_less)

lemma tail_text:
  assumes "incremental_decoder dec" and "streamable dec r"
  shows "dec (prompt_tail r @ ids) = dec (prompt_tail r) @ text_of_ids dec r ids"
proof -
  note assms(2) [THEN prompt_tail_nonempty]
  then have "dec ([] @ prompt_tail r @ ids) =
      dec ([] @ prompt_tail r) @ drop (length (dec (prompt_tail r))) (dec (prompt_tail r @ ids))"
    using assms unfolding incremental_decoder_def streamable_def by (metis append_Nil)
  then show ?thesis by (simp add: text_of_ids_def)
qed

lemma window_text:
  assumes "incremental_decoder dec" and r: "reading dec r s c p" and n: "ds_read_offset s \<le> n"
  shows "dec (take n (all_ids r)) = dec (take (ds_read_offset s) (all_ids r)) @
    drop (length (dec (seg (all_ids r) (ds_surr_offset s) (ds_read_offset s)))) (dec (drop (ds_surr_offset s) (take n (all_ids r))))"
proof -
  let ?x = "all_ids r" and ?a = "ds_surr_offset s" and ?b = "ds_read_offset s"
  have o: "?a < ?b" "?b \<le> length ?x" "clean (dec (take ?b ?x))" using r by (auto simp: reading_def)
  have ab: "take ?a ?x @ seg ?x ?a ?b = take ?b ?x"
    using o(1) append_take_drop_id [of ?a "take ?b ?x"] by (simp add: seg_def min_def)
  have bc: "seg ?x ?a ?b @ seg ?x ?b n = drop ?a (take n ?x)"
    using seg_seg [of ?a ?b n] o n by simp
  have "take n ?x = take ?b ?x @ seg ?x ?b n"
    using n append_take_drop_id [of ?b "take n ?x"] by (simp add: seg_def min_def)
  with ab have all: "take n ?x = take ?a ?x @ seg ?x ?a ?b @ seg ?x ?b n" by (metis append_assoc)
  have "seg ?x ?a ?b \<noteq> []" using o by (simp flip: length_greater_0_conv)
  then have "dec (take ?a ?x @ seg ?x ?a ?b @ seg ?x ?b n) =
      dec (take ?a ?x @ seg ?x ?a ?b) @ drop (length (dec (seg ?x ?a ?b))) (dec (seg ?x ?a ?b @ seg ?x ?b n))"
    using assms(1) o(3) ab unfolding incremental_decoder_def by metis
  then have "dec (take n ?x) = dec (take ?b ?x) @ drop (length (dec (seg ?x ?a ?b))) (dec (seg ?x ?a ?b @ seg ?x ?b n))"
    by (simp only: all ab)
  then show ?thesis by (simp only: bc)
qed

lemma shown_text:
  assumes "incremental_decoder dec" and r: "reading dec r s c p" and n: "p \<le> n"
  shows "prefix (dec (prompt_tail r) @ c) (dec (take n (all_ids r)))"
proof -
  have "take n (all_ids r) = take p (all_ids r) @ drop p (take n (all_ids r))"
    using n append_take_drop_id [of p "take n (all_ids r)"] by (simp add: min_def)
  then have "prefix (settled (dec (take p (all_ids r)))) (dec (take n (all_ids r)))"
    using assms(1) unfolding incremental_decoder_def by metis
  with r show ?thesis unfolding reading_def by (blast intro: prefix_order.trans)
qed

lemma take_all_ids: "length (prompt_tail r) \<le> n \<Longrightarrow> take n (all_ids r) = prompt_tail r @ take (n - length (prompt_tail r)) (output_ids r)"
  by (simp add: all_ids_def)

section \<open>One message\<close>

text \<open>The text that a window of the first \<open>n\<close> ids gives: decoded text and new text.\<close>

lemma read_text:
  assumes "incremental_decoder dec" and "streamable dec r" and r: "reading dec r s c p" and n: "p \<le> n"
    and nw: "nw = drop (length (dec (seg (all_ids r) (ds_surr_offset s) (ds_read_offset s)))) (dec (drop (ds_surr_offset s) (take n (all_ids r))))"
  shows "ds_decoded_text s @ nw = text_of_ids dec r (take (n - length (prompt_tail r)) (output_ids r))"
    and "dec (take n (all_ids r)) = dec (prompt_tail r) @ ds_decoded_text s @ nw"
    and "prefix c (ds_decoded_text s @ nw)"
proof -
  have o: "length (prompt_tail r) \<le> n" "ds_read_offset s \<le> n"
    and d: "dec (prompt_tail r) @ ds_decoded_text s = dec (take (ds_read_offset s) (all_ids r))"
    using r n by (auto simp: reading_def)
  show t: "dec (take n (all_ids r)) = dec (prompt_tail r) @ ds_decoded_text s @ nw"
    using window_text [OF assms(1) r o(2)] d nw by (metis append_assoc)
  then show "ds_decoded_text s @ nw = text_of_ids dec r (take (n - length (prompt_tail r)) (output_ids r))"
    using tail_text [OF assms(1,2)] take_all_ids [OF o(1)] by simp
  show "prefix c (ds_decoded_text s @ nw)"
    using shown_text [OF assms(1) r n] unfolding t by simp
qed

lemma prefix_drop_append: "prefix c w \<Longrightarrow> c @ drop (length c) w = w"
  by (auto simp: prefix_def)

lemma decode_unfinished:
  assumes "incremental_decoder dec" and "streamable dec r" and "plain_decoder dec" and r: "reading dec r s c p"
    and e: "to_finished_reason e = None"
    and st: "decode_increment e (dec (drop (ds_surr_offset s) (ds_decode_ids s)))
      (dec (seg (ds_decode_ids s) (ds_surr_offset s) (ds_read_offset s))) s = (x, s')"
  shows "reading dec r s' (c @ x) (length (all_ids r))"
proof -
  let ?n = "length (all_ids r)" and ?t = "dec (prompt_tail r)"
  have ids: "ds_decode_ids s = all_ids r" and o: "p \<le> ?n" "length (prompt_tail r) \<le> ?n" "ds_surr_offset s < ds_read_offset s"
      "ds_read_offset s \<le> ?n" "ds_sent_offset s = length c"
    using r by (auto simp: reading_def)
  define nw where nw: "nw = drop (length (dec (seg (all_ids r) (ds_surr_offset s) (ds_read_offset s))))
    (dec (drop (ds_surr_offset s) (take ?n (all_ids r))))"
  note rt = read_text [OF assms(1,2) r o(1) nw]
  have full: "dec (all_ids r) = ?t @ ds_decoded_text s @ nw" using rt(2) by simp
  have trim: "trim_stop_text y None b = y" for y b by (simp add: trim_stop_text_def stop_matched_def)
  have nw': "nw = drop (length (dec (seg (all_ids r) (ds_surr_offset s) (ds_read_offset s)))) (dec (drop (ds_surr_offset s) (all_ids r)))"
    by (simp add: nw)
  show ?thesis
  proof (cases "nw \<noteq> [] \<and> last nw \<noteq> REPLACEMENT")
    case True
    then have cl: "clean (dec (all_ids r))" unfolding full by (simp add: clean_def)
    have s': "s' = s\<lparr>ds_decoded_text := ds_decoded_text s @ nw, ds_surr_offset := ds_read_offset s,
        ds_read_offset := ?n, ds_sent_offset := length (ds_decoded_text s @ nw)\<rparr>"
      and x: "x = drop (length c) (ds_decoded_text s @ nw)"
      using st True o(5) unfolding decode_increment_def ids e nw' [symmetric] Let_def trim by auto
    have c: "c @ x = ds_decoded_text s @ nw" unfolding x by (rule prefix_drop_append [OF rt(3)])
    have "ds_read_offset s < ?n"
    proof (rule ccontr)
      assume "\<not> ds_read_offset s < ?n"
      then have "ds_read_offset s = ?n" using o(4) by simp
      then have "nw = []" using nw' by (simp add: seg_def)
      with True show False by simp
    qed
    then show ?thesis using cl ids o(2) full unfolding reading_def c s' by simp
  next
    case False
    let ?pr = "upto_last 32 nw"
    have plain: "\<forall>x \<in> set nw. \<not> is_chinese_char x"
      using assms(3) in_set_dropD unfolding nw plain_decoder_def by fastforce
    have np: "nw = [] \<or> last nw = REPLACEMENT" using False by auto
    note pp = printable_plain [OF np plain]
    have s': "s' = s\<lparr>ds_sent_offset := length (ds_decoded_text s @ ?pr)\<rparr>"
      and x: "x = drop (length c) (ds_decoded_text s @ ?pr)"
      using st False o(5) unfolding decode_increment_def ids e nw' [symmetric] Let_def trim pp(1) by auto
    obtain y where y: "c = ds_decoded_text s @ y" "y = [] \<or> last y = 32" using r by (auto simp: reading_def)
    then have "prefix y nw" using rt(3) by simp
    then have "prefix c (ds_decoded_text s @ ?pr)" using prefix_upto_last_mono [of y nw 32] y by (cases "y = []") auto
    then have c: "c @ x = ds_decoded_text s @ ?pr" unfolding x by (rule prefix_drop_append)
    have cl: "clean (?t @ ds_decoded_text s)" using r by (simp add: reading_def)
    have "prefix (?t @ ds_decoded_text s @ ?pr) (settled (dec (all_ids r)))"
      using settled_append [OF cl, of nw] full pp(2) by simp
    then show ?thesis using r o last_upto_last [of 32 nw] unfolding reading_def c s' by auto
  qed
qed

lemma matched_int:
  assumes "stop_matched (map_option to_json fr) b = Some (MatchedInt t)"
  shows "fr = Some (FINISH_MATCHED_TOKEN t)"
  using assms by (cases fr; cases "the fr") (auto simp: stop_matched_def split: if_splits)

lemma matched_str_prefix:
  assumes "prefix c w" and "str_find m w = Some q"
  shows "\<exists>n \<ge> q. c @ drop (length c) (take q w) = take n w"
proof (cases "length c \<le> q")
  case True
  then have "prefix c (take q w)" using assms(1) by (auto simp: prefix_def)
  then show ?thesis using prefix_drop_append [of c "take q w"] by (intro exI [of _ q]) simp
next
  case False
  moreover have "c = take (length c) w" using assms(1) by (auto simp: prefix_def)
  ultimately show ?thesis by (intro exI [of _ "length c"]) simp
qed

lemma decode_finished:
  assumes law: "incremental_decoder dec" "streamable dec r" and r: "reading dec r s c p"
    and f: "finished r" and e: "to_finished_reason e = map_option to_json (finished_reason r)"
      "to_no_stop_trim e = no_stop_trim (r_params r)"
    and tok: "\<And>t. finished_reason r = Some (FINISH_MATCHED_TOKEN t) \<Longrightarrow> p < length (all_ids r) \<and> output_ids r \<noteq> []"
    and w: "read_window e s = Inr (rd, sr)" and st: "decode_increment e (dec rd) (dec sr) s = (x, s')"
  shows "complete_text dec r (c @ x)"
proof -
  let ?m = "stop_matched (map_option to_json (finished_reason r)) (no_stop_trim (r_params r))"
  let ?n = "if \<exists>t. ?m = Some (MatchedInt t) then length (all_ids r) - 1 else length (all_ids r)"
  have ids: "ds_decode_ids s = all_ids r" and o: "p \<le> length (all_ids r)" "length (prompt_tail r) \<le> p" "ds_sent_offset s = length c"
    using r by (auto simp: reading_def)
  have tok': "p < length (all_ids r) \<and> output_ids r \<noteq> []" if "?m = Some (MatchedInt t)" for t
    using matched_int [OF that] tok by blast
  then have n: "p \<le> ?n" using o(1) by fastforce
  have rd: "rd = drop (ds_surr_offset s) (take ?n (all_ids r))" and sr: "sr = seg (all_ids r) (ds_surr_offset s) (ds_read_offset s)"
    using w unfolding read_window_def trim_stop_ids_def e ids
    by (auto simp: bind_result_def butlast_conv_take drop_take split: option.splits matched_value.splits if_splits)
  define nw where nw: "nw = drop (length (dec sr)) (dec rd)"
  note rt = read_text [OF law r n nw [unfolded rd sr]]
  have ts: "take (?n - length (prompt_tail r)) (output_ids r) = (if \<exists>t. ?m = Some (MatchedInt t) then butlast (output_ids r) else output_ids r)"
    using tok' by (auto simp: all_ids_def butlast_conv_take)
  have "to_finished_reason e \<noteq> None" using f e by (simp add: finished_def)
  then have x: "x = drop (length c) (trim_stop_text (ds_decoded_text s @ nw) (to_finished_reason e) (to_no_stop_trim e))"
    using st o(3) unfolding decode_increment_def nw [symmetric] Let_def by auto
  show ?thesis
  proof (cases ?m)
    case None
    then show ?thesis using rt(1,3) ts prefix_drop_append [OF rt(3)] unfolding x e trim_stop_text_def complete_text_def by simp
  next
    case (Some v)
    show ?thesis
    proof (cases v)
      case (MatchedInt t)
      then show ?thesis using Some rt(1) ts prefix_drop_append [OF rt(3)] unfolding x e trim_stop_text_def complete_text_def by simp
    next
      case (MatchedStr m)
      then have w: "ds_decoded_text s @ nw = text_of_ids dec r (output_ids r)" using Some rt(1) ts by simp
      then show ?thesis
        using Some MatchedStr rt(3) prefix_drop_append [of c] matched_str_prefix [of c]
        unfolding x e trim_stop_text_def complete_text_def w by (auto split: option.splits)
    qed
  qed
qed

section \<open>The scheduler's entry\<close>

lemma output_entry_linked:
  assumes "linked dec r so c" and "\<not> sc_multimodal_gen cfg" and "output_entry cfg r = (e, r1)"
  shows "r1 = r\<lparr>surr_offset := Some (length (origin_input_ids_unpadded r) - INIT_INCREMENTAL_DETOKENIZATION_OFFSET),
      read_offset := Some (length (origin_input_ids_unpadded r)),
      send_decode_id_offset := length (all_ids r), send_token_offset := length (output_ids r)\<rparr>"
    and "to_decode_ids e = drop (send_decode_id_offset r) (all_ids r)" and "to_read_offset e = length (prompt_tail r)"
    and "to_rid e = rid r" and "to_finished_reason e = map_option to_json (finished_reason r)"
    and "to_no_stop_trim e = no_stop_trim (r_params r)" and "to_decoded_text e = map of_char (decoded_text r)"
    and "to_skip_special e = skip_special_tokens (r_params r)" and "to_spaces_between e = spaces_between_special_tokens (r_params r)"
proof -
  let ?n = "length (origin_input_ids_unpadded r)"
  have i: "init_incremental_detokenize r = ((all_ids r, int ?n - int (?n - INIT_INCREMENTAL_DETOKENIZATION_OFFSET)),
      r\<lparr>surr_offset := Some (?n - INIT_INCREMENTAL_DETOKENIZATION_OFFSET), read_offset := Some ?n\<rparr>)"
  proof (cases so)
    case None
    then have "surr_offset r = None" using assms(1) by (simp add: linked_def)
    then show ?thesis by (simp add: init_incremental_detokenize_def all_ids_def prompt_tail_def)
  next
    case (Some s)
    then have o: "surr_offset r = Some (?n - INIT_INCREMENTAL_DETOKENIZATION_OFFSET)" "read_offset r = Some ?n"
      using assms(1) by (auto simp: linked_def)
    then have "r\<lparr>surr_offset := Some (?n - INIT_INCREMENTAL_DETOKENIZATION_OFFSET), read_offset := Some ?n\<rparr> = r" by simp
    then show ?thesis using o by (simp add: init_incremental_detokenize_def all_ids_def prompt_tail_def)
  qed
  note d = assms(3) [unfolded output_entry_def i, simplified]
  show "r1 = r\<lparr>surr_offset := Some (?n - INIT_INCREMENTAL_DETOKENIZATION_OFFSET), read_offset := Some ?n,
      send_decode_id_offset := length (all_ids r), send_token_offset := length (output_ids r)\<rparr>"
    using d by auto
  show "to_decode_ids e = drop (send_decode_id_offset r) (all_ids r)" "to_read_offset e = length (prompt_tail r)"
    "to_rid e = rid r" "to_finished_reason e = map_option to_json (finished_reason r)"
    "to_no_stop_trim e = no_stop_trim (r_params r)" "to_decoded_text e = map of_char (decoded_text r)"
    "to_skip_special e = skip_special_tokens (r_params r)" "to_spaces_between e = spaces_between_special_tokens (r_params r)"
    using d assms(2) by (auto simp: prompt_tail_def)
qed

lemma entered:
  assumes "streamable dec r" and l: "linked dec r so c"
    and "\<not> sc_multimodal_gen cfg" and "output_entry cfg r = (e, r1)" and pend: "stop_token_pending r"
  shows "\<exists>p. reading dec r (enter_ids e so) c p \<and>
    (\<forall>t. finished_reason r = Some (FINISH_MATCHED_TOKEN t) \<longrightarrow> p < length (all_ids r) \<and> output_ids r \<noteq> [])"
proof (cases so)
  case None
  note assms(1) [THEN prompt_tail_nonempty]
  then have "reading dec r (enter_ids e so) c (length (prompt_tail r))"
    using None l assms(1) output_entry_linked [OF l assms(3,4)]
    by (auto simp: reading_def enter_ids_def linked_def streamable_def all_ids_def)
  then show ?thesis using pend by (intro exI [of _ "length (prompt_tail r)"]) (auto simp: stop_token_pending_def all_ids_def)
next
  case (Some s)
  let ?k = "send_decode_id_offset r" and ?t = "prompt_tail r"
  let ?r = "r\<lparr>output_ids := take (?k - length ?t) (output_ids r)\<rparr>"
  have rd: "reading dec ?r s c ?k" using l Some by (simp add: linked_def)
  have t: "prompt_tail ?r = ?t" by (simp add: prompt_tail_def)
  have k: "length ?t \<le> ?k" "?k \<le> length (all_ids r)" and a: "all_ids ?r = take ?k (all_ids r)"
    using rd by (auto simp: reading_def all_ids_def t)
  have tk: "n \<le> ?k \<Longrightarrow> take n (take ?k (all_ids r)) = take n (all_ids r)" for n by (simp add: min_def)
  have "reading dec r (enter_ids e so) c ?k"
    using rd k Some output_entry_linked(2) [OF l assms(3,4)] tk
    by (auto simp: reading_def enter_ids_def a t)
  then show ?thesis using pend by (intro exI [of _ ?k]) (auto simp: stop_token_pending_def)
qed

section \<open>One message for one request\<close>

text \<open>What the two loops of the detokenizer do for one entry.\<close>

definition decode_entry :: "(token list \<Rightarrow> pystr) \<Rightarrow> token_id_out \<Rightarrow> decode_status option \<Rightarrow> (pystr \<times> decode_status) result" where
  "decode_entry dec e so =
     bind_result (read_window e (enter_ids e so)) (\<lambda>(rd, sr). Inr (decode_increment e (dec rd) (dec sr) (enter_ids e so)))"

text \<open>The stream of a request is open, or the client has its complete text.\<close>

definition stream_inv :: "(token list \<Rightarrow> pystr) \<Rightarrow> req \<Rightarrow> decode_status option \<Rightarrow> pystr \<Rightarrow> bool" where
  "stream_inv dec r so c \<longleftrightarrow>
     streamable dec r \<and>
     (if finished_output r = Some True then finished r \<and> complete_text dec r c
      else linked dec r so c \<and> stop_token_pending r)"

lemma read_window_total:
  assumes "reading dec r s c p"
  shows "\<exists>rd. read_window e s = Inr (rd, seg (all_ids r) (ds_surr_offset s) (ds_read_offset s))"
proof -
  have "drop (ds_surr_offset s) (ds_decode_ids s) \<noteq> []" and "ds_decode_ids s = all_ids r"
    using assms by (auto simp: reading_def)
  then show ?thesis
    by (cases "stop_matched (to_finished_reason e) (to_no_stop_trim e)"; cases "the (stop_matched (to_finished_reason e) (to_no_stop_trim e))")
      (auto simp: read_window_def trim_stop_ids_def bind_result_def)
qed

lemma complete_text_cong:
  assumes "origin_input_ids_unpadded r' = origin_input_ids_unpadded r" "output_ids r' = output_ids r"
    "finished_reason r' = finished_reason r" "r_params r' = r_params r"
  shows "complete_text dec r' c = complete_text dec r c"
proof -
  have t: "text_of_ids dec r' = text_of_ids dec r" by (rule ext) (simp add: text_of_ids_def prompt_tail_def assms(1))
  show ?thesis by (simp only: complete_text_def assms(2-4) t)
qed

lemma reading_cong: "prompt_tail r' = prompt_tail r \<Longrightarrow> all_ids r' = all_ids r \<Longrightarrow> reading dec r' s c p = reading dec r s c p"
  by (simp add: reading_def)

lemma linked_cong:
  assumes "origin_input_ids_unpadded r' = origin_input_ids_unpadded r" "surr_offset r' = surr_offset r"
    "read_offset r' = read_offset r" "send_decode_id_offset r' = send_decode_id_offset r"
    "take (send_decode_id_offset r - length (prompt_tail r)) (output_ids r') = take (send_decode_id_offset r - length (prompt_tail r)) (output_ids r)"
  shows "linked dec r' so c = linked dec r so c"
proof -
  have t: "prompt_tail r' = prompt_tail r" by (simp add: prompt_tail_def assms(1))
  let ?f = "\<lambda>x. x\<lparr>output_ids := take (send_decode_id_offset r - length (prompt_tail r)) (output_ids x)\<rparr>"
  have f: "prompt_tail (x\<lparr>output_ids := ids\<rparr>) = prompt_tail x" for x ids by (simp add: prompt_tail_def)
  have "all_ids (?f r') = all_ids (?f r)" by (simp add: all_ids_def f t assms(5))
  then have "reading dec (?f r') s c k = reading dec (?f r) s c k" for s k
    by (intro reading_cong) (simp_all add: f t)
  then show ?thesis unfolding linked_def t assms(1-4) by (simp split: option.split)
qed

lemma linked_sent:
  assumes "reading dec r s c (length (all_ids r))"
    and r1: "r1 = r\<lparr>surr_offset := Some (length (origin_input_ids_unpadded r) - INIT_INCREMENTAL_DETOKENIZATION_OFFSET),
      read_offset := Some (length (origin_input_ids_unpadded r)),
      send_decode_id_offset := length (all_ids r), send_token_offset := length (output_ids r)\<rparr>"
  shows "linked dec r1 (Some s) c"
proof -
  let ?r = "r1\<lparr>output_ids := take (send_decode_id_offset r1 - length (prompt_tail r1)) (output_ids r1)\<rparr>"
  have t: "prompt_tail ?r = prompt_tail r" "prompt_tail r1 = prompt_tail r" by (simp_all add: prompt_tail_def r1)
  have "output_ids ?r = output_ids r" unfolding t(2) by (simp add: r1 all_ids_def)
  then have "all_ids ?r = all_ids r" by (simp only: all_ids_def t(1))
  then have "reading dec ?r s c (length (all_ids r))" using reading_cong [OF t(1)] assms(1) by simp
  then show ?thesis by (simp add: linked_def r1)
qed

lemma entry_sent:
  assumes dec: "incremental_decoder dec" "plain_decoder dec" and mm: "\<not> sc_multimodal_gen cfg"
    and inv: "stream_inv dec r so c" and opn: "finished_output r \<noteq> Some True"
    and e: "output_entry cfg (if finished r then r\<lparr>finished_output := Some True\<rparr> else r) = (e, r1)"
  shows "\<exists>x s. decode_entry dec e so = Inr (x, s) \<and> stream_inv dec r1 (Some s) (c @ x)"
proof -
  let ?r = "if finished r then r\<lparr>finished_output := Some True\<rparr> else r"
  have "linked dec r so c" "streamable dec r" "stop_token_pending r" using inv opn by (simp_all add: stream_inv_def)
  moreover have "linked dec ?r so c = linked dec r so c" by (rule linked_cong) simp_all
  ultimately have st: "streamable dec ?r" "linked dec ?r so c" "stop_token_pending ?r"
    by (simp_all add: streamable_def prompt_tail_def stop_token_pending_def all_ids_def)
  note oe = output_entry_linked [OF st(2) mm e]
  obtain p where rd: "reading dec ?r (enter_ids e so) c p"
    and tok: "\<And>t. finished_reason ?r = Some (FINISH_MATCHED_TOKEN t) \<Longrightarrow> p < length (all_ids ?r) \<and> output_ids ?r \<noteq> []"
    using entered [OF st(1,2) mm e st(3)] by blast
  let ?s = "enter_ids e so"
  obtain rds where w: "read_window e ?s = Inr (rds, seg (all_ids ?r) (ds_surr_offset ?s) (ds_read_offset ?s))"
    using read_window_total [OF rd] by blast
  obtain x s' where d: "decode_increment e (dec rds) (dec (seg (all_ids ?r) (ds_surr_offset ?s) (ds_read_offset ?s))) ?s = (x, s')"
    by fastforce
  then have de: "decode_entry dec e so = Inr (x, s')" by (simp add: decode_entry_def w bind_result_def)
  have str1: "streamable dec r1" using st(1) oe(1) by (auto simp: streamable_def prompt_tail_def)
  have "stream_inv dec r1 (Some s') (c @ x)"
  proof (cases "finished r")
    case True
    have "finished ?r" using True by (simp add: finished_def)
    then have "complete_text dec ?r (c @ x)" using decode_finished [OF dec(1) st(1) rd _ oe(5,6) _ w d] tok by blast
    then have "complete_text dec r1 (c @ x)" using complete_text_cong [of r1 ?r dec "c @ x"] oe(1) by simp
    then show ?thesis using True str1 oe(1) by (simp add: stream_inv_def finished_def)
  next
    case False
    then have fr: "finished_reason r = None" by (simp add: finished_def)
    then have e0: "to_finished_reason e = None" using oe(5) False by simp
    have ids: "ds_decode_ids ?s = all_ids r" using rd False by (simp add: reading_def)
    have "rds = drop (ds_surr_offset ?s) (ds_decode_ids ?s)"
      using w by (cases "to_no_stop_trim e") (auto simp: read_window_def trim_stop_ids_def stop_matched_def bind_result_def e0)
    then have "reading dec r s' (c @ x) (length (all_ids r))"
      using decode_unfinished [OF dec(1) _ dec(2) _ e0, of r ?s c p x s'] st(1) rd d False ids by simp
    then have "linked dec r1 (Some s') (c @ x)" using False oe(1) by (intro linked_sent) simp_all
    moreover have "stop_token_pending r1" "finished_output r1 \<noteq> Some True"
      using False fr opn unfolding oe(1) by (simp_all add: stop_token_pending_def)
    ultimately show ?thesis using str1 by (simp add: stream_inv_def)
  qed
  with de show ?thesis by blast
qed

end
