(* ===== verification/Streaming_Props.thy ===== *)
theory Streaming_Props
  imports Streaming_Step
begin

text \<open>
  The text the client receives, over whole batches and arbitrary interleavings of generating and
  sending: it is always a prefix of the text of the tokens generated so far, and complete when the
  request has finished. The exceptions, which the detokenizer's heuristics for Chinese text and its
  limited memory make, follow.
\<close>

section \<open>The detokenizer on a batch\<close>

lemma setitem_room:
  assumes "length d < capacity"
  shows "lcd_setitem capacity k v d = Inr (AList.update k v d)"
  using assms by (simp add: lcd_setitem_def)

lemma length_update: "length (AList.update k v d) = (if k \<in> fst ` set d then length d else Suc (length d))"
  using arg_cong [OF map_fst_update [of k v d], of length] by simp

lemma collect_windows_spec:
  assumes "distinct (map to_rid es)" and "distinct (map fst d)"
    and "\<forall>e \<in> set es. \<exists>w. read_window e (enter_ids e (map_of d (to_rid e))) = Inr w"
    and "length d + length (filter (\<lambda>e. map_of d (to_rid e) = None) es) \<le> capacity"
  shows "\<exists>d1. collect_windows capacity es d =
      Inr (map (\<lambda>e. projr (read_window e (enter_ids e (map_of d (to_rid e))))) es, d1) \<and>
    map_of d1 = map_of d ++ map_of (map (\<lambda>e. (to_rid e, enter_ids e (map_of d (to_rid e)))) es) \<and> distinct (map fst d1)"
  using assms
proof (induction es arbitrary: d)
  case (Cons e es)
  let ?k = "to_rid e" and ?s = "enter_ids e (map_of d (to_rid e))"
  let ?d = "AList.update ?k ?s d"
  obtain w where w: "read_window e ?s = Inr w" using Cons.prems(3) by auto
  have new: "(case map_of d ?k of None \<Rightarrow> lcd_setitem capacity ?k ?s d | Some _ \<Rightarrow> Inr ?d) = Inr ?d"
    using Cons.prems(4) by (auto simp: setitem_room split: option.splits)
  have upd: "map_of ?d = (map_of d)(?k \<mapsto> ?s)" by (rule update_conv')
  have other: "map_of ?d (to_rid x) = map_of d (to_rid x)" if "x \<in> set es" for x
    using that Cons.prems(1) by (auto simp: upd image_iff)
  have f: "filter (\<lambda>x. map_of ?d (to_rid x) = None) es = filter (\<lambda>x. map_of d (to_rid x) = None) es"
    using other by (auto intro: filter_cong)
  have len: "length ?d = (if map_of d ?k = None then Suc (length d) else length d)"
    by (auto simp: length_update map_of_eq_None_iff)
  have "\<exists>d1. collect_windows capacity es ?d =
      Inr (map (\<lambda>e. projr (read_window e (enter_ids e (map_of ?d (to_rid e))))) es, d1) \<and>
    map_of d1 = map_of ?d ++ map_of (map (\<lambda>e. (to_rid e, enter_ids e (map_of ?d (to_rid e)))) es) \<and> distinct (map fst d1)"
    using Cons.prems other by (intro Cons.IH) (auto simp: f len distinct_update)
  then obtain d1 where d1: "collect_windows capacity es ?d =
      Inr (map (\<lambda>e. projr (read_window e (enter_ids e (map_of ?d (to_rid e))))) es, d1)"
    "map_of d1 = map_of ?d ++ map_of (map (\<lambda>e. (to_rid e, enter_ids e (map_of ?d (to_rid e)))) es)" "distinct (map fst d1)"
    by blast
  have m: "map (\<lambda>e. projr (read_window e (enter_ids e (map_of ?d (to_rid e))))) es =
      map (\<lambda>e. projr (read_window e (enter_ids e (map_of d (to_rid e))))) es"
    "map (\<lambda>e. (to_rid e, enter_ids e (map_of ?d (to_rid e)))) es = map (\<lambda>e. (to_rid e, enter_ids e (map_of d (to_rid e)))) es"
    using other by simp_all
  have "?k \<notin> dom (map_of (map (\<lambda>e. (to_rid e, enter_ids e (map_of d (to_rid e)))) es))"
    using Cons.prems(1) by (auto simp: dom_map_of_conv_image_fst)
  then have "map_of d1 = map_of d ++ map_of (map (\<lambda>e. (to_rid e, enter_ids e (map_of d (to_rid e)))) (e # es))"
    unfolding d1(2) m(2) by (simp add: upd map_add_upd_left)
  moreover have "collect_windows capacity (e # es) d =
      Inr (map (\<lambda>e. projr (read_window e (enter_ids e (map_of d (to_rid e))))) (e # es), d1)"
    using d1(1) [unfolded m(1)] w new by (simp add: bind_result_def Let_def)
  ultimately show ?case using d1(3) by blast
qed simp

definition out_entry :: "token_id_out \<Rightarrow> pystr \<Rightarrow> str_out" where
  "out_entry e x =
     \<lparr>so_rid = to_rid e, so_finished_reason = to_finished_reason e, so_output_str = x,
      so_prompt_tokens = to_prompt_tokens e, so_completion_tokens = to_completion_tokens e,
      so_cached_tokens = to_cached_tokens e\<rparr>"

lemma decode_loop_spec:
  assumes "distinct (map to_rid es)" and "distinct (map fst d)" and "\<forall>e \<in> set es. map_of d (to_rid e) \<noteq> None"
  shows "\<exists>d1. decode_loop (map (\<lambda>e. (e, f e, g e)) es) d =
      Inr (map (\<lambda>e. out_entry e (fst (decode_increment e (f e) (g e) (the (map_of d (to_rid e)))))) es, d1) \<and>
    map_of d1 = map_of d ++ map_of (map (\<lambda>e. (to_rid e, snd (decode_increment e (f e) (g e) (the (map_of d (to_rid e)))))) es) \<and>
    distinct (map fst d1)"
  using assms
proof (induction es arbitrary: d)
  case (Cons e es)
  let ?k = "to_rid e"
  obtain s where s: "map_of d ?k = Some s" using Cons.prems(3) by auto
  obtain x s1 where st: "decode_increment e (f e) (g e) s = (x, s1)" by fastforce
  let ?d = "AList.update ?k s1 d"
  have upd: "map_of ?d = (map_of d)(?k \<mapsto> s1)" by (rule update_conv')
  have other: "map_of ?d (to_rid y) = map_of d (to_rid y)" if "y \<in> set es" for y
    using that Cons.prems(1) by (auto simp: upd image_iff)
  have "\<exists>d1. decode_loop (map (\<lambda>e. (e, f e, g e)) es) ?d =
      Inr (map (\<lambda>e. out_entry e (fst (decode_increment e (f e) (g e) (the (map_of ?d (to_rid e)))))) es, d1) \<and>
    map_of d1 = map_of ?d ++ map_of (map (\<lambda>e. (to_rid e, snd (decode_increment e (f e) (g e) (the (map_of ?d (to_rid e)))))) es) \<and>
    distinct (map fst d1)"
    using Cons.prems other by (intro Cons.IH) (auto simp: distinct_update)
  then obtain d1 where d1: "decode_loop (map (\<lambda>e. (e, f e, g e)) es) ?d =
      Inr (map (\<lambda>e. out_entry e (fst (decode_increment e (f e) (g e) (the (map_of ?d (to_rid e)))))) es, d1)"
    "map_of d1 = map_of ?d ++ map_of (map (\<lambda>e. (to_rid e, snd (decode_increment e (f e) (g e) (the (map_of ?d (to_rid e)))))) es)"
    "distinct (map fst d1)"
    by blast
  have m: "map (\<lambda>e. out_entry e (fst (decode_increment e (f e) (g e) (the (map_of ?d (to_rid e)))))) es =
      map (\<lambda>e. out_entry e (fst (decode_increment e (f e) (g e) (the (map_of d (to_rid e)))))) es"
    "map (\<lambda>e. (to_rid e, snd (decode_increment e (f e) (g e) (the (map_of ?d (to_rid e)))))) es =
      map (\<lambda>e. (to_rid e, snd (decode_increment e (f e) (g e) (the (map_of d (to_rid e)))))) es"
    using other by simp_all
  have "?k \<notin> dom (map_of (map (\<lambda>e. (to_rid e, snd (decode_increment e (f e) (g e) (the (map_of d (to_rid e)))))) es))"
    using Cons.prems(1) by (auto simp: dom_map_of_conv_image_fst)
  then have "map_of d1 = map_of d ++ map_of (map (\<lambda>e. (to_rid e, snd (decode_increment e (f e) (g e) (the (map_of d (to_rid e)))))) (e # es))"
    unfolding d1(2) m(2) by (simp add: upd s st map_add_upd_left)
  moreover have "decode_loop (map (\<lambda>e. (e, f e, g e)) (e # es)) d =
      Inr (map (\<lambda>e. out_entry e (fst (decode_increment e (f e) (g e) (the (map_of d (to_rid e)))))) (e # es), d1)"
    using d1(1) [unfolded m(1)] s st by (simp add: bind_result_def out_entry_def [of e])
  ultimately show ?case using d1(3) by blast
qed simp

text \<open>The text a client has collected, by request.\<close>

definition received :: "(string \<Rightarrow> pystr) \<Rightarrow> str_out list \<Rightarrow> string \<Rightarrow> pystr" where
  "received cl outs i = cl i @ concat (map so_output_str (filter (\<lambda>x. so_rid x = i) outs))"

lemma received_entry:
  assumes "distinct (map to_rid es)"
  shows "received cl (map (\<lambda>e. out_entry e (x e)) es) i =
    (case find (\<lambda>e. to_rid e = i) es of None \<Rightarrow> cl i | Some e \<Rightarrow> cl i @ x e)"
proof -
  have "concat (map so_output_str (filter (\<lambda>y. so_rid y = i) (map (\<lambda>e. out_entry e (x e)) es))) =
    (case find (\<lambda>e. to_rid e = i) es of None \<Rightarrow> [] | Some e \<Rightarrow> x e)"
    using assms
  proof (induction es)
    case (Cons e es)
    have "\<forall>y \<in> set es. to_rid y \<noteq> to_rid e" using Cons.prems by (metis distinct.simps(2) image_eqI list.set_map list.simps(9))
    then have "filter (\<lambda>y. so_rid y = to_rid e) (map (\<lambda>e. out_entry e (x e)) es) = []"
      by (simp add: filter_empty_conv out_entry_def)
    then show ?case using Cons by (auto simp: out_entry_def)
  qed simp
  then show ?thesis by (simp add: received_def split: option.split)
qed

lemma find_rid:
  assumes "distinct (map to_rid es)" and "e \<in> set es"
  shows "find (\<lambda>x. to_rid x = to_rid e) es = Some e"
  using assms by (induction es) (auto simp: image_iff)

lemma handle_batch_spec:
  assumes dist: "distinct (map to_rid es)" "distinct (map fst d)" and ne: "es \<noteq> []"
    and flags: "\<forall>e \<in> set es. to_skip_special e = sk \<and> to_spaces_between e = sp"
    and ok: "\<forall>e \<in> set es. \<exists>y. decode_entry (dec sk sp) e (map_of d (to_rid e)) = Inr y"
    and room: "length d + length (filter (\<lambda>e. map_of d (to_rid e) = None) es) \<le> capacity"
  shows "\<exists>outs d'. handle_batch_token_id_out dec capacity es d = Inr (outs, d') \<and> distinct (map fst d') \<and>
    dom (map_of d') = dom (map_of d) \<union> to_rid ` set es \<and>
    (\<forall>e \<in> set es. \<forall>x s. decode_entry (dec sk sp) e (map_of d (to_rid e)) = Inr (x, s) \<longrightarrow>
       map_of d' (to_rid e) = Some s \<and> received cl outs (to_rid e) = cl (to_rid e) @ x) \<and>
    (\<forall>i. i \<notin> to_rid ` set es \<longrightarrow> map_of d' i = map_of d i \<and> received cl outs i = cl i)"
proof -
  let ?s = "\<lambda>e. enter_ids e (map_of d (to_rid e))"
  let ?w = "\<lambda>e. projr (read_window e (?s e))"
  let ?dec = "dec sk sp"
  have win: "read_window e (?s e) = Inr (?w e)" if "e \<in> set es" for e
    using ok that by (cases "read_window e (?s e)") (auto simp: decode_entry_def bind_result_def)
  then have "\<forall>e \<in> set es. \<exists>w. read_window e (?s e) = Inr w" by blast
  from collect_windows_spec [OF dist this room] obtain d1 where d1:
    "collect_windows capacity es d = Inr (map ?w es, d1)" "map_of d1 = map_of d ++ map_of (map (\<lambda>e. (to_rid e, ?s e)) es)"
    "distinct (map fst d1)" by blast
  have dr: "distinct (map fst (map (\<lambda>e. (to_rid e, h e)) es))" for h :: "token_id_out \<Rightarrow> decode_status"
    using dist(1) by (simp add: comp_def)
  have at: "map_of (map (\<lambda>e. (to_rid e, h e)) es) (to_rid e) = Some (h e)" if "e \<in> set es" for e and h :: "token_id_out \<Rightarrow> decode_status"
    using that by (intro map_of_is_SomeI dr) auto
  have dm: "dom (map_of (map (\<lambda>e. (to_rid e, h e)) es)) = to_rid ` set es" for h :: "token_id_out \<Rightarrow> decode_status"
    by (force simp: dom_map_of_conv_image_fst)
  have s1: "map_of d1 (to_rid e) = Some (?s e)" if "e \<in> set es" for e by (simp add: d1(2) map_add_Some_iff at that)
  let ?f = "\<lambda>e. ?dec (fst (?w e))" and ?g = "\<lambda>e. ?dec (snd (?w e))"
  let ?st = "\<lambda>e. decode_increment e (?f e) (?g e) (the (map_of d1 (to_rid e)))"
  have "\<forall>e \<in> set es. map_of d1 (to_rid e) \<noteq> None" using s1 by simp
  from decode_loop_spec [OF dist(1) d1(3) this, of ?f ?g] obtain d' where d':
    "decode_loop (map (\<lambda>e. (e, ?f e, ?g e)) es) d1 = Inr (map (\<lambda>e. out_entry e (fst (?st e))) es, d')"
    "map_of d' = map_of d1 ++ map_of (map (\<lambda>e. (to_rid e, snd (?st e))) es)" "distinct (map fst d')" by blast
  let ?outs = "map (\<lambda>e. out_entry e (fst (?st e))) es"
  have z: "map (\<lambda>(e, rd, sr). (e, ?dec rd, ?dec sr)) (zip xs (map ?w xs)) = map (\<lambda>e. (e, ?f e, ?g e)) xs" for xs
    by (induction xs) (simp_all add: case_prod_beta)
  let ?loop = "\<lambda>dc. decode_loop (map (\<lambda>(e, rd, sr). (e, dc rd, dc sr)) (zip es (map ?w es))) d1"
  have fl: "(case es of [] \<Rightarrow> Inl IndexError | e0 # _ \<Rightarrow> ?loop (dec (to_skip_special e0) (to_spaces_between e0))) = ?loop ?dec"
    using flags ne by (cases es) auto
  have "handle_batch_token_id_out dec capacity es d = ?loop ?dec"
    by (simp only: handle_batch_token_id_out_def d1(1) bind_result_def Let_def sum.case prod.case fl)
  then have "handle_batch_token_id_out dec capacity es d = Inr (?outs, d')" by (simp only: z d'(1))
  moreover have "map_of d' (to_rid e) = Some s \<and> received cl ?outs (to_rid e) = cl (to_rid e) @ x"
    if e: "e \<in> set es" and de: "decode_entry ?dec e (map_of d (to_rid e)) = Inr (x, s)" for e x s
  proof -
    have "?st e = (x, s)" using de win [OF e] s1 [OF e] by (simp add: decode_entry_def bind_result_def case_prod_beta split: sum.splits)
    then show ?thesis using at [OF e] find_rid [OF dist(1) e] by (simp add: d'(2) map_add_Some_iff received_entry [OF dist(1)])
  qed
  moreover have "map_of d' i = map_of d i \<and> received cl ?outs i = cl i" if "i \<notin> to_rid ` set es" for i
  proof -
    have "find (\<lambda>e. to_rid e = i) es = None" using that by (auto simp: find_None_iff)
    then show ?thesis using that dm by (simp add: received_entry [OF dist(1)] d'(2) d1(2) map_add_dom_app_simps)
  qed
  moreover have "dom (map_of d') = dom (map_of d) \<union> to_rid ` set es" using dm by (auto simp: d'(2) d1(2))
  ultimately show ?thesis using d'(3) by blast
qed

section \<open>The scheduler on a batch\<close>

lemma stream_reqs_spec:
  assumes "\<forall>r \<in> set rs. stream_req cfg skip r = Inr (m r, n r)"
  shows "stream_reqs cfg skip rs = Inr (List.map_filter m rs, map n rs)"
  using assms by (induction rs) (auto simp: bind_result_def map_filter_simps split: option.splits)

lemma stream_req_total:
  assumes "\<not> sc_multimodal_gen cfg" and "sc_stream_interval cfg \<noteq> 0" and "finished_output r = Some True \<Longrightarrow> finished r"
  shows "stream_req cfg skip r = Inr (None, r) \<and> (finished r \<and> skip \<noteq> Some (rid r) \<longrightarrow> finished_output r = Some True) \<or>
    (\<exists>e r1. stream_req cfg skip r = Inr (Some e, r1) \<and> finished_output r \<noteq> Some True \<and>
       output_entry cfg (if finished r then r\<lparr>finished_output := Some True\<rparr> else r) = (e, r1))"
proof (cases "finished r")
  case True
  obtain e r1 where "output_entry cfg (r\<lparr>finished_output := Some True\<rparr>) = (e, r1)" by fastforce
  then show ?thesis using True assms(1) by (auto simp: stream_req_def)
next
  case False
  obtain e r1 where o: "output_entry cfg r = (e, r1)" by fastforce
  have "\<exists>due. output_due cfg r = Inr due"
    using assms(2) by (cases "stream r"; cases "stream_interval (r_params r)") (auto simp: output_due_def Let_def)
  then obtain due where "output_due cfg r = Inr due" by blast
  then show ?thesis using False assms(1,3) o by (cases due) (auto simp: stream_req_def bind_result_def)
qed

section \<open>Runs\<close>

text \<open>
  \<open>gets_tokens r r'\<close>: what happens to a request between two messages. Until it finishes it may get tokens;
  its other fields may change as they like, except those that the streaming code uses.
\<close>

definition gets_tokens :: "req \<Rightarrow> req \<Rightarrow> bool" where
  "gets_tokens r r' \<longleftrightarrow>
     rid r' = rid r \<and> origin_input_ids_unpadded r' = origin_input_ids_unpadded r \<and> r_params r' = r_params r \<and>
     decoded_text r' = decoded_text r \<and> surr_offset r' = surr_offset r \<and> read_offset r' = read_offset r \<and>
     send_decode_id_offset r' = send_decode_id_offset r \<and> finished_output r' = finished_output r \<and>
     (if finished r then output_ids r' = output_ids r \<and> finished_reason r' = finished_reason r
      else \<exists>ts. output_ids r' = output_ids r @ ts \<and> (\<forall>t. finished_reason r' = Some (FINISH_MATCHED_TOKEN t) \<longrightarrow> ts \<noteq> []))"

lemma check_stop_strs_frame:
  assumes "check_stop_strs r = Inr r'"
  shows "r' = r \<or> (\<exists>s. r' = r\<lparr>finished_reason := Some (FINISH_MATCHED_STR s)\<rparr>)"
  using assms by (auto simp: check_stop_strs_def Let_def split: if_splits option.splits)

lemma token_gets:
  assumes "\<not> finished r" and "check_finished is_term (r\<lparr>output_ids := output_ids r @ [t]\<rparr>) = Inr r'"
  shows "gets_tokens r r'"
proof -
  let ?r = "r\<lparr>output_ids := output_ids r @ [t]\<rparr>"
  have "r' = ?r \<or> (\<exists>f. r' = ?r\<lparr>finished_reason := Some f\<rparr>)"
    using assms(2) check_stop_strs_frame [of ?r r']
    by (auto simp: check_finished_def split: if_splits option.splits sum.splits)
  then show ?thesis using assms(1) by (auto simp: gets_tokens_def finished_def)
qed

lemma retract_gets: "\<not> finished r \<Longrightarrow> gets_tokens r (reset_for_retract r)"
  by (simp add: gets_tokens_def reset_for_retract_def finished_def)

definition new_stream :: "(token list \<Rightarrow> pystr) \<Rightarrow> req \<Rightarrow> bool" where
  "new_stream dec r \<longleftrightarrow>
     streamable dec r \<and> surr_offset r = None \<and> send_decode_id_offset r = 0 \<and> finished_output r = None \<and>
     (\<forall>t. finished_reason r \<noteq> Some (FINISH_MATCHED_TOKEN t))"

definition same_flags :: "bool \<Rightarrow> bool \<Rightarrow> req \<Rightarrow> bool" where
  "same_flags sk sp r \<longleftrightarrow> skip_special_tokens (r_params r) = sk \<and> spaces_between_special_tokens (r_params r) = sp"

text \<open>
  A run of the requests \<open>ids\<close>: all have the same two decoding flags, and the detokenizer has room
  for their states. Requests get tokens, and batches of them are streamed, in any order.
\<close>

definition override_reqs :: "(string \<Rightarrow> req) \<Rightarrow> string list \<Rightarrow> req list \<Rightarrow> string \<Rightarrow> req" where
  "override_reqs rq bs rs i = (case map_of (zip bs rs) i of None \<Rightarrow> rq i | Some r \<Rightarrow> r)"

inductive stream_run ::
  "(bool \<Rightarrow> bool \<Rightarrow> token list \<Rightarrow> pystr) \<Rightarrow> stream_cfg \<Rightarrow> nat \<Rightarrow> bool \<Rightarrow> bool \<Rightarrow> string list \<Rightarrow>
   (string \<Rightarrow> req) \<Rightarrow> (string \<times> decode_status) list \<Rightarrow> (string \<Rightarrow> pystr) \<Rightarrow> bool"
  for dec cfg capacity sk sp ids where
  start: "distinct (map fst d) \<Longrightarrow> length d + length ids \<le> capacity \<Longrightarrow>
    \<forall>i \<in> set ids. rid (rq i) = i \<and> new_stream (dec sk sp) (rq i) \<and> same_flags sk sp (rq i) \<and> map_of d i = None \<Longrightarrow>
    stream_run dec cfg capacity sk sp ids rq d (\<lambda>_. [])"
| token: "stream_run dec cfg capacity sk sp ids rq d cl \<Longrightarrow> i \<in> set ids \<Longrightarrow> gets_tokens (rq i) r \<Longrightarrow>
    stream_run dec cfg capacity sk sp ids (rq(i := r)) d cl"
| quiet: "stream_run dec cfg capacity sk sp ids rq d cl \<Longrightarrow> distinct bs \<Longrightarrow> set bs \<subseteq> set ids \<Longrightarrow>
    stream_output_generation cfg skip (map rq bs) = Inr (None, rs) \<Longrightarrow>
    stream_run dec cfg capacity sk sp ids (override_reqs rq bs rs) d cl"
| message: "stream_run dec cfg capacity sk sp ids rq d cl \<Longrightarrow> distinct bs \<Longrightarrow> set bs \<subseteq> set ids \<Longrightarrow>
    stream_output_generation cfg skip (map rq bs) = Inr (Some es, rs) \<Longrightarrow>
    handle_batch_token_id_out dec capacity es d = Inr (outs, d') \<Longrightarrow>
    stream_run dec cfg capacity sk sp ids (override_reqs rq bs rs) d' (received cl outs)"

definition run_inv ::
  "(bool \<Rightarrow> bool \<Rightarrow> token list \<Rightarrow> pystr) \<Rightarrow> nat \<Rightarrow> bool \<Rightarrow> bool \<Rightarrow> string list \<Rightarrow>
   (string \<Rightarrow> req) \<Rightarrow> (string \<times> decode_status) list \<Rightarrow> (string \<Rightarrow> pystr) \<Rightarrow> bool" where
  "run_inv dec capacity sk sp ids rq d cl \<longleftrightarrow>
     (\<forall>i \<in> set ids. rid (rq i) = i \<and> same_flags sk sp (rq i) \<and> stream_inv (dec sk sp) (rq i) (map_of d i) (cl i)) \<and>
     distinct (map fst d) \<and> card (dom (map_of d) \<union> set ids) \<le> capacity"

lemma linked_send_le:
  assumes "linked dec r so c"
  shows "send_decode_id_offset r - length (prompt_tail r) \<le> length (output_ids r)" and "send_decode_id_offset r \<le> length (all_ids r)"
proof -
  have "send_decode_id_offset r \<le> length (all_ids r)"
    using assms by (cases so) (auto simp: linked_def reading_def all_ids_def prompt_tail_def)
  then show "send_decode_id_offset r \<le> length (all_ids r)" "send_decode_id_offset r - length (prompt_tail r) \<le> length (output_ids r)"
    by (auto simp: all_ids_def)
qed

lemma gets_stream_inv:
  assumes g: "gets_tokens r r'" and inv: "stream_inv dec r so c"
  shows "stream_inv dec r' so c"
proof -
  have f: "origin_input_ids_unpadded r' = origin_input_ids_unpadded r" "r_params r' = r_params r" "finished_output r' = finished_output r"
    "surr_offset r' = surr_offset r" "read_offset r' = read_offset r" "send_decode_id_offset r' = send_decode_id_offset r"
    "decoded_text r' = decoded_text r"
    using g by (auto simp: gets_tokens_def)
  have t: "prompt_tail r' = prompt_tail r" by (simp add: prompt_tail_def f)
  have s: "streamable dec r'" using inv f t by (simp add: stream_inv_def streamable_def)
  show ?thesis
  proof (cases "finished_output r = Some True")
    case True
    then have fin: "finished r" "complete_text dec r c" using inv by (auto simp: stream_inv_def)
    then have "output_ids r' = output_ids r" "finished_reason r' = finished_reason r" using g by (auto simp: gets_tokens_def)
    then show ?thesis using complete_text_cong [OF f(1)] f fin True s by (simp add: stream_inv_def finished_def)
  next
    case False
    then have l: "linked dec r so c" and p: "stop_token_pending r" using inv by (auto simp: stream_inv_def)
    obtain ts where ts: "output_ids r' = output_ids r @ ts"
      and tok: "\<And>t. finished_reason r' = Some (FINISH_MATCHED_TOKEN t) \<Longrightarrow> ts \<noteq> [] \<or> finished_reason r = Some (FINISH_MATCHED_TOKEN t)"
      using g by (cases "finished r") (auto simp: gets_tokens_def)
    have "linked dec r' so c = linked dec r so c"
      using linked_send_le(1) [OF l] f ts by (intro linked_cong) simp_all
    moreover have "output_ids r' \<noteq> [] \<and> send_decode_id_offset r' < length (all_ids r')"
      if "finished_reason r' = Some (FINISH_MATCHED_TOKEN x)" for x
      using tok [OF that] p linked_send_le(2) [OF l] by (cases ts) (auto simp: stop_token_pending_def all_ids_def t ts f(6))
    ultimately show ?thesis using l s False f by (simp add: stream_inv_def stop_token_pending_def)
  qed
qed

section \<open>One batch\<close>

lemma output_entry_frame:
  assumes "output_entry cfg r = (e, r1)"
  shows "to_rid e = rid r" "to_skip_special e = skip_special_tokens (r_params r)"
    "to_spaces_between e = spaces_between_special_tokens (r_params r)"
    "rid r1 = rid r" "r_params r1 = r_params r" "finished_output r1 = finished_output r" "finished_reason r1 = finished_reason r"
  using assms
  by (cases "surr_offset r"; cases "read_offset r"; auto simp: output_entry_def init_incremental_detokenize_def Let_def)+

lemma rids_sent:
  assumes "\<forall>i \<in> set bs. \<forall>e. m (rq i) = Some e \<longrightarrow> to_rid e = i"
  shows "map to_rid (List.map_filter m (map rq bs)) = filter (\<lambda>i. m (rq i) \<noteq> None) bs"
  using assms by (induction bs) (auto simp: map_filter_simps split: option.splits)

lemma room_for_batch:
  assumes "distinct (map fst d)" and "distinct (map to_rid es)" and "to_rid ` set es \<subseteq> S" and "finite S"
    and "card (dom (map_of d) \<union> S) \<le> capacity"
  shows "length d + length (filter (\<lambda>e. map_of d (to_rid e) = None) es) \<le> capacity"
proof -
  let ?new = "to_rid ` set (filter (\<lambda>e. map_of d (to_rid e) = None) es)"
  have "length d = card (dom (map_of d))"
    using distinct_card [OF assms(1)] by (simp add: dom_map_of_conv_image_fst)
  moreover have "length (filter (\<lambda>e. map_of d (to_rid e) = None) es) = card ?new"
    using distinct_card [OF distinct_map_filter [OF assms(2)]] by simp
  moreover have "card (dom (map_of d) \<union> ?new) = card (dom (map_of d)) + card ?new"
    by (rule card_Un_disjoint) (auto simp: finite_dom_map_of)
  moreover have "card (dom (map_of d) \<union> ?new) \<le> card (dom (map_of d) \<union> S)"
    using assms(3,4) by (intro card_mono) (auto simp: finite_dom_map_of)
  ultimately show ?thesis using assms(5) by simp
qed

lemma override_reqs_map: "override_reqs rq bs (map n (map rq bs)) i = (if i \<in> set bs then n (rq i) else rq i)"
  by (simp add: override_reqs_def map_of_zip_map)

text \<open>What is sent for the requests of a batch, and what is left of them.\<close>

definition sent_entry :: "stream_cfg \<Rightarrow> string option \<Rightarrow> req \<Rightarrow> token_id_out option" where
  "sent_entry cfg skip r = fst (projr (stream_req cfg skip r))"

definition sent_req :: "stream_cfg \<Rightarrow> string option \<Rightarrow> req \<Rightarrow> req" where
  "sent_req cfg skip r = snd (projr (stream_req cfg skip r))"

definition sending_ok ::
  "(token list \<Rightarrow> pystr) \<Rightarrow> stream_cfg \<Rightarrow> string option \<Rightarrow> req \<Rightarrow> decode_status option \<Rightarrow> pystr \<Rightarrow> bool" where
  "sending_ok D cfg skip r so c \<longleftrightarrow>
     (let r' = sent_req cfg skip r
      in stream_req cfg skip r = Inr (sent_entry cfg skip r, r') \<and> rid r' = rid r \<and> r_params r' = r_params r \<and>
         (finished r' \<and> skip \<noteq> Some (rid r) \<longrightarrow> finished_output r' = Some True) \<and>
         (case sent_entry cfg skip r of
            None \<Rightarrow> r' = r
          | Some e \<Rightarrow>
              to_rid e = rid r \<and> to_skip_special e = skip_special_tokens (r_params r) \<and>
              to_spaces_between e = spaces_between_special_tokens (r_params r) \<and>
              (\<exists>x s. decode_entry D e so = Inr (x, s) \<and> stream_inv D r' (Some s) (c @ x))))"

lemma request_sent:
  assumes dec: "incremental_decoder D" "plain_decoder D" and cfg: "\<not> sc_multimodal_gen cfg" "sc_stream_interval cfg \<noteq> 0"
    and inv: "stream_inv D r so c"
  shows "sending_ok D cfg skip r so c"
proof -
  have "finished_output r = Some True \<Longrightarrow> finished r" using inv by (simp add: stream_inv_def)
  from stream_req_total [OF cfg this, of skip]
  consider (none) "stream_req cfg skip r = Inr (None, r)" "finished r \<and> skip \<noteq> Some (rid r) \<longrightarrow> finished_output r = Some True"
    | (some) y r1 where "stream_req cfg skip r = Inr (Some y, r1)" "finished_output r \<noteq> Some True"
      "output_entry cfg (if finished r then r\<lparr>finished_output := Some True\<rparr> else r) = (y, r1)"
    by blast
  then show ?thesis
  proof cases
    case none
    then show ?thesis by (simp add: sending_ok_def sent_entry_def sent_req_def)
  next
    case (some y r1)
    have "\<exists>x s. decode_entry D y so = Inr (x, s) \<and> stream_inv D r1 (Some s) (c @ x)"
      by (rule entry_sent [OF dec cfg(1) inv some(2,3)])
    moreover note output_entry_frame [OF some(3)]
    ultimately show ?thesis using some(1) by (cases "finished r") (auto simp: sending_ok_def sent_entry_def sent_req_def finished_def)
  qed
qed

text \<open>The entries of a batch, as the detokenizer needs them.\<close>

definition entries_ok ::
  "(token list \<Rightarrow> pystr) \<Rightarrow> bool \<Rightarrow> bool \<Rightarrow> (string \<times> decode_status) list \<Rightarrow> (string \<Rightarrow> pystr) \<Rightarrow> (string \<Rightarrow> req) \<Rightarrow>
   token_id_out list \<Rightarrow> bool" where
  "entries_ok D sk sp d cl rq es \<longleftrightarrow>
     distinct (map to_rid es) \<and> (\<forall>e \<in> set es. to_skip_special e = sk \<and> to_spaces_between e = sp) \<and>
     (\<forall>e \<in> set es. \<exists>x s. decode_entry D e (map_of d (to_rid e)) = Inr (x, s) \<and>
        stream_inv D (rq (to_rid e)) (Some s) (cl (to_rid e) @ x))"

lemma batch_entries:
  assumes ok: "\<And>i. i \<in> set bs \<Longrightarrow> sending_ok D cfg skip (rq i) (map_of d i) (cl i) \<and> rid (rq i) = i \<and> same_flags sk sp (rq i)"
    and bs: "distinct bs" and es: "es = List.map_filter (sent_entry cfg skip) (map rq bs)"
    and rq': "rq' = override_reqs rq bs (map (sent_req cfg skip) (map rq bs))"
  shows "entries_ok D sk sp d cl rq' es" and "to_rid ` set es \<subseteq> set bs"
    and "\<And>j. j \<notin> to_rid ` set es \<Longrightarrow> rq' j = rq j" and "\<And>j. j \<in> set bs \<Longrightarrow> rid (rq' j) = j \<and> same_flags sk sp (rq' j)"
    and "\<And>j. j \<notin> set bs \<Longrightarrow> rq' j = rq j"
proof -
  let ?e = "sent_entry cfg skip"
  have own: "rq' j = (if j \<in> set bs then sent_req cfg skip (rq j) else rq j)" for j
    unfolding rq' by (rule override_reqs_map)
  have er: "to_rid e = i" if "i \<in> set bs" "?e (rq i) = Some e" for i e
    using ok [OF that(1)] that by (simp add: sending_ok_def Let_def)
  then have rids: "map to_rid es = filter (\<lambda>i. ?e (rq i) \<noteq> None) bs" unfolding es by (intro rids_sent) blast
  have ent: "\<exists>i \<in> set bs. ?e (rq i) = Some e \<and> to_rid e = i" if "e \<in> set es" for e
    using that er by (force simp: es map_filter_def)
  then show "to_rid ` set es \<subseteq> set bs" by auto
  have "distinct (map to_rid es)" using bs by (simp add: rids)
  moreover have "\<forall>e \<in> set es. to_skip_special e = sk \<and> to_spaces_between e = sp"
    using ent ok by (fastforce simp: sending_ok_def Let_def same_flags_def)
  moreover have "\<exists>x s. decode_entry D e (map_of d (to_rid e)) = Inr (x, s) \<and> stream_inv D (rq' (to_rid e)) (Some s) (cl (to_rid e) @ x)"
    if "e \<in> set es" for e using ent [OF that] ok by (fastforce simp: sending_ok_def Let_def own)
  ultimately show "entries_ok D sk sp d cl rq' es" by (simp add: entries_ok_def)
  show "rq' j = rq j" if "j \<notin> to_rid ` set es" for j
  proof -
    have "j \<notin> set (map to_rid es)" using that by simp
    then have "j \<in> set bs \<Longrightarrow> ?e (rq j) = None" unfolding rids by auto
    then show ?thesis using ok [of j] by (auto simp: own sending_ok_def Let_def)
  qed
  show "rid (rq' j) = j \<and> same_flags sk sp (rq' j)" if "j \<in> set bs" for j
    using ok [OF that] that by (simp add: own sending_ok_def Let_def same_flags_def)
  show "rq' j = rq j" if "j \<notin> set bs" for j using that by (simp add: own)
qed

text \<open>The detokenizer takes such a batch and keeps the invariant of the run.\<close>

lemma batch_received:
  assumes inv: "run_inv dec capacity sk sp ids rq d cl" and ok: "entries_ok (dec sk sp) sk sp d cl rq' es" and ne: "es \<noteq> []"
    and sub: "to_rid ` set es \<subseteq> set ids" and quiet: "\<And>j. j \<notin> to_rid ` set es \<Longrightarrow> rq' j = rq j"
    and frame: "\<And>j. j \<in> set ids \<Longrightarrow> rid (rq' j) = j \<and> same_flags sk sp (rq' j)"
  shows "\<exists>outs d'. handle_batch_token_id_out dec capacity es d = Inr (outs, d') \<and> run_inv dec capacity sk sp ids rq' d' (received cl outs)"
proof -
  let ?D = "dec sk sp"
  have dd: "distinct (map fst d)" "card (dom (map_of d) \<union> set ids) \<le> capacity" using inv by (auto simp: run_inv_def)
  have b: "distinct (map to_rid es)" "\<forall>e \<in> set es. to_skip_special e = sk \<and> to_spaces_between e = sp"
    and de: "\<And>e. e \<in> set es \<Longrightarrow> \<exists>x s. decode_entry ?D e (map_of d (to_rid e)) = Inr (x, s) \<and>
      stream_inv ?D (rq' (to_rid e)) (Some s) (cl (to_rid e) @ x)"
    using ok unfolding entries_ok_def by blast+
  have "\<forall>e \<in> set es. \<exists>y. decode_entry ?D e (map_of d (to_rid e)) = Inr y" using de by blast
  from handle_batch_spec [where dec = dec, OF b(1) dd(1) ne b(2) this room_for_batch [OF dd(1) b(1) sub _ dd(2)], of cl]
  obtain outs d' where h: "handle_batch_token_id_out dec capacity es d = Inr (outs, d')" "distinct (map fst d')"
    "dom (map_of d') = dom (map_of d) \<union> to_rid ` set es"
    and at: "\<And>e x s. e \<in> set es \<Longrightarrow> decode_entry ?D e (map_of d (to_rid e)) = Inr (x, s) \<Longrightarrow>
      map_of d' (to_rid e) = Some s \<and> received cl outs (to_rid e) = cl (to_rid e) @ x"
    and out: "\<And>j. j \<notin> to_rid ` set es \<Longrightarrow> map_of d' j = map_of d j \<and> received cl outs j = cl j"
    by auto
  have "stream_inv ?D (rq' j) (map_of d' j) (received cl outs j)" if "j \<in> set ids" for j
  proof (cases "j \<in> to_rid ` set es")
    case True
    then obtain e where "e \<in> set es" "j = to_rid e" by auto
    then show ?thesis using de [of e] at [of e] by auto
  next
    case False
    then show ?thesis using out quiet inv that by (simp add: run_inv_def)
  qed
  moreover have "dom (map_of d') \<union> set ids = dom (map_of d) \<union> set ids" using h(3) sub by auto
  ultimately have "run_inv dec capacity sk sp ids rq' d' (received cl outs)" using frame h(2) dd(2) by (simp add: run_inv_def)
  then show ?thesis using h(1) by blast
qed

lemma batch_sent:
  assumes dec: "incremental_decoder (dec sk sp)" "plain_decoder (dec sk sp)"
    and cfg: "\<not> sc_multimodal_gen cfg" "sc_stream_interval cfg \<noteq> 0"
    and inv: "run_inv dec capacity sk sp ids rq d cl" and bs: "distinct bs" "set bs \<subseteq> set ids"
  shows "\<exists>es rs. stream_output_generation cfg skip (map rq bs) = Inr (if es = [] then None else Some es, rs) \<and>
    list_all (\<lambda>r. finished r \<and> skip \<noteq> Some (rid r) \<longrightarrow> finished_output r = Some True) rs \<and>
    (es = [] \<longrightarrow> run_inv dec capacity sk sp ids (override_reqs rq bs rs) d cl) \<and>
    (es \<noteq> [] \<longrightarrow> (\<exists>outs d'. handle_batch_token_id_out dec capacity es d = Inr (outs, d') \<and>
       run_inv dec capacity sk sp ids (override_reqs rq bs rs) d' (received cl outs)))"
proof -
  have i: "rid (rq i) = i \<and> same_flags sk sp (rq i) \<and> stream_inv (dec sk sp) (rq i) (map_of d i) (cl i)" if "i \<in> set ids" for i
    using inv that by (simp add: run_inv_def)
  have ok: "sending_ok (dec sk sp) cfg skip (rq i) (map_of d i) (cl i) \<and> rid (rq i) = i \<and> same_flags sk sp (rq i)" if "i \<in> set bs" for i
    using that bs(2) i request_sent [OF dec cfg] by blast
  define es where "es = List.map_filter (sent_entry cfg skip) (map rq bs)"
  define rs where "rs = map (sent_req cfg skip) (map rq bs)"
  have "stream_reqs cfg skip (map rq bs) = Inr (es, rs)" unfolding es_def rs_def
    using ok by (intro stream_reqs_spec) (auto simp: sending_ok_def Let_def)
  then have so: "stream_output_generation cfg skip (map rq bs) = Inr (if es = [] then None else Some es, rs)"
    using cfg(1) by (simp add: stream_output_generation_def bind_result_def)
  have fin: "list_all (\<lambda>r. finished r \<and> skip \<noteq> Some (rid r) \<longrightarrow> finished_output r = Some True) rs"
    using ok by (auto simp: rs_def list_all_iff sending_ok_def Let_def)
  note b = batch_entries [OF ok bs(1) es_def, OF _ refl, folded rs_def]
  have frame: "rid (override_reqs rq bs rs j) = j \<and> same_flags sk sp (override_reqs rq bs rs j)" if "j \<in> set ids" for j
    using b(4,5) [of j] i [OF that] by (cases "j \<in> set bs") auto
  have "run_inv dec capacity sk sp ids (override_reqs rq bs rs) d cl" if "es = []"
    using inv b(3) that by (simp add: run_inv_def)
  moreover have "\<exists>outs d'. handle_batch_token_id_out dec capacity es d = Inr (outs, d') \<and>
      run_inv dec capacity sk sp ids (override_reqs rq bs rs) d' (received cl outs)" if "es \<noteq> []"
    using b(2) bs(2) by (intro batch_received [OF inv b(1) that _ b(3) frame]) auto
  ultimately show ?thesis using so fin by blast
qed

section \<open>Streams are complete\<close>

lemma stream_run_inv:
  assumes "stream_run dec cfg capacity sk sp ids rq d cl"
    and dec: "incremental_decoder (dec sk sp)" "plain_decoder (dec sk sp)"
    and cfg: "\<not> sc_multimodal_gen cfg" "sc_stream_interval cfg \<noteq> 0"
  shows "run_inv dec capacity sk sp ids rq d cl"
  using assms(1)
proof induction
  case (start d rq)
  have "card (dom (map_of d) \<union> set ids) \<le> card (dom (map_of d)) + card (set ids)" by (rule card_Un_le)
  also have "\<dots> \<le> length d + length ids"
    using distinct_card [OF start(1)] card_length [of ids] by (simp add: dom_map_of_conv_image_fst)
  finally have "card (dom (map_of d) \<union> set ids) \<le> capacity" using start(2) by simp
  then show ?case using start
    by (auto simp: run_inv_def stream_inv_def linked_def new_stream_def stop_token_pending_def)
next
  case (token rq d cl i r)
  then show ?case using gets_stream_inv [of "rq i" r]
    by (auto simp: run_inv_def gets_tokens_def same_flags_def)
next
  case (quiet rq d cl bs skip rs)
  then show ?case using batch_sent [OF dec cfg quiet(5,2,3), of skip] by (auto split: if_splits)
next
  case (message rq d cl bs skip es rs outs d')
  then show ?case using batch_sent [OF dec cfg message(6,2,3), of skip] by (auto split: if_splits)
qed

lemma open_prefix:
  assumes dec: "incremental_decoder D" and inv: "stream_inv D r so c" and opn: "finished_output r \<noteq> Some True"
  shows "prefix c (text_of_ids D r (output_ids r))"
proof (cases so)
  case None
  then show ?thesis using inv opn by (simp add: stream_inv_def linked_def)
next
  case (Some s)
  let ?k = "send_decode_id_offset r - length (prompt_tail r)"
  let ?r = "r\<lparr>output_ids := take ?k (output_ids r)\<rparr>"
  have st: "streamable D r" and rd: "reading D ?r s c (send_decode_id_offset r)"
    using inv opn Some by (auto simp: stream_inv_def linked_def)
  have t: "prompt_tail ?r = prompt_tail r" by (simp add: prompt_tail_def)
  let ?x = "take (send_decode_id_offset r) (all_ids ?r)"
  have x: "?x = prompt_tail r @ take ?k (output_ids r)"
    using rd take_all_ids [of ?r "send_decode_id_offset r"] by (auto simp: reading_def t)
  have "prefix (D (prompt_tail r) @ c) (settled (D ?x))" using rd by (simp add: reading_def t)
  moreover have "prefix (settled (D ?x)) (D (?x @ drop ?k (output_ids r)))" using dec unfolding incremental_decoder_def by blast
  moreover have "?x @ drop ?k (output_ids r) = prompt_tail r @ output_ids r" unfolding x by simp
  ultimately have "prefix (D (prompt_tail r) @ c) (D (prompt_tail r @ output_ids r))" by (metis prefix_order.trans)
  then show ?thesis unfolding tail_text [OF dec st] by simp
qed

text \<open>A run for the witness: a tokenizer with one ASCII character per token, two tokens in two messages.\<close>

definition ascii_dec :: "bool \<Rightarrow> bool \<Rightarrow> token list \<Rightarrow> pystr" where
  "ascii_dec sk sp ids = map (\<lambda>t. if 0 < t \<and> t < 128 then nat t else 63) ids"

definition hi_cfg :: stream_cfg where
  "hi_cfg = \<lparr>sc_stream_interval = 1, sc_multimodal_gen = False, sc_skip_tokenizer_init = False\<rparr>"

definition hi_req :: req where
  "hi_req = req_init ''a'' [81, 58] default_params False 0 None True None None None None"

definition hi_sent :: req where
  "hi_sent = hi_req\<lparr>output_ids := [72], surr_offset := Some 0, read_offset := Some 2, send_decode_id_offset := 3, send_token_offset := 1\<rparr>"

definition hi_status :: decode_status where
  "hi_status = \<lparr>ds_decoded_text = [72], ds_decode_ids = [81, 58, 72], ds_surr_offset = 2, ds_read_offset = 3, ds_sent_offset = 1\<rparr>"

lemma ascii_laws: "incremental_decoder (ascii_dec sk sp)" "plain_decoder (ascii_dec sk sp)"
proof -
  have small: "x < 128" if "x \<in> set (ascii_dec sk sp ids)" for x ids using that by (auto simp: ascii_dec_def split: if_splits)
  then have "clean (ascii_dec sk sp ids)" for ids
    using last_in_set [of "ascii_dec sk sp ids"] by (fastforce simp: clean_def REPLACEMENT_def)
  moreover have "ascii_dec sk sp (a @ b) = ascii_dec sk sp a @ ascii_dec sk sp b" for a b by (simp add: ascii_dec_def)
  ultimately show "incremental_decoder (ascii_dec sk sp)" by (simp add: incremental_decoder_def)
  show "plain_decoder (ascii_dec sk sp)" using small by (fastforce simp: plain_decoder_def is_chinese_char_def)
qed

lemmas hi_eval = hi_cfg_def hi_req_def hi_sent_def hi_status_def req_init_def default_params_def ascii_dec_def
  stream_output_generation_def stream_req_def output_due_def output_entry_def init_incremental_detokenize_def
  INIT_INCREMENTAL_DETOKENIZATION_OFFSET_def DEFAULT_FORCE_STREAM_INTERVAL_def finished_def
  handle_batch_token_id_out_def lcd_setitem_def enter_ids_def read_window_def trim_stop_ids_def trim_stop_text_def stop_matched_def
  decode_increment_def REPLACEMENT_def seg_def bind_result_def Let_def

lemma hi_first:
  "stream_output_generation hi_cfg None [hi_req\<lparr>output_ids := [72]\<rparr>] = Inr (Some [fst (output_entry hi_cfg (hi_req\<lparr>output_ids := [72]\<rparr>))], [hi_sent])"
  "handle_batch_token_id_out ascii_dec 9 [fst (output_entry hi_cfg (hi_req\<lparr>output_ids := [72]\<rparr>))] [] =
     Inr ([out_entry (fst (output_entry hi_cfg (hi_req\<lparr>output_ids := [72]\<rparr>))) [72]], [(''a'', hi_status)])"
  by (simp_all add: hi_eval out_entry_def)

definition hi_last :: req where
  "hi_last = hi_sent\<lparr>output_ids := [72, 105], finished_reason := Some (FINISH_LENGTH (Some 2))\<rparr>"

definition hi_done :: req where
  "hi_done = hi_last\<lparr>finished_output := Some True, send_decode_id_offset := 4, send_token_offset := 2\<rparr>"

lemma hi_second:
  "stream_output_generation hi_cfg None [hi_last] = Inr (Some [fst (output_entry hi_cfg (hi_last\<lparr>finished_output := Some True\<rparr>))], [hi_done])"
  "\<exists>d. handle_batch_token_id_out ascii_dec 9 [fst (output_entry hi_cfg (hi_last\<lparr>finished_output := Some True\<rparr>))] [(''a'', hi_status)] =
     Inr ([out_entry (fst (output_entry hi_cfg (hi_last\<lparr>finished_output := Some True\<rparr>))) [105]], d)"
  by (simp_all add: hi_eval hi_last_def hi_done_def out_entry_def)

lemma hi_rid: "to_rid (fst (output_entry cfg r)) = rid r"
  using output_entry_frame(1) [of cfg r] by (metis prod.collapse)

lemma hi_run: "\<exists>rq d cl. stream_run ascii_dec hi_cfg 9 True True [''a''] rq d cl \<and> rq ''a'' = hi_done \<and> cl ''a'' = [72, 105]"
proof -
  let ?run = "stream_run ascii_dec hi_cfg 9 True True [''a'']"
  have "new_stream (ascii_dec True True) hi_req" "same_flags True True hi_req" "rid hi_req = ''a''"
    by (simp_all add: new_stream_def streamable_def prompt_tail_def clean_def same_flags_def hi_eval)
  then have "?run (\<lambda>_. hi_req) [] (\<lambda>_. [])" by (intro stream_run.start) simp_all
  moreover have "gets_tokens hi_req (hi_req\<lparr>output_ids := [72]\<rparr>)" by (simp add: gets_tokens_def hi_req_def req_init_def finished_def)
  ultimately have "?run ((\<lambda>_. hi_req)(''a'' := hi_req\<lparr>output_ids := [72]\<rparr>)) [] (\<lambda>_. [])" by (intro stream_run.token) simp_all
  from stream_run.message [OF this, of "[''a'']" None, OF _ _ _ hi_first(2)] hi_first(1)
  obtain rq cl where r1: "?run rq [(''a'', hi_status)] cl" "rq ''a'' = hi_sent" "cl ''a'' = [72]"
    by (auto simp: override_reqs_def received_def out_entry_def hi_rid hi_req_def req_init_def)
  moreover have "gets_tokens (rq ''a'') hi_last" by (simp add: r1(2) gets_tokens_def hi_last_def hi_sent_def hi_req_def req_init_def finished_def)
  ultimately have "?run (rq(''a'' := hi_last)) [(''a'', hi_status)] cl" by (intro stream_run.token) simp_all
  from stream_run.message [OF this, of "[''a'']" None] hi_second r1(3)
  show ?thesis
    by (fastforce simp: override_reqs_def received_def out_entry_def hi_rid hi_last_def hi_sent_def hi_req_def req_init_def)
qed



section \<open>Text that is sent twice\<close>

lemma handle_one:
  assumes "to_rid e = k \<and> to_finished_reason e = None \<and> to_skip_special e = sk \<and> to_spaces_between e = sp"
    and "map_of d k = Some s"
    and "dec sk sp (drop (ds_surr_offset s) (ds_decode_ids s @ to_decode_ids e)) = rt"
    and "dec sk sp (seg (ds_decode_ids s @ to_decode_ids e) (ds_surr_offset s) (ds_read_offset s)) = sr"
    and "decode_increment e rt sr (s\<lparr>ds_decode_ids := ds_decode_ids s @ to_decode_ids e\<rparr>) = (x, s1)"
  shows "\<exists>d1. handle_batch_token_id_out dec capacity [e] d = Inr ([out_entry e x], d1) \<and> map_of d1 k = Some s1"
proof -
  let ?s = "s\<lparr>ds_decode_ids := ds_decode_ids s @ to_decode_ids e\<rparr>"
  have "trim_stop_ids ids None b = Inr ids" for ids b by (simp add: trim_stop_ids_def stop_matched_def)
  then have "handle_batch_token_id_out dec capacity [e] d = Inr ([out_entry e x], AList.update k s1 (AList.update k ?s d))"
    using assms by (simp add: handle_batch_token_id_out_def bind_result_def Let_def read_window_def enter_ids_def update_conv out_entry_def)
  then show ?thesis by (simp add: update_conv)
qed

lemma decode_held:
  assumes "to_finished_reason e = None" and "last n = REPLACEMENT"
  shows "decode_increment e (st @ n) st s =
    (drop (ds_sent_offset s) (ds_decoded_text s @ find_printable_text n), s\<lparr>ds_sent_offset := length (ds_decoded_text s @ find_printable_text n)\<rparr>)"
  using assms by (simp add: decode_increment_def trim_stop_text_def stop_matched_def)

lemma decode_flushed:
  assumes "to_finished_reason e = None" and "n \<noteq> []" and "last n \<noteq> REPLACEMENT"
  shows "fst (decode_increment e (st @ n) st s) = drop (ds_sent_offset s) (ds_decoded_text s @ n)"
  using assms by (simp add: decode_increment_def trim_stop_text_def stop_matched_def)

lemma printable_chinese: "is_chinese_char z \<Longrightarrow> find_printable_text (u @ [z, REPLACEMENT]) = u @ [z]"
  by (simp add: find_printable_text_def REPLACEMENT_def is_chinese_char_def nth_append butlast_append)

lemma printable_nothing:
  assumes "v \<noteq> []" and "\<not> is_chinese_char (last v)" and "32 \<notin> set v"
  shows "find_printable_text (v @ [REPLACEMENT]) = []"
proof -
  have "upto_last 32 (v @ [REPLACEMENT]) = []"
    using assms(3) by (auto simp: upto_last_def dropWhile_eq_Nil_conv REPLACEMENT_def)
  moreover have "(v @ [REPLACEMENT]) ! (length v - 1) = last v" using assms(1) by (simp add: nth_append last_conv_nth)
  moreover have "\<not> is_chinese_char REPLACEMENT" by (simp add: is_chinese_char_def REPLACEMENT_def)
  ultimately show ?thesis using assms(2) by (simp add: find_printable_text_def REPLACEMENT_def)
qed

text \<open>
  A tokenizer for the witness, in which a character may take two tokens: a token from \<open>0x110000\<close> is
  the first half of a character, and the token \<open>-1\<close> completes it.
\<close>

fun halves_dec :: "token list \<Rightarrow> pystr" where
  "halves_dec [] = []"
| "halves_dec [t] = [if t \<ge> 0x110000 then REPLACEMENT else nat t]"
| "halves_dec (t # t' # ts) =
     (if t \<ge> 0x110000 then (if t' = - 1 then nat (t - 0x110000) # halves_dec ts else REPLACEMENT # halves_dec (t' # ts))
      else nat t # halves_dec (t' # ts))"

definition zh_entry :: "token list \<Rightarrow> token_id_out" where
  "zh_entry ids =
     \<lparr>to_rid = ''a'', to_finished_reason = None, to_decoded_text = [], to_decode_ids = ids, to_read_offset = 1,
      to_output_ids = None, to_skip_special = True, to_spaces_between = True, to_no_stop_trim = False,
      to_prompt_tokens = 1, to_completion_tokens = 2, to_cached_tokens = 0\<rparr>"

definition zh_status :: decode_status where
  "zh_status = \<lparr>ds_decoded_text = [], ds_decode_ids = [81], ds_surr_offset = 0, ds_read_offset = 1, ds_sent_offset = 0\<rparr>"

text \<open>
  C36: Text behind a Chinese character is sent twice. When a chunk of text ends in a Chinese
  character and an incomplete one, everything up to the Chinese character is sent; when the next
  chunk, without a space, ends in an incomplete character again, nothing is printable, and the
  detokenizer forgets what it has sent. The chunk after that is sent from the start.
\<close>

theorem chinese_text_sent_twice:
  assumes d: "map_of d k = Some s" "ds_sent_offset s = length (ds_decoded_text s)"
    and e: "\<forall>e \<in> {e1, e2, e3}. to_rid e = k \<and> to_finished_reason e = None \<and> to_skip_special e = sk \<and> to_spaces_between e = sp"
    and b: "b = dec sk sp (seg (ds_decode_ids s) (ds_surr_offset s) (ds_read_offset s))"
      "ds_read_offset s \<le> length (ds_decode_ids s)"
    and text1: "dec sk sp (drop (ds_surr_offset s) (ds_decode_ids s @ to_decode_ids e1)) = b @ u @ [z, REPLACEMENT]"
    and text2: "dec sk sp (drop (ds_surr_offset s) (ds_decode_ids s @ to_decode_ids e1 @ to_decode_ids e2)) = b @ u @ z # v @ [REPLACEMENT]"
    and text3: "dec sk sp (drop (ds_surr_offset s) (ds_decode_ids s @ to_decode_ids e1 @ to_decode_ids e2 @ to_decode_ids e3)) = b @ u @ z # v @ w"
    and z: "is_chinese_char z" and v: "v \<noteq> []" "\<not> is_chinese_char (last v)" "32 \<notin> set (u @ z # v)"
    and w: "w \<noteq> []" "last w \<noteq> REPLACEMENT"
  shows "\<exists>o1 o2 o3 d1 d2 d3.
    handle_batch_token_id_out dec capacity [e1] d = Inr ([o1], d1) \<and>
    handle_batch_token_id_out dec capacity [e2] d1 = Inr ([o2], d2) \<and>
    handle_batch_token_id_out dec capacity [e3] d2 = Inr ([o3], d3) \<and>
    so_output_str o1 @ so_output_str o2 @ so_output_str o3 = (u @ [z]) @ (u @ [z]) @ v @ w"
proof -
  let ?D = "dec sk sp" and ?t = "ds_decoded_text s" and ?i = "ds_decode_ids s" and ?a = "ds_surr_offset s"
  have seg: "?D (seg (?i @ x) ?a (ds_read_offset s)) = b" for x using b by (simp add: seg_def)
  define s1 where "s1 = s\<lparr>ds_decode_ids := ?i @ to_decode_ids e1, ds_sent_offset := length (?t @ u @ [z])\<rparr>"
  define s2 where "s2 = s\<lparr>ds_decode_ids := ?i @ to_decode_ids e1 @ to_decode_ids e2, ds_sent_offset := length ?t\<rparr>"
  have i: "ds_decode_ids s1 = ?i @ to_decode_ids e1" "ds_decode_ids s2 = ?i @ to_decode_ids e1 @ to_decode_ids e2"
    "ds_surr_offset s1 = ?a" "ds_surr_offset s2 = ?a" "ds_read_offset s1 = ds_read_offset s" "ds_read_offset s2 = ds_read_offset s"
    by (simp_all add: s1_def s2_def)
  have n: "to_finished_reason e1 = None" "to_finished_reason e2 = None" "to_finished_reason e3 = None" using e by simp_all
  have "decode_increment e1 (b @ u @ [z, REPLACEMENT]) b (s\<lparr>ds_decode_ids := ?i @ to_decode_ids e1\<rparr>) = (u @ [z], s1)"
    using d(2) n(1) by (subst decode_held) (simp_all add: printable_chinese [OF z] s1_def)
  from handle_one [where dec = dec, OF bspec [OF e] d(1) text1 seg this] obtain d1 where
    d1: "handle_batch_token_id_out dec capacity [e1] d = Inr ([out_entry e1 (u @ [z])], d1)" "map_of d1 k = Some s1" by auto
  have "find_printable_text (u @ z # v @ [REPLACEMENT]) = []" using printable_nothing [of "u @ z # v"] v by simp
  then have "decode_increment e2 (b @ u @ z # v @ [REPLACEMENT]) b (s1\<lparr>ds_decode_ids := ds_decode_ids s1 @ to_decode_ids e2\<rparr>) = ([], s2)"
    using n(2) by (subst decode_held) (simp_all add: s1_def s2_def)
  from handle_one [where dec = dec and sk = sk and sp = sp, OF bspec [OF e] d1(2) _ _ this] obtain d2 where
    d2: "handle_batch_token_id_out dec capacity [e2] d1 = Inr ([out_entry e2 []], d2)" "map_of d2 k = Some s2"
    using text2 seg by (auto simp: i)
  let ?s2 = "s2\<lparr>ds_decode_ids := ds_decode_ids s2 @ to_decode_ids e3\<rparr>"
  obtain x s3 where s3: "decode_increment e3 (b @ u @ z # v @ w) b ?s2 = (x, s3)" by fastforce
  moreover have "fst (decode_increment e3 (b @ u @ z # v @ w) b ?s2) = drop (ds_sent_offset ?s2) (ds_decoded_text ?s2 @ u @ z # v @ w)"
    using n(3) w by (intro decode_flushed) simp_all
  ultimately have x: "x = u @ z # v @ w" by (simp add: s2_def)
  from handle_one [where dec = dec and sk = sk and sp = sp, OF bspec [OF e] d2(2) _ _ s3] obtain d3 where
    "handle_batch_token_id_out dec capacity [e3] d2 = Inr ([out_entry e3 x], d3)"
    using text3 seg by (auto simp: i)
  with d1(1) d2(1) show ?thesis by (auto simp: x out_entry_def)
qed

theorem chinese_text_sent_twice_witness:
  "\<exists>o1 o2 o3 d1 d2 d3.
    handle_batch_token_id_out (\<lambda>_ _. halves_dec) 9 [zh_entry [0x4E2D, 0x1100E9]] [(''a'', zh_status)] = Inr ([o1], d1) \<and>
    handle_batch_token_id_out (\<lambda>_ _. halves_dec) 9 [zh_entry [- 1, 0x12F600]] d1 = Inr ([o2], d2) \<and>
    handle_batch_token_id_out (\<lambda>_ _. halves_dec) 9 [zh_entry [- 1, 46]] d2 = Inr ([o3], d3) \<and>
    so_output_str o1 @ so_output_str o2 @ so_output_str o3 = [0x4E2D, 0x4E2D, 0xE9, 0x1F600, 46]"
  using chinese_text_sent_twice [of "[(''a'', zh_status)]" "''a''" zh_status "zh_entry [0x4E2D, 0x1100E9]" "zh_entry [- 1, 0x12F600]"
      "zh_entry [- 1, 46]" True True "[81]" "\<lambda>_ _. halves_dec" "[]" "0x4E2D" "[0xE9]" "[0x1F600, 46]" 9]
  by (simp add: zh_entry_def zh_status_def seg_def is_chinese_char_def REPLACEMENT_def)

end
