(* ===== verification/Io_Struct.thy ===== *)
theory Io_Struct
  imports Prelude Complex_Main
begin

text \<open>
  The requests of a client before tokenization, \<open>GenerateReqInput\<close> and \<open>EmbeddingReqInput\<close> of
  \<open>managers/io_struct.py\<close>: most arguments may be given once or as a list with one entry per prompt,
  and \<open>normalize_batch_and_arguments\<close> turns them into lists that \<open>__getitem__\<close> indexes. Token ids and
  embeddings, whose nesting the code inspects, are Python values \<open>pyval\<close>; the other arguments
  are \<open>batched\<close>. The generator of request ids is a parameter: \<open>uuid k\<close> is the \<open>k\<close>-th id drawn. The
  addresses for disaggregated serving, which the code does not normalise, are left out.
\<close>

section \<open>Arguments\<close>

datatype pyval = PNone | PInt int | PFloat rat | PList "pyval list"

datatype 'a batched = One 'a | Many "'a list"

datatype 'i image_elem = NoImage | Image 'i | ImageList "'i image_elem list"

datatype 'i image_arg = OneImage 'i | Images "'i image_elem list"

text \<open>A dictionary of sampling parameters: the two keys the code here uses, and the others.\<close>

record sampling_dict =
  sd_n :: "int option"
  sd_max_new_tokens :: "int option"
  sd_other :: "(string \<times> string) list"

definition empty_dict :: sampling_dict where
  "empty_dict = \<lparr>sd_n = None, sd_max_new_tokens = None, sd_other = []\<rparr>"

text \<open>In a list of session parameters, \<open>None\<close> is an entry that is not a dictionary.\<close>

datatype 's session_arg = OneSession 's | Sessions "'s option list"

record ('i, 's) generate_req_input =
  gq_text :: "string batched option"
  gq_input_ids :: pyval
  gq_input_embeds :: pyval
  gq_image_data :: "'i image_arg option"
  gq_audio_data :: "'i option batched option"
  gq_sampling_params :: "sampling_dict batched option"
  gq_rid :: "string batched option"
  gq_return_logprob :: "bool batched option"
  gq_logprob_start_len :: "int batched option"
  gq_top_logprobs_num :: "int batched option"
  gq_token_ids_logprob :: pyval
  gq_return_text_in_logprobs :: bool
  gq_stream :: bool
  gq_log_metrics :: bool
  gq_modalities :: "string option list option"
  gq_lora_path :: "string option batched option"
  gq_session_params :: "'s session_arg option"
  gq_custom_logit_processor :: "string option batched option"
  gq_return_hidden_states :: bool
  gq_is_single :: bool
  gq_batch_size :: nat
  gq_parallel_sample_num :: int

text \<open>\<open>xs * n\<close>: nothing for \<open>n\<close> below 1.\<close>

definition py_repeat :: "'a list \<Rightarrow> int \<Rightarrow> 'a list" where
  "py_repeat xs n = concat (replicate (nat n) xs)"

text \<open>\<open>v[i]\<close>; only a list can be indexed.\<close>

definition pyval_index :: "pyval \<Rightarrow> int \<Rightarrow> pyval result" where
  "pyval_index v i = (case v of PList xs \<Rightarrow> py_get xs i | _ \<Rightarrow> Inl TypeError)"

definition batched_index :: "'a batched \<Rightarrow> int \<Rightarrow> 'a result" where
  "batched_index b i = (case b of Many xs \<Rightarrow> py_get xs i | One _ \<Rightarrow> Inl TypeError)"

section \<open>Shape of the request\<close>

definition validate_inputs :: "('i, 's) generate_req_input \<Rightarrow> unit result" where
  "validate_inputs g =
     (if gq_text g = None \<and> gq_input_ids g = PNone \<and> gq_input_embeds g = PNone \<or>
         gq_text g \<noteq> None \<and> gq_input_ids g \<noteq> PNone \<and> gq_input_embeds g \<noteq> PNone
      then Inl ValueError else Inr ())"

definition determine_batch_size :: "('i, 's) generate_req_input \<Rightarrow> ('i, 's) generate_req_input result" where
  "determine_batch_size g =
     (case gq_text g of
        Some (One _) \<Rightarrow> Inr (g\<lparr>gq_is_single := True, gq_batch_size := 1, gq_input_embeds := PNone\<rparr>)
      | Some (Many ts) \<Rightarrow> Inr (g\<lparr>gq_is_single := False, gq_batch_size := length ts, gq_input_embeds := PNone\<rparr>)
      | None \<Rightarrow>
          (case gq_input_ids g of
             PList [] \<Rightarrow> Inl ValueError
           | PList (PInt _ # _) \<Rightarrow> Inr (g\<lparr>gq_is_single := True, gq_batch_size := 1, gq_input_embeds := PNone\<rparr>)
           | PList xs \<Rightarrow> Inr (g\<lparr>gq_is_single := False, gq_batch_size := length xs, gq_input_embeds := PNone\<rparr>)
           | PNone \<Rightarrow>
               bind_result (pyval_index (gq_input_embeds g) 0) (\<lambda>row.
               bind_result (pyval_index row 0) (\<lambda>x.
                 (case x of
                    PFloat _ \<Rightarrow> Inr (g\<lparr>gq_is_single := True, gq_batch_size := 1\<rparr>)
                  | _ \<Rightarrow>
                      (case gq_input_embeds g of
                         PList es \<Rightarrow> Inr (g\<lparr>gq_is_single := False, gq_batch_size := length es\<rparr>)
                       | _ \<Rightarrow> Inl TypeError))))
           | _ \<Rightarrow> Inl TypeError))"

definition dict_n :: "sampling_dict \<Rightarrow> int" where
  "dict_n p = (case sd_n p of None \<Rightarrow> 1 | Some n \<Rightarrow> n)"

definition handle_parallel_sampling :: "('i, 's) generate_req_input \<Rightarrow> ('i, 's) generate_req_input result" where
  "handle_parallel_sampling g =
     bind_result
       (case gq_sampling_params g of
          None \<Rightarrow> Inr 1
        | Some (One p) \<Rightarrow> Inr (dict_n p)
        | Some (Many []) \<Rightarrow> Inl IndexError
        | Some (Many (p # ps)) \<Rightarrow> if \<forall>q \<in> set (p # ps). dict_n p = dict_n q then Inr (dict_n p) else Inl ValueError)
       (\<lambda>n.
          let g1 = g\<lparr>gq_parallel_sample_num := n\<rparr>
          in if n > 1 \<and> gq_is_single g1 then
               Inr (g1\<lparr>gq_is_single := False,
                       gq_text := (case gq_text g1 of Some (One t) \<Rightarrow> Some (Many [t]) | t \<Rightarrow> t),
                       gq_input_ids := (if gq_input_ids g1 = PNone then PNone else PList [gq_input_ids g1])\<rparr>)
             else Inr g1)"

section \<open>One request\<close>

definition truthy :: "pyval \<Rightarrow> bool" where
  "truthy v = (case v of PNone \<Rightarrow> False | PInt i \<Rightarrow> i \<noteq> 0 | PFloat x \<Rightarrow> x \<noteq> 0 | PList xs \<Rightarrow> xs \<noteq> [])"

definition or_default :: "'a \<Rightarrow> 'a batched option \<Rightarrow> 'a batched option" where
  "or_default x a = (case a of None \<Rightarrow> Some (One x) | Some b \<Rightarrow> Some b)"

definition normalize_single_inputs :: "(nat \<Rightarrow> string) \<Rightarrow> ('i, 's) generate_req_input \<Rightarrow> ('i, 's) generate_req_input" where
  "normalize_single_inputs uuid g =
     g\<lparr>gq_sampling_params := or_default empty_dict (gq_sampling_params g), gq_rid := or_default (uuid 0) (gq_rid g),
       gq_return_logprob := or_default False (gq_return_logprob g),
       gq_logprob_start_len := or_default (- 1) (gq_logprob_start_len g),
       gq_top_logprobs_num := or_default 0 (gq_top_logprobs_num g),
       gq_token_ids_logprob := (if truthy (gq_token_ids_logprob g) then gq_token_ids_logprob g else PNone)\<rparr>"

section \<open>A batch\<close>

definition expand_inputs :: "('i, 's) generate_req_input \<Rightarrow> ('i, 's) generate_req_input result" where
  "expand_inputs g =
     (let n = gq_parallel_sample_num g
      in case gq_text g of
           Some (Many ts) \<Rightarrow> Inr (g\<lparr>gq_text := Some (Many (py_repeat ts n))\<rparr>)
         | Some (One _) \<Rightarrow> Inl ValueError
         | None \<Rightarrow>
             (case gq_input_ids g of
                PNone \<Rightarrow>
                  (case gq_input_embeds g of
                     PNone \<Rightarrow> Inr g
                   | PList es \<Rightarrow> Inr (g\<lparr>gq_input_embeds := PList (py_repeat es n)\<rparr>)
                   | _ \<Rightarrow> Inl ValueError)
              | PList [] \<Rightarrow> Inl IndexError
              | PList (PList x # xs) \<Rightarrow> Inr (g\<lparr>gq_input_ids := PList (py_repeat (PList x # xs) n)\<rparr>)
              | _ \<Rightarrow> Inl ValueError))"

text \<open>A value that is given once is repeated \<open>num\<close> times, a list \<open>n\<close> times.\<close>

definition spread :: "nat \<Rightarrow> int \<Rightarrow> 'a batched \<Rightarrow> 'a list" where
  "spread num n a = (case a of One x \<Rightarrow> replicate num x | Many xs \<Rightarrow> py_repeat xs n)"

definition normalize_lora_paths :: "nat \<Rightarrow> ('i, 's) generate_req_input \<Rightarrow> ('i, 's) generate_req_input" where
  "normalize_lora_paths num g = g\<lparr>gq_lora_path := map_option (\<lambda>a. Many (spread num (gq_parallel_sample_num g) a)) (gq_lora_path g)\<rparr>"

text \<open>
  The modality of one entry of a list of lists of images; an empty list gets none. An entry that is
  a single image has no length.
\<close>

fun image_modality :: "'i image_elem \<Rightarrow> string option list result" where
  "image_modality NoImage = Inr [None]"
| "image_modality (ImageList [NoImage]) = Inr [None]"
| "image_modality (ImageList [x]) = Inr [Some ''image'']"
| "image_modality (ImageList []) = Inr []"
| "image_modality (ImageList xs) = Inr [Some ''multi-images'']"
| "image_modality (Image i) = Inl TypeError"

fun image_modalities :: "'i image_elem list \<Rightarrow> string option list result" where
  "image_modalities [] = Inr []"
| "image_modalities (x # xs) = bind_result (image_modality x) (\<lambda>m. bind_result (image_modalities xs) (\<lambda>ms. Inr (m @ ms)))"

definition normalize_image_data :: "nat \<Rightarrow> ('i, 's) generate_req_input \<Rightarrow> ('i, 's) generate_req_input result" where
  "normalize_image_data num g =
     (let n = gq_parallel_sample_num g
      in case gq_image_data g of
           None \<Rightarrow> Inr (g\<lparr>gq_image_data := Some (Images (replicate num NoImage))\<rparr>)
         | Some (OneImage x) \<Rightarrow>
             Inr (g\<lparr>gq_image_data := Some (Images (replicate num (ImageList [Image x]))),
                    gq_modalities := Some (replicate num (Some ''image''))\<rparr>)
         | Some (Images xs) \<Rightarrow>
             if length xs \<noteq> gq_batch_size g then Inl ValueError
             else
               (case xs of
                  ImageList _ # _ \<Rightarrow>
                    bind_result (image_modalities xs) (\<lambda>ms.
                      Inr (g\<lparr>gq_image_data := Some (Images (py_repeat xs n)), gq_modalities := Some (py_repeat ms n)\<rparr>))
                | _ \<Rightarrow>
                    Inr (g\<lparr>gq_image_data := Some (Images (py_repeat (map (\<lambda>x. ImageList [x]) xs) n)),
                           gq_modalities := Some (replicate num (Some ''image''))\<rparr>)))"

definition normalize_audio_data :: "nat \<Rightarrow> ('i, 's) generate_req_input \<Rightarrow> ('i, 's) generate_req_input" where
  "normalize_audio_data num g =
     g\<lparr>gq_audio_data := Some (Many (spread num (gq_parallel_sample_num g) (case gq_audio_data g of None \<Rightarrow> One None | Some a \<Rightarrow> a)))\<rparr>"

definition normalize_sampling_params :: "nat \<Rightarrow> ('i, 's) generate_req_input \<Rightarrow> ('i, 's) generate_req_input" where
  "normalize_sampling_params num g =
     g\<lparr>gq_sampling_params :=
         Some (Many (spread num (gq_parallel_sample_num g) (case gq_sampling_params g of None \<Rightarrow> One empty_dict | Some a \<Rightarrow> a)))\<rparr>"

definition normalize_rid :: "(nat \<Rightarrow> string) \<Rightarrow> nat \<Rightarrow> ('i, 's) generate_req_input \<Rightarrow> ('i, 's) generate_req_input result" where
  "normalize_rid uuid num g =
     (case gq_rid g of
        None \<Rightarrow> Inr (g\<lparr>gq_rid := Some (Many (map uuid [0..<num]))\<rparr>)
      | Some (One _) \<Rightarrow> Inl ValueError
      | Some (Many _) \<Rightarrow> Inr g)"

definition normalize_param :: "nat \<Rightarrow> int \<Rightarrow> 'a \<Rightarrow> 'a batched option \<Rightarrow> 'a list result" where
  "normalize_param num n default_value param =
     (case param of
        None \<Rightarrow> Inr (replicate num default_value)
      | Some (One x) \<Rightarrow> Inr (replicate num x)
      | Some (Many xs) \<Rightarrow> if n > 1 then Inl ValueError else Inr xs)"

definition normalize_token_ids_logprob :: "nat \<Rightarrow> int \<Rightarrow> pyval \<Rightarrow> pyval result" where
  "normalize_token_ids_logprob num n v =
     (if \<not> truthy v then Inr (PList (replicate num PNone))
      else case v of
             PList (PList x # xs) \<Rightarrow> if n > 1 then Inl ValueError else Inr v
           | PList xs \<Rightarrow> Inr (PList (replicate num v))
           | _ \<Rightarrow> Inr (PList (replicate num (PList [v]))))"

definition normalize_logprob_params :: "nat \<Rightarrow> ('i, 's) generate_req_input \<Rightarrow> ('i, 's) generate_req_input result" where
  "normalize_logprob_params num g =
     (let n = gq_parallel_sample_num g in
      bind_result (normalize_param num n False (gq_return_logprob g)) (\<lambda>a.
      bind_result (normalize_param num n (- 1) (gq_logprob_start_len g)) (\<lambda>b.
      bind_result (normalize_param num n 0 (gq_top_logprobs_num g)) (\<lambda>c.
      bind_result (normalize_token_ids_logprob num n (gq_token_ids_logprob g)) (\<lambda>t.
        Inr (g\<lparr>gq_return_logprob := Some (Many a), gq_logprob_start_len := Some (Many b),
               gq_top_logprobs_num := Some (Many c), gq_token_ids_logprob := t\<rparr>))))))"

definition normalize_custom_logit_processor :: "nat \<Rightarrow> ('i, 's) generate_req_input \<Rightarrow> ('i, 's) generate_req_input result" where
  "normalize_custom_logit_processor num g =
     bind_result (normalize_param num (gq_parallel_sample_num g) None (gq_custom_logit_processor g)) (\<lambda>ps.
       Inr (g\<lparr>gq_custom_logit_processor := Some (Many ps)\<rparr>))"

definition normalize_batch_inputs :: "(nat \<Rightarrow> string) \<Rightarrow> ('i, 's) generate_req_input \<Rightarrow> ('i, 's) generate_req_input result" where
  "normalize_batch_inputs uuid g =
     (let num = nat (int (gq_batch_size g) * gq_parallel_sample_num g) in
      bind_result (expand_inputs g) (\<lambda>g1.
      bind_result (normalize_image_data num (normalize_lora_paths num g1)) (\<lambda>g2.
      bind_result (normalize_rid uuid num (normalize_sampling_params num (normalize_audio_data num g2))) (\<lambda>g3.
      bind_result (normalize_logprob_params num g3) (normalize_custom_logit_processor num)))))"

definition validate_session_params :: "('i, 's) generate_req_input \<Rightarrow> unit result" where
  "validate_session_params g =
     (case gq_session_params g of
        Some (Sessions []) \<Rightarrow> Inl IndexError
      | Some (Sessions (None # _)) \<Rightarrow> Inl ValueError
      | _ \<Rightarrow> Inr ())"

definition normalize_batch_and_arguments ::
  "(nat \<Rightarrow> string) \<Rightarrow> ('i, 's) generate_req_input \<Rightarrow> ('i, 's) generate_req_input result" where
  "normalize_batch_and_arguments uuid g =
     bind_result (validate_inputs g) (\<lambda>_.
     bind_result (determine_batch_size g) (\<lambda>g1.
     bind_result (handle_parallel_sampling g1) (\<lambda>g2.
     bind_result (if gq_is_single g2 then Inr (normalize_single_inputs uuid g2) else normalize_batch_inputs uuid g2) (\<lambda>g3.
     bind_result (validate_session_params g3) (\<lambda>_. Inr g3)))))"

section \<open>One request of a batch\<close>

text \<open>
  \<open>__getitem__\<close> builds a request from the \<open>i\<close>-th entries; it passes on neither the embeddings nor the
  session parameters, which are then \<open>None\<close>.
\<close>

record ('i, 's) generate_item =
  it_text :: "string option"
  it_input_ids :: pyval
  it_input_embeds :: pyval
  it_image_data :: "'i image_elem"
  it_audio_data :: "'i option"
  it_sampling_params :: sampling_dict
  it_rid :: string
  it_return_logprob :: bool
  it_logprob_start_len :: int
  it_top_logprobs_num :: int
  it_token_ids_logprob :: pyval
  it_return_text_in_logprobs :: bool
  it_stream :: bool
  it_log_metrics :: bool
  it_modality :: "string option"
  it_lora_path :: "string option"
  it_session_params :: "'s option"
  it_custom_logit_processor :: "string option"
  it_return_hidden_states :: bool

text \<open>\<open>x[i]\<close> where \<open>x\<close> must not be \<open>None\<close>, and \<open>x[i] if x is not None else None\<close>.\<close>

definition index_arg :: "'a batched option \<Rightarrow> int \<Rightarrow> 'a result" where
  "index_arg a i = (case a of None \<Rightarrow> Inl TypeError | Some b \<Rightarrow> batched_index b i)"

definition index_opt :: "'a batched option \<Rightarrow> int \<Rightarrow> 'a option result" where
  "index_opt a i = (case a of None \<Rightarrow> Inr None | Some b \<Rightarrow> bind_result (batched_index b i) (\<lambda>x. Inr (Some x)))"

definition index_image :: "'i image_arg option \<Rightarrow> int \<Rightarrow> 'i image_elem result" where
  "index_image a i = (case a of Some (Images xs) \<Rightarrow> py_get xs i | _ \<Rightarrow> Inl TypeError)"

definition req_getitem :: "('i, 's) generate_req_input \<Rightarrow> int \<Rightarrow> ('i, 's) generate_item result" where
  "req_getitem g i =
     bind_result (index_opt (gq_text g) i) (\<lambda>txt.
     bind_result (if gq_input_ids g = PNone then Inr PNone else pyval_index (gq_input_ids g) i) (\<lambda>ids.
     bind_result (index_image (gq_image_data g) i) (\<lambda>image.
     bind_result (index_arg (gq_audio_data g) i) (\<lambda>audio.
     bind_result (index_arg (gq_sampling_params g) i) (\<lambda>params.
     bind_result (index_arg (gq_rid g) i) (\<lambda>r.
     bind_result (index_arg (gq_return_logprob g) i) (\<lambda>logprob.
     bind_result (index_arg (gq_logprob_start_len g) i) (\<lambda>start_len.
     bind_result (index_arg (gq_top_logprobs_num g) i) (\<lambda>top_num.
     bind_result (pyval_index (gq_token_ids_logprob g) i) (\<lambda>tids.
     bind_result (case gq_modalities g of Some (m # ms) \<Rightarrow> py_get (m # ms) i | _ \<Rightarrow> Inr None) (\<lambda>modality.
     bind_result (index_opt (gq_lora_path g) i) (\<lambda>lora.
     bind_result (index_opt (gq_custom_logit_processor g) i) (\<lambda>processor.
       Inr \<lparr>it_text = txt, it_input_ids = ids, it_input_embeds = PNone, it_image_data = image, it_audio_data = audio,
            it_sampling_params = params, it_rid = r, it_return_logprob = logprob, it_logprob_start_len = start_len,
            it_top_logprobs_num = top_num, it_token_ids_logprob = tids,
            it_return_text_in_logprobs = gq_return_text_in_logprobs g, it_stream = gq_stream g,
            it_log_metrics = gq_log_metrics g, it_modality = modality, it_lora_path = Option.bind lora id,
            it_session_params = None, it_custom_logit_processor = Option.bind processor id,
            it_return_hidden_states = gq_return_hidden_states g\<rparr>)))))))))))))"

section \<open>Embedding requests\<close>

record 'i embedding_req_input =
  eq_text :: "string batched option"
  eq_input_ids :: pyval
  eq_image_data :: "'i image_arg option"
  eq_rid :: "string batched option"
  eq_sampling_params :: "sampling_dict batched option"
  eq_is_single :: bool
  eq_batch_size :: nat

definition embedding_batch_size :: "'i embedding_req_input \<Rightarrow> nat result" where
  "embedding_batch_size q =
     (let t = (case eq_text q of None \<Rightarrow> 0 | Some (One _) \<Rightarrow> 1 | Some (Many ts) \<Rightarrow> length ts)
      in if eq_input_ids q = PNone then Inr t
         else bind_result (pyval_index (eq_input_ids q) 0) (\<lambda>x.
                (case (x, eq_input_ids q) of (PList _, PList xs) \<Rightarrow> Inr (t + length xs) | _ \<Rightarrow> Inr (t + 1))))"

definition no_new_tokens :: "sampling_dict \<Rightarrow> sampling_dict" where
  "no_new_tokens p = p\<lparr>sd_max_new_tokens := Some 0\<rparr>"

text \<open>
  For a single request \<open>sampling_params\<close> must be a dictionary, for a batch a list that is long
  enough; only the first \<open>batch_size\<close> entries of the list are changed.
\<close>

definition embedding_normalize :: "(nat \<Rightarrow> string) \<Rightarrow> 'i embedding_req_input \<Rightarrow> 'i embedding_req_input result" where
  "embedding_normalize uuid q =
     (if eq_text q = None \<and> eq_input_ids q = PNone \<and> eq_image_data q = None then Inl ValueError
      else if eq_text q \<noteq> None \<and> eq_input_ids q \<noteq> PNone then Inl ValueError
      else bind_result (embedding_batch_size q) (\<lambda>b.
        let q1 = q\<lparr>eq_batch_size := b, eq_is_single := b \<le> 1\<rparr>
        in if b \<le> 1 then
             (case or_default empty_dict (eq_sampling_params q1) of
                Some (One p) \<Rightarrow> Inr (q1\<lparr>eq_rid := or_default (uuid 0) (eq_rid q1), eq_sampling_params := Some (One (no_new_tokens p))\<rparr>)
              | _ \<Rightarrow> Inl TypeError)
           else
             bind_result (case eq_rid q1 of
                            None \<Rightarrow> Inr (map uuid [0..<b])
                          | Some (Many rs) \<Rightarrow> Inr rs
                          | Some (One _) \<Rightarrow> Inl AssertionError) (\<lambda>rs.
             bind_result (case eq_sampling_params q1 of
                            None \<Rightarrow> Inr (replicate b (no_new_tokens empty_dict))
                          | Some (Many ps) \<Rightarrow>
                              if b \<le> length ps then Inr (map no_new_tokens (take b ps) @ drop b ps) else Inl IndexError
                          | Some (One _) \<Rightarrow> Inl KeyError) (\<lambda>ps.
               Inr (q1\<lparr>eq_rid := Some (Many rs), eq_sampling_params := Some (Many ps)\<rparr>)))))"

end
