(* ===== verification/Io_Struct_Props.thy ===== *)
theory Io_Struct_Props
  imports Io_Struct
begin

text \<open>
  After normalisation the \<open>i\<close>-th request of a batch has the arguments that the client gave for the
  \<open>i\<close>-th prompt, under every way of giving them and with parallel sampling. What is lost on the way
  are embeddings and session parameters; and an empty list of images shifts the modalities.
\<close>

section \<open>Repeated lists\<close>

lemma bind_result_Inr_iff: "bind_result r f = Inr y \<longleftrightarrow> (\<exists>x. r = Inr x \<and> f x = Inr y)"
  by (cases r) (auto simp: bind_result_def)

lemma length_py_repeat: "length (py_repeat xs n) = length xs * nat n"
  by (simp add: py_repeat_def length_concat sum_list_replicate)

lemma nth_concat_replicate: "i < length xs * k \<Longrightarrow> concat (replicate k xs) ! i = xs ! (i mod length xs)"
proof (induction k arbitrary: i)
  case (Suc k)
  show ?case
  proof (cases "i < length xs")
    case False
    then have "concat (replicate (Suc k) xs) ! i = concat (replicate k xs) ! (i - length xs)" by (simp add: nth_append)
    also have "\<dots> = xs ! ((i - length xs) mod length xs)" using False Suc by (intro Suc.IH) auto
    finally show ?thesis using False by (simp add: mod_if [of i])
  qed (simp add: nth_append)
qed simp

lemma nth_py_repeat: "i < length xs * nat n \<Longrightarrow> py_repeat xs n ! i = xs ! (i mod length xs)"
  by (simp add: py_repeat_def nth_concat_replicate)

lemma py_get_nat: "i < length xs \<Longrightarrow> py_get xs (int i) = Inr (xs ! i)"
  by (simp add: py_get_def)

section \<open>What the client asked for\<close>

text \<open>The argument of prompt \<open>j\<close>, however it was given.\<close>

definition picked :: "'a \<Rightarrow> 'a batched option \<Rightarrow> nat \<Rightarrow> 'a" where
  "picked default_value a j = (case a of None \<Rightarrow> default_value | Some (One x) \<Rightarrow> x | Some (Many xs) \<Rightarrow> xs ! j)"

definition sized :: "nat \<Rightarrow> 'a batched option \<Rightarrow> bool" where
  "sized b a \<longleftrightarrow> (case a of Some (Many xs) \<Rightarrow> length xs = b | _ \<Rightarrow> True)"

definition text_at :: "string batched option \<Rightarrow> nat \<Rightarrow> string option" where
  "text_at a j = (case a of None \<Rightarrow> None | Some (One t) \<Rightarrow> Some t | Some (Many ts) \<Rightarrow> Some (ts ! j))"

definition ids_at :: "pyval \<Rightarrow> nat \<Rightarrow> pyval" where
  "ids_at v j = (case v of PList (PInt i # xs) \<Rightarrow> v | PList xs \<Rightarrow> xs ! j | _ \<Rightarrow> v)"

definition image_at :: "'i image_arg option \<Rightarrow> nat \<Rightarrow> 'i image_elem" where
  "image_at a j =
     (case a of
        None \<Rightarrow> NoImage
      | Some (OneImage x) \<Rightarrow> ImageList [Image x]
      | Some (Images (ImageList ys # xs)) \<Rightarrow> (ImageList ys # xs) ! j
      | Some (Images xs) \<Rightarrow> ImageList [xs ! j])"

definition modality_at :: "'i image_arg option \<Rightarrow> nat \<Rightarrow> string option" where
  "modality_at a j =
     (case a of
        None \<Rightarrow> None
      | Some (Images (ImageList ys # xs)) \<Rightarrow> hd (projr (image_modality ((ImageList ys # xs) ! j)))
      | _ \<Rightarrow> Some ''image'')"

definition tids_at :: "pyval \<Rightarrow> nat \<Rightarrow> pyval" where
  "tids_at v j =
     (if \<not> truthy v then PNone
      else case v of PList (PList x # xs) \<Rightarrow> (PList x # xs) ! j | PList xs \<Rightarrow> v | _ \<Rightarrow> PList [v])"

definition request_at :: "(nat \<Rightarrow> string) \<Rightarrow> ('i, 's) generate_req_input \<Rightarrow> nat \<Rightarrow> nat \<Rightarrow> ('i, 's) generate_item" where
  "request_at uuid g b i =
     (let j = i mod b
      in \<lparr>it_text = text_at (gq_text g) j, it_input_ids = ids_at (gq_input_ids g) j, it_input_embeds = PNone,
          it_image_data = image_at (gq_image_data g) j, it_audio_data = picked None (gq_audio_data g) j,
          it_sampling_params = picked empty_dict (gq_sampling_params g) j,
          it_rid = (case gq_rid g of Some (Many rs) \<Rightarrow> rs ! i | _ \<Rightarrow> uuid i),
          it_return_logprob = picked False (gq_return_logprob g) j,
          it_logprob_start_len = picked (- 1) (gq_logprob_start_len g) j,
          it_top_logprobs_num = picked 0 (gq_top_logprobs_num g) j,
          it_token_ids_logprob = tids_at (gq_token_ids_logprob g) j,
          it_return_text_in_logprobs = gq_return_text_in_logprobs g, it_stream = gq_stream g,
          it_log_metrics = gq_log_metrics g, it_modality = modality_at (gq_image_data g) j,
          it_lora_path = picked None (gq_lora_path g) j, it_session_params = None,
          it_custom_logit_processor = picked None (gq_custom_logit_processor g) j,
          it_return_hidden_states = gq_return_hidden_states g\<rparr>)"

text \<open>
  The client gives text or token ids, not both, as many entries in every list as there are prompts,
  no empty list of images, and leaves the modalities to the server.
\<close>

definition well_sized :: "nat \<Rightarrow> ('i, 's) generate_req_input \<Rightarrow> bool" where
  "well_sized b g \<longleftrightarrow>
     (gq_text g = None) \<noteq> (gq_input_ids g = PNone) \<and>
     sized b (gq_audio_data g) \<and> sized b (gq_sampling_params g) \<and> sized b (gq_rid g) \<and> sized b (gq_return_logprob g) \<and>
     sized b (gq_logprob_start_len g) \<and> sized b (gq_top_logprobs_num g) \<and> sized b (gq_lora_path g) \<and>
     sized b (gq_custom_logit_processor g) \<and>
     (case gq_token_ids_logprob g of PList (PList x # xs) \<Rightarrow> Suc (length xs) = b | _ \<Rightarrow> True) \<and>
     (case gq_image_data g of Some (Images xs) \<Rightarrow> ImageList [] \<notin> set xs | _ \<Rightarrow> True) \<and> gq_modalities g = None"

section \<open>The parts of a normalised batch\<close>

lemma spread_nth:
  assumes "sized b (Some a)" and "i < b * nat n"
  shows "i < length (spread (b * nat n) n a)" and "spread (b * nat n) n a ! i = picked d (Some a) (i mod b)"
  using assms by (auto simp: spread_def sized_def picked_def length_py_repeat nth_py_repeat split: batched.splits)

lemma normalize_param_nth:
  assumes "normalize_param (b * nat n) n d a = Inr xs" and "sized b a" and "i < b * nat n" and "1 \<le> n"
  shows "i < length xs" and "xs ! i = picked d a (i mod b)"
proof -
  have "i < length xs \<and> xs ! i = picked d a (i mod b)"
  proof (cases a)
    case (Some v)
    show ?thesis
    proof (cases v)
      case (Many ys)
      then have "n = 1" "xs = ys" using assms(1,4) Some by (auto simp: normalize_param_def split: if_splits)
      then show ?thesis using Many Some assms(2,3) by (simp add: picked_def sized_def)
    qed (use Some assms in \<open>auto simp: normalize_param_def picked_def\<close>)
  qed (use assms in \<open>auto simp: normalize_param_def picked_def\<close>)
  then show "i < length xs" "xs ! i = picked d a (i mod b)" by simp_all
qed

lemma tids_nth:
  assumes "normalize_token_ids_logprob (b * nat n) n v = Inr t" and "i < b * nat n" and "1 \<le> n"
    and "case v of PList (PList x # xs) \<Rightarrow> Suc (length xs) = b | _ \<Rightarrow> True"
  shows "pyval_index t (int i) = Inr (tids_at v (i mod b))"
proof (cases "\<exists>x xs. v = PList (PList x # xs)")
  case True
  then obtain x xs where v: "v = PList (PList x # xs)" by blast
  then have "n = 1" "t = v" using assms(1,3) by (auto simp: normalize_token_ids_logprob_def truthy_def split: if_splits)
  then show ?thesis using assms(2,4) v by (simp add: pyval_index_def py_get_nat tids_at_def truthy_def)
next
  case False
  then have "t = PList (replicate (b * nat n) (tids_at v (i mod b)))"
    using assms(1) by (cases v) (auto simp: normalize_token_ids_logprob_def tids_at_def truthy_def split: list.splits pyval.splits if_splits)
  then show ?thesis using assms(2) by (simp add: pyval_index_def py_get_nat)
qed

lemma image_modality_one:
  assumes "image_modality x = Inr m" and "x \<noteq> ImageList []"
  shows "m = [hd m]"
  using assms by (cases x rule: image_modality.cases) auto

lemma image_modalities_nth:
  assumes "image_modalities xs = Inr ms" and "ImageList [] \<notin> set xs"
  shows "length ms = length xs" and "j < length xs \<Longrightarrow> ms ! j = hd (projr (image_modality (xs ! j)))"
proof -
  have "length ms = length xs \<and> (\<forall>j < length xs. ms ! j = hd (projr (image_modality (xs ! j))))"
    using assms
  proof (induction xs arbitrary: ms)
    case (Cons x xs)
    then obtain m ms' where m: "image_modality x = Inr m" "image_modalities xs = Inr ms'" "ms = m @ ms'"
      by (auto simp: bind_result_Inr_iff)
    then have "m = [hd m]" using Cons.prems(2) image_modality_one by fastforce
    moreover have "length ms' = length xs \<and> (\<forall>j < length xs. ms' ! j = hd (projr (image_modality (xs ! j))))"
      using m(2) Cons by simp
    moreover have "ms = hd m # ms'" using m(3) \<open>m = [hd m]\<close> by simp
    ultimately show ?case using m(1) by (simp add: nth_Cons split: nat.splits)
  qed simp
  then show "length ms = length xs" "j < length xs \<Longrightarrow> ms ! j = hd (projr (image_modality (xs ! j)))" by simp_all
qed

definition modality_index :: "string option list option \<Rightarrow> int \<Rightarrow> string option result" where
  "modality_index a i = (case a of Some (m # ms) \<Rightarrow> py_get (m # ms) i | _ \<Rightarrow> Inr None)"

lemma modality_index_nat: "i < length ms \<Longrightarrow> modality_index (Some ms) (int i) = Inr (ms ! i)"
  by (cases ms) (auto simp: modality_index_def py_get_nat)

lemma normalize_image_frame:
  assumes "normalize_image_data num g = Inr g1"
  shows "g1 = g\<lparr>gq_image_data := gq_image_data g1, gq_modalities := gq_modalities g1\<rparr>"
  using assms by (auto simp: normalize_image_data_def Let_def bind_result_Inr_iff split: option.splits image_arg.splits list.splits image_elem.splits if_splits)

lemma images_nth:
  assumes "normalize_image_data (b * nat n) g = Inr g1" and "gq_parallel_sample_num g = n" and "gq_batch_size g = b"
    and "gq_modalities g = None" and "case gq_image_data g of Some (Images xs) \<Rightarrow> ImageList [] \<notin> set xs | _ \<Rightarrow> True"
    and "i < b * nat n"
  shows "index_image (gq_image_data g1) (int i) = Inr (image_at (gq_image_data g) (i mod b)) \<and>
    modality_index (gq_modalities g1) (int i) = Inr (modality_at (gq_image_data g) (i mod b))"
proof -
  have im: "i mod b < b" using assms(6) by (cases b) simp_all
  consider (none) "gq_image_data g = None" | (one) x where "gq_image_data g = Some (OneImage x)"
    | (lists) ys xs where "gq_image_data g = Some (Images (ImageList ys # xs))"
    | (plain) xs where "gq_image_data g = Some (Images xs)" "\<nexists>ys zs. xs = ImageList ys # zs"
    by (metis image_arg.exhaust option.exhaust)
  then show ?thesis
  proof cases
    case none
    then have "g1 = g\<lparr>gq_image_data := Some (Images (replicate (b * nat n) NoImage))\<rparr>" using assms(1) by (simp add: normalize_image_data_def)
    then show ?thesis using none assms(4,6)
      by (simp add: index_image_def py_get_nat image_at_def modality_index_def modality_at_def)
  next
    case one
    then show ?thesis using assms(1,6)
      by (auto simp: normalize_image_data_def index_image_def py_get_nat image_at_def modality_index_nat modality_at_def)
  next
    case (lists ys xs)
    let ?xs = "ImageList ys # xs"
    obtain ms where ms: "image_modalities ?xs = Inr ms" "length ?xs = b"
      and g1: "g1 = g\<lparr>gq_image_data := Some (Images (py_repeat ?xs n)), gq_modalities := Some (py_repeat ms n)\<rparr>"
      using assms(1,2,3) lists by (auto simp: normalize_image_data_def Let_def bind_result_Inr_iff simp del: image_modalities.simps split: if_splits)
    have l: "length ms = b" "ms ! (i mod b) = hd (projr (image_modality (?xs ! (i mod b))))"
      using image_modalities_nth [OF ms(1)] assms(5) lists ms(2) im by auto
    then show ?thesis using g1 lists ms(2) assms(6)
      by (auto simp: index_image_def py_get_nat length_py_repeat nth_py_repeat image_at_def modality_index_nat modality_at_def)
  next
    case (plain xs)
    then have "length xs = b" and g1: "g1 = g\<lparr>gq_image_data := Some (Images (py_repeat (map (\<lambda>x. ImageList [x]) xs) n)),
        gq_modalities := Some (replicate (b * nat n) (Some ''image''))\<rparr>"
      using assms(1,2,3) by (auto simp: normalize_image_data_def Let_def split: if_splits list.splits image_elem.splits)
    moreover have "image_at (Some (Images xs)) j = ImageList [xs ! j]" "modality_at (Some (Images xs)) j = Some ''image''" for j
      using plain(2) by (auto simp: image_at_def modality_at_def split: list.splits image_elem.splits)
    ultimately show ?thesis using plain(1) assms(6) im
      by (auto simp: index_image_def py_get_nat length_py_repeat nth_py_repeat modality_index_nat)
  qed
qed

section \<open>The whole normalisation\<close>

text \<open>What the first three steps leave: a batch of \<open>b\<close> prompts, \<open>n\<close> samples of each.\<close>

definition shaped :: "('i, 's) generate_req_input \<Rightarrow> ('i, 's) generate_req_input \<Rightarrow> bool" where
  "shaped g h \<longleftrightarrow>
     h = g\<lparr>gq_text := gq_text h, gq_input_ids := gq_input_ids h, gq_input_embeds := gq_input_embeds h, gq_is_single := False,
        gq_batch_size := gq_batch_size h, gq_parallel_sample_num := gq_parallel_sample_num h\<rparr> \<and>
     (case gq_text h of
        Some (Many ts) \<Rightarrow> gq_input_ids h = PNone \<and> length ts = gq_batch_size h \<and> (\<forall>j < length ts. text_at (gq_text g) j = Some (ts ! j)) \<and> ids_at (gq_input_ids g) = (\<lambda>_. PNone)
      | Some (One _) \<Rightarrow> False
      | None \<Rightarrow>
          (\<exists>x xs. gq_input_ids h = PList (x # xs) \<and> length (x # xs) = gq_batch_size h \<and> (\<forall>j < length (x # xs). ids_at (gq_input_ids g) j = (x # xs) ! j) \<and> text_at (gq_text g) = (\<lambda>_. None)))"

lemma shape_spec:
  fixes g h :: "('i, 's) generate_req_input"
  assumes "determine_batch_size g = Inr g1" and "handle_parallel_sampling g1 = Inr h" and "\<not> gq_is_single h"
    and one: "(gq_text g = None) \<noteq> (gq_input_ids g = PNone)"
  shows "shaped g h"
proof -
  let ?single = "\<lambda>k. k\<lparr>gq_is_single := False, gq_text := (case gq_text k of Some (One t) \<Rightarrow> Some (Many [t]) | t \<Rightarrow> t),
      gq_input_ids := (if gq_input_ids k = PNone then PNone else PList [gq_input_ids k])\<rparr>"
  obtain n where m: "(let k = g1\<lparr>gq_parallel_sample_num := n\<rparr> in if n > 1 \<and> gq_is_single k then Inr (?single k) else Inr k) = (Inr h :: ('i, 's) generate_req_input result)"
    using assms(2) unfolding handle_parallel_sampling_def bind_result_Inr_iff by blast
  have n: "h = (if n > 1 \<and> gq_is_single g1 then ?single (g1\<lparr>gq_parallel_sample_num := n\<rparr>) else g1\<lparr>gq_parallel_sample_num := n\<rparr>)"
  proof (cases "n > 1 \<and> gq_is_single g1")
    case True
    then show ?thesis using m by (auto simp: Let_def)
  next
    case False
    then show ?thesis using m by (auto simp: Let_def split: if_splits)
  qed
  show ?thesis
  proof (cases "gq_text g")
    case (Some a)
    with one have ids: "gq_input_ids g = PNone" by simp
    show ?thesis
    proof (cases a)
      case (One t)
      then have "g1 = g\<lparr>gq_is_single := True, gq_batch_size := 1, gq_input_embeds := PNone\<rparr>" using assms(1) Some by (simp add: determine_batch_size_def)
      then show ?thesis using n assms(3) Some One ids by (auto simp: shaped_def text_at_def ids_at_def split: if_splits)
    next
      case (Many ts)
      then have "g1 = g\<lparr>gq_is_single := False, gq_batch_size := length ts, gq_input_embeds := PNone\<rparr>" using assms(1) Some by (simp add: determine_batch_size_def)
      then show ?thesis using n Some Many ids by (auto simp: shaped_def text_at_def ids_at_def)
    qed
  next
    case None
    with one obtain x xs where ids: "gq_input_ids g = PList (x # xs)"
      using assms(1) by (auto simp: determine_batch_size_def split: pyval.splits list.splits)
    show ?thesis
    proof (cases "\<exists>i. x = PInt i")
      case True
      then have "g1 = g\<lparr>gq_is_single := True, gq_batch_size := 1, gq_input_embeds := PNone\<rparr>" using assms(1) None ids by (auto simp: determine_batch_size_def)
      then show ?thesis using n assms(3) None True ids by (auto simp: shaped_def text_at_def ids_at_def split: if_splits)
    next
      case False
      then have "g1 = g\<lparr>gq_is_single := False, gq_batch_size := length (x # xs), gq_input_embeds := PNone\<rparr>"
        using assms(1) None ids by (auto simp: determine_batch_size_def split: pyval.splits)
      moreover have "ids_at (PList (x # xs)) = (\<lambda>j. (x # xs) ! j)" using False by (auto simp: ids_at_def split: pyval.splits)
      ultimately show ?thesis using n None ids by (auto simp: shaped_def text_at_def)
    qed
  qed
qed

lemma inputs_nth:
  assumes s: "shaped g h" and e: "expand_inputs h = Inr k" and i: "i < gq_batch_size h * nat (gq_parallel_sample_num h)"
  shows "index_opt (gq_text k) (int i) = Inr (text_at (gq_text g) (i mod gq_batch_size h)) \<and>
    (if gq_input_ids k = PNone then Inr PNone else pyval_index (gq_input_ids k) (int i)) = Inr (ids_at (gq_input_ids g) (i mod gq_batch_size h)) \<and>
    k = h\<lparr>gq_text := gq_text k, gq_input_ids := gq_input_ids k, gq_input_embeds := gq_input_embeds k\<rparr>"
proof (cases "gq_text h")
  case None
  then obtain x xs where x: "gq_input_ids h = PList (x # xs)" "length (x # xs) = gq_batch_size h"
      "\<forall>j < length (x # xs). ids_at (gq_input_ids g) j = (x # xs) ! j" "text_at (gq_text g) = (\<lambda>_. None)"
    using s by (auto simp: shaped_def)
  then have k: "k = h\<lparr>gq_input_ids := PList (py_repeat (x # xs) (gq_parallel_sample_num h))\<rparr>"
    using e None by (cases x) (auto simp: expand_inputs_def)
  then have "k = h\<lparr>gq_text := gq_text k, gq_input_ids := gq_input_ids k, gq_input_embeds := gq_input_embeds k\<rparr>" by simp
  moreover have "i mod gq_batch_size h < length (x # xs)" using x(2) by (metis length_greater_0_conv list.simps(3) mod_less_divisor)
  ultimately show ?thesis using k None x i
    by (simp add: index_opt_def pyval_index_def py_get_nat length_py_repeat nth_py_repeat del: length_Cons)
next
  case (Some a)
  then obtain ts where t: "gq_text h = Some (Many ts)" "gq_input_ids h = PNone" "length ts = gq_batch_size h"
      "\<forall>j < length ts. text_at (gq_text g) j = Some (ts ! j)" "ids_at (gq_input_ids g) = (\<lambda>_. PNone)"
    using s by (cases a) (auto simp: shaped_def)
  then have k: "k = h\<lparr>gq_text := Some (Many (py_repeat ts (gq_parallel_sample_num h)))\<rparr>" using e by (simp add: expand_inputs_def)
  then have "k = h\<lparr>gq_text := gq_text k, gq_input_ids := gq_input_ids k, gq_input_embeds := gq_input_embeds k\<rparr>" by simp
  moreover have "i mod gq_batch_size h < length ts" using t(3) i by (cases "gq_batch_size h") auto
  ultimately show ?thesis using k t i
    by (simp add: index_opt_def batched_index_def bind_result_def py_get_nat length_py_repeat nth_py_repeat)
qed

lemma index_list: "i < length xs \<Longrightarrow> index_arg (Some (Many xs)) (int i) = Inr (xs ! i)"
  "i < length xs \<Longrightarrow> index_opt (Some (Many xs)) (int i) = Inr (Some (xs ! i))"
  by (simp_all add: index_arg_def index_opt_def batched_index_def bind_result_def py_get_nat)

text \<open>The steps behind the expansion of the inputs.\<close>

lemma batch_arguments:
  assumes e: "expand_inputs h = Inr k" and nb: "normalize_batch_inputs uuid h = Inr g'"
    and k: "k = h\<lparr>gq_text := gq_text k, gq_input_ids := gq_input_ids k, gq_input_embeds := gq_input_embeds k\<rparr>"
    and h: "h = g\<lparr>gq_text := gq_text h, gq_input_ids := gq_input_ids h, gq_input_embeds := gq_input_embeds h,
      gq_is_single := False, gq_batch_size := b, gq_parallel_sample_num := n\<rparr>"
    and n: "1 \<le> n"
  obtains k1 g2 rs A B C T P where "k1 = normalize_lora_paths (b * nat n) k" "normalize_image_data (b * nat n) k1 = Inr g2"
    "case gq_rid g of None \<Rightarrow> rs = map uuid [0..<b * nat n] | Some (Many xs) \<Rightarrow> rs = xs | _ \<Rightarrow> False"
    "normalize_param (b * nat n) n False (gq_return_logprob g) = Inr A" "normalize_param (b * nat n) n (- 1) (gq_logprob_start_len g) = Inr B"
    "normalize_param (b * nat n) n 0 (gq_top_logprobs_num g) = Inr C"
    "normalize_token_ids_logprob (b * nat n) n (gq_token_ids_logprob g) = Inr T"
    "normalize_param (b * nat n) n None (gq_custom_logit_processor g) = Inr P"
    "g' = g2\<lparr>gq_audio_data := Some (Many (spread (b * nat n) n (case gq_audio_data g of None \<Rightarrow> One None | Some a \<Rightarrow> a))),
       gq_sampling_params := Some (Many (spread (b * nat n) n (case gq_sampling_params g of None \<Rightarrow> One empty_dict | Some a \<Rightarrow> a))),
       gq_rid := Some (Many rs), gq_return_logprob := Some (Many A), gq_logprob_start_len := Some (Many B),
       gq_top_logprobs_num := Some (Many C), gq_token_ids_logprob := T, gq_custom_logit_processor := Some (Many P)\<rparr>"
proof -
  let ?num = "b * nat n"
  have hf: "gq_batch_size h = b" "gq_parallel_sample_num h = n" by (subst h, simp)+
  have num: "nat (int b * n) = ?num" using n by (simp add: nat_mult_distrib)
  let ?k = "normalize_lora_paths ?num k"
  from nb obtain g2 g3 g4 where g2: "normalize_image_data ?num ?k = Inr g2"
    and g3: "normalize_rid uuid ?num (normalize_sampling_params ?num (normalize_audio_data ?num g2)) = Inr g3"
    and g4: "normalize_logprob_params ?num g3 = Inr g4" and g': "normalize_custom_logit_processor ?num g4 = Inr g'"
    unfolding normalize_batch_inputs_def Let_def hf num e bind_result_Inr_iff by blast
  have kf: "gq_audio_data ?k = gq_audio_data g" "gq_sampling_params ?k = gq_sampling_params g" "gq_rid ?k = gq_rid g"
    "gq_return_logprob ?k = gq_return_logprob g" "gq_logprob_start_len ?k = gq_logprob_start_len g"
    "gq_top_logprobs_num ?k = gq_top_logprobs_num g" "gq_token_ids_logprob ?k = gq_token_ids_logprob g"
    "gq_custom_logit_processor ?k = gq_custom_logit_processor g" "gq_parallel_sample_num ?k = n"
    by (subst k, subst h, simp add: normalize_lora_paths_def)+
  have "\<exists>x y. g2 = ?k\<lparr>gq_image_data := x, gq_modalities := y\<rparr>"
    using normalize_image_frame [OF g2] by blast
  then obtain x y where f2: "g2 = ?k\<lparr>gq_image_data := x, gq_modalities := y\<rparr>" by blast
  obtain rs where rs: "case gq_rid g of None \<Rightarrow> rs = map uuid [0..<?num] | Some (Many xs) \<Rightarrow> rs = xs | _ \<Rightarrow> False"
    and f3: "g3 = (normalize_sampling_params ?num (normalize_audio_data ?num g2))\<lparr>gq_rid := Some (Many rs)\<rparr>"
    using g3 kf by (auto simp: f2 normalize_rid_def normalize_sampling_params_def normalize_audio_data_def split: option.splits batched.splits)
  obtain A B C T where abc: "normalize_param ?num n False (gq_return_logprob g) = Inr A" "normalize_param ?num n (- 1) (gq_logprob_start_len g) = Inr B"
    "normalize_param ?num n 0 (gq_top_logprobs_num g) = Inr C" "normalize_token_ids_logprob ?num n (gq_token_ids_logprob g) = Inr T"
    and f4: "g4 = g3\<lparr>gq_return_logprob := Some (Many A), gq_logprob_start_len := Some (Many B), gq_top_logprobs_num := Some (Many C), gq_token_ids_logprob := T\<rparr>"
    using g4 kf by (auto simp: f2 f3 normalize_logprob_params_def normalize_sampling_params_def normalize_audio_data_def Let_def bind_result_Inr_iff)
  obtain P where P: "normalize_param ?num n None (gq_custom_logit_processor g) = Inr P" and f5: "g' = g4\<lparr>gq_custom_logit_processor := Some (Many P)\<rparr>"
    using g' kf by (auto simp: f2 f3 f4 normalize_custom_logit_processor_def normalize_sampling_params_def normalize_audio_data_def bind_result_Inr_iff)
  show ?thesis
    by (rule that [OF refl g2 rs abc P]) (use kf in \<open>simp add: f2 f3 f4 f5 normalize_sampling_params_def normalize_audio_data_def\<close>)
qed

lemma picked_default: "picked d (Some (case a of None \<Rightarrow> One d | Some x \<Rightarrow> x)) j = picked d a j"
  by (simp add: picked_def split: option.split)

lemma sized_default: "sized b a \<Longrightarrow> sized b (Some (case a of None \<Rightarrow> One d | Some x \<Rightarrow> x))"
  by (cases a) (simp_all add: sized_def)

lemma batch_sizes:
  assumes "normalize_batch_inputs uuid h = Inr g'"
  shows "gq_batch_size g' = gq_batch_size h" "gq_parallel_sample_num g' = gq_parallel_sample_num h"
proof -
  let ?same = "\<lambda>x y. gq_batch_size x = gq_batch_size y \<and> gq_parallel_sample_num x = gq_parallel_sample_num y"
  let ?num = "nat (int (gq_batch_size h) * gq_parallel_sample_num h)"
  from assms obtain k g2 g3 g4 where s: "expand_inputs h = Inr k" "normalize_image_data ?num (normalize_lora_paths ?num k) = Inr g2"
    "normalize_rid uuid ?num (normalize_sampling_params ?num (normalize_audio_data ?num g2)) = Inr g3"
    "normalize_logprob_params ?num g3 = Inr g4" "normalize_custom_logit_processor ?num g4 = Inr g'"
    unfolding normalize_batch_inputs_def Let_def bind_result_Inr_iff by blast
  have "?same k h" using s(1) by (auto simp: expand_inputs_def Let_def split: option.splits batched.splits pyval.splits list.splits)
  moreover have "?same g2 k"
    using arg_cong [OF normalize_image_frame [OF s(2)], of gq_batch_size] arg_cong [OF normalize_image_frame [OF s(2)], of gq_parallel_sample_num]
    by (simp add: normalize_lora_paths_def)
  moreover have "?same g3 g2"
    using s(3) by (auto simp: normalize_rid_def normalize_sampling_params_def normalize_audio_data_def split: option.splits batched.splits)
  moreover have "?same g4 g3" using s(4) by (auto simp: normalize_logprob_params_def Let_def bind_result_Inr_iff)
  moreover have "?same g' g4" using s(5) by (auto simp: normalize_custom_logit_processor_def bind_result_Inr_iff)
  ultimately show "gq_batch_size g' = gq_batch_size h" "gq_parallel_sample_num g' = gq_parallel_sample_num h" by simp_all
qed

text \<open>Every entry that \<open>__getitem__\<close> reads, except the inputs.\<close>

definition delivers ::
  "(nat \<Rightarrow> string) \<Rightarrow> ('i, 's) generate_req_input \<Rightarrow> nat \<Rightarrow> nat \<Rightarrow> ('i, 's) generate_req_input \<Rightarrow> bool" where
  "delivers uuid g b i g' \<longleftrightarrow>
     index_image (gq_image_data g') (int i) = Inr (image_at (gq_image_data g) (i mod b)) \<and>
     modality_index (gq_modalities g') (int i) = Inr (modality_at (gq_image_data g) (i mod b)) \<and>
     index_arg (gq_audio_data g') (int i) = Inr (picked None (gq_audio_data g) (i mod b)) \<and>
     index_arg (gq_sampling_params g') (int i) = Inr (picked empty_dict (gq_sampling_params g) (i mod b)) \<and>
     index_arg (gq_rid g') (int i) = Inr (case gq_rid g of Some (Many rs) \<Rightarrow> rs ! i | _ \<Rightarrow> uuid i) \<and>
     index_arg (gq_return_logprob g') (int i) = Inr (picked False (gq_return_logprob g) (i mod b)) \<and>
     index_arg (gq_logprob_start_len g') (int i) = Inr (picked (- 1) (gq_logprob_start_len g) (i mod b)) \<and>
     index_arg (gq_top_logprobs_num g') (int i) = Inr (picked 0 (gq_top_logprobs_num g) (i mod b)) \<and>
     pyval_index (gq_token_ids_logprob g') (int i) = Inr (tids_at (gq_token_ids_logprob g) (i mod b)) \<and>
     (\<exists>l. index_opt (gq_lora_path g') (int i) = Inr l \<and> Option.bind l id = picked None (gq_lora_path g) (i mod b)) \<and>
     index_opt (gq_custom_logit_processor g') (int i) = Inr (Some (picked None (gq_custom_logit_processor g) (i mod b))) \<and>
     gq_return_text_in_logprobs g' = gq_return_text_in_logprobs g \<and> gq_stream g' = gq_stream g \<and>
     gq_log_metrics g' = gq_log_metrics g \<and> gq_return_hidden_states g' = gq_return_hidden_states g"

lemma lora_nth:
  assumes "sized b a" and "i < b * nat n"
  shows "\<exists>l. index_opt (map_option (\<lambda>a. Many (spread (b * nat n) n a)) a) (int i) = Inr l \<and> Option.bind l id = picked None a (i mod b)"
proof (cases a)
  case None
  then show ?thesis by (simp add: index_opt_def picked_def)
next
  case (Some x)
  then show ?thesis using spread_nth(1) [of b x i n] spread_nth(2) [of b x i n None] assms by (simp add: index_list)
qed

lemma rids_nth:
  assumes "case r of None \<Rightarrow> rs = map uuid [0..<b * nat n] | Some (Many xs) \<Rightarrow> rs = xs | _ \<Rightarrow> False"
    and "sized b r" and "i < b * nat n" and "r = None \<or> i < b"
  shows "index_arg (Some (Many rs)) (int i) = Inr (case r of Some (Many rs) \<Rightarrow> rs ! i | _ \<Rightarrow> uuid i)"
  using assms by (cases r; cases "the r") (auto simp: index_list sized_def)

lemma arguments_delivered:
  assumes e: "expand_inputs h = Inr k" and nb: "normalize_batch_inputs uuid h = Inr g'"
    and k: "k = h\<lparr>gq_text := gq_text k, gq_input_ids := gq_input_ids k, gq_input_embeds := gq_input_embeds k\<rparr>"
    and h: "h = g\<lparr>gq_text := gq_text h, gq_input_ids := gq_input_ids h, gq_input_embeds := gq_input_embeds h,
      gq_is_single := False, gq_batch_size := b, gq_parallel_sample_num := n\<rparr>"
    and n: "1 \<le> n" and ws: "well_sized b g" and i: "i < b * nat n" "gq_rid g = None \<or> i < b"
  shows "delivers uuid g b i g' \<and> gq_text g' = gq_text k \<and> gq_input_ids g' = gq_input_ids k"
proof -
  obtain k1 g2 rs A B C T P where k1: "k1 = normalize_lora_paths (b * nat n) k" and g2: "normalize_image_data (b * nat n) k1 = Inr g2"
    and rs: "case gq_rid g of None \<Rightarrow> rs = map uuid [0..<b * nat n] | Some (Many xs) \<Rightarrow> rs = xs | _ \<Rightarrow> False"
    and par: "normalize_param (b * nat n) n False (gq_return_logprob g) = Inr A" "normalize_param (b * nat n) n (- 1) (gq_logprob_start_len g) = Inr B"
      "normalize_param (b * nat n) n 0 (gq_top_logprobs_num g) = Inr C"
    and T: "normalize_token_ids_logprob (b * nat n) n (gq_token_ids_logprob g) = Inr T"
    and P: "normalize_param (b * nat n) n None (gq_custom_logit_processor g) = Inr P"
    and out: "g' = g2\<lparr>gq_audio_data := Some (Many (spread (b * nat n) n (case gq_audio_data g of None \<Rightarrow> One None | Some a \<Rightarrow> a))),
       gq_sampling_params := Some (Many (spread (b * nat n) n (case gq_sampling_params g of None \<Rightarrow> One empty_dict | Some a \<Rightarrow> a))),
       gq_rid := Some (Many rs), gq_return_logprob := Some (Many A), gq_logprob_start_len := Some (Many B),
       gq_top_logprobs_num := Some (Many C), gq_token_ids_logprob := T, gq_custom_logit_processor := Some (Many P)\<rparr>"
    by (rule batch_arguments [OF e nb k h n])
  have kf: "gq_lora_path k = gq_lora_path g" "gq_parallel_sample_num k = n" "gq_return_text_in_logprobs k = gq_return_text_in_logprobs g"
    "gq_stream k = gq_stream g" "gq_log_metrics k = gq_log_metrics g" "gq_return_hidden_states k = gq_return_hidden_states g"
    "gq_image_data k = gq_image_data g" "gq_modalities k = gq_modalities g" "gq_batch_size k = b"
    by (subst k, subst h, simp)+
  then have k1f: "gq_image_data k1 = gq_image_data g" "gq_modalities k1 = gq_modalities g"
    "gq_batch_size k1 = b" "gq_parallel_sample_num k1 = n" by (simp_all add: k1 normalize_lora_paths_def)
  obtain x y where f2: "g2 = k1\<lparr>gq_image_data := x, gq_modalities := y\<rparr>" using normalize_image_frame [OF g2] by blast
  have sz: "sized b (gq_return_logprob g)" "sized b (gq_logprob_start_len g)" "sized b (gq_top_logprobs_num g)"
    "sized b (gq_custom_logit_processor g)" "sized b (gq_lora_path g)" "sized b (gq_rid g)" "sized b (gq_audio_data g)" "sized b (gq_sampling_params g)"
    and tn: "case gq_token_ids_logprob g of PList (PList x # xs) \<Rightarrow> Suc (length xs) = b | _ \<Rightarrow> True"
    and im: "case gq_image_data g of Some (Images xs) \<Rightarrow> ImageList [] \<notin> set xs | _ \<Rightarrow> True" "gq_modalities g = None"
    using ws by (simp_all add: well_sized_def)
  note image = images_nth [OF g2 k1f(4,3), unfolded k1f(1,2), OF im(2,1) i(1)]
  note pn = normalize_param_nth [OF par(1) sz(1) i(1) n] normalize_param_nth [OF par(2) sz(2) i(1) n]
    normalize_param_nth [OF par(3) sz(3) i(1) n] normalize_param_nth [OF P sz(4) i(1) n]
  note sn = spread_nth(1) [OF sized_default [OF sz(7)] i(1), of None] spread_nth(1) [OF sized_default [OF sz(8)] i(1), of empty_dict]
    spread_nth(2) [OF sized_default [OF sz(7)] i(1), of None None, unfolded picked_default]
    spread_nth(2) [OF sized_default [OF sz(8)] i(1), of empty_dict empty_dict, unfolded picked_default]
  show ?thesis
    using image lora_nth [OF sz(5) i(1)] rids_nth [OF rs sz(6) i] tids_nth [OF T i(1) n tn] pn sn kf
    unfolding delivers_def out f2 k1 by (simp add: index_list normalize_lora_paths_def)
qed

text \<open>A request for the witness: two prompts, three samples of each, images for both.\<close>

definition demo_gen :: "(nat, unit) generate_req_input" where
  "demo_gen =
     \<lparr>gq_text = Some (Many [''p'', ''q'']), gq_input_ids = PNone, gq_input_embeds = PNone,
      gq_image_data = Some (Images [ImageList [Image 1], ImageList [Image 2, Image 3]]), gq_audio_data = None,
      gq_sampling_params = Some (One (empty_dict\<lparr>sd_n := Some 3\<rparr>)), gq_rid = None, gq_return_logprob = Some (One True),
      gq_logprob_start_len = None, gq_top_logprobs_num = None, gq_token_ids_logprob = PList [PInt 7],
      gq_return_text_in_logprobs = False, gq_stream = True, gq_log_metrics = True, gq_modalities = None,
      gq_lora_path = Some (Many [None, Some ''l'']), gq_session_params = None, gq_custom_logit_processor = None,
      gq_return_hidden_states = False, gq_is_single = False, gq_batch_size = 0, gq_parallel_sample_num = 0\<rparr>"

lemmas normalize_defs = normalize_batch_and_arguments_def validate_inputs_def determine_batch_size_def handle_parallel_sampling_def
  normalize_batch_inputs_def expand_inputs_def normalize_lora_paths_def normalize_image_data_def normalize_audio_data_def
  normalize_sampling_params_def normalize_rid_def normalize_logprob_params_def normalize_param_def normalize_token_ids_logprob_def
  normalize_custom_logit_processor_def validate_session_params_def dict_n_def empty_dict_def truthy_def py_repeat_def spread_def
  bind_result_def Let_def

lemma demo_gen_normal:
  "\<exists>g'. normalize_batch_and_arguments (\<lambda>k. replicate k (CHR ''r'')) demo_gen = Inr g' \<and> \<not> gq_is_single g' \<and>
    gq_batch_size g' = 2 \<and> gq_parallel_sample_num g' = 3"
  by (simp add: demo_gen_def normalize_defs numeral_2_eq_2 numeral_3_eq_3)



section \<open>What gets lost\<close>

text \<open>
  The requests of a batch that was given as embeddings have no input at all, and those of a batch
  with session parameters no session.
\<close>

lemma embeddings_lost:
  assumes "gq_text g' = None" and "gq_input_ids g' = PNone" and "req_getitem g' i = Inr it"
  shows "it_text it = None \<and> it_input_ids it = PNone \<and> it_input_embeds it = PNone \<and> it_session_params it = None"
  using assms by (auto simp: req_getitem_def bind_result_Inr_iff index_opt_def)

text \<open>An empty list of images gets no modality, so that the next request's modality moves up.\<close>

lemma empty_image_list_shifts:
  "image_modalities [ImageList [], ImageList [Image x]] = Inr [Some ''image'']"
  by (simp add: bind_result_def)

text \<open>A batch of one text is taken for a single embedding request, although its text is still a list.\<close>

lemma embedding_batch_of_one:
  assumes "eq_text q = Some (Many [t])" and "eq_input_ids q = PNone" and "eq_sampling_params q = None"
  shows "\<exists>q'. embedding_normalize uuid q = Inr q' \<and> eq_is_single q' \<and> eq_text q' = Some (Many [t])"
  using assms by (simp add: embedding_normalize_def embedding_batch_size_def or_default_def bind_result_def)

end
