(* ===== verification/Spec2Isabelle.thy ===== *)
theory Spec2Isabelle
  imports Paged_Props Intake_Faults Scheduler_Result EPLB_Props RWLock Reasoning Streaming_Props Io_Struct_Props
begin

text \<open>
  A verification of the core of SGLang's serving runtime. File names below are relative to
  \<open>src/python/sglang/srt\<close>.

  \<^bold>\<open>The program.\<close> A scheduler process serves generation requests on one model. A request enters by
  \<open>handle_generate_request\<close>, which checks its length, may attach it to a session and may put it
  aside until its grammar is compiled; then it waits in \<open>waiting_queue\<close>. Every round of the event
  loop chooses a batch. \<open>get_new_batch_prefill\<close> orders the queue by a policy, lets a
  \<open>PrefillAdder\<close> admit requests while its token budget lasts, and builds an extend batch from
  them; otherwise \<open>update_running_batch\<close> drops the finished requests, retracts some when memory is
  short, and prepares the next decode step. The KV cache is a pool of slots with a free list;
  the slots of finished requests move into a radix tree that later requests with the same prefix
  share. Running requests lock the tree nodes they use; the allocation methods of the batch evict
  unlocked leaves when the free list is too short. After the forward pass \<open>process_batch_result\<close>
  appends the sampled tokens, finishes requests and gives their slots to the cache, and
  \<open>stream_output\<close> sends the new tokens to the detokenizer, which turns them into text. Beside this
  stand the load balancer for expert parallelism, the lock that serialises weight updates, and the
  parser that separates reasoning from the answer.

  \<^bold>\<open>Theories and the code they model.\<close> Each operation is a definition with the name of the
  function or method it translates, sometimes with a prefix for its class.

  \<^item> \<open>Prelude\<close>: token, slot and exception types, Python's slices and index errors, and the list,
    association-list and multiset lemmas every component uses.
  \<^item> \<open>Mem_Pool\<close> models \<open>mem_cache/memory_pool.py\<close>: \<open>ReqToTokenPool\<close> (record \<open>req_to_token_pool\<close>, a
    table of rows with a free list) and \<open>TokenToKVPoolAllocator\<close>. \<open>Paged_Alloc\<close> and \<open>Paged_Props\<close>
    model \<open>mem_cache/paged_allocator.py\<close>: the two Triton kernels, as functions from the program id
    to the stores they make, with the packed 64-bit return value at its width, and every method of
    \<open>PagedTokenToKVPoolAllocator\<close>.
  \<^item> \<open>Heapq\<close> models \<open>heapify\<close> and \<open>heappop\<close> of Python's standard library, on which eviction rests.
  \<^item> \<open>Radix_Tree\<close> models the nodes and loops of \<open>mem_cache/radix_cache.py\<close>. The heap of node objects
    is a store from node ids to records, so parent and child references, sharing and deletion are
    those of the code. \<open>Radix_Inv\<close>, \<open>Radix_Store\<close>, \<open>Radix_Loops\<close> and \<open>Radix_Walk\<close> prove the tree
    invariant of each structural update and each loop; \<open>Radix_Spec\<close> gives the abstraction that a
    client sees (a finite map from page-aligned prefixes to slots, the locked nodes);
    \<open>Radix_Lock\<close>, \<open>Radix_Evict\<close> and \<open>Radix_Req\<close> add reference counts, eviction with the KV events,
    and the two methods that hand over a request's slots; \<open>Radix_Props\<close> states the results.
  \<^item> \<open>Prefix_Cache\<close> models \<open>mem_cache/chunk_cache.py\<close> and the interface of
    \<open>mem_cache/base_prefix_cache.py\<close>.
  \<^item> \<open>Sampling\<close> models \<open>sampling/sampling_params.py\<close>; \<open>Penalty\<close> and \<open>Sampling_Batch\<close> model
    \<open>sampling/penaltylib\<close> and \<open>sampling/sampling_batch_info.py\<close>.
  \<^item> \<open>Req\<close>, \<open>Batch_Alloc\<close>, \<open>Schedule_Batch\<close>, \<open>Batch_Rows\<close> and \<open>Batch_Ops\<close> model
    \<open>managers/schedule_batch.py\<close>: the request, the allocation of slots with eviction, the batch and
    its operations, what they do to the rows of the request table, and the alignment of the batch's
    parallel lists.
  \<^item> \<open>Schedule_Policy\<close> and \<open>Prefill_Adder\<close> model \<open>managers/schedule_policy.py\<close>.
  \<^item> \<open>Scheduler\<close> models \<open>managers/scheduler.py\<close> and \<open>managers/scheduler_output_processor_mixin.py\<close>;
    \<open>Scheduler_Decode\<close>, \<open>Scheduler_Admit\<close>, \<open>Scheduler_Idle\<close> and \<open>Scheduler_Result\<close> prove what its
    decode step, its admission, an idle server and its result processing guarantee.
  \<^item> \<open>Session\<close> models \<open>managers/session_controller.py\<close>. \<open>Intake\<close> models the request handlers and the
    grammar queue of \<open>managers/scheduler.py\<close>, \<open>managers/utils.py\<close>, the limits of
    \<open>managers/tp_worker.py\<close>, the messages of \<open>managers/io_struct.py\<close> and the cache of
    \<open>constrained/base_grammar_backend.py\<close>; \<open>Intake_Spec\<close> and \<open>Intake_Faults\<close> state what it
    guarantees to the scheduler, and where it does not.
  \<^item> \<open>EPLB\<close> and \<open>EPLB_Props\<close> model \<open>managers/eplb_algorithms/deepseek.py\<close>; \<open>RWLock\<close> models
    \<open>aio_rwlock.py\<close>; \<open>Reasoning\<close> models \<open>reasoning_parser.py\<close>.
  \<^item> \<open>Streaming\<close>, \<open>Streaming_Step\<close> and \<open>Streaming_Props\<close> model \<open>stream_output_generation\<close> of
    \<open>managers/scheduler_output_processor_mixin.py\<close> and \<open>managers/detokenizer_manager.py\<close>. \<open>Py_Text\<close>
    holds the string search that they share with the reasoning parser.
  \<^item> \<open>Io_Struct\<close> and \<open>Io_Struct_Props\<close> model the messages of clients in \<open>managers/io_struct.py\<close>: the
    normalisation of a batch of prompts and its arguments.
\<close>

text \<open>
  \<^bold>\<open>How the code is represented.\<close>

  \<^item> Objects are records and operations return the updated record. A scheduler state carries the
    radix cache, which carries both pools, as the objects reference each other in the code. Requests
    are values; where the code shares one \<open>Req\<close> object between a batch and the queue or the chunked
    request, the definitions write the update back to each holder (\<open>sync_req\<close>).
  \<^item> A raise is \<open>Inl e\<close> of the type \<open>result\<close>, with one constructor per exception the code raises or
    lets escape. \<open>None\<close> of a \<open>partial_function (option)\<close> is a loop that does not return; every
    result about such a loop shows that it returns, on the states where the invariant holds. Inside
    a cache operation a failed assertion or lookup is \<open>None\<close> as well, and the results exclude it in
    the same way. There is no fuel anywhere: the remaining recursions end by structure or by a measure.
  \<^item> Python integers are \<open>int\<close> or, where the code keeps them non-negative, \<open>nat\<close>; the 64-bit return
    value of the paged allocation kernel is a \<open>64 word\<close>, and its result states the bound up to which
    packing loses nothing. Floating-point numbers (penalties, ratios, loads, logits) are rationals
    or reals without rounding. Python strings of the reasoning parser are lists of characters with
    codes below 256, its white space those of this range; text in the detokenizer is a list of code
    points.
  \<^item> Code outside the repository, and choices the code leaves to it, are parameters: the tokenizer's
    encoding and decoding, the compilation and copying of grammars, the expansion of multimodal
    tokens, the hash of a page for KV events, the permutation of the random policy, the tokens the
    forward pass samples, the generator of request ids, and which maximum or which order among equal
    loads a tensor operation picks. Hypotheses about them are stated with the results and hold in their witnesses.
  \<^item> A batch operation on tensors is a list operation per row; Triton kernels are one function of
    the program id, run for every program of the grid.

  \<^bold>\<open>Interfaces.\<close> Four locales state what one component relies on of another.
  \<open>unit_allocator\<close> (\<open>Mem_Pool\<close>) is the contract of an allocator of slots or pages: from a fresh
  pool, held and free units partition the pool after any allocations and frees. It is interpreted
  for the token allocator (\<open>tka\<close>) and the paged allocator (\<open>pka\<close>). \<open>heap_queue\<close> (\<open>Heapq\<close>) is the
  contract of the priority queue that eviction uses; \<open>hq\<close> interprets it for the heap operations.
  \<open>batched_penalizer\<close> (\<open>Penalty\<close>) is the abstract base class of the penalizers: filtering, merging
  and cumulating keep each row the state of its request; \<open>fqp\<close>, \<open>prp\<close> and \<open>mnp\<close> interpret it for
  the three penalizers. \<open>request_cache\<close> (\<open>Prefix_Cache\<close>) is what the scheduler relies on when it
  hands finished requests to the cache: slots move from owned to unused, exactly once; \<open>rdx\<close>
  and \<open>chk\<close> interpret it for the radix cache and the chunk cache.

  \<^bold>\<open>What is shown.\<close>

  \<^item> \<open>Allocators\<close>: no slot is handed out twice or lost; the kernels agree with their reference loops,
    and the slots of an extension lie at the token's offset within the request's pages.
  \<^item> \<open>Radix cache\<close>: in every reachable state the invariant holds and no operation gets stuck; a match
    is the longest cached prefix, an insert adds exactly the missing pages, eviction implements
    least-recently-used removal of unlocked leaves, frees what it promises and keeps locked
    prefixes; finishing or chunking a request conserves slots and moves its lock.
  \<^item> \<open>Batches\<close>: allocation succeeds exactly when free and evictable slots suffice; every per-request
    list stays aligned through extend, decode, filter, merge and mix; rows of the request table
    hold prefix and new slots; retraction ends, frees memory and keeps a request.
  \<^item> \<open>Sampling\<close>: after any history, each row of logits is changed by the penalties of that row's
    request, also in the precomputed form for the overlapped scheduler; penalizers that are rebuilt
    after a retraction forget.
  \<^item> \<open>Scheduler\<close>: neither the prefill nor the decode side raises the out-of-memory error; admission
    respects the pool and the chunk budget, ordering loses no request, results are taken in without
    losing slots, a drained server passes its own memory check, and an idle server starts the first
    of the requests that the intake accepted.
  \<^item> \<open>Intake and sessions\<close>: an accepted request fits; three paths through the intake stop the
    scheduler; a request that continues a session always raises.
  \<^item> \<open>Load balancer\<close>: the maps between logical and physical experts are inverse to each other, and
    the greedy replication is optimal. \<open>Lock\<close>: exclusion and no forgotten waiter under every
    interleaving. \<open>Reasoning parser\<close>: streaming agrees with one-time parsing when the end tag arrives
    in one chunk, and loses it otherwise.
  \<^item> \<open>Messages\<close>: the requests that a normalised batch is split into are those the client asked for.
  \<^item> \<open>Output\<close>: over any interleaving of generation and streaming the client's text is a prefix of the
    decoded output, and complete at the end; the tokenizer must decode incrementally
    (\<open>incremental_decoder\<close>), and the text must not contain Chinese characters, because the rule for
    these may send text twice.
\<close>

text \<open>
  \<^bold>\<open>Not modelled.\<close> Models, layers, attention back ends, the model runner and weight loading are
  tensor computation on the device: the forward pass is a parameter. Entry points, the HTTP
  protocol adapters, server arguments, the tokenizer process, metrics and
  profiling are input and output. Distribution, disaggregation, data-parallel attention and pipeline
  stages exchange messages between processes; the scheduler here is one process, and the other
  ranks appear only as the numbers they contribute to the grammar queue. The hierarchical cache
  (\<open>mem_cache/hiradix_cache.py\<close>), the tensors of the KV cache and the host pools, speculative
  decoding, multimodal and encoder-decoder attributes, log probabilities and the overlapped event
  loop are left out of the scheduler and the batch; of the overlap only the precomputed penalties
  are covered. The vectorised load balancer \<open>deepseek_vec.py\<close>, the grammar back ends and the frontend
  language are not covered. Pretty printers are omitted throughout.
\<close>

end
